(* ===== verification/Scone_Prelude.thy ===== *)
theory Scone_Prelude
  imports
    Main
    "HOL-Library.Word"
    "HOL-Library.Finite_Map"
    "HOL-Library.FSet"
    "HOL-Library.Monad_Syntax"
begin

text \<open>
  Shared vocabulary of the development.

  \<^item> Machine integers: \<^verbatim>\<open>u8\<close>, \<^verbatim>\<open>u16\<close>, \<^verbatim>\<open>u32\<close> and \<^verbatim>\<open>u64\<close> are words of that width;
    \<^verbatim>\<open>usize\<close> counters and lengths are natural numbers.
  \<^item> A Rust \<^verbatim>\<open>[u8; 32]\<close> is a 256-bit word and a \<^verbatim>\<open>[u8; 64]\<close> a 512-bit word, read most
    significant byte first: the derived \<^verbatim>\<open>Ord\<close> of a byte array (lexicographic) is then the
    numeric order of the word, and \<open>h32_bytes\<close>/\<open>h32_of_bytes\<close> convert to and from bytes.
  \<^item> \<^verbatim>\<open>HashMap\<close> and \<^verbatim>\<open>BTreeMap\<close> are finite maps (\<open>fmap\<close>), \<^verbatim>\<open>HashSet\<close> and \<^verbatim>\<open>BTreeSet\<close>
    finite sets (\<open>fset\<close>); ordered iteration is \<open>sorted_list_of_fset\<close>.
  \<^item> \<^verbatim>\<open>Result<T, E>\<close> is \<open>'e + 'a\<close> (\<open>Inl\<close> the error); a panic is the value \<open>None\<close> of an
    enclosing \<open>option\<close>.
\<close>

unbundle bit_operations_syntax

type_synonym u8 = "8 word"
type_synonym u16 = "16 word"
type_synonym u32 = "32 word"
type_synonym u64 = "64 word"
type_synonym bytes = "u8 list"
type_synonym hash32 = "256 word"
type_synonym sig64 = "512 word"

named_theorems byte_simps \<open>lengths and round trips of byte encodings\<close>

section \<open>Byte encodings of words\<close>

fun le_bytes :: "nat \<Rightarrow> 'a::len word \<Rightarrow> bytes" where
  "le_bytes 0 w = []"
| "le_bytes (Suc n) w = ucast w # le_bytes n (drop_bit 8 w)"

fun from_le_bytes :: "bytes \<Rightarrow> 'a::len word" where
  "from_le_bytes [] = 0"
| "from_le_bytes (b # bs) = ucast b OR push_bit 8 (from_le_bytes bs)"

definition be_bytes :: "nat \<Rightarrow> 'a::len word \<Rightarrow> bytes" where
  "be_bytes n w = rev (le_bytes n w)"

definition from_be_bytes :: "bytes \<Rightarrow> 'a::len word" where
  "from_be_bytes bs = from_le_bytes (rev bs)"

abbreviation u32_le :: "u32 \<Rightarrow> bytes" where "u32_le \<equiv> le_bytes 4"
abbreviation u64_le :: "u64 \<Rightarrow> bytes" where "u64_le \<equiv> le_bytes 8"
abbreviation u64_be :: "u64 \<Rightarrow> bytes" where "u64_be \<equiv> be_bytes 8"
abbreviation h32_bytes :: "hash32 \<Rightarrow> bytes" where "h32_bytes \<equiv> be_bytes 32"
abbreviation h32_of_bytes :: "bytes \<Rightarrow> hash32" where "h32_of_bytes \<equiv> from_be_bytes"
abbreviation s64_bytes :: "sig64 \<Rightarrow> bytes" where "s64_bytes \<equiv> be_bytes 64"
abbreviation s64_of_bytes :: "bytes \<Rightarrow> sig64" where "s64_of_bytes \<equiv> from_be_bytes"

lemma length_le_bytes [simp, byte_simps]: "length (le_bytes n w) = n"
  by (induction n arbitrary: w) auto

lemma length_be_bytes [simp, byte_simps]: "length (be_bytes n w) = n"
  by (simp add: be_bytes_def)

lemma from_le_le_bytes_take:
  "from_le_bytes (le_bytes n (w :: 'a::len word)) = (take_bit (8 * n) w :: 'a word)"
proof (induction n arbitrary: w)
  case 0
  then show ?case by simp
next
  case (Suc n)
  show ?case
    by (rule bit_word_eqI)
      (auto simp: Suc bit_simps bit_or_iff bit_push_bit_iff bit_take_bit_iff bit_drop_bit_eq not_less)
qed

lemma from_le_le_bytes [byte_simps]:
  "LENGTH('a) \<le> 8 * n \<Longrightarrow> from_le_bytes (le_bytes n (w :: 'a::len word)) = w"
  by (simp add: from_le_le_bytes_take take_bit_word_eq_self)

lemma from_be_be_bytes [byte_simps]:
  "LENGTH('a) \<le> 8 * n \<Longrightarrow> from_be_bytes (be_bytes n (w :: 'a::len word)) = w"
  by (simp add: from_be_bytes_def be_bytes_def from_le_le_bytes)

lemma le_bytes_take_bit:
  "8 * n \<le> m \<Longrightarrow> le_bytes n (take_bit m w) = le_bytes n w"
proof (induction n arbitrary: m w)
  case 0
  then show ?case by simp
next
  case (Suc n)
  have "(ucast (take_bit m w) :: u8) = ucast w"
    using Suc.prems by (intro bit_word_eqI) (auto simp: bit_simps)
  moreover have "drop_bit 8 (take_bit m w) = take_bit (m - 8) (drop_bit 8 w)"
    using Suc.prems by (simp add: drop_bit_take_bit)
  ultimately show ?case using Suc by simp
qed

lemma le_from_le_bytes [byte_simps]:
  "8 * length bs \<le> LENGTH('a) \<Longrightarrow> le_bytes (length bs) (from_le_bytes bs :: 'a::len word) = bs"
proof (induction bs)
  case Nil
  then show ?case by simp
next
  case (Cons b bs)
  have len: "8 \<le> LENGTH('a)" using Cons.prems by simp
  have "(ucast (ucast b OR push_bit 8 (from_le_bytes bs) :: 'a word) :: u8) = b"
    using len by (intro bit_word_eqI) (auto simp: bit_simps)
  moreover have "(drop_bit 8 (ucast b OR push_bit 8 (from_le_bytes bs)) :: 'a word)
      = take_bit (LENGTH('a) - 8) (from_le_bytes bs)"
    using len by (intro bit_word_eqI) (auto simp: bit_simps dest: bit_imp_le_length)
  ultimately show ?case using Cons by (simp add: le_bytes_take_bit)
qed

lemma be_from_be_bytes [byte_simps]:
  "8 * length bs \<le> LENGTH('a) \<Longrightarrow> be_bytes (length bs) (from_be_bytes bs :: 'a::len word) = bs"
  using le_from_le_bytes [of "rev bs", where 'a = 'a]
  by (simp add: be_bytes_def from_be_bytes_def)

lemma le_bytes_inject [byte_simps]:
  "LENGTH('a) \<le> 8 * n \<Longrightarrow> le_bytes n (v :: 'a::len word) = le_bytes n w \<longleftrightarrow> v = w"
  by (metis from_le_le_bytes)

lemma be_bytes_inject [byte_simps]:
  "LENGTH('a) \<le> 8 * n \<Longrightarrow> be_bytes n (v :: 'a::len word) = be_bytes n w \<longleftrightarrow> v = w"
  by (metis from_be_be_bytes)

section \<open>Strings as UTF-8 bytes\<close>

text \<open>A Rust string is modelled by its UTF-8 bytes, one \<open>char\<close> per byte.\<close>

definition str_bytes :: "string \<Rightarrow> bytes" where
  "str_bytes s = map of_char s"

lemma length_str_bytes [simp, byte_simps]: "length (str_bytes s) = length s"
  by (simp add: str_bytes_def)

lemma unat_of_char_u8: "unat (of_char c :: u8) = of_char c"
proof -
  have "(of_char c :: nat) mod 256 = of_char c" by simp
  then have "unat (of_nat (of_char c) :: u8) = of_char c" by (simp add: unat_of_nat)
  then show ?thesis by (simp add: of_nat_of_char)
qed

lemma of_char_u8_inject [simp]: "(of_char c :: u8) = of_char d \<longleftrightarrow> c = d"
  by (metis of_char_eq_iff unat_of_char_u8)

lemma str_bytes_inject [simp]: "str_bytes s = str_bytes t \<longleftrightarrow> s = t"
  by (simp add: str_bytes_def inj_map_eq_map inj_def)

lemma str_bytes_append [simp]: "str_bytes (s @ t) = str_bytes s @ str_bytes t"
  by (simp add: str_bytes_def)

section \<open>Binary search on slices\<close>

text \<open>
  \<^verbatim>\<open>slice::binary_search\<close> of the standard library: \<open>Inr pos\<close> where the value is found,
  \<open>Inl pos\<close> with the insertion point where it is not.
\<close>

function bsearch_loop :: "'a::linorder list \<Rightarrow> 'a \<Rightarrow> nat \<Rightarrow> nat \<Rightarrow> nat + nat" where
  "bsearch_loop xs x lo hi =
     (if lo < hi then
        let mid = (lo + hi) div 2 in
        if xs ! mid = x then Inr mid
        else if xs ! mid < x then bsearch_loop xs x (Suc mid) hi
        else bsearch_loop xs x lo mid
      else Inl lo)"
  by pat_completeness auto
termination
  by (relation "measure (\<lambda>(xs, x, lo, hi). hi - lo)") auto

declare bsearch_loop.simps [simp del]

definition binary_search :: "'a::linorder list \<Rightarrow> 'a \<Rightarrow> nat + nat" where
  "binary_search xs x = bsearch_loop xs x 0 (length xs)"

lemma bsearch_loop_found:
  "bsearch_loop xs x lo hi = Inr i \<Longrightarrow> hi \<le> length xs \<Longrightarrow> i < length xs \<and> xs ! i = x"
proof (induction xs x lo hi rule: bsearch_loop.induct)
  case (1 xs x lo hi)
  then show ?case
    by (subst (asm) (3) bsearch_loop.simps) (auto simp: Let_def split: if_splits)
qed

lemma bsearch_loop_missing:
  assumes "bsearch_loop xs x lo hi = Inl i" "sorted_wrt (<) xs" "lo \<le> hi" "hi \<le> length xs"
    "\<forall>j<lo. xs ! j < x" "\<forall>j. hi \<le> j \<and> j < length xs \<longrightarrow> x < xs ! j"
  shows "i \<le> length xs \<and> (\<forall>j<i. xs ! j < x) \<and> (\<forall>j. i \<le> j \<and> j < length xs \<longrightarrow> x < xs ! j)"
  using assms
proof (induction xs x lo hi rule: bsearch_loop.induct)
  case (1 xs x lo hi)
  define mid where "mid = (lo + hi) div 2"
  have sorted: "xs ! a < xs ! b" if "a < b" "b < length xs" for a b
    using "1.prems"(2) that by (simp add: sorted_wrt_nth_less)
  show ?case
  proof (cases "lo < hi")
    case False
    then have "bsearch_loop xs x lo hi = Inl lo" by (simp add: bsearch_loop.simps [of xs x lo hi])
    then show ?thesis using "1.prems" False by auto
  next
    case lt: True
    then have mid: "lo \<le> mid" "mid < hi" by (auto simp: mid_def)
    have eq: "bsearch_loop xs x lo hi =
        (if xs ! mid = x then Inr mid
         else if xs ! mid < x then bsearch_loop xs x (Suc mid) hi else bsearch_loop xs x lo mid)"
      using lt by (subst bsearch_loop.simps) (simp add: mid_def Let_def)
    consider "xs ! mid = x" | "xs ! mid < x" | "x < xs ! mid" by (rule linorder_cases) auto
    then show ?thesis
    proof cases
      case 1
      then show ?thesis using "1.prems"(1) eq by simp
    next
      case 2
      have "\<forall>j<Suc mid. xs ! j < x"
      proof (intro allI impI)
        fix j assume "j < Suc mid"
        then show "xs ! j < x" using 2 sorted [of j mid] mid "1.prems"(4) by (cases "mid = j") auto
      qed
      moreover have "bsearch_loop xs x (Suc mid) hi = Inl i" using 2 eq "1.prems"(1) by auto
      moreover have "xs ! mid \<noteq> x" "Suc mid \<le> hi" using 2 mid by auto
      ultimately show ?thesis
        using "1.IH"(1) [OF lt mid_def] 2 "1.prems"(2,4,6) by blast
    next
      case 3
      have "\<forall>j. mid \<le> j \<and> j < length xs \<longrightarrow> x < xs ! j"
      proof (intro allI impI)
        fix j assume "mid \<le> j \<and> j < length xs"
        then show "x < xs ! j" using 3 sorted [of mid j] by (cases "mid = j") auto
      qed
      moreover have "bsearch_loop xs x lo mid = Inl i" using 3 eq "1.prems"(1) by auto
      moreover have "xs ! mid \<noteq> x" "\<not> xs ! mid < x" "mid \<le> length xs"
        using 3 mid "1.prems"(4) by auto
      ultimately show ?thesis
        using "1.IH"(2) [OF lt mid_def] "1.prems"(2,5) mid(1) by blast
    qed
  qed
qed

lemma binary_search_found:
  "binary_search xs x = Inr i \<Longrightarrow> i < length xs \<and> xs ! i = x"
  unfolding binary_search_def by (drule bsearch_loop_found) auto

lemma binary_search_missing:
  "binary_search xs x = Inl i \<Longrightarrow> sorted_wrt (<) xs \<Longrightarrow>
     i \<le> length xs \<and> (\<forall>j<i. xs ! j < x) \<and> (\<forall>j. i \<le> j \<and> j < length xs \<longrightarrow> x < xs ! j)"
  unfolding binary_search_def by (drule bsearch_loop_missing) auto

lemma binary_search_mem:
  assumes "sorted_wrt (<) xs"
  shows "(\<exists>i. binary_search xs x = Inr i) \<longleftrightarrow> x \<in> set xs"
proof (cases "binary_search xs x")
  case (Inl i)
  have "x \<notin> set xs"
  proof
    assume "x \<in> set xs"
    then obtain j where "j < length xs" "xs ! j = x" by (auto simp: in_set_conv_nth)
    then show False
      using binary_search_missing [OF Inl assms] by (cases "j < i") (auto simp: not_less)
  qed
  then show ?thesis using Inl by simp
next
  case (Inr i)
  then show ?thesis using binary_search_found [OF Inr] by auto
qed

text \<open>Inserting at the returned position, removing at it: both keep the vector strictly sorted.\<close>

definition vec_insert :: "nat \<Rightarrow> 'a \<Rightarrow> 'a list \<Rightarrow> 'a list" where
  "vec_insert i x xs = take i xs @ x # drop i xs"

definition vec_remove :: "nat \<Rightarrow> 'a list \<Rightarrow> 'a list" where
  "vec_remove i xs = take i xs @ drop (Suc i) xs"

lemma set_vec_insert [simp]: "set (vec_insert i x xs) = insert x (set xs)"
proof -
  have "set (take i xs) \<union> set (drop i xs) = set xs"
    by (metis append_take_drop_id set_append)
  then show ?thesis by (auto simp: vec_insert_def)
qed

lemma length_vec_insert [simp]: "length (vec_insert i x xs) = Suc (length xs)"
  by (simp add: vec_insert_def)

lemma length_vec_remove [simp]: "i < length xs \<Longrightarrow> length (vec_remove i xs) = length xs - 1"
  by (simp add: vec_remove_def)

lemma sorted_vec_insert:
  assumes "binary_search xs x = Inl i" "sorted_wrt (<) xs"
  shows "sorted_wrt (<) (vec_insert i x xs)"
proof -
  note m = binary_search_missing [OF assms]
  have "\<forall>a \<in> set (take i xs). a < x" using m by (auto simp: in_set_conv_nth)
  moreover have "\<forall>b \<in> set (drop i xs). x < b" using m by (auto simp: in_set_conv_nth)
  ultimately show ?thesis using assms(2)
    by (auto simp: vec_insert_def sorted_wrt_append sorted_wrt_take sorted_wrt_drop intro: less_trans)
qed

lemma vec_remove_split:
  "i < length xs \<Longrightarrow> xs = take i xs @ xs ! i # drop (Suc i) xs"
  by (simp add: id_take_nth_drop)

lemma sorted_vec_remove:
  fixes xs :: "'a::linorder list"
  assumes "sorted_wrt (<) xs" "i < length xs"
  shows "sorted_wrt (<) (vec_remove i xs)" "set (vec_remove i xs) = set xs - {xs ! i}"
proof -
  define as b cs where "as = take i xs" "b = xs ! i" "cs = drop (Suc i) xs"
  have xs: "xs = as @ b # cs" using vec_remove_split [OF assms(2)] by (simp add: as_b_cs_def)
  have r: "vec_remove i xs = as @ cs" by (simp add: vec_remove_def as_b_cs_def)
  have s: "sorted_wrt (<) (as @ b # cs)" using assms(1) xs by simp
  show "sorted_wrt (<) (vec_remove i xs)" using s r by (auto simp: sorted_wrt_append)
  have "b \<notin> set as \<and> b \<notin> set cs" 
    using s unfolding strict_sorted_iff by (auto simp: sorted_wrt_append)
  then have "set (as @ cs) = set (as @ b # cs) - {b}" by auto
  then show "set (vec_remove i xs) = set xs - {xs ! i}" using r xs
    by (metis as_b_cs_def(2))
qed

lemma strict_sorted_unique:
  "sorted_wrt (<) (xs :: 'a::linorder list) \<Longrightarrow> sorted_wrt (<) ys \<Longrightarrow> set xs = set ys \<Longrightarrow> xs = ys"
  by (metis sorted_list_of_set.idem_if_sorted_distinct strict_sorted_iff)

end
