(* ===== verification/Scone_Crypto.thy ===== *)
theory Scone_Crypto
  imports Scone_Prelude
begin

text \<open>
  The primitives of \<^verbatim>\<open>crates/scone-crypto\<close>. BLAKE3 and Ed25519 are third-party code: they are
  the fields of a record \<open>crypto\<close> that every definition using them takes as its first
  argument. \<open>blake3\<close> is the 32-byte digest of a byte string, \<open>ed_key_ok\<close> the success of
  \<^verbatim>\<open>VerifyingKey::from_bytes\<close>, \<open>ed_verify_strict\<close> the success of \<^verbatim>\<open>verify_strict\<close> for a
  decoded key. Nothing is assumed of them here; theorems that need a property of the hash
  state it as a hypothesis.
\<close>

record crypto =
  blake3 :: "bytes \<Rightarrow> hash32"
  ed_key_ok :: "hash32 \<Rightarrow> bool"
  ed_verify_strict :: "hash32 \<Rightarrow> bytes \<Rightarrow> sig64 \<Rightarrow> bool"

type_synonym public_key = hash32
type_synonym signature = sig64

definition hash256 :: "crypto \<Rightarrow> bytes list \<Rightarrow> hash32" where
  "hash256 cr parts = blake3 cr (concat parts)"

definition public_key_from_bytes :: "crypto \<Rightarrow> hash32 \<Rightarrow> public_key option" where
  "public_key_from_bytes cr bs = (if ed_key_ok cr bs then Some bs else None)"

definition pk_verify :: "crypto \<Rightarrow> public_key \<Rightarrow> bytes \<Rightarrow> signature \<Rightarrow> bool" where
  "pk_verify cr pk payload sig = (ed_key_ok cr pk \<and> ed_verify_strict cr pk payload sig)"

text \<open>\<open>hash256\<close> only sees the concatenation of its parts.\<close>

lemma hash256_concat: "concat xs = concat ys \<Longrightarrow> hash256 cr xs = hash256 cr ys"
  by (simp add: hash256_def)

text \<open>
  A concrete instance for closed examples: every digest is zero, every key is accepted and a
  signature verifies exactly when it is the number 1.
\<close>

definition toy_crypto :: crypto where
  "toy_crypto = \<lparr>blake3 = (\<lambda>_. 0), ed_key_ok = (\<lambda>_. True),
     ed_verify_strict = (\<lambda>_ _ s. s = 1)\<rparr>"

lemma toy_crypto_simps [simp]:
  "blake3 toy_crypto bs = 0" "ed_key_ok toy_crypto pk"
  "ed_verify_strict toy_crypto pk bs s \<longleftrightarrow> s = 1"
  by (simp_all add: toy_crypto_def)

end
