(* ===== verification/Scone_Smt.thy ===== *)
theory Scone_Smt
  imports Scone_Crypto
begin

text \<open>
  The compact sparse Merkle tree of \<^verbatim>\<open>crates/scone-blockchain/src/smt.rs\<close>: the packed child
  slots, the arena of branch nodes, and \<^verbatim>\<open>insert\<close>/\<^verbatim>\<open>remove\<close> with the incremental rehash of the
  path. Depths (0 to 40, \<^verbatim>\<open>u64\<close> in the source) are natural numbers; keys, packed paths and
  slots keep their 64 bits. An index into \<^verbatim>\<open>nodes\<close> that is absent, an \<^verbatim>\<open>expect\<close> that fails,
  the \<^verbatim>\<open>unreachable!\<close> and a descent that never ends are the value \<open>None\<close>; the theory
  \<^verbatim>\<open>Scone_Smt_Canon\<close> shows that no reachable tree takes them.
\<close>

section \<open>Packed slots and paths\<close>

definition SMT_NODE_TAG :: bytes where "SMT_NODE_TAG = str_bytes ''SCONE-SMT-NODE''"
definition SMT_EMPTY_LEAF_TAG :: bytes where
  "SMT_EMPTY_LEAF_TAG = str_bytes ''SCONE-SMT-LEAF-EMPTY''"

abbreviation D :: nat where "D \<equiv> 40"

definition EMPTY :: u64 where "EMPTY = 0"
definition CHAIN_BIT :: u64 where "CHAIN_BIT = push_bit 63 1"
definition NODE_BIT :: u64 where "NODE_BIT = push_bit 62 1"
definition TAG_MASK :: u64 where "TAG_MASK = CHAIN_BIT OR NODE_BIT"

definition chain :: "u64 \<Rightarrow> u64" where "chain key = CHAIN_BIT OR key"
definition is_chain :: "u64 \<Rightarrow> bool" where "is_chain c \<longleftrightarrow> c AND CHAIN_BIT \<noteq> 0"
definition chain_key :: "u64 \<Rightarrow> u64" where "chain_key c = c AND NOT TAG_MASK"
definition node_ref :: "u64 \<Rightarrow> u64" where "node_ref packed = NODE_BIT OR packed"
definition is_node :: "u64 \<Rightarrow> bool" where "is_node c \<longleftrightarrow> c AND NODE_BIT \<noteq> 0"
definition node_packed :: "u64 \<Rightarrow> u64" where "node_packed c = c AND NOT TAG_MASK"

definition pack :: "nat \<Rightarrow> u64 \<Rightarrow> u64" where
  "pack depth path = push_bit 40 (of_nat depth) OR path"

definition unpack :: "u64 \<Rightarrow> nat \<times> u64" where
  "unpack p = (unat (drop_bit 40 p), p AND (push_bit 40 1 - 1))"

text \<open>\<^verbatim>\<open>u64::leading_zeros\<close>, counted from the top bit down.\<close>

fun clz_from :: "nat \<Rightarrow> u64 \<Rightarrow> nat" where
  "clz_from 0 x = 0"
| "clz_from (Suc n) x = (if bit x n then 0 else Suc (clz_from n x))"

definition leading_zeros64 :: "u64 \<Rightarrow> nat" where "leading_zeros64 x = clz_from 64 x"

definition divergence_depth :: "u64 \<Rightarrow> u64 \<Rightarrow> nat" where
  "divergence_depth a b = (let x = a XOR b in D - 1 - (63 - leading_zeros64 x))"

record branch_node =
  bn_hash :: hash32
  bn_left :: u64
  bn_right :: u64

datatype slot_ref = SlotRoot | SlotChild (sl_parent: u64) (sl_bit: u64)

section \<open>Hashes\<close>

definition node_hash :: "crypto \<Rightarrow> hash32 \<Rightarrow> hash32 \<Rightarrow> hash32" where
  "node_hash cr l r = hash256 cr [SMT_NODE_TAG, h32_bytes l, h32_bytes r]"

definition empty_leaf :: "crypto \<Rightarrow> hash32" where
  "empty_leaf cr = hash256 cr [SMT_EMPTY_LEAF_TAG]"

text \<open>One level of the bucket tree: an odd level duplicates its last hash.\<close>

fun bucket_level :: "crypto \<Rightarrow> hash32 list \<Rightarrow> hash32 list" where
  "bucket_level cr [] = []"
| "bucket_level cr [x] = [hash256 cr [h32_bytes x, h32_bytes x]]"
| "bucket_level cr (x # y # xs) = hash256 cr [h32_bytes x, h32_bytes y] # bucket_level cr xs"

lemma length_bucket_level: "length (bucket_level cr xs) = (length xs + 1) div 2"
  by (induction cr xs rule: bucket_level.induct) auto

function bucket_loop :: "crypto \<Rightarrow> hash32 list \<Rightarrow> hash32 list" where
  "bucket_loop cr level = (if 1 < length level then bucket_loop cr (bucket_level cr level) else level)"
  by pat_completeness auto
termination
  by (relation "measure (\<lambda>(cr, level). length level)") (auto simp: length_bucket_level)

declare bucket_loop.simps [simp del]

definition bucket_merkle_root :: "crypto \<Rightarrow> hash32 list \<Rightarrow> hash32" where
  "bucket_merkle_root cr leaves =
     (case leaves of [] \<Rightarrow> 0 | [x] \<Rightarrow> x | _ \<Rightarrow> hd (bucket_loop cr leaves))"

fun defaults :: "crypto \<Rightarrow> nat \<Rightarrow> hash32" where
  "defaults cr 0 = empty_leaf cr"
| "defaults cr (Suc i) = node_hash cr (defaults cr i) (defaults cr i)"

section \<open>The tree\<close>

record smt =
  sm_leaves :: "(u64, hash32) fmap"
  sm_buckets :: "(u64, hash32 list) fmap"
  sm_nodes :: "(u64, branch_node) fmap"
  root_child :: u64
  root_hash :: "hash32 option"
  dirty_nodes :: "u64 list"
  dirty_leaves :: "u64 list"

definition smt_new :: smt where
  "smt_new = \<lparr>sm_leaves = fmempty, sm_buckets = fmempty, sm_nodes = fmempty, root_child = EMPTY,
     root_hash = None, dirty_nodes = [], dirty_leaves = []\<rparr>"

definition bucket_root :: "crypto \<Rightarrow> smt \<Rightarrow> u64 \<Rightarrow> hash32" where
  "bucket_root cr t key =
     (case fmlookup (sm_buckets t) key of
        Some v \<Rightarrow> bucket_merkle_root cr v
      | None \<Rightarrow> (case fmlookup (sm_leaves t) key of None \<Rightarrow> empty_leaf cr | Some h \<Rightarrow> h))"

text \<open>Bit of a path of \<open>len\<close> bits at depth \<open>d\<close>: \<^verbatim>\<open>(p >> (len - 1 - d)) & 1\<close>.\<close>

definition path_bit :: "nat \<Rightarrow> u64 \<Rightarrow> nat \<Rightarrow> u64" where
  "path_bit len p d = drop_bit (len - 1 - d) p AND 1"

definition combine :: "crypto \<Rightarrow> u64 \<Rightarrow> hash32 \<Rightarrow> hash32 \<Rightarrow> hash32" where
  "combine cr b v sib = (if b = 0 then node_hash cr v sib else node_hash cr sib v)"

text \<open>Folding an implicit chain of depths \<open>lo\<close> to \<open>hi - 1\<close>, bottom up, with default siblings.\<close>

definition fold_chain :: "crypto \<Rightarrow> nat \<Rightarrow> u64 \<Rightarrow> nat \<Rightarrow> nat \<Rightarrow> hash32 \<Rightarrow> hash32" where
  "fold_chain cr len p lo hi v =
     List.fold (\<lambda>d v. combine cr (path_bit len p d) v (defaults cr (D - 1 - d))) (rev [lo..<hi]) v"

definition smt_fold :: "crypto \<Rightarrow> smt \<Rightarrow> u64 \<Rightarrow> nat \<Rightarrow> hash32" where
  "smt_fold cr t k from_depth = fold_chain cr D k from_depth D (bucket_root cr t k)"

definition root_value :: "crypto \<Rightarrow> smt \<Rightarrow> hash32 option" where
  "root_value cr t =
     (let repr = root_child t in
      if repr = EMPTY then Some (defaults cr D)
      else if is_chain repr then Some (smt_fold cr t (chain_key repr) 0)
      else let packed = node_packed repr; (d, p) = unpack packed in
        map_option (\<lambda>n. fold_chain cr d p 0 d (bn_hash n)) (fmlookup (sm_nodes t) packed))"

definition child_value :: "crypto \<Rightarrow> smt \<Rightarrow> u64 \<Rightarrow> nat \<Rightarrow> hash32 option" where
  "child_value cr t repr parent_depth =
     (if repr = EMPTY then Some (defaults cr (D - 1 - parent_depth))
      else if is_chain repr then Some (smt_fold cr t (chain_key repr) (parent_depth + 1))
      else let packed = node_packed repr; (d, p) = unpack packed in
        map_option (\<lambda>n. fold_chain cr d p (parent_depth + 1) d (bn_hash n))
          (fmlookup (sm_nodes t) packed))"

partial_function (option) locate_loop ::
  "(u64, branch_node) fmap \<Rightarrow> u64 \<Rightarrow> (u64 \<times> u64) list \<Rightarrow> slot_ref \<Rightarrow> u64
     \<Rightarrow> ((u64 \<times> u64) list \<times> slot_ref \<times> u64) option" where
  "locate_loop nodes key stack slot repr =
     (if is_node repr then
        let packed = node_packed repr; (d, p) = unpack packed in
        if drop_bit (D - d) key = p then
          let b = path_bit D key d in
          case fmlookup nodes packed of
            None \<Rightarrow> None
          | Some n \<Rightarrow> locate_loop nodes key (stack @ [(packed, b)]) (SlotChild packed b)
                        (if b = 0 then bn_left n else bn_right n)
        else Some (stack, slot, repr)
      else Some (stack, slot, repr))"

definition locate_full :: "smt \<Rightarrow> u64 \<Rightarrow> ((u64 \<times> u64) list \<times> slot_ref \<times> u64) option" where
  "locate_full t key = locate_loop (sm_nodes t) key [] SlotRoot (root_child t)"

definition locate :: "smt \<Rightarrow> u64 \<Rightarrow> (slot_ref \<times> u64) option" where
  "locate t key = map_option (\<lambda>(stack, slot, repr). (slot, repr)) (locate_full t key)"

fun write_slot :: "slot_ref \<Rightarrow> u64 \<Rightarrow> smt \<Rightarrow> smt option" where
  "write_slot SlotRoot val t = Some (t\<lparr>root_child := val\<rparr>)"
| "write_slot (SlotChild parent b) val t =
     (case fmlookup (sm_nodes t) parent of
        None \<Rightarrow> None
      | Some n \<Rightarrow> Some (t\<lparr>sm_nodes := fmupd parent
          (if b = 0 then n\<lparr>bn_left := val\<rparr> else n\<lparr>bn_right := val\<rparr>) (sm_nodes t)\<rparr>))"

text \<open>The rehash loop, from depth \<open>v0_depth - 1\<close> up to the root.\<close>

fun recompute_loop :: "crypto \<Rightarrow> u64 \<Rightarrow> nat \<Rightarrow> hash32 \<Rightarrow> smt \<Rightarrow> (smt \<times> hash32) option" where
  "recompute_loop cr key 0 v t = Some (t, v)"
| "recompute_loop cr key (Suc d) v t =
     (let b = path_bit D key d; packed = pack d (drop_bit (D - d) key) in
      case fmlookup (sm_nodes t) packed of
        Some n \<Rightarrow>
          (case child_value cr t (if b = 0 then bn_right n else bn_left n) d of
             None \<Rightarrow> None
           | Some sib_val \<Rightarrow>
               let v' = combine cr b v sib_val in
               recompute_loop cr key d v'
                 (t\<lparr>sm_nodes := fmupd packed (n\<lparr>bn_hash := v'\<rparr>) (sm_nodes t),
                    dirty_nodes := dirty_nodes t @ [packed]\<rparr>))
      | None \<Rightarrow> recompute_loop cr key d (combine cr b v (defaults cr (D - 1 - d))) t)"

definition recompute_from :: "crypto \<Rightarrow> smt \<Rightarrow> u64 \<Rightarrow> hash32 \<Rightarrow> nat \<Rightarrow> smt option" where
  "recompute_from cr t key v0 v0_depth =
     map_option (\<lambda>(t', v). t'\<lparr>root_hash := Some v\<rparr>) (recompute_loop cr key v0_depth v0 t)"

definition recompute :: "crypto \<Rightarrow> smt \<Rightarrow> u64 \<Rightarrow> smt option" where
  "recompute cr t key = recompute_from cr t key (bucket_root cr t key) D"

section \<open>Insertion\<close>

text \<open>The leaf/bucket part of \<^verbatim>\<open>insert\<close>: whether the key's content changed, and the new maps.\<close>

definition insert_leaf :: "smt \<Rightarrow> u64 \<Rightarrow> hash32 \<Rightarrow> bool \<times> smt" where
  "insert_leaf t key leaf =
     (case fmlookup (sm_buckets t) key of
        Some v \<Rightarrow>
          (case binary_search v leaf of
             Inr _ \<Rightarrow> (False, t)
           | Inl pos \<Rightarrow> (True, t\<lparr>sm_buckets := fmupd key (vec_insert pos leaf v) (sm_buckets t)\<rparr>))
      | None \<Rightarrow>
          (case fmlookup (sm_leaves t) key of
             Some h \<Rightarrow>
               if h = leaf then (False, t)
               else (True, t\<lparr>sm_buckets := fmupd key (sort [h, leaf]) (sm_buckets t),
                             sm_leaves := fmdrop key (sm_leaves t)\<rparr>)
           | None \<Rightarrow> (True, t\<lparr>sm_leaves := fmupd key leaf (sm_leaves t)\<rparr>)))"

definition new_branch :: "smt \<Rightarrow> crypto \<Rightarrow> slot_ref \<Rightarrow> u64 \<Rightarrow> u64 \<Rightarrow> u64 \<Rightarrow> smt option" where
  "new_branch t cr slot np l r =
     write_slot slot (node_ref np)
       (t\<lparr>sm_nodes := fmupd np \<lparr>bn_hash = empty_leaf cr, bn_left = l, bn_right = r\<rparr> (sm_nodes t),
          dirty_nodes := dirty_nodes t @ [np]\<rparr>)"

definition insert_struct :: "crypto \<Rightarrow> smt \<Rightarrow> u64 \<Rightarrow> slot_ref \<Rightarrow> u64 \<Rightarrow> smt option" where
  "insert_struct cr t key slot repr =
     (if repr = EMPTY then write_slot slot (chain key) t
      else if is_chain repr then
        let k = chain_key repr in
        if k \<noteq> key then
          let div_d = divergence_depth k key;
              bit_k = path_bit D k div_d;
              np = pack div_d (drop_bit (D - div_d) key);
              (l, r) = (if bit_k = 0 then (chain k, chain key) else (chain key, chain k))
          in new_branch t cr slot np l r
        else Some t
      else
        let (d, p) = unpack (node_packed repr);
            x = drop_bit (D - d) key XOR p;
            b = 63 - leading_zeros64 x;
            div_d = d - 1 - b;
            bit_key = path_bit D key div_d;
            np = pack div_d (drop_bit (D - div_d) key);
            (l, r) = (if bit_key = 0 then (chain key, repr) else (repr, chain key))
        in new_branch t cr slot np l r)"

definition smt_insert :: "crypto \<Rightarrow> smt \<Rightarrow> u64 \<Rightarrow> hash32 \<Rightarrow> smt option" where
  "smt_insert cr t key leaf =
     (let (touched, t1) = insert_leaf t key leaf in
      if \<not> touched then Some t1
      else let t2 = t1\<lparr>dirty_leaves := dirty_leaves t1 @ [key]\<rparr> in
        do { (slot, repr) \<leftarrow> locate t2 key;
             t3 \<leftarrow> insert_struct cr t2 key slot repr;
             recompute cr t3 key })"

section \<open>Removal\<close>

text \<open>The leaf/bucket part of \<^verbatim>\<open>remove\<close>: touched, whether the key was emptied, the new maps.\<close>

definition remove_leaf :: "smt \<Rightarrow> u64 \<Rightarrow> hash32 \<Rightarrow> bool \<times> bool \<times> smt" where
  "remove_leaf t key leaf =
     (case fmlookup (sm_buckets t) key of
        Some v \<Rightarrow>
          (case binary_search v leaf of
             Inr pos \<Rightarrow>
               let v' = vec_remove pos v in
               if length v' = 1 then
                 (True, False, t\<lparr>sm_buckets := fmdrop key (sm_buckets t),
                                 sm_leaves := fmupd key (last v') (sm_leaves t)\<rparr>)
               else (True, False, t\<lparr>sm_buckets := fmupd key v' (sm_buckets t)\<rparr>)
           | Inl _ \<Rightarrow> (False, False, t))
      | None \<Rightarrow>
          if fmlookup (sm_leaves t) key = Some leaf
          then (True, True, t\<lparr>sm_leaves := fmdrop key (sm_leaves t)\<rparr>)
          else (False, False, t))"

text \<open>The walk up the ancestor stack (given deepest first); stops at the first promotion.\<close>

fun collapse_loop :: "(u64 \<times> u64) list \<Rightarrow> u64 \<Rightarrow> (u64, branch_node) fmap
     \<Rightarrow> ((u64, branch_node) fmap \<times> u64) option" where
  "collapse_loop [] promoted nodes = Some (nodes, promoted)"
| "collapse_loop ((parent, b) # rest) promoted nodes =
     (if promoted \<noteq> EMPTY then Some (nodes, promoted)
      else case fmlookup nodes parent of
        None \<Rightarrow> None
      | Some n \<Rightarrow>
          let other = (if b = 0 then bn_right n else bn_left n) in
          if other \<noteq> EMPTY then collapse_loop rest other (fmdrop parent nodes)
          else collapse_loop rest promoted (fmdrop parent nodes))"

definition collapse_key :: "crypto \<Rightarrow> smt \<Rightarrow> u64 \<Rightarrow> smt option" where
  "collapse_key cr t key =
     do { (stack, _, _) \<leftarrow> locate_full t key;
          (nodes', promoted) \<leftarrow> collapse_loop (rev stack) EMPTY (sm_nodes t);
          let t1 = t\<lparr>sm_nodes := nodes'\<rparr>;
          (if promoted \<noteq> EMPTY then
             (case find (\<lambda>(p, _). fmlookup nodes' p \<noteq> None) (rev stack) of
                Some (p, b) \<Rightarrow>
                  do { t2 \<leftarrow> write_slot (SlotChild p b) promoted t1;
                       let d_p = fst (unpack p);
                       v0 \<leftarrow> child_value cr t2 promoted d_p;
                       recompute_from cr t2 key v0 (d_p + 1) }
              | None \<Rightarrow>
                  let t2 = t1\<lparr>root_child := promoted\<rparr> in
                  map_option (\<lambda>v. t2\<lparr>root_hash := Some v\<rparr>) (root_value cr t2))
           else if stack = [] then Some (t1\<lparr>root_child := EMPTY, root_hash := None\<rparr>)
           else None) }"

definition smt_remove :: "crypto \<Rightarrow> smt \<Rightarrow> u64 \<Rightarrow> hash32 \<Rightarrow> smt option" where
  "smt_remove cr t key leaf =
     (let (touched, key_emptied, t1) = remove_leaf t key leaf in
      if \<not> touched then Some t1
      else let t2 = t1\<lparr>dirty_leaves := dirty_leaves t1 @ [key]\<rparr> in
        if key_emptied then collapse_key cr t2 key else recompute cr t2 key)"

section \<open>Accessors and persistence hooks\<close>

definition smt_len :: "smt \<Rightarrow> nat" where
  "smt_len t = fcard (fmdom (sm_leaves t))
     + (\<Sum>k\<in>fset (fmdom (sm_buckets t)). length (the (fmlookup (sm_buckets t) k)))"

definition smt_is_empty :: "smt \<Rightarrow> bool" where
  "smt_is_empty t \<longleftrightarrow> sm_leaves t = fmempty \<and> sm_buckets t = fmempty"

definition smt_root :: "crypto \<Rightarrow> smt \<Rightarrow> hash32" where
  "smt_root cr t = (case root_hash t of Some h \<Rightarrow> h | None \<Rightarrow> defaults cr D)"

definition take_dirty :: "smt \<Rightarrow> (u64 list \<times> u64 list) \<times> smt" where
  "take_dirty t = ((dirty_nodes t, dirty_leaves t), t\<lparr>dirty_nodes := [], dirty_leaves := []\<rparr>)"

text \<open>The indexing \<^verbatim>\<open>v[0]\<close> of an empty bucket panics: the outer \<open>None\<close>.\<close>

definition leaf_entry :: "smt \<Rightarrow> u64 \<Rightarrow> (hash32 \<times> hash32 list option) option option" where
  "leaf_entry t key =
     (case fmlookup (sm_buckets t) key of
        Some v \<Rightarrow> (case v of [] \<Rightarrow> None | x # _ \<Rightarrow> Some (Some (x, Some v)))
      | None \<Rightarrow> Some (map_option (\<lambda>h. (h, None)) (fmlookup (sm_leaves t) key)))"

definition iter_leaf_keys :: "smt \<Rightarrow> u64 fset" where
  "iter_leaf_keys t = fmdom (sm_leaves t) |\<union>| fmdom (sm_buckets t)"

definition root_state :: "smt \<Rightarrow> u64 \<times> hash32 option" where
  "root_state t = (root_child t, root_hash t)"

definition restore_branch_node :: "u64 \<Rightarrow> branch_node \<Rightarrow> smt \<Rightarrow> smt" where
  "restore_branch_node packed n t = t\<lparr>sm_nodes := fmupd packed n (sm_nodes t)\<rparr>"

definition restore_leaf :: "u64 \<Rightarrow> hash32 \<Rightarrow> hash32 list option \<Rightarrow> smt \<Rightarrow> smt" where
  "restore_leaf key h bucket t =
     (case bucket of
        None \<Rightarrow> t\<lparr>sm_leaves := fmupd key h (sm_leaves t)\<rparr>
      | Some v \<Rightarrow> t\<lparr>sm_buckets := fmupd key v (sm_buckets t)\<rparr>)"

definition restore_root :: "u64 \<Rightarrow> hash32 option \<Rightarrow> smt \<Rightarrow> smt" where
  "restore_root rc rh t = t\<lparr>root_child := rc, root_hash := rh\<rparr>"

text \<open>\<^verbatim>\<open>u64::from_be_bytes(id[0..8]) >> 24\<close>: the top 40 bits of the identifier.\<close>

definition smt_key :: "hash32 \<Rightarrow> u64" where
  "smt_key i = drop_bit (64 - D) (from_be_bytes (take 8 (h32_bytes i)))"

text \<open>\<^verbatim>\<open>PartialEq for Smt\<close>: everything but the persistence markers.\<close>

definition smt_eq :: "smt \<Rightarrow> smt \<Rightarrow> bool" where
  "smt_eq s t \<longleftrightarrow> root_child s = root_child t \<and> root_hash s = root_hash t
     \<and> sm_leaves s = sm_leaves t \<and> sm_buckets s = sm_buckets t \<and> sm_nodes s = sm_nodes t"

end
