(* ===== verification/Scone_Smt_Path.thy ===== *)
theory Scone_Smt_Path
  imports Scone_Smt
begin

text \<open>
  The canonical tree of a key set, the ground the correctness of the sparse Merkle tree stands
  on. A position of the full depth-40 tree is written \<open>(m, k)\<close>: the subtree of height \<open>m\<close>
  on the path of the key \<open>k\<close>, that is all keys that agree with \<open>k\<close> on bits \<open>m\<close> and
  above. \<open>cslot\<close> is the slot the compact tree must hold there, \<open>rhash\<close> the hash of the full
  uncompacted subtree. Proved here: what the slot folds to (\<open>slot_value_rhash\<close>), what the
  path rehash computes (\<open>recompute_loop_ok\<close>), where a descent ends (\<open>locate_loop_ok\<close>) and
  how the canonical tree changes when one key is added.
\<close>

section \<open>Bits of slots and paths\<close>

definition k40 :: "u64 \<Rightarrow> bool" where "k40 k \<longleftrightarrow> (\<forall>n. bit k n \<longrightarrow> n < 40)"

lemma bit_push_1: "bit (push_bit m (1::u64)) n \<longleftrightarrow> n = m \<and> m < 64"
  unfolding bit_push_bit_iff bit_1_iff by auto

lemma bit_CHAIN_BIT: "bit CHAIN_BIT n \<longleftrightarrow> n = 63"
  unfolding CHAIN_BIT_def bit_push_1 by simp

lemma bit_NODE_BIT: "bit NODE_BIT n \<longleftrightarrow> n = 62"
  unfolding NODE_BIT_def bit_push_1 by simp

lemma bit_chain: "bit (chain k) n \<longleftrightarrow> n = 63 \<or> bit k n"
  by (auto simp: chain_def bit_or_iff bit_CHAIN_BIT)

lemma bit_node_ref: "bit (node_ref p) n \<longleftrightarrow> n = 62 \<or> bit p n"
  by (auto simp: node_ref_def bit_or_iff bit_NODE_BIT)

lemma u64_eq_0_iff: "(c :: u64) = 0 \<longleftrightarrow> (\<forall>n. \<not> bit c n)"
  by (auto intro: bit_eqI)

lemma is_chain_bit: "is_chain c \<longleftrightarrow> bit c 63"
  by (auto simp: is_chain_def u64_eq_0_iff bit_and_iff bit_CHAIN_BIT)

lemma is_node_bit: "is_node c \<longleftrightarrow> bit c 62"
  by (auto simp: is_node_def u64_eq_0_iff bit_and_iff bit_NODE_BIT)

lemma bit_not_TAG_MASK: "bit (NOT TAG_MASK) n \<longleftrightarrow> n < 62"
  unfolding bit_not_iff TAG_MASK_def bit_or_iff bit_CHAIN_BIT bit_NODE_BIT by auto

lemma bit_pack: "bit (pack d p) n \<longleftrightarrow> (40 \<le> n \<and> n < 64 \<and> bit d (n - 40)) \<or> bit p n"
  by (auto simp: pack_def bit_simps dest: bit_imp_le_length)

lemma chain_simps [simp]:
  "is_chain (chain k)" "chain k \<noteq> EMPTY"
  by (auto simp: is_chain_bit bit_chain EMPTY_def dest: arg_cong [where f = "\<lambda>x. bit x 63"])

lemma chain_k40 [simp]:
  assumes "k40 k"
  shows "\<not> is_node (chain k)" "chain_key (chain k) = k"
proof -
  show "\<not> is_node (chain k)" using assms by (auto simp: is_node_bit bit_chain k40_def)
  show "chain_key (chain k) = k"
    using assms unfolding chain_key_def
    by (intro bit_word_eqI)
      (auto simp: bit_and_iff bit_chain bit_not_TAG_MASK k40_def)
qed

lemma EMPTY_simps [simp]: "\<not> is_chain EMPTY" "\<not> is_node EMPTY"
  by (simp_all add: is_chain_bit is_node_bit EMPTY_def)

definition p62 :: "u64 \<Rightarrow> bool" where "p62 p \<longleftrightarrow> (\<forall>n. bit p n \<longrightarrow> n < 62)"

lemma node_ref_simps [simp]:
  "is_node (node_ref p)" "node_ref p \<noteq> EMPTY"
  by (auto simp: is_node_bit bit_node_ref EMPTY_def dest: arg_cong [where f = "\<lambda>x. bit x 62"])

lemma node_ref_p62 [simp]:
  assumes "p62 p"
  shows "\<not> is_chain (node_ref p)" "node_packed (node_ref p) = p"
proof -
  show "\<not> is_chain (node_ref p)" using assms by (auto simp: is_chain_bit bit_node_ref p62_def)
  show "node_packed (node_ref p) = p"
    using assms unfolding node_packed_def
    by (intro bit_word_eqI)
      (auto simp: bit_and_iff bit_node_ref bit_not_TAG_MASK p62_def)
qed

lemma small_nat_bit: "d \<le> 40 \<Longrightarrow> bit (d :: nat) n \<Longrightarrow> n < 6"
proof (rule ccontr)
  assume d: "d \<le> 40" "bit d n" "\<not> n < 6"
  have "d < 2 ^ 6" using d(1) by simp
  then have "take_bit 6 d = d" by (simp add: take_bit_nat_eq_self_iff)
  then show False using d(2,3) by (metis bit_take_bit_iff)
qed

lemma pack_p62 [simp]: "d \<le> 40 \<Longrightarrow> k40 p \<Longrightarrow> p62 (pack d p)"
  by (auto simp: p62_def bit_pack k40_def dest: small_nat_bit)

lemma unpack_pack [simp]:
  assumes "d \<le> 40" "k40 p"
  shows "unpack (pack d p) = (d, p)"
proof -
  have "drop_bit 40 (pack d p) = of_nat d"
    using assms by (intro bit_word_eqI)
      (auto simp: bit_simps bit_pack k40_def dest: small_nat_bit)
  moreover have "unat (of_nat d :: u64) = d" using assms(1) by (simp add: unat_of_nat)
  moreover have "pack d p AND (push_bit 40 1 - 1) = p"
  proof -
    have m: "push_bit 40 1 - 1 = (mask 40 :: u64)" by (simp add: mask_eq_exp_minus_1 push_bit_of_1)
    show ?thesis using assms(2) unfolding m
      by (intro bit_word_eqI) (auto simp only: bit_and_iff bit_mask_iff bit_pack k40_def possible_bit_word)
  qed
  ultimately show ?thesis by (simp add: unpack_def)
qed

lemma pack_inject [simp]:
  "d \<le> 40 \<Longrightarrow> d' \<le> 40 \<Longrightarrow> k40 p \<Longrightarrow> k40 p' \<Longrightarrow> pack d p = pack d' p' \<longleftrightarrow> d = d' \<and> p = p'"
  by (metis Pair_inject unpack_pack)

lemma k40_drop_bit [simp]: "k40 k \<Longrightarrow> k40 (drop_bit m k)"
  by (auto simp: k40_def bit_simps)

lemma path_bit_iff: "path_bit len p d = 0 \<longleftrightarrow> \<not> bit p (len - 1 - d)"
proof -
  have "path_bit len p d = of_bool (bit p (len - 1 - d))"
    by (rule bit_word_eqI)
      (auto simp: path_bit_def bit_and_iff bit_1_iff bit_drop_bit_eq bit_of_bool_iff)
  then show ?thesis by simp
qed

section \<open>Positions\<close>

definition agree :: "nat \<Rightarrow> u64 \<Rightarrow> u64 \<Rightarrow> bool" where
  "agree m a b \<longleftrightarrow> drop_bit m a = drop_bit m b"

definition sub :: "u64 set \<Rightarrow> nat \<Rightarrow> u64 \<Rightarrow> u64 set" where
  "sub K m k = {k' \<in> K. agree m k' k}"

lemma agree_iff: "agree m a b \<longleftrightarrow> (\<forall>n\<ge>m. bit a n = bit b n)"
proof
  assume "agree m a b"
  then have eq: "\<And>n. bit (drop_bit m a) n = bit (drop_bit m b) n" by (simp add: agree_def)
  show "\<forall>n\<ge>m. bit a n = bit b n"
  proof (intro allI impI)
    fix n assume "m \<le> n"
    then show "bit a n = bit b n" using eq [of "n - m"] by (simp add: bit_drop_bit_eq)
  qed
next
  assume "\<forall>n\<ge>m. bit a n = bit b n"
  then show "agree m a b" unfolding agree_def
    by (intro bit_word_eqI) (simp add: bit_drop_bit_eq)
qed

lemma agree_refl [simp]: "agree m a a" by (simp add: agree_def)
lemma agree_sym: "agree m a b \<longleftrightarrow> agree m b a" by (auto simp: agree_def)
lemma agree_trans: "agree m a b \<Longrightarrow> agree m b c \<Longrightarrow> agree m a c" by (simp add: agree_def)
lemma agree_mono: "agree m a b \<Longrightarrow> m \<le> m' \<Longrightarrow> agree m' a b" by (simp add: agree_iff)
lemma agree_0 [simp]: "agree 0 a b \<longleftrightarrow> a = b" by (simp add: agree_def)

lemma agree_Suc: "agree m a b \<longleftrightarrow> agree (Suc m) a b \<and> bit a m = bit b m"
proof -
  have "m \<le> n \<longleftrightarrow> n = m \<or> Suc m \<le> n" for n by auto
  then show ?thesis unfolding agree_iff by (simp only:) blast
qed

lemma agree_top: "k40 a \<Longrightarrow> k40 b \<Longrightarrow> agree 40 a b"
  by (auto simp: agree_iff k40_def)

lemma bit_flip: "m < 64 \<Longrightarrow> bit (flip_bit m (k::u64)) n \<longleftrightarrow> (bit k n \<noteq> (n = m))"
  by (auto simp: bit_flip_bit_iff dest: bit_imp_le_length)

lemma k40_flip [simp]: "k40 k \<Longrightarrow> m < 40 \<Longrightarrow> k40 (flip_bit m k)"
  by (auto simp: k40_def bit_flip)

lemma agree_flip [simp]: "m < 40 \<Longrightarrow> agree (Suc m) (flip_bit m k) k"
  by (auto simp: agree_iff bit_flip)

lemma not_agree_flip [simp]: "m < 40 \<Longrightarrow> \<not> agree m (flip_bit m k) k"
  by (auto simp: agree_iff bit_flip)

lemma flip_flip [simp]: "m < 40 \<Longrightarrow> flip_bit m (flip_bit m k) = (k::u64)"
  by (rule bit_word_eqI) (auto simp: bit_flip)

lemma agree_Suc_cases:
  "m < 40 \<Longrightarrow> agree (Suc m) a k \<Longrightarrow> agree m a k \<or> agree m a (flip_bit m k)"
  by (simp add: agree_Suc [of m a] bit_flip)
    (meson agree_flip agree_sym agree_trans)

lemma sub_cong: "agree m k k' \<Longrightarrow> sub K m k = sub K m k'"
  by (auto simp: sub_def agree_def)

lemma sub_Suc: "m < 40 \<Longrightarrow> sub K (Suc m) k = sub K m k \<union> sub K m (flip_bit m k)"
  by (auto simp: sub_def dest: agree_Suc_cases intro: agree_mono [of m])
    (meson agree_flip agree_mono agree_trans lessI less_imp_le)

lemma sub_mono: "m \<le> m' \<Longrightarrow> sub K m k \<subseteq> sub K m' k"
  by (auto simp: sub_def intro: agree_mono)

lemma sub_0: "sub K 0 k = (if k \<in> K then {k} else {})" by (auto simp: sub_def)

lemma sub_top: "\<forall>k\<in>K. k40 k \<Longrightarrow> k40 k \<Longrightarrow> sub K 40 k = K"
  by (auto simp: sub_def agree_top)

section \<open>The canonical tree of a key set\<close>

text \<open>A branch point at height \<open>Suc m\<close>: keys on both sides of bit \<open>m\<close>.\<close>

definition branch :: "u64 set \<Rightarrow> nat \<Rightarrow> u64 \<Rightarrow> bool" where
  "branch K m k \<longleftrightarrow> sub K m k \<noteq> {} \<and> sub K m (flip_bit m k) \<noteq> {}"

definition node_id :: "nat \<Rightarrow> u64 \<Rightarrow> u64" where
  "node_id m k = pack (39 - m) (drop_bit (Suc m) k)"

fun cslot :: "u64 set \<Rightarrow> nat \<Rightarrow> u64 \<Rightarrow> u64" where
  "cslot K 0 k = (if k \<in> K then chain k else EMPTY)"
| "cslot K (Suc m) k =
     (if branch K m k then node_ref (node_id m k)
      else if sub K m k \<noteq> {} then cslot K m k else cslot K m (flip_bit m k))"

text \<open>The reference hash of the full tree, no compaction.\<close>

fun rhash :: "crypto \<Rightarrow> (u64 \<Rightarrow> hash32) \<Rightarrow> nat \<Rightarrow> u64 \<Rightarrow> hash32" where
  "rhash cr lf 0 k = lf k"
| "rhash cr lf (Suc m) k =
     (if bit k m then node_hash cr (rhash cr lf m (flip_bit m k)) (rhash cr lf m k)
      else node_hash cr (rhash cr lf m k) (rhash cr lf m (flip_bit m k)))"

lemma branch_flip: "m < 40 \<Longrightarrow> branch K m (flip_bit m k) \<longleftrightarrow> branch K m k"
  by (auto simp: branch_def)

lemma branch_cong:
  assumes "m < 40" "agree (Suc m) k k'"
  shows "branch K m k \<longleftrightarrow> branch K m k'"
proof -
  have "agree m k k' \<or> agree m k (flip_bit m k')" using assms by (rule agree_Suc_cases)
  then show ?thesis
  proof
    assume a: "agree m k k'"
    then have f: "agree m (flip_bit m k) (flip_bit m k')" using assms(1) by (auto simp: agree_iff bit_flip)
    show ?thesis using sub_cong [OF a, of K] sub_cong [OF f, of K] by (simp add: branch_def)
  next
    assume a: "agree m k (flip_bit m k')"
    then have f: "agree m (flip_bit m k) k'" using assms(1) by (auto simp: agree_iff bit_flip)
    show ?thesis using sub_cong [OF a, of K] sub_cong [OF f, of K] by (auto simp: branch_def)
  qed
qed

lemma node_id_cong: "agree (Suc m) k k' \<Longrightarrow> node_id m k = node_id m k'"
  by (simp add: node_id_def agree_def)

lemma node_id_inject:
  "m < 40 \<Longrightarrow> m' < 40 \<Longrightarrow> k40 k \<Longrightarrow> k40 k' \<Longrightarrow>
     node_id m k = node_id m' k' \<longleftrightarrow> m = m' \<and> agree (Suc m) k k'"
  by (cases "m = m'") (auto simp: node_id_def agree_def)

lemma cslot_empty [simp]: "m \<le> 40 \<Longrightarrow> sub K m k = {} \<Longrightarrow> cslot K m k = EMPTY"
proof (induction m arbitrary: k)
  case 0
  then show ?case by (auto simp: sub_0 split: if_splits)
next
  case (Suc m)
  then show ?case by (auto simp: sub_Suc branch_def)
qed

lemma cslot_cong: "m \<le> 40 \<Longrightarrow> agree m k k' \<Longrightarrow> cslot K m k = cslot K m k'"
proof (induction m arbitrary: k k')
  case 0
  then show ?case by simp
next
  case (Suc m)
  have m: "m < 40" "m \<le> 40" using Suc.prems by auto
  have br: "branch K m k = branch K m k'" using m Suc.prems(2) by (intro branch_cong)
  have id: "node_id m k = node_id m k'" using Suc.prems(2) by (rule node_id_cong)
  from agree_Suc_cases [OF m(1) Suc.prems(2)] show ?case
  proof
    assume a: "agree m k k'"
    then have "agree m (flip_bit m k) (flip_bit m k')" using m by (auto simp: agree_iff bit_flip)
    with a show ?thesis using Suc.IH m br id sub_cong [OF a] by simp
  next
    assume a: "agree m k (flip_bit m k')"
    then have b: "agree m (flip_bit m k) k'" using m by (auto simp: agree_iff bit_flip)
    have "cslot K m k = cslot K m (flip_bit m k')" "cslot K m (flip_bit m k) = cslot K m k'"
      using Suc.IH m a b by auto
    then show ?thesis using br id sub_cong [OF a, of K] sub_cong [OF b, of K] m
      by (auto simp: branch_def)
  qed
qed

lemma rhash_cong: "m \<le> 40 \<Longrightarrow> agree m k k' \<Longrightarrow> rhash cr lf m k = rhash cr lf m k'"
proof (induction m arbitrary: k k')
  case 0
  then show ?case by simp
next
  case (Suc m)
  have m: "m < 40" "m \<le> 40" using Suc.prems by auto
  from agree_Suc_cases [OF m(1) Suc.prems(2)] show ?case
  proof
    assume a: "agree m k k'"
    then have b: "agree m (flip_bit m k) (flip_bit m k')" using m by (auto simp: agree_iff bit_flip)
    have "bit k m = bit k' m" using a by (simp add: agree_iff)
    then show ?thesis using Suc.IH [OF m(2) a] Suc.IH [OF m(2) b] by simp
  next
    assume a: "agree m k (flip_bit m k')"
    then have b: "agree m (flip_bit m k) k'" using m by (auto simp: agree_iff bit_flip)
    have "bit k m \<noteq> bit k' m" using a m by (auto simp: agree_iff bit_flip)
    then show ?thesis using Suc.IH [OF m(2) a] Suc.IH [OF m(2) b] by auto
  qed
qed

lemma rhash_default:
  "m \<le> 40 \<Longrightarrow> \<forall>k'. agree m k' k \<longrightarrow> lf k' = empty_leaf cr \<Longrightarrow> rhash cr lf m k = defaults cr m"
proof (induction m arbitrary: k)
  case 0
  then show ?case by simp
next
  case (Suc m)
  have "\<forall>k'. agree m k' k \<longrightarrow> lf k' = empty_leaf cr"
    using Suc.prems by (meson agree_mono lessI less_imp_le)
  moreover have "\<forall>k'. agree m k' (flip_bit m k) \<longrightarrow> lf k' = empty_leaf cr"
    using Suc.prems by (metis Suc_le_lessD agree_flip agree_mono agree_trans lessI less_imp_le)
  ultimately show ?case using Suc by simp
qed

lemma rhash_key_side:
  "rhash cr lf (Suc m) k = combine cr (of_bool (bit k m)) (rhash cr lf m k) (rhash cr lf m (flip_bit m k))"
  by (simp add: combine_def)

lemma cslot_form [consumes 3, case_names empty chain node]:
  assumes "m \<le> 40" "k40 k" "\<forall>k\<in>K. k40 k"
  obtains (empty) "sub K m k = {}" "cslot K m k = EMPTY"
  | (chain) k' where "k' \<in> K" "agree m k' k" "sub K m k = {k'}" "cslot K m k = chain k'"
  | (node) m' k' where "m' < m" "k40 k'" "agree m k' k" "branch K m' k'"
      "cslot K m k = node_ref (node_id m' k')" "sub K m k \<noteq> {}"
  using assms
proof (induction m arbitrary: k thesis)
  case 0
  then show ?case by (cases "k \<in> K") (auto simp: sub_0)
next
  case (Suc m)
  have m: "m < 40" "m \<le> 40" using Suc.prems by auto
  show ?case
  proof (cases "branch K m k")
    case True
    then show ?thesis
      using Suc.prems(3) [of m k] Suc.prems(5) m by (auto simp: branch_def sub_Suc)
  next
    case nb: False
    define j where "j = (if sub K m k \<noteq> {} then k else flip_bit m k)"
    have j: "k40 j" "agree (Suc m) j k" "cslot K (Suc m) k = cslot K m j" "sub K (Suc m) k = sub K m j"
      using nb m Suc.prems(5) by (auto simp: j_def branch_def sub_Suc)
    have lift: "agree m a j \<Longrightarrow> agree (Suc m) a k" for a
      using j(2) by (meson agree_mono agree_trans lessI less_imp_le)
    show ?thesis
    proof (rule Suc.IH [of j])
      show "m \<le> 40" "k40 j" "\<forall>k\<in>K. k40 k" using m j Suc.prems by auto
    next
      assume "sub K m j = {}" "cslot K m j = EMPTY"
      then show thesis using Suc.prems(1) j by simp
    next
      fix k' assume "k' \<in> K" "agree m k' j" "sub K m j = {k'}" "cslot K m j = chain k'"
      then show thesis using Suc.prems(2) [of k'] j lift by simp
    next
      fix m' k' assume "m' < m" "k40 k'" "agree m k' j" "branch K m' k'"
        "cslot K m j = node_ref (node_id m' k')" "sub K m j \<noteq> {}"
      then show thesis using Suc.prems(3) [of m' k'] j lift by simp
    qed
  qed
qed

lemma cslot_eq_EMPTY:
  "m \<le> 40 \<Longrightarrow> k40 k \<Longrightarrow> \<forall>k\<in>K. k40 k \<Longrightarrow> cslot K m k = EMPTY \<longleftrightarrow> sub K m k = {}"
  by (rule cslot_form [of m k K]) auto

lemma node_id_p62 [simp]: "m < 40 \<Longrightarrow> k40 k \<Longrightarrow> p62 (node_id m k)"
  by (simp add: node_id_def)

lemma unpack_node_id [simp]:
  "m < 40 \<Longrightarrow> k40 k \<Longrightarrow> unpack (node_id m k) = (39 - m, drop_bit (Suc m) k)"
  by (simp add: node_id_def)

section \<open>Well-formed arenas\<close>

definition lslot :: "u64 set \<Rightarrow> nat \<Rightarrow> u64 \<Rightarrow> u64" where
  "lslot K m k = cslot K m (if bit k m then flip_bit m k else k)"

definition rslot :: "u64 set \<Rightarrow> nat \<Rightarrow> u64 \<Rightarrow> u64" where
  "rslot K m k = cslot K m (if bit k m then k else flip_bit m k)"

definition slots :: "branch_node \<Rightarrow> u64 \<times> u64" where
  "slots n = (bn_left n, bn_right n)"

definition struct_ok :: "u64 set \<Rightarrow> (u64, branch_node) fmap \<Rightarrow> bool" where
  "struct_ok K nodes \<longleftrightarrow>
     (\<forall>m k. m < 40 \<longrightarrow> k40 k \<longrightarrow> map_option slots (fmlookup nodes (node_id m k)) =
        (if branch K m k then Some (lslot K m k, rslot K m k) else None))
     \<and> (\<forall>x n. fmlookup nodes x = Some n \<longrightarrow> (\<exists>m k. m < 40 \<and> k40 k \<and> x = node_id m k))"

definition hash_ok :: "crypto \<Rightarrow> (u64 \<Rightarrow> hash32) \<Rightarrow> (u64, branch_node) fmap \<Rightarrow> (nat \<Rightarrow> u64 \<Rightarrow> bool) \<Rightarrow> bool"
  where
  "hash_ok cr lf nodes P \<longleftrightarrow>
     (\<forall>m k n. m < 40 \<longrightarrow> k40 k \<longrightarrow> P m k \<longrightarrow> fmlookup nodes (node_id m k) = Some n \<longrightarrow>
        bn_hash n = rhash cr lf (Suc m) k)"

lemma struct_ok_branch:
  assumes "struct_ok K nodes" "m < 40" "k40 k" "branch K m k"
  obtains n where "fmlookup nodes (node_id m k) = Some n"
    "bn_left n = lslot K m k" "bn_right n = rslot K m k"
proof -
  have "map_option slots (fmlookup nodes (node_id m k)) = Some (lslot K m k, rslot K m k)"
    using assms by (simp add: struct_ok_def)
  then show ?thesis using that by (auto simp: slots_def)
qed

lemma struct_ok_no_branch:
  "struct_ok K nodes \<Longrightarrow> m < 40 \<Longrightarrow> k40 k \<Longrightarrow> \<not> branch K m k \<Longrightarrow> fmlookup nodes (node_id m k) = None"
  unfolding struct_ok_def by (metis map_option_is_None)

lemma struct_ok_sides:
  assumes "struct_ok K nodes" "m < 40" "k40 k" "fmlookup nodes (node_id m k) = Some n"
  shows "branch K m k"
    "(if bit k m then bn_right n else bn_left n) = cslot K m k"
    "(if bit k m then bn_left n else bn_right n) = cslot K m (flip_bit m k)"
proof -
  show b: "branch K m k" using struct_ok_no_branch [OF assms(1-3)] assms(4) by (cases "branch K m k") auto
  obtain n' where n': "fmlookup nodes (node_id m k) = Some n'"
    "bn_left n' = lslot K m k" "bn_right n' = rslot K m k"
    using struct_ok_branch [OF assms(1-3) b] by blast
  show "(if bit k m then bn_right n else bn_left n) = cslot K m k"
    "(if bit k m then bn_left n else bn_right n) = cslot K m (flip_bit m k)"
    using n' assms(4) by (simp_all add: lslot_def rslot_def)
qed

section \<open>Slot values\<close>

text \<open>\<^verbatim>\<open>root_value\<close> and \<^verbatim>\<open>child_value\<close> are one function of the depth a chain is folded up to.\<close>

definition slot_value :: "crypto \<Rightarrow> smt \<Rightarrow> u64 \<Rightarrow> nat \<Rightarrow> hash32 option" where
  "slot_value cr t repr lo =
     (if repr = EMPTY then Some (defaults cr (D - lo))
      else if is_chain repr then Some (smt_fold cr t (chain_key repr) lo)
      else let packed = node_packed repr; (d, p) = unpack packed in
        map_option (\<lambda>n. fold_chain cr d p lo d (bn_hash n)) (fmlookup (sm_nodes t) packed))"

lemma root_value_slot: "root_value cr t = slot_value cr t (root_child t) 0"
  by (simp add: root_value_def slot_value_def Let_def)

lemma child_value_slot: "child_value cr t repr d = slot_value cr t repr (Suc d)"
  by (simp add: child_value_def slot_value_def)

lemma fold_chain_step:
  "lo < hi \<Longrightarrow> fold_chain cr len p lo hi v =
     combine cr (path_bit len p lo) (fold_chain cr len p (Suc lo) hi v) (defaults cr (D - 1 - lo))"
  by (simp add: fold_chain_def upt_conv_Cons)

lemma fold_chain_Nil [simp]: "fold_chain cr len p d d v = v"
  by (simp add: fold_chain_def)

lemma combine_path_bit:
  "combine cr (path_bit len p d) v s = combine cr (of_bool (bit p (len - 1 - d))) v s"
  by (simp add: combine_def path_bit_iff)

lemma slot_value_extend:
  assumes "m < 40" "k40 k" "\<forall>k\<in>K. k40 k" "sub K m k \<noteq> {}"
  shows "slot_value cr t (cslot K m k) (39 - m) =
    map_option (\<lambda>v. combine cr (of_bool (bit k m)) v (defaults cr m))
      (slot_value cr t (cslot K m k) (40 - m))"
proof -
  have lo: "Suc (39 - m) = 40 - m" "39 - (39 - m) = m" using assms(1) by auto
  have "m \<le> 40" using assms(1) by simp
  then show ?thesis using assms(2,3)
  proof (cases rule: cslot_form)
    case empty
    then show ?thesis using assms(4) by simp
  next
    case (chain k')
    have k': "k40 k'" "bit k' m = bit k m" using chain assms(3) by (auto simp: agree_iff)
    show ?thesis using k' assms(1) chain(4)
      by (simp add: slot_value_def smt_fold_def fold_chain_step [of "39 - m"] combine_path_bit lo)
  next
    case (node m' k')
    have b: "bit (drop_bit (Suc m') k') (39 - m' - 1 - (39 - m)) = bit k m"
      using node(1,3) assms(1) by (auto simp: agree_iff bit_drop_bit_eq)
    have "m' < 40" "39 - m < 39 - m'" using node(1) assms(1) by auto
    then show ?thesis using node(2,5) b
      by (simp add: slot_value_def fold_chain_step [of "39 - m"] combine_path_bit lo
          option.map_comp comp_def)
  qed
qed

lemma slot_value_rhash:
  assumes "struct_ok K (sm_nodes t)" "\<forall>k\<in>K. k40 k" "\<forall>k. k \<notin> K \<longrightarrow> bucket_root cr t k = empty_leaf cr"
    "hash_ok cr (bucket_root cr t) (sm_nodes t) P"
    "\<forall>m' k'. m' < m \<longrightarrow> agree m k' k \<longrightarrow> P m' k'" "m \<le> 40" "k40 k"
  shows "slot_value cr t (cslot K m k) (40 - m) = Some (rhash cr (bucket_root cr t) m k)"
  using assms(5-)
proof (induction m arbitrary: k)
  case 0
  then show ?case using assms(3) by (auto simp: slot_value_def smt_fold_def)
next
  case (Suc m)
  have m: "m < 40" "m \<le> 40" using Suc.prems by auto
  have up: "agree m k' j \<Longrightarrow> agree (Suc m) j k \<Longrightarrow> agree (Suc m) k' k" for k' j
    by (meson agree_mono agree_trans lessI less_imp_le)
  have IH: "slot_value cr t (cslot K m j) (40 - m) = Some (rhash cr (bucket_root cr t) m j)"
    if "agree (Suc m) j k" "k40 j" for j
    using that Suc.IH [of j] Suc.prems(1) m up by auto
  have sib: "rhash cr (bucket_root cr t) m j = defaults cr m" if "sub K m j = {}" for j
  proof (rule rhash_default [OF m(2)], intro allI impI)
    fix k' assume "agree m k' j"
    then have "k' \<notin> K" using that by (auto simp: sub_def)
    then show "bucket_root cr t k' = empty_leaf cr" using assms(3) by simp
  qed
  show ?case
  proof (cases "branch K m k")
    case True
    obtain n where n: "fmlookup (sm_nodes t) (node_id m k) = Some n"
      using struct_ok_branch [OF assms(1) m(1) Suc.prems(3) True] by metis
    have "bn_hash n = rhash cr (bucket_root cr t) (Suc m) k"
      using assms(4) n m(1) Suc.prems by (auto simp: hash_ok_def)
    then show ?thesis using True n m Suc.prems(3) by (simp add: slot_value_def)
  next
    case nb: False
    show ?thesis
    proof (cases "sub K (Suc m) k = {}")
      case True
      have "\<forall>k'. agree (Suc m) k' k \<longrightarrow> bucket_root cr t k' = empty_leaf cr"
        using True assms(3) by (auto simp: sub_def)
      then have "rhash cr (bucket_root cr t) (Suc m) k = defaults cr (Suc m)"
        using Suc.prems by (intro rhash_default)
      moreover have "40 - (39 - m) = Suc m" using m by simp
      ultimately show ?thesis using True Suc.prems
        by (simp add: slot_value_def del: rhash.simps cslot.simps defaults.simps)
    next
      case ne: False
      define j where "j = (if sub K m k \<noteq> {} then k else flip_bit m k)"
      have j: "k40 j" "agree (Suc m) j k" "cslot K (Suc m) k = cslot K m j" "sub K m j \<noteq> {}"
        "sub K m (flip_bit m j) = {}"
        using nb ne m Suc.prems(3) by (auto simp: j_def branch_def sub_Suc)
      have "rhash cr (bucket_root cr t) (Suc m) k = rhash cr (bucket_root cr t) (Suc m) j"
        using j(2) m by (intro rhash_cong) (auto simp: agree_sym)
      also have "\<dots> = combine cr (of_bool (bit j m)) (rhash cr (bucket_root cr t) m j) (defaults cr m)"
        by (simp add: rhash_key_side sib [OF j(5)] del: rhash.simps)
      finally have r: "rhash cr (bucket_root cr t) (Suc m) k =
        combine cr (of_bool (bit j m)) (rhash cr (bucket_root cr t) m j) (defaults cr m)" .
      show ?thesis
        using slot_value_extend [OF m(1) j(1) assms(2) j(4), of cr t] IH [OF j(2,1)] r j(3)
        by (simp del: rhash.simps cslot.simps)
    qed
  qed
qed

section \<open>Rehashing the path\<close>

declare cslot.simps(2) [simp del] rhash.simps(2) [simp del]

definition same_leaves :: "smt \<Rightarrow> smt \<Rightarrow> bool" where
  "same_leaves t t' \<longleftrightarrow> sm_leaves t' = sm_leaves t \<and> sm_buckets t' = sm_buckets t"

lemma bucket_root_same: "same_leaves t t' \<Longrightarrow> bucket_root cr t' = bucket_root cr t"
  by (rule ext) (auto simp: bucket_root_def same_leaves_def split: option.splits)

text \<open>Writing the hash of the branch point of \<open>(m, key)\<close>.\<close>

lemma struct_ok_upd_hash:
  assumes "struct_ok K nodes" "fmlookup nodes x = Some n"
  shows "struct_ok K (fmupd x (n\<lparr>bn_hash := v\<rparr>) nodes)"
proof -
  have "map_option slots (fmlookup (fmupd x (n\<lparr>bn_hash := v\<rparr>) nodes) y)
      = map_option slots (fmlookup nodes y)" for y
    using assms(2) by (auto simp: slots_def)
  moreover have "\<exists>m k. m < 40 \<and> k40 k \<and> y = node_id m k"
    if "fmlookup (fmupd x (n\<lparr>bn_hash := v\<rparr>) nodes) y = Some n'" for y n'
    using that assms unfolding struct_ok_def by (auto split: if_splits)
  ultimately show ?thesis using assms(1) unfolding struct_ok_def by simp
qed

lemma hash_ok_upd_hash:
  assumes "hash_ok cr lf nodes (\<lambda>m' k'. \<not> agree (Suc m') k' key \<or> m' < m)"
    "v = rhash cr lf (Suc m) key" "m < 40" "k40 key"
  shows "hash_ok cr lf (fmupd (node_id m key) (n\<lparr>bn_hash := v\<rparr>) nodes)
    (\<lambda>m' k'. \<not> agree (Suc m') k' key \<or> m' < Suc m)"
  unfolding hash_ok_def
proof (intro allI impI)
  fix m' k' n'
  assume a: "m' < 40" "k40 k'" "\<not> agree (Suc m') k' key \<or> m' < Suc m"
    "fmlookup (fmupd (node_id m key) (n\<lparr>bn_hash := v\<rparr>) nodes) (node_id m' k') = Some n'"
  show "bn_hash n' = rhash cr lf (Suc m') k'"
  proof (cases "m' = m \<and> agree (Suc m) k' key")
    case True
    then have "rhash cr lf (Suc m') k' = v"
      using assms(2,3) rhash_cong [of "Suc m" k' key cr lf] by simp
    then show ?thesis using a True node_id_cong [of m k' key] by (auto simp del: rhash.simps)
  next
    case False
    then have "node_id m key \<noteq> node_id m' k'"
      using a assms(3,4) by (auto simp: node_id_inject agree_sym)
    then have l: "fmlookup nodes (node_id m' k') = Some n'" using a(4) by simp
    have "\<not> agree (Suc m') k' key \<or> m' < m" using a(3) False by (auto simp: less_Suc_eq)
    then show ?thesis using a(1,2) l assms(1) unfolding hash_ok_def by blast
  qed
qed

lemma hash_ok_skip:
  assumes "hash_ok cr lf nodes (\<lambda>m' k'. \<not> agree (Suc m') k' key \<or> m' < m)"
    "fmlookup nodes (node_id m key) = None"
  shows "hash_ok cr lf nodes (\<lambda>m' k'. \<not> agree (Suc m') k' key \<or> m' < Suc m)"
  using assms unfolding hash_ok_def by (metis less_SucE node_id_cong option.distinct(1))

lemma recompute_loop_ok:
  assumes "struct_ok K (sm_nodes t)" "\<forall>k\<in>K. k40 k"
    "\<forall>k. k \<notin> K \<longrightarrow> bucket_root cr t k = empty_leaf cr"
    "d \<le> 40" "k40 key" "sub K (40 - d) key \<noteq> {}"
    "hash_ok cr (bucket_root cr t) (sm_nodes t) (\<lambda>m k. \<not> agree (Suc m) k key \<or> m < 40 - d)"
  shows "\<exists>t'. recompute_loop cr key d (rhash cr (bucket_root cr t) (40 - d) key) t
      = Some (t', rhash cr (bucket_root cr t) 40 key)
    \<and> struct_ok K (sm_nodes t') \<and> hash_ok cr (bucket_root cr t) (sm_nodes t') (\<lambda>_ _. True)
    \<and> same_leaves t t' \<and> root_child t' = root_child t \<and> root_hash t' = root_hash t"
  using assms
proof (induction d arbitrary: t)
  case 0
  then have "hash_ok cr (bucket_root cr t) (sm_nodes t) (\<lambda>_ _. True)"
    by (auto simp: hash_ok_def)
  then show ?case using 0 by (simp add: same_leaves_def)
next
  case (Suc d)
  define m where "m = 39 - d"
  have m: "m < 40" "39 - m = d" "40 - Suc d = m" "40 - d = Suc m" "Suc d = 40 - m"
    using Suc.prems(4) by (auto simp: m_def)
  have id: "pack d (drop_bit (40 - d) key) = node_id m key" using m by (simp add: node_id_def)
  have pb: "path_bit 40 key d = 0 \<longleftrightarrow> \<not> bit key m" by (simp add: path_bit_iff m_def)
  have cb: "combine cr (path_bit 40 key d) v s = combine cr (of_bool (bit key m)) v s" for v s
    by (simp add: combine_def pb)
  let ?lf = "bucket_root cr t"
  have key_sub: "sub K m key \<noteq> {}" using Suc.prems(6) m by simp
  then have up_sub: "sub K (40 - d) key \<noteq> {}" using m sub_mono [of m "Suc m" K key] by auto
  show ?case
  proof (cases "fmlookup (sm_nodes t) (node_id m key)")
    case None
    have "\<not> branch K m key"
      using None struct_ok_branch [OF Suc.prems(1) m(1) Suc.prems(5)] by fastforce
    then have "sub K m (flip_bit m key) = {}" using key_sub by (simp add: branch_def)
    then have "rhash cr ?lf m (flip_bit m key) = defaults cr m"
      using m Suc.prems(3) by (intro rhash_default) (auto simp: sub_def)
    then have v: "combine cr (path_bit 40 key d) (rhash cr ?lf m key) (defaults cr m)
        = rhash cr ?lf (40 - d) key"
      by (simp add: cb m(4) rhash_key_side del: rhash.simps)
    have "hash_ok cr ?lf (sm_nodes t) (\<lambda>m k. \<not> agree (Suc m) k key \<or> m < 40 - d)"
      using hash_ok_skip [OF Suc.prems(7) [unfolded m(3)] None] m by simp
    note IH = Suc.IH [OF Suc.prems(1-3) _ Suc.prems(5) up_sub this]
    have "recompute_loop cr key (Suc d) (rhash cr ?lf (40 - Suc d) key) t
        = recompute_loop cr key d (rhash cr ?lf (40 - d) key) t"
      unfolding recompute_loop.simps Let_def id None option.case m(3) v [symmetric]
      by (simp add: m_def)
    then show ?thesis using IH Suc.prems(4) by (metis Suc_leD)
  next
    case (Some n)
    note sides = struct_ok_sides [OF Suc.prems(1) m(1) Suc.prems(5) Some]
    let ?s = "flip_bit m key"
    have off: "\<not> agree (Suc m') k' key \<or> m' < m" if "m' < m" for m' k' using that by simp
    have "slot_value cr t (cslot K m ?s) (40 - m) = Some (rhash cr ?lf m ?s)"
      using Suc.prems m off by (intro slot_value_rhash [OF Suc.prems(1-3,7)]) auto
    then have cv: "child_value cr t (if path_bit 40 key d = 0 then bn_right n else bn_left n) d
        = Some (rhash cr ?lf m ?s)"
      using sides(3) m by (simp add: child_value_slot pb split: if_splits)
    define v' where "v' = rhash cr ?lf (Suc m) key"
    have v: "combine cr (path_bit 40 key d) (rhash cr ?lf m key) (rhash cr ?lf m ?s) = v'"
      by (simp add: cb v'_def rhash_key_side del: rhash.simps)
    define t1 where "t1 = t\<lparr>sm_nodes := fmupd (node_id m key) (n\<lparr>bn_hash := v'\<rparr>) (sm_nodes t),
      dirty_nodes := dirty_nodes t @ [node_id m key]\<rparr>"
    have sl: "same_leaves t t1" by (simp add: t1_def same_leaves_def)
    have lf: "bucket_root cr t1 = ?lf" using sl by (rule bucket_root_same)
    have s1: "struct_ok K (sm_nodes t1)"
      using struct_ok_upd_hash [OF Suc.prems(1) Some] by (simp add: t1_def)
    have h1: "hash_ok cr ?lf (sm_nodes t1) (\<lambda>m k. \<not> agree (Suc m) k key \<or> m < 40 - d)"
      using hash_ok_upd_hash [OF Suc.prems(7) [unfolded m(3)] v'_def m(1) Suc.prems(5)] m(4)
      by (simp add: t1_def)
    have step: "recompute_loop cr key (Suc d) (rhash cr ?lf (40 - Suc d) key) t
        = recompute_loop cr key d (rhash cr ?lf (40 - d) key) t1"
      unfolding recompute_loop.simps Let_def id Some option.case cv m(3) v t1_def
      by (simp add: m(4) v'_def)
    obtain t' where "recompute_loop cr key d (rhash cr ?lf (40 - d) key) t1
        = Some (t', rhash cr ?lf 40 key)" "struct_ok K (sm_nodes t')"
      "hash_ok cr ?lf (sm_nodes t') (\<lambda>_ _. True)" "same_leaves t1 t'"
      "root_child t' = root_child t1" "root_hash t' = root_hash t1"
      using Suc.IH [of t1, unfolded lf, OF s1 Suc.prems(2,3) _ Suc.prems(5) up_sub h1] Suc.prems(4)
      by (metis Suc_leD)
    then show ?thesis using step sl by (auto simp: t1_def same_leaves_def)
  qed
qed

section \<open>Descending along a key\<close>

fun pstack :: "u64 set \<Rightarrow> nat \<Rightarrow> u64 \<Rightarrow> (u64 \<times> u64) list" where
  "pstack K 0 key = []"
| "pstack K (Suc m) key =
     (if branch K m key then (node_id m key, path_bit D key (39 - m)) # pstack K m key
      else if sub K m key \<noteq> {} then pstack K m key else [])"

fun prepr :: "u64 set \<Rightarrow> nat \<Rightarrow> u64 \<Rightarrow> u64" where
  "prepr K 0 key = cslot K 0 key"
| "prepr K (Suc m) key =
     (if branch K m key \<or> sub K m key \<noteq> {} then prepr K m key else cslot K (Suc m) key)"

definition pslot :: "slot_ref \<Rightarrow> (u64 \<times> u64) list \<Rightarrow> slot_ref" where
  "pslot sl stk = (if stk = [] then sl else SlotChild (fst (last stk)) (snd (last stk)))"

lemma path_bit_height: "m < 40 \<Longrightarrow> path_bit 40 key (39 - m) = 0 \<longleftrightarrow> \<not> bit key m"
  by (simp add: path_bit_iff)

lemma locate_loop_ok:
  assumes "struct_ok K nodes" "\<forall>k\<in>K. k40 k" "k40 key" "m \<le> 40"
  shows "locate_loop nodes key st sl (cslot K m key)
    = Some (st @ pstack K m key, pslot sl (pstack K m key), prepr K m key)"
  using assms(4)
proof (induction m arbitrary: st sl)
  case 0
  have "\<not> is_node (cslot K 0 key)" using assms(3) by simp
  then show ?case by (subst locate_loop.simps) (simp add: pslot_def)
next
  case (Suc m)
  have m: "m < 40" "m \<le> 40" using Suc.prems by auto
  show ?case
  proof (cases "branch K m key")
    case True
    then obtain n where n: "fmlookup nodes (node_id m key) = Some n"
      using struct_ok_branch [OF assms(1) m(1) assms(3)] by metis
    have dk: "drop_bit (40 - (39 - m)) key = drop_bit (Suc m) key" using m by simp
    have "(if path_bit 40 key (39 - m) = 0 then bn_left n else bn_right n) = cslot K m key"
      using struct_ok_sides(2) [OF assms(1) m(1) assms(3) n] m by (simp add: path_bit_height split: if_splits)
    then have "locate_loop nodes key st sl (cslot K (Suc m) key) =
      locate_loop nodes key (st @ [(node_id m key, path_bit 40 key (39 - m))])
        (SlotChild (node_id m key) (path_bit 40 key (39 - m))) (cslot K m key)"
      using True n m assms(3) dk
      by (subst locate_loop.simps) (simp add: cslot.simps(2) Let_def)
    then show ?thesis using True Suc.IH m by (simp add: pslot_def)
  next
    case nb: False
    show ?thesis
    proof (cases "sub K m key = {}")
      case False
      then show ?thesis using nb Suc.IH m by (simp add: cslot.simps(2))
    next
      case e: True
      have stop: "is_node (cslot K (Suc m) key) \<Longrightarrow>
        (\<exists>d p. unpack (node_packed (cslot K (Suc m) key)) = (d, p) \<and> drop_bit (40 - d) key \<noteq> p)"
      proof -
        assume node: "is_node (cslot K (Suc m) key)"
        have fl: "k40 (flip_bit m key)" using m assms(3) by simp
        have "cslot K (Suc m) key = cslot K m (flip_bit m key)" using nb e by (simp add: cslot.simps(2))
        from m(2) fl assms(2) show ?thesis
        proof (cases rule: cslot_form)
          case empty
          then show ?thesis using node \<open>cslot K (Suc m) key = _\<close> by simp
        next
          case (chain k')
          then show ?thesis using node \<open>cslot K (Suc m) key = _\<close> assms(2) by simp
        next
          case (node m' k')
          have "\<not> agree (Suc m') key k'"
          proof
            assume "agree (Suc m') key k'"
            then have "agree m key k'" using node(1) by (meson agree_mono Suc_leI)
            then show False using node(3) m by (meson agree_sym agree_trans not_agree_flip)
          qed
          then show ?thesis using node m \<open>cslot K (Suc m) key = _\<close> by (simp add: agree_def)
        qed
      qed
      show ?thesis using nb e stop
        by (subst locate_loop.simps) (auto simp: pslot_def Let_def)
    qed
  qed
qed

lemma pstack_nonempty: "branch K m key \<Longrightarrow> m < M \<Longrightarrow> M \<le> 40 \<Longrightarrow> pstack K M key \<noteq> []"
proof (induction M)
  case 0
  then show ?case by simp
next
  case (Suc M)
  show ?case
  proof (cases "m = M")
    case True
    then show ?thesis using Suc.prems by simp
  next
    case False
    then have "m < M" using Suc.prems by simp
    moreover have "sub K M key \<noteq> {}"
      using Suc.prems(1) sub_mono [of m M K key] \<open>m < M\<close> by (auto simp: branch_def)
    ultimately show ?thesis using Suc by simp
  qed
qed

lemma pstack_last:
  assumes "pstack K M key \<noteq> []"
  shows "\<exists>m0<M. branch K m0 key \<and> pstack K m0 key = []
    \<and> last (pstack K M key) = (node_id m0 key, path_bit 40 key (39 - m0))"
  using assms
proof (induction M)
  case 0
  then show ?case by simp
next
  case (Suc M)
  show ?case
  proof (cases "pstack K M key = []")
    case True
    then show ?thesis using Suc.prems by (auto split: if_splits)
  next
    case False
    then obtain m0 where "m0 < M" "branch K m0 key" "pstack K m0 key = []"
      "last (pstack K M key) = (node_id m0 key, path_bit 40 key (39 - m0))" using Suc.IH by blast
    then show ?thesis using False Suc.prems by (intro exI [of _ m0]) (auto split: if_splits)
  qed
qed

section \<open>Adding one key to the canonical tree\<close>

lemma cslot_local:
  "m \<le> 40 \<Longrightarrow> \<forall>k'. agree m k' k \<longrightarrow> (k' \<in> K \<longleftrightarrow> k' \<in> K') \<Longrightarrow> cslot K m k = cslot K' m k"
proof (induction m arbitrary: k)
  case 0
  then show ?case by simp
next
  case (Suc m)
  have m: "m < 40" "m \<le> 40" using Suc.prems by auto
  have a: "\<forall>k'. agree m k' k \<longrightarrow> (k' \<in> K \<longleftrightarrow> k' \<in> K')"
    "\<forall>k'. agree m k' (flip_bit m k) \<longrightarrow> (k' \<in> K \<longleftrightarrow> k' \<in> K')"
    using Suc.prems m by (meson agree_flip agree_mono agree_trans lessI less_imp_le)+
  then have "sub K m k = sub K' m k" "sub K m (flip_bit m k) = sub K' m (flip_bit m k)"
    by (auto simp: sub_def)
  then show ?case using Suc.IH [OF m(2) a(1)] Suc.IH [OF m(2) a(2)]
    by (simp add: cslot.simps(2) branch_def)
qed

lemma rhash_local:
  "m \<le> 40 \<Longrightarrow> \<forall>k'. agree m k' k \<longrightarrow> lf k' = lf' k' \<Longrightarrow> rhash cr lf m k = rhash cr lf' m k"
proof (induction m arbitrary: k)
  case 0
  then show ?case by simp
next
  case (Suc m)
  have m: "m < 40" "m \<le> 40" using Suc.prems by auto
  have a: "\<forall>k'. agree m k' k \<longrightarrow> lf k' = lf' k'"
    "\<forall>k'. agree m k' (flip_bit m k) \<longrightarrow> lf k' = lf' k'"
    using Suc.prems m by (meson agree_flip agree_mono agree_trans lessI less_imp_le)+
  then show ?case using Suc.IH [OF m(2) a(1)] Suc.IH [OF m(2) a(2)]
    by (simp add: rhash.simps(2))
qed

lemma cslot_single: "m \<le> 40 \<Longrightarrow> sub K m k = {k'} \<Longrightarrow> cslot K m k = chain k'"
proof (induction m arbitrary: k)
  case 0
  then show ?case by (auto simp: sub_0 split: if_splits)
next
  case (Suc m)
  have m: "m < 40" "m \<le> 40" using Suc.prems by auto
  have "sub K m k \<inter> sub K m (flip_bit m k) = {}"
  proof (rule equals0I)
    fix x assume "x \<in> sub K m k \<inter> sub K m (flip_bit m k)"
    then have "agree m (flip_bit m k) k" by (auto simp: sub_def agree_def)
    then show False using m by simp
  qed
  then have "sub K m k = {k'} \<and> sub K m (flip_bit m k) = {} \<or> sub K m k = {} \<and> sub K m (flip_bit m k) = {k'}"
    using Suc.prems(2) unfolding sub_Suc [OF m(1)] Un_singleton_iff by auto
  then show ?case using Suc.IH m by (auto simp: cslot.simps(2) branch_def)
qed

lemma sub_insert_key:
  "sub (insert key K) m k = (if agree m key k then insert key (sub K m k) else sub K m k)"
  by (auto simp: sub_def)

text \<open>\<open>diverges K h key\<close>: the path of a new key leaves the tree at height \<open>h\<close>.\<close>

definition diverges :: "u64 set \<Rightarrow> nat \<Rightarrow> u64 \<Rightarrow> bool" where
  "diverges K h key \<longleftrightarrow> h < 40 \<and> k40 key \<and> sub K h key = {} \<and> sub K (Suc h) key \<noteq> {}"

lemma diverges_ex:
  assumes "\<forall>k\<in>K. k40 k" "k40 key" "key \<notin> K" "K \<noteq> {}"
  shows "\<exists>h. diverges K h key"
proof -
  have "\<exists>h<M. sub K h key = {} \<and> sub K (Suc h) key \<noteq> {}" if "sub K M key \<noteq> {}" for M
    using that
  proof (induction M)
    case 0
    then show ?case using assms(3) by (simp add: sub_0)
  next
    case (Suc M)
    then show ?case by (cases "sub K M key = {}") (auto intro: less_SucI)
  qed
  then show ?thesis using sub_top [OF assms(1,2)] assms(2,4) by (fastforce simp: diverges_def)
qed

lemma branch_insert:
  assumes "diverges K h key" "m < 40"
  shows "branch (insert key K) m key \<longleftrightarrow> branch K m key \<or> m = h"
proof -
  have fl: "\<not> agree m key (flip_bit m key)" using assms(2) by (metis agree_sym not_agree_flip)
  have b: "branch (insert key K) m key \<longleftrightarrow> sub K m (flip_bit m key) \<noteq> {}"
    using fl by (simp add: branch_def sub_insert_key)
  consider "m < h" | "m = h" | "h < m" by linarith
  then show ?thesis
  proof cases
    case 1
    then have "sub K m (flip_bit m key) \<subseteq> sub K h key"
      using sub_mono [of "Suc m" h K key] assms(2) by (auto simp: sub_Suc)
    then show ?thesis using 1 b assms(1) by (auto simp: diverges_def branch_def)
  next
    case 2
    then show ?thesis using b assms by (auto simp: diverges_def sub_Suc)
  next
    case 3
    then have "sub K m key \<noteq> {}" using assms(1) sub_mono [of "Suc h" m K key] by (auto simp: diverges_def)
    then show ?thesis using b 3 by (auto simp: branch_def)
  qed
qed

lemma pstack_below: "diverges K h key \<Longrightarrow> m \<le> Suc h \<Longrightarrow> pstack K m key = []"
proof -
  assume a: "diverges K h key" "m \<le> Suc h"
  have "j \<le> h \<Longrightarrow> sub K j key = {}" for j using a(1) sub_mono [of j h K key] by (auto simp: diverges_def)
  then show "pstack K m key = []" using a(2) by (cases m) (auto simp: branch_def)
qed

lemma cslot_insert:
  assumes "diverges K h key" "m \<le> 40"
  shows "cslot (insert key K) m key =
    (if m \<le> h then chain key
     else if pstack K m key = [] then node_ref (node_id h key) else cslot K m key)"
  using assms(2)
proof (induction m)
  case 0
  then show ?case by simp
next
  case (Suc m)
  have m: "m < 40" "m \<le> 40" using Suc.prems by auto
  consider "Suc m \<le> h" | "m = h" | "h < m" by linarith
  then show ?case
  proof cases
    case 1
    then have "sub K (Suc m) key = {}"
      using assms(1) sub_mono [of "Suc m" h K key] by (auto simp: diverges_def)
    then have "sub (insert key K) (Suc m) key = {key}" by (simp add: sub_insert_key)
    then show ?thesis using 1 Suc.prems by (simp add: cslot_single)
  next
    case 2
    then show ?thesis using branch_insert [OF assms(1) m(1)] pstack_below [OF assms(1), of "Suc m"]
      by (simp add: cslot.simps(2))
  next
    case 3
    have s: "sub K m key \<noteq> {}" using assms(1) sub_mono [of "Suc h" m K key] 3 by (auto simp: diverges_def)
    then have s': "sub (insert key K) m key \<noteq> {}" by (simp add: sub_insert_key)
    show ?thesis
      using branch_insert [OF assms(1) m(1)] 3 s s' Suc.IH m by (simp add: cslot.simps(2))
  qed
qed

lemma cslot_above:
  "diverges K h key \<Longrightarrow> h < m \<Longrightarrow> m \<le> 40 \<Longrightarrow> pstack K m key = [] \<Longrightarrow> cslot K m key = cslot K h (flip_bit h key)"
proof (induction m)
  case 0
  then show ?case by simp
next
  case (Suc m)
  show ?case
  proof (cases "m = h")
    case True
    then show ?thesis using Suc.prems by (auto simp: cslot.simps(2) diverges_def branch_def)
  next
    case False
    then have "h < m" using Suc.prems by simp
    then have s: "sub K m key \<noteq> {}"
      using Suc.prems(1) sub_mono [of "Suc h" m K key] by (auto simp: diverges_def)
    then have nb: "\<not> branch K m key" using Suc.prems(4) by auto
    then show ?thesis using Suc s \<open>h < m\<close> by (simp add: cslot.simps(2))
  qed
qed

lemma prepr_diverges:
  "diverges K h key \<Longrightarrow> h < m \<Longrightarrow> m \<le> 40 \<Longrightarrow> prepr K m key = cslot K h (flip_bit h key)"
proof (induction m)
  case 0
  then show ?case by simp
next
  case (Suc m)
  show ?case
  proof (cases "m = h")
    case True
    then show ?thesis using Suc.prems by (auto simp: cslot.simps(2) diverges_def branch_def)
  next
    case False
    then have "h < m" using Suc.prems by simp
    then have "sub K m key \<noteq> {}"
      using Suc.prems(1) sub_mono [of "Suc h" m K key] by (auto simp: diverges_def)
    then show ?thesis using Suc \<open>h < m\<close> by simp
  qed
qed

lemma prepr_present: "key \<in> K \<Longrightarrow> prepr K m key = chain key"
proof (induction m)
  case (Suc m)
  then have "sub K m key \<noteq> {}" by (auto simp: sub_def)
  then show ?case using Suc by simp
qed simp

end
