(* ===== verification/Scone_Smt_Canon.thy ===== *)
theory Scone_Smt_Canon
  imports Scone_Smt_Path
begin

text \<open>
  Correctness of \<^verbatim>\<open>Smt::insert\<close> and \<^verbatim>\<open>Smt::remove\<close>. The physical tree (branch nodes, slots,
  hashes, cached root) is a function of the key set and the leaf hashes: \<open>canon\<close> says so,
  every operation keeps it without ever panicking, and two canonical trees with the same
  content are equal.
\<close>

section \<open>Changing the tree along one path\<close>

lemma lslot_cong: "m < 40 \<Longrightarrow> agree (Suc m) k k' \<Longrightarrow> lslot K m k = lslot K m k'"
  unfolding lslot_def by (rule cslot_cong) (auto simp: agree_iff bit_flip le_eq_less_or_eq [of m] Suc_le_eq)

lemma rslot_cong: "m < 40 \<Longrightarrow> agree (Suc m) k k' \<Longrightarrow> rslot K m k = rslot K m k'"
  unfolding rslot_def by (rule cslot_cong) (auto simp: agree_iff bit_flip le_eq_less_or_eq [of m] Suc_le_eq)

lemma struct_ok_change:
  assumes ok: "struct_ok K nodes" and key: "k40 key"
    and K': "\<forall>k. k \<noteq> key \<longrightarrow> (k \<in> K \<longleftrightarrow> k \<in> K')"
    and path: "\<forall>m<40. map_option slots (fmlookup nodes' (node_id m key)) =
      (if branch K' m key then Some (lslot K' m key, rslot K' m key) else None)"
    and off: "\<forall>x. (\<forall>m<40. x \<noteq> node_id m key) \<longrightarrow> fmlookup nodes' x = fmlookup nodes x"
  shows "struct_ok K' nodes'"
  unfolding struct_ok_def
proof (intro conjI allI impI)
  fix m :: nat and k assume m: "m < 40" and k: "k40 k"
  show "map_option slots (fmlookup nodes' (node_id m k)) =
    (if branch K' m k then Some (lslot K' m k, rslot K' m k) else None)"
  proof (cases "agree (Suc m) k key")
    case True
    then show ?thesis
      using path m node_id_cong [OF True] branch_cong [OF m True, of K'] lslot_cong [OF m True, of K']
        rslot_cong [OF m True, of K'] by simp
  next
    case False
    have "node_id m k \<noteq> node_id m' key" if "m' < 40" for m'
      using False m k key that by (auto simp: node_id_inject)
    then have "fmlookup nodes' (node_id m k) = fmlookup nodes (node_id m k)" using off by blast
    moreover have same: "k' \<in> K \<longleftrightarrow> k' \<in> K'" if "agree (Suc m) k' k" for k'
      using K' that False by (cases "k' = key") (auto dest: iffD1 [OF agree_sym])
    then have loc: "\<forall>k'. agree m k' j \<longrightarrow> (k' \<in> K \<longleftrightarrow> k' \<in> K')" if "agree (Suc m) j k" for j
      using that by (meson agree_mono agree_trans lessI less_imp_le)
    have "sub K m j = sub K' m j" "cslot K m j = cslot K' m j" if "agree (Suc m) j k" for j
      using loc [OF that] m by (auto simp: sub_def intro: cslot_local)
    then have "branch K' m k = branch K m k" "lslot K' m k = lslot K m k" "rslot K' m k = rslot K m k"
      using m by (auto simp: branch_def lslot_def rslot_def)
    ultimately show ?thesis using ok m k by (simp add: struct_ok_def)
  qed
next
  fix x n assume x: "fmlookup nodes' x = Some n"
  show "\<exists>m k. m < 40 \<and> k40 k \<and> x = node_id m k"
  proof (cases "\<forall>m<40. x \<noteq> node_id m key")
    case True
    then show ?thesis using ok x off by (auto simp: struct_ok_def)
  next
    case False
    then show ?thesis using key by blast
  qed
qed

lemma hash_ok_change:
  assumes ok: "hash_ok cr lf nodes (\<lambda>_ _. True)" and key: "k40 key"
    and lf: "\<forall>k. k \<noteq> key \<longrightarrow> lf' k = lf k"
    and off: "\<forall>x. (\<forall>m<40. x \<noteq> node_id m key) \<longrightarrow> fmlookup nodes' x = fmlookup nodes x"
  shows "hash_ok cr lf' nodes' (\<lambda>m k. \<not> agree (Suc m) k key)"
  unfolding hash_ok_def
proof (intro allI impI)
  fix m k n
  assume a: "m < 40" "k40 k" "\<not> agree (Suc m) k key" "fmlookup nodes' (node_id m k) = Some n"
  have "node_id m k \<noteq> node_id m' key" if "m' < 40" for m'
    using a key that by (auto simp: node_id_inject)
  then have "fmlookup nodes (node_id m k) = Some n" using off a(4) by auto
  then have "bn_hash n = rhash cr lf (Suc m) k" using ok a(1,2) by (auto simp: hash_ok_def)
  also have "\<dots> = rhash cr lf' (Suc m) k"
  proof (rule rhash_local, use a(1) in simp, intro allI impI)
    fix k' assume "agree (Suc m) k' k"
    then have "k' \<noteq> key" using a(3) agree_sym by blast
    then show "lf k' = lf' k'" using lf by simp
  qed
  finally show "bn_hash n = rhash cr lf' (Suc m) k" .
qed

definition set_side :: "u64 \<Rightarrow> nat \<Rightarrow> u64 \<Rightarrow> branch_node \<Rightarrow> branch_node" where
  "set_side key m val n = (if bit key m then n\<lparr>bn_right := val\<rparr> else n\<lparr>bn_left := val\<rparr>)"

lemma slots_set_side:
  "slots (set_side key m val n) = (if bit key m then (bn_left n, val) else (val, bn_right n))"
  by (simp add: set_side_def slots_def)

text \<open>Writing the slot where a descent ended.\<close>

lemma write_slot_path:
  assumes "m0 < 40" "fmlookup (sm_nodes t) (node_id m0 key) = Some n"
  shows "write_slot (SlotChild (node_id m0 key) (path_bit 40 key (39 - m0))) val t
    = Some (t\<lparr>sm_nodes := fmupd (node_id m0 key) (set_side key m0 val n) (sm_nodes t)\<rparr>)"
  using assms by (simp add: set_side_def path_bit_height)

lemma node_id_path_inject: "m < 40 \<Longrightarrow> m' < 40 \<Longrightarrow> k40 key \<Longrightarrow> node_id m key = node_id m' key \<longleftrightarrow> m = m'"
  by (auto simp: node_id_inject)

lemma lr_slot_key:
  "lslot K m key = (if bit key m then cslot K m (flip_bit m key) else cslot K m key)"
  "rslot K m key = (if bit key m then cslot K m key else cslot K m (flip_bit m key))"
  by (simp_all add: lslot_def rslot_def)

lemma cslot_insert_flip:
  "m < 40 \<Longrightarrow> cslot (insert key K) m (flip_bit m key) = cslot K m (flip_bit m key)"
  by (rule cslot_local) (auto dest: iffD1 [OF agree_sym])

lemma path_slots:
  assumes "struct_ok K nodes" "m < 40" "k40 key"
  shows "map_option slots (fmlookup nodes (node_id m key)) =
    (if branch K m key then Some (lslot K m key, rslot K m key) else None)"
  using assms by (simp add: struct_ok_def)

text \<open>The lowest branch point of the path above the divergence.\<close>

lemma pstack_parent:
  assumes "diverges K h key" "branch K m key" "m < 40" "pstack K m key = []"
    "branch K m' key" "m' < 40" "pstack K m' key = []"
  shows "m = m'"
  using pstack_nonempty [OF assms(2), of m'] pstack_nonempty [OF assms(5), of m] assms
  by (meson less_imp_le linorder_neqE_nat)

lemma diverges_branch_above: "diverges K h key \<Longrightarrow> branch K m key \<Longrightarrow> h < m"
  using sub_mono [of m h K key] by (fastforce simp: diverges_def branch_def not_less [symmetric])

lemma cslot_off_insert:
  assumes "diverges K h key" "branch K m key" "m < 40"
  shows "cslot (insert key K) m key =
    (if pstack K m key = [] then node_ref (node_id h key) else cslot K m key)"
  using cslot_insert [OF assms(1), of m] diverges_branch_above [OF assms(1,2)] assms(3) by simp

text \<open>The slots of the path's nodes, before and after the key joins the tree.\<close>

lemma slots_insert_at:
  assumes "diverges K h key" "m < 40" "m \<noteq> h"
  shows "(if branch (insert key K) m key
      then Some (lslot (insert key K) m key, rslot (insert key K) m key) else None) =
    (if branch K m key then
       (let x = (if pstack K m key = [] then node_ref (node_id h key) else cslot K m key);
            y = cslot K m (flip_bit m key)
        in Some (if bit key m then (y, x) else (x, y)))
     else None)"
  using branch_insert [OF assms(1,2)] assms cslot_off_insert [OF assms(1)]
  by (auto simp: lr_slot_key cslot_insert_flip Let_def)

lemma slots_insert_new:
  assumes "diverges K h key"
  shows "(if branch (insert key K) h key
      then Some (lslot (insert key K) h key, rslot (insert key K) h key) else None) =
    Some (if bit key h then (cslot K h (flip_bit h key), chain key)
      else (chain key, cslot K h (flip_bit h key)))"
proof -
  have h: "h < 40" "h \<le> 40" using assms by (auto simp: diverges_def)
  then show ?thesis
    using branch_insert [OF assms, of h] cslot_insert [OF assms, of h]
    by (simp add: lr_slot_key cslot_insert_flip)
qed

definition off_path :: "u64 \<Rightarrow> smt \<Rightarrow> smt \<Rightarrow> bool" where
  "off_path key t t' \<longleftrightarrow>
     (\<forall>x. (\<forall>m<40. x \<noteq> node_id m key) \<longrightarrow> fmlookup (sm_nodes t') x = fmlookup (sm_nodes t) x)"

lemma new_branch_ok:
  assumes s: "struct_ok K (sm_nodes t)" and dv: "diverges K h key"
    and rc: "root_child t = cslot K 40 key"
    and lr: "(l, r) = (if bit key h then (cslot K h (flip_bit h key), chain key)
      else (chain key, cslot K h (flip_bit h key)))"
  shows "\<exists>t'. new_branch t cr (pslot SlotRoot (pstack K 40 key)) (node_id h key) l r = Some t'
    \<and> struct_ok (insert key K) (sm_nodes t') \<and> same_leaves t t' \<and> off_path key t t'
    \<and> root_child t' = cslot (insert key K) 40 key"
proof -
  have h: "h < 40" "k40 key" using dv by (auto simp: diverges_def)
  let ?np = "node_id h key" and ?nn = "\<lparr>bn_hash = empty_leaf cr, bn_left = l, bn_right = r\<rparr>"
  have nn: "slots ?nn = (l, r)" by (simp add: slots_def)
  define t1 where "t1 = t\<lparr>sm_nodes := fmupd ?np ?nn (sm_nodes t), dirty_nodes := dirty_nodes t @ [?np]\<rparr>"
  have root: "cslot (insert key K) 40 key =
      (if pstack K 40 key = [] then node_ref ?np else cslot K 40 key)"
    using cslot_insert [OF dv, of 40] h by simp
  have at: "map_option slots (fmlookup (sm_nodes t1) (node_id m key)) =
      (if m = h then Some (l, r)
       else if branch K m key then Some (lslot K m key, rslot K m key) else None)" if "m < 40" for m
    using that h path_slots [OF s that h(2)] nn by (auto simp: t1_def node_id_path_inject)
  have struct: "struct_ok (insert key K) nodes'"
    if "\<forall>m<40. map_option slots (fmlookup nodes' (node_id m key)) =
        (if branch (insert key K) m key
         then Some (lslot (insert key K) m key, rslot (insert key K) m key) else None)"
      "\<forall>x. (\<forall>m<40. x \<noteq> node_id m key) \<longrightarrow> fmlookup nodes' x = fmlookup (sm_nodes t) x" for nodes'
    using that h by (intro struct_ok_change [OF s]) auto
  show ?thesis
  proof (cases "pstack K 40 key = []")
    case True
    define t' where "t' = t1\<lparr>root_child := node_ref ?np\<rparr>"
    have nb: "\<not> branch K m key" if "m < 40" for m using pstack_nonempty [of K m key 40] True that by auto
    have "struct_ok (insert key K) (sm_nodes t')"
    proof (rule struct)
      show "\<forall>m<40. map_option slots (fmlookup (sm_nodes t') (node_id m key)) =
        (if branch (insert key K) m key
         then Some (lslot (insert key K) m key, rslot (insert key K) m key) else None)"
      proof (intro allI impI)
        fix m :: nat assume m: "m < 40"
        show "map_option slots (fmlookup (sm_nodes t') (node_id m key)) =
          (if branch (insert key K) m key
           then Some (lslot (insert key K) m key, rslot (insert key K) m key) else None)"
        proof (cases "m = h")
          case True
          show ?thesis unfolding True slots_insert_new [OF dv] using at [OF m] True lr
            by (simp add: t'_def)
        next
          case False
          then show ?thesis using at [OF m] slots_insert_at [OF dv m False] nb [OF m]
            by (simp add: t'_def)
        qed
      qed
      show "\<forall>x. (\<forall>m<40. x \<noteq> node_id m key) \<longrightarrow> fmlookup (sm_nodes t') x = fmlookup (sm_nodes t) x"
        using h by (auto simp: t'_def t1_def)
    qed
    moreover have "new_branch t cr (pslot SlotRoot (pstack K 40 key)) ?np l r = Some t'"
      using True by (simp add: new_branch_def pslot_def t'_def t1_def)
    ultimately show ?thesis using root True h
      by (intro exI [of _ t']) (auto simp: t'_def t1_def same_leaves_def off_path_def)
  next
    case False
    obtain m0 where m0: "m0 < 40" "branch K m0 key" "pstack K m0 key = []"
      "last (pstack K 40 key) = (node_id m0 key, path_bit 40 key (39 - m0))"
      using pstack_last [OF False] by blast
    have hm: "h < m0" using diverges_branch_above [OF dv m0(2)] .
    obtain n where n: "fmlookup (sm_nodes t) (node_id m0 key) = Some n"
      "bn_left n = lslot K m0 key" "bn_right n = rslot K m0 key"
      using struct_ok_branch [OF s m0(1) h(2) m0(2)] by blast
    define t' where "t' = t1\<lparr>sm_nodes :=
      fmupd (node_id m0 key) (set_side key m0 (node_ref ?np) n) (sm_nodes t1)\<rparr>"
    have n1: "fmlookup (sm_nodes t1) (node_id m0 key) = Some n"
      using n hm m0 h by (simp add: t1_def node_id_path_inject)
    have "new_branch t cr (pslot SlotRoot (pstack K 40 key)) ?np l r =
        write_slot (SlotChild (node_id m0 key) (path_bit 40 key (39 - m0))) (node_ref ?np) t1"
      using False m0 by (simp add: new_branch_def pslot_def t1_def del: write_slot.simps)
    then have w: "new_branch t cr (pslot SlotRoot (pstack K 40 key)) ?np l r = Some t'"
      unfolding write_slot_path [OF m0(1) n1] t'_def .
    have one: "m = m0" if "branch K m key" "m < 40" "pstack K m key = []" for m
      using pstack_parent [OF dv that m0(2,1,3)] .
    have "struct_ok (insert key K) (sm_nodes t')"
    proof (rule struct)
      show "\<forall>m<40. map_option slots (fmlookup (sm_nodes t') (node_id m key)) =
        (if branch (insert key K) m key
         then Some (lslot (insert key K) m key, rslot (insert key K) m key) else None)"
      proof (intro allI impI)
        fix m :: nat assume m: "m < 40"
        have l: "map_option slots (fmlookup (sm_nodes t') (node_id m key)) =
            (if m = m0 then Some (slots (set_side key m0 (node_ref ?np) n))
             else map_option slots (fmlookup (sm_nodes t1) (node_id m key)))"
          using m m0(1) h by (simp add: t'_def node_id_path_inject)
        show "map_option slots (fmlookup (sm_nodes t') (node_id m key)) =
          (if branch (insert key K) m key
           then Some (lslot (insert key K) m key, rslot (insert key K) m key) else None)"
        proof (cases "m = h")
          case True
          then show ?thesis using l hm at [OF m] slots_insert_new [OF dv] lr by auto
        next
          case False
          have ne: "pstack K m key \<noteq> []" if "m \<noteq> m0" "branch K m key" using that one [of m] m by auto
          show ?thesis unfolding slots_insert_at [OF dv m False] l at [OF m] slots_set_side
            using False ne m0(2,3) n(2,3) by (cases "m = m0") (simp_all add: lr_slot_key Let_def)
        qed
      qed
      show "\<forall>x. (\<forall>m<40. x \<noteq> node_id m key) \<longrightarrow> fmlookup (sm_nodes t') x = fmlookup (sm_nodes t) x"
        using h m0 by (auto simp: t'_def t1_def)
    qed
    then show ?thesis using w root False rc h m0
      by (intro exI [of _ t']) (auto simp: t'_def t1_def same_leaves_def off_path_def)
  qed
qed

section \<open>Where two keys part\<close>

lemma clz_from_high:
  "h < n \<Longrightarrow> bit x h \<Longrightarrow> \<forall>j. h < j \<and> j < n \<longrightarrow> \<not> bit x j \<Longrightarrow> clz_from n x = n - 1 - h"
proof (induction n)
  case 0
  then show ?case by simp
next
  case (Suc n)
  show ?case
  proof (cases "h = n")
    case True
    then show ?thesis using Suc.prems by simp
  next
    case False
    then have "h < n" using Suc.prems by simp
    then show ?thesis using Suc by simp
  qed
qed

lemma leading_zeros64_high:
  "h < 64 \<Longrightarrow> bit x h \<Longrightarrow> \<forall>j>h. \<not> bit x j \<Longrightarrow> 63 - leading_zeros64 x = h"
  by (simp add: leading_zeros64_def clz_from_high)

lemma divergence_depth_eq:
  assumes "h < 40" "agree (Suc h) k key" "\<not> agree h k key"
  shows "divergence_depth k key = 39 - h"
proof -
  have "bit k h \<noteq> bit key h" using assms(2,3) by (auto simp: agree_Suc [of h])
  then have "bit (k XOR key) h" "\<forall>j>h. \<not> bit (k XOR key) j"
    using assms(2) by (auto simp: bit_xor_iff agree_iff)
  then have "63 - leading_zeros64 (k XOR key) = h" using assms(1) by (intro leading_zeros64_high) auto
  then show ?thesis by (simp add: divergence_depth_def Let_def)
qed

lemma prefix_divergence:
  assumes "h < 40" "m' < h" "agree (Suc h) k key" "\<not> agree h k key"
  shows "63 - leading_zeros64 (drop_bit (Suc m') key XOR drop_bit (Suc m') k) = h - Suc m'"
proof (rule leading_zeros64_high)
  show "h - Suc m' < 64" using assms by simp
  have "bit k h \<noteq> bit key h" using assms(3,4) by (auto simp: agree_Suc [of h])
  then show "bit (drop_bit (Suc m') key XOR drop_bit (Suc m') k) (h - Suc m')"
    using assms(2) by (simp add: bit_xor_iff bit_drop_bit_eq)
  show "\<forall>j>h - Suc m'. \<not> bit (drop_bit (Suc m') key XOR drop_bit (Suc m') k) j"
    using assms(2,3) by (auto simp: bit_xor_iff bit_drop_bit_eq agree_iff)
qed

lemma insert_struct_ok:
  assumes s: "struct_ok K (sm_nodes t)" and b: "\<forall>k\<in>K. k40 k" and dv: "diverges K h key"
    and rc: "root_child t = cslot K 40 key"
  shows "\<exists>t'. insert_struct cr t key (pslot SlotRoot (pstack K 40 key)) (prepr K 40 key) = Some t'
    \<and> struct_ok (insert key K) (sm_nodes t') \<and> same_leaves t t' \<and> off_path key t t'
    \<and> root_child t' = cslot (insert key K) 40 key"
proof -
  have h: "h < 40" "h \<le> 40" "k40 key" "sub K h (flip_bit h key) \<noteq> {}" "k40 (flip_bit h key)"
    using dv by (auto simp: diverges_def sub_Suc)
  let ?o = "cslot K h (flip_bit h key)"
  have pr: "prepr K 40 key = ?o" using prepr_diverges [OF dv, of 40] h by simp
  have part: "agree (Suc h) k key" "\<not> agree h k key" if "agree h k (flip_bit h key)" for k
    using that h(1) by (auto simp: agree_iff bit_flip)
  have bk: "path_bit 40 key (39 - h) = 0 \<longleftrightarrow> \<not> bit key h" using h(1) by (rule path_bit_height)
  define l r where "l = (if bit key h then ?o else chain key)" "r = (if bit key h then chain key else ?o)"
  have ok: "\<exists>t'. new_branch t cr (pslot SlotRoot (pstack K 40 key)) (node_id h key) l r = Some t'
    \<and> struct_ok (insert key K) (sm_nodes t') \<and> same_leaves t t' \<and> off_path key t t'
    \<and> root_child t' = cslot (insert key K) 40 key"
    by (rule new_branch_ok [OF s dv rc]) (simp add: l_r_def)
  from h(2,5) b show ?thesis
  proof (cases rule: cslot_form)
    case empty
    then show ?thesis using h by simp
  next
    case (chain k)
    have k: "k40 k" "k \<noteq> key" using chain b part [of k] by auto
    have d: "divergence_depth k key = 39 - h" using part chain(2) h(1) by (intro divergence_depth_eq)
    have "bit k h \<noteq> bit key h" using part [OF chain(2)] by (auto simp: agree_Suc [of h])
    then have "insert_struct cr t key (pslot SlotRoot (pstack K 40 key)) (prepr K 40 key)
        = new_branch t cr (pslot SlotRoot (pstack K 40 key)) (node_id h key) l r"
      unfolding insert_struct_def pr chain(4) using k h(1)
      by (simp add: d path_bit_height l_r_def chain(4) Let_def node_id_def)
    then show ?thesis using ok by simp
  next
    case (node m' k)
    have "63 - leading_zeros64 (drop_bit (Suc m') key XOR drop_bit (Suc m') k) = h - Suc m'"
      using part [OF node(3)] node(1) h(1) by (intro prefix_divergence)
    moreover have "40 - (39 - m') = Suc m'" "39 - m' - 1 - (h - Suc m') = 39 - h"
      using node(1) h(1) by auto
    ultimately have "insert_struct cr t key (pslot SlotRoot (pstack K 40 key)) (prepr K 40 key)
        = new_branch t cr (pslot SlotRoot (pstack K 40 key)) (node_id h key) l r"
      unfolding insert_struct_def pr node(5) using node(1,2) h(1)
      by (simp add: bk l_r_def node(5) Let_def node_id_def)
    then show ?thesis using ok by simp
  qed
qed

section \<open>Leaves and buckets\<close>

definition smt_keys :: "smt \<Rightarrow> u64 set" where
  "smt_keys t = fset (fmdom (sm_leaves t)) \<union> fset (fmdom (sm_buckets t))"

definition leaves_wf :: "smt \<Rightarrow> bool" where
  "leaves_wf t \<longleftrightarrow> (\<forall>k\<in>smt_keys t. k40 k)
     \<and> fset (fmdom (sm_leaves t)) \<inter> fset (fmdom (sm_buckets t)) = {}
     \<and> (\<forall>k v. fmlookup (sm_buckets t) k = Some v \<longrightarrow> sorted_wrt (<) v \<and> 2 \<le> length v)"

text \<open>The abstract content of the tree: the set of entry leaves of every key.\<close>

definition content :: "smt \<Rightarrow> u64 \<Rightarrow> hash32 set" where
  "content t k = (case fmlookup (sm_buckets t) k of
      Some v \<Rightarrow> set v
    | None \<Rightarrow> (case fmlookup (sm_leaves t) k of Some h \<Rightarrow> {h} | None \<Rightarrow> {}))"

lemma smt_keys_iff: "k \<in> smt_keys t \<longleftrightarrow> fmlookup (sm_leaves t) k \<noteq> None \<or> fmlookup (sm_buckets t) k \<noteq> None"
  by (auto simp: smt_keys_def fmlookup_dom_iff)

lemma bucket_root_absent: "k \<notin> smt_keys t \<Longrightarrow> bucket_root cr t k = empty_leaf cr"
  by (simp add: smt_keys_iff bucket_root_def)

lemma content_empty_iff: "leaves_wf t \<Longrightarrow> content t k = {} \<longleftrightarrow> k \<notin> smt_keys t"
  by (fastforce simp: content_def smt_keys_iff leaves_wf_def split: option.splits)

lemma leaves_wf_dom:
  "leaves_wf t \<Longrightarrow> fmlookup (sm_buckets t) k = Some v \<Longrightarrow> fmlookup (sm_leaves t) k = None"
  unfolding leaves_wf_def by (metis IntI empty_iff fmdomI fmdom_notD)

lemma same_leaves_keys: "same_leaves t t' \<Longrightarrow> smt_keys t' = smt_keys t"
  by (simp add: same_leaves_def smt_keys_def)

lemma same_leaves_content: "same_leaves t t' \<Longrightarrow> content t' = content t"
  by (rule ext) (auto simp: same_leaves_def content_def split: option.splits)

lemma same_leaves_wf: "same_leaves t t' \<Longrightarrow> leaves_wf t' = leaves_wf t"
  by (simp add: same_leaves_def leaves_wf_def smt_keys_def)

lemma leaves_wf_iff:
  "leaves_wf t \<longleftrightarrow>
     (\<forall>k. fmlookup (sm_leaves t) k \<noteq> None \<or> fmlookup (sm_buckets t) k \<noteq> None \<longrightarrow> k40 k)
     \<and> (\<forall>k. fmlookup (sm_leaves t) k = None \<or> fmlookup (sm_buckets t) k = None)
     \<and> (\<forall>k v. fmlookup (sm_buckets t) k = Some v \<longrightarrow> sorted_wrt (<) v \<and> 2 \<le> length v)"
proof -
  have "fset (fmdom (sm_leaves t)) \<inter> fset (fmdom (sm_buckets t)) = {}
    \<longleftrightarrow> (\<forall>k. fmlookup (sm_leaves t) k = None \<or> fmlookup (sm_buckets t) k = None)"
    unfolding disjoint_iff fmlookup_dom_iff by (metis not_None_eq)
  moreover have "(\<forall>k\<in>smt_keys t. k40 k)
    \<longleftrightarrow> (\<forall>k. fmlookup (sm_leaves t) k \<noteq> None \<or> fmlookup (sm_buckets t) k \<noteq> None \<longrightarrow> k40 k)"
    by (simp add: smt_keys_iff Ball_def)
  ultimately show ?thesis unfolding leaves_wf_def by (simp only:)
qed

lemma insert_leaf_ok:
  assumes wf: "leaves_wf t" and key: "k40 key" and r: "insert_leaf t key leaf = (touched, t1)"
  shows "touched \<longleftrightarrow> leaf \<notin> content t key" "\<not> touched \<Longrightarrow> t1 = t" "leaves_wf t1"
    "content t1 = (content t)(key := insert leaf (content t key))"
    "sm_nodes t1 = sm_nodes t" "root_child t1 = root_child t" "root_hash t1 = root_hash t"
    "\<forall>k. k \<noteq> key \<longrightarrow> bucket_root cr t1 k = bucket_root cr t k"
proof -
  have sorted2: "h \<noteq> leaf \<Longrightarrow> sorted_wrt (<) (sort [h, leaf]) \<and> set (sort [h, leaf]) = {h, leaf}" for h
    by auto
  consider (bin) v i where "fmlookup (sm_buckets t) key = Some v" "binary_search v leaf = Inr i"
    | (badd) v i where "fmlookup (sm_buckets t) key = Some v" "binary_search v leaf = Inl i"
    | (same) "fmlookup (sm_buckets t) key = None" "fmlookup (sm_leaves t) key = Some leaf"
    | (two) h where "fmlookup (sm_buckets t) key = None" "fmlookup (sm_leaves t) key = Some h" "h \<noteq> leaf"
    | (new) "fmlookup (sm_buckets t) key = None" "fmlookup (sm_leaves t) key = None"
    by (cases "fmlookup (sm_buckets t) key"; cases "fmlookup (sm_leaves t) key";
        cases "binary_search (the (fmlookup (sm_buckets t) key)) leaf") auto
  note cs = this
  have all: "(touched \<longleftrightarrow> leaf \<notin> content t key) \<and> (\<not> touched \<longrightarrow> t1 = t) \<and> leaves_wf t1
    \<and> content t1 = (content t)(key := insert leaf (content t key))
    \<and> sm_nodes t1 = sm_nodes t \<and> root_child t1 = root_child t \<and> root_hash t1 = root_hash t
    \<and> (\<forall>k. k \<noteq> key \<longrightarrow> bucket_root cr t1 k = bucket_root cr t k)"
    using cs
  proof cases
    case bin
    have "leaf \<in> set v" using binary_search_found [OF bin(2)] by auto
    then show ?thesis using r bin wf by (auto simp: insert_leaf_def content_def fun_eq_iff)
  next
    case badd
    have v: "sorted_wrt (<) v" "2 \<le> length v" using wf badd(1) by (auto simp: leaves_wf_def)
    have ni: "leaf \<notin> set v" using binary_search_mem [OF v(1), of leaf] badd(2) by auto
    have sv: "sorted_wrt (<) (vec_insert i leaf v)" using badd(2) v(1) by (rule sorted_vec_insert)
    have t1: "t1 = t\<lparr>sm_buckets := fmupd key (vec_insert i leaf v) (sm_buckets t)\<rparr>" "touched"
      using r badd by (auto simp: insert_leaf_def)
    have "leaves_wf t1"
      using wf sv v key leaves_wf_dom [OF wf badd(1)] unfolding leaves_wf_iff t1 by simp
    then show ?thesis using t1 badd(1) ni
      by (auto simp: content_def bucket_root_def fun_eq_iff cong: option.case_cong)
  next
    case same
    then show ?thesis using r wf by (auto simp: insert_leaf_def content_def fun_eq_iff)
  next
    case two
    have t1: "t1 = t\<lparr>sm_buckets := fmupd key (sort [h, leaf]) (sm_buckets t),
        sm_leaves := fmdrop key (sm_leaves t)\<rparr>" "touched"
      using r two by (auto simp: insert_leaf_def)
    have "leaves_wf t1"
      using wf sorted2 [OF two(3)] key linorder_linear [of h leaf] two(3) unfolding leaves_wf_iff t1
      by (simp add: order.strict_iff_order) blast
    then show ?thesis using t1 two
      by (auto simp: content_def bucket_root_def fun_eq_iff cong: option.case_cong)
  next
    case new
    have t1: "t1 = t\<lparr>sm_leaves := fmupd key leaf (sm_leaves t)\<rparr>" "touched"
      using r new by (auto simp: insert_leaf_def)
    have "leaves_wf t1"
      using wf key new(1) unfolding leaves_wf_iff t1 by simp
    then show ?thesis using t1 new
      by (auto simp: content_def bucket_root_def fun_eq_iff cong: option.case_cong)
  qed
  then show "touched \<longleftrightarrow> leaf \<notin> content t key" "\<not> touched \<Longrightarrow> t1 = t" "leaves_wf t1"
    "content t1 = (content t)(key := insert leaf (content t key))"
    "sm_nodes t1 = sm_nodes t" "root_child t1 = root_child t" "root_hash t1 = root_hash t"
    "\<forall>k. k \<noteq> key \<longrightarrow> bucket_root cr t1 k = bucket_root cr t k"
    by blast+
qed

section \<open>The invariant\<close>

definition canon :: "crypto \<Rightarrow> smt \<Rightarrow> bool" where
  "canon cr t \<longleftrightarrow> leaves_wf t \<and> struct_ok (smt_keys t) (sm_nodes t)
     \<and> hash_ok cr (bucket_root cr t) (sm_nodes t) (\<lambda>_ _. True)
     \<and> root_child t = cslot (smt_keys t) 40 0
     \<and> root_hash t = (if smt_keys t = {} then None else Some (rhash cr (bucket_root cr t) 40 0))"

lemma k40_0 [simp]: "k40 0" by (simp add: k40_def)

lemma cslot_root: "k40 key \<Longrightarrow> cslot K 40 0 = cslot K 40 key"
  by (rule cslot_cong) (auto intro: agree_top)

lemma rhash_root: "k40 key \<Longrightarrow> rhash cr lf 40 0 = rhash cr lf 40 key"
  by (rule rhash_cong) (auto intro: agree_top)

lemma canon_new: "canon cr smt_new"
proof -
  have "sub {} m k = {}" for m k by (simp add: sub_def)
  then show ?thesis
    by (auto simp: canon_def smt_new_def leaves_wf_def smt_keys_def struct_ok_def hash_ok_def branch_def)
qed

lemma recompute_from_canon:
  assumes "leaves_wf t" "struct_ok (smt_keys t) (sm_nodes t)" "k40 key" "d \<le> 40"
    "sub (smt_keys t) (40 - d) key \<noteq> {}"
    "hash_ok cr (bucket_root cr t) (sm_nodes t) (\<lambda>m k. \<not> agree (Suc m) k key \<or> m < 40 - d)"
    "root_child t = cslot (smt_keys t) 40 0"
  shows "\<exists>t'. recompute_from cr t key (rhash cr (bucket_root cr t) (40 - d) key) d = Some t'
    \<and> canon cr t' \<and> content t' = content t"
proof -
  have k: "\<forall>k\<in>smt_keys t. k40 k" using assms(1) by (simp add: leaves_wf_def)
  have e: "\<forall>k. k \<notin> smt_keys t \<longrightarrow> bucket_root cr t k = empty_leaf cr"
    by (simp add: bucket_root_absent)
  obtain t' where t': "recompute_loop cr key d (rhash cr (bucket_root cr t) (40 - d) key) t
      = Some (t', rhash cr (bucket_root cr t) 40 key)" "struct_ok (smt_keys t) (sm_nodes t')"
    "hash_ok cr (bucket_root cr t) (sm_nodes t') (\<lambda>_ _. True)" "same_leaves t t'"
    "root_child t' = root_child t"
    using recompute_loop_ok [OF assms(2) k e assms(4,3,5,6)] by blast
  define t2 where "t2 = t'\<lparr>root_hash := Some (rhash cr (bucket_root cr t) 40 key)\<rparr>"
  have sl: "same_leaves t t2" using t'(4) by (simp add: t2_def same_leaves_def)
  have "smt_keys t \<noteq> {}" using assms(5) by (auto simp: sub_def)
  then have "canon cr t2"
    using t' assms same_leaves_keys [OF sl] bucket_root_same [OF sl, of cr] same_leaves_wf [OF sl]
      rhash_root [OF assms(3), of cr]
    by (auto simp: canon_def t2_def)
  then show ?thesis using t'(1) same_leaves_content [OF sl]
    by (auto simp: recompute_from_def t2_def)
qed

lemma hash_ok_weaken: "hash_ok cr lf nodes P \<Longrightarrow> (\<And>m k. Q m k \<Longrightarrow> P m k) \<Longrightarrow> hash_ok cr lf nodes Q"
  by (auto simp: hash_ok_def)

lemma locate_full_ok:
  assumes "leaves_wf t" "struct_ok (smt_keys t) (sm_nodes t)" "root_child t = cslot (smt_keys t) 40 0" "k40 key"
  shows "locate_full t key = Some (pstack (smt_keys t) 40 key,
    pslot SlotRoot (pstack (smt_keys t) 40 key), prepr (smt_keys t) 40 key)"
  using locate_loop_ok [OF assms(2) _ assms(4), of 40 "[]" SlotRoot] assms cslot_root [OF assms(4)]
  by (simp add: locate_full_def leaves_wf_def)

theorem smt_insert_ok:
  assumes c: "canon cr t" and key: "k40 key"
  shows "\<exists>t'. smt_insert cr t key leaf = Some t' \<and> canon cr t'
    \<and> content t' = (content t)(key := insert leaf (content t key))"
proof -
  obtain touched t1 where il: "insert_leaf t key leaf = (touched, t1)" by (metis surj_pair)
  have wf: "leaves_wf t" using c by (simp add: canon_def)
  note ok = insert_leaf_ok [OF wf key il]
  show ?thesis
  proof (cases touched)
    case False
    then show ?thesis using il ok c by (auto simp: smt_insert_def)
  next
    case True
    define t2 where "t2 = t1\<lparr>dirty_leaves := dirty_leaves t1 @ [key]\<rparr>"
    have sl: "same_leaves t1 t2" by (simp add: t2_def same_leaves_def)
    have n2: "sm_nodes t2 = sm_nodes t" "root_child t2 = root_child t" using ok by (simp_all add: t2_def)
    have c2: "content t2 = (content t)(key := insert leaf (content t key))"
      using same_leaves_content [OF sl] ok(4) by simp
    have wf2: "leaves_wf t2" using same_leaves_wf [OF sl] ok(3) by simp
    have K2: "smt_keys t2 = insert key (smt_keys t)"
    proof (rule set_eqI)
      fix x show "x \<in> smt_keys t2 \<longleftrightarrow> x \<in> insert key (smt_keys t)"
        using content_empty_iff [OF wf2, of x] content_empty_iff [OF wf, of x] c2
        by (cases "x = key") auto
    qed
    have bd: "\<forall>k\<in>smt_keys t. k40 k" using wf by (simp add: leaves_wf_def)
    let ?K = "smt_keys t"
    have st: "struct_ok ?K (sm_nodes t2)" and rc: "root_child t2 = cslot ?K 40 key"
      using c n2 cslot_root [OF key] by (simp_all add: canon_def)
    have lc: "locate t2 key = Some (pslot SlotRoot (pstack ?K 40 key), prepr ?K 40 key)"
      using locate_loop_ok [OF st bd key, of 40 "[]" SlotRoot] rc
      by (simp add: locate_def locate_full_def)
    have "\<exists>t3. insert_struct cr t2 key (pslot SlotRoot (pstack ?K 40 key)) (prepr ?K 40 key) = Some t3
      \<and> struct_ok (insert key ?K) (sm_nodes t3) \<and> same_leaves t2 t3 \<and> off_path key t2 t3
      \<and> root_child t3 = cslot (insert key ?K) 40 key"
    proof (cases "key \<in> ?K")
      case True
      then show ?thesis
        using prepr_present [OF True, of 40] key st rc
        by (auto simp: insert_struct_def insert_absorb same_leaves_def off_path_def)
    next
      case new: False
      show ?thesis
      proof (cases "?K = {}")
        case True
        have "sub {} m k = {}" for m k by (simp add: sub_def)
        then have e: "prepr {} 40 key = EMPTY" "pstack {} 40 key = []"
          by (simp_all add: eval_nat_numeral branch_def)
        have one: "sub {key} m key = {key}" for m by (auto simp: sub_def)
        have nb: "\<not> branch {key} m k" if "m < 40" for m k
          using that by (auto simp: branch_def sub_def) (metis agree_sym agree_trans not_agree_flip)
        have nn: "fmlookup (sm_nodes t2) x = None" for x
          using st True unfolding struct_ok_def by (force simp: branch_def sub_def)
        have "struct_ok {key} (sm_nodes t2)" using nb nn by (simp add: struct_ok_def)
        then show ?thesis using e True cslot_single [OF _ one, of 40]
          by (auto simp: insert_struct_def pslot_def same_leaves_def off_path_def)
      next
        case False
        then obtain h where "diverges ?K h key" using diverges_ex [OF bd key new] by blast
        then show ?thesis using insert_struct_ok [OF st bd _ rc] by blast
      qed
    qed
    then obtain t3 where t3: "insert_struct cr t2 key (pslot SlotRoot (pstack ?K 40 key)) (prepr ?K 40 key) = Some t3"
      "struct_ok (insert key ?K) (sm_nodes t3)" "same_leaves t2 t3" "off_path key t2 t3"
      "root_child t3 = cslot (insert key ?K) 40 key" by blast
    have lf: "\<forall>k. k \<noteq> key \<longrightarrow> bucket_root cr t3 k = bucket_root cr t k"
      using ok(8) bucket_root_same [OF sl] bucket_root_same [OF t3(3)] by simp
    have "hash_ok cr (bucket_root cr t3) (sm_nodes t3) (\<lambda>m k. \<not> agree (Suc m) k key)"
      using c t3(4) n2 by (intro hash_ok_change [OF _ key lf]) (auto simp: canon_def off_path_def)
    then have h3: "hash_ok cr (bucket_root cr t3) (sm_nodes t3) (\<lambda>m k. \<not> agree (Suc m) k key \<or> m < 40 - 40)"
      by (rule hash_ok_weaken) simp
    have K3: "smt_keys t3 = insert key ?K" using same_leaves_keys [OF t3(3)] K2 by simp
    have "\<exists>t'. recompute_from cr t3 key (rhash cr (bucket_root cr t3) (40 - 40) key) 40 = Some t'
      \<and> canon cr t' \<and> content t' = content t3"
      using t3 K3 h3 key wf2 same_leaves_wf [OF t3(3)] cslot_root [OF key]
      by (intro recompute_from_canon) (auto simp: sub_insert_key)
    then show ?thesis
      using il True lc t3(1) c2 same_leaves_content [OF t3(3)]
      by (auto simp: smt_insert_def recompute_def Let_def t2_def)
  qed
qed

end
