(* ===== verification/Scone_Smt_Remove.thy ===== *)
theory Scone_Smt_Remove
  imports Scone_Smt_Canon
begin

text \<open>
  Correctness of \<^verbatim>\<open>Smt::remove\<close>: the collapse of the emptied leaf's branch node, the
  promotion of its sibling and the rehash from the surviving ancestor give back the canonical
  tree of the smaller key set.
\<close>

section \<open>Leaves and buckets\<close>

lemma remove_leaf_ok:
  assumes wf: "leaves_wf t" and r: "remove_leaf t key leaf = (touched, emptied, t1)"
  shows "touched \<longleftrightarrow> leaf \<in> content t key" "\<not> touched \<Longrightarrow> t1 = t" "leaves_wf t1"
    "content t1 = (content t)(key := content t key - {leaf})"
    "emptied \<longleftrightarrow> content t key = {leaf}"
    "sm_nodes t1 = sm_nodes t" "root_child t1 = root_child t" "root_hash t1 = root_hash t"
    "\<forall>k. k \<noteq> key \<longrightarrow> bucket_root cr t1 k = bucket_root cr t k"
proof -
  consider (out) v i where "fmlookup (sm_buckets t) key = Some v" "binary_search v leaf = Inl i"
    | (last) v i where "fmlookup (sm_buckets t) key = Some v" "binary_search v leaf = Inr i"
        "length (vec_remove i v) = 1"
    | (more) v i where "fmlookup (sm_buckets t) key = Some v" "binary_search v leaf = Inr i"
        "length (vec_remove i v) \<noteq> 1"
    | (one) "fmlookup (sm_buckets t) key = None" "fmlookup (sm_leaves t) key = Some leaf"
    | (none) "fmlookup (sm_buckets t) key = None" "fmlookup (sm_leaves t) key \<noteq> Some leaf"
    by (cases "fmlookup (sm_buckets t) key"; cases "fmlookup (sm_leaves t) key = Some leaf";
        cases "binary_search (the (fmlookup (sm_buckets t) key)) leaf") (auto, metis+)
  note cs = this
  have all: "(touched \<longleftrightarrow> leaf \<in> content t key) \<and> (\<not> touched \<longrightarrow> t1 = t) \<and> leaves_wf t1
    \<and> content t1 = (content t)(key := content t key - {leaf})
    \<and> (emptied \<longleftrightarrow> content t key = {leaf})
    \<and> sm_nodes t1 = sm_nodes t \<and> root_child t1 = root_child t \<and> root_hash t1 = root_hash t
    \<and> (\<forall>k. k \<noteq> key \<longrightarrow> bucket_root cr t1 k = bucket_root cr t k)"
    using cs
  proof cases
    case out
    have v: "sorted_wrt (<) v" using wf out(1) by (auto simp: leaves_wf_def)
    have "leaf \<notin> set v" using binary_search_mem [OF v, of leaf] out(2) by auto
    moreover from this have "set v \<noteq> {leaf}" by auto
    ultimately show ?thesis using r out wf by (auto simp: remove_leaf_def content_def fun_eq_iff)
  next
    case last
    have v: "sorted_wrt (<) v" "2 \<le> length v" "k40 key" using wf last(1) by (auto simp: leaves_wf_iff)
    have sv: "sorted_wrt (<) (vec_remove i v)" "set (vec_remove i v) = set v - {leaf}"
      using last(2) v(1) by (auto dest!: binary_search_found simp: sorted_vec_remove)
    obtain x where x: "vec_remove i v = [x]" using last(3) by (metis One_nat_def length_Suc_conv length_0_conv)
    have "leaf \<in> set v" using binary_search_found [OF last(2)] by auto
    moreover have "set v \<noteq> {leaf}" using sv x by auto
    moreover have t1: "t1 = t\<lparr>sm_buckets := fmdrop key (sm_buckets t),
        sm_leaves := fmupd key x (sm_leaves t)\<rparr>" "touched" "\<not> emptied"
      using r last x by (auto simp: remove_leaf_def Let_def)
    moreover have "leaves_wf t1"
      using wf v(3) unfolding leaves_wf_iff t1 by (simp split: if_splits)
    ultimately show ?thesis using last(1) sv x
      by (auto simp: content_def bucket_root_def fun_eq_iff cong: option.case_cong)
  next
    case more
    have v: "sorted_wrt (<) v" "2 \<le> length v" "k40 key" using wf more(1) by (auto simp: leaves_wf_iff)
    have sv: "sorted_wrt (<) (vec_remove i v)" "set (vec_remove i v) = set v - {leaf}"
      using more(2) v(1) by (auto dest!: binary_search_found simp: sorted_vec_remove)
    have i: "i < length v" "v ! i = leaf" using binary_search_found [OF more(2)] by auto
    then have l: "length (vec_remove i v) = length v - 1" by simp
    then have l2: "2 \<le> length (vec_remove i v)" using more(3) v(2) by simp
    have "leaf \<in> set v" using i by auto
    moreover have "set v \<noteq> {leaf}"
    proof
      assume "set v = {leaf}"
      then have "set (vec_remove i v) = {}" using sv(2) by simp
      then show False using l2 by simp
    qed
    moreover have t1: "t1 = t\<lparr>sm_buckets := fmupd key (vec_remove i v) (sm_buckets t)\<rparr>"
        "touched" "\<not> emptied"
      using r more by (auto simp: remove_leaf_def Let_def)
    moreover have "leaves_wf t1"
      using wf v(3) sv(1) l2 leaves_wf_dom [OF wf more(1)] unfolding leaves_wf_iff t1 by simp
    ultimately show ?thesis using more(1) sv
      by (auto simp: content_def bucket_root_def fun_eq_iff cong: option.case_cong)
  next
    case one
    have t1: "t1 = t\<lparr>sm_leaves := fmdrop key (sm_leaves t)\<rparr>" "touched" "emptied"
      using r one by (auto simp: remove_leaf_def)
    have "leaves_wf t1" using wf unfolding leaves_wf_iff t1 by (simp split: if_splits)
    then show ?thesis using t1 one
      by (auto simp: content_def bucket_root_def fun_eq_iff cong: option.case_cong)
  next
    case none
    then show ?thesis using r wf
      by (auto simp: remove_leaf_def content_def fun_eq_iff split: option.splits)
  qed
  then show "touched \<longleftrightarrow> leaf \<in> content t key" "\<not> touched \<Longrightarrow> t1 = t" "leaves_wf t1"
    "content t1 = (content t)(key := content t key - {leaf})"
    "emptied \<longleftrightarrow> content t key = {leaf}"
    "sm_nodes t1 = sm_nodes t" "root_child t1 = root_child t" "root_hash t1 = root_hash t"
    "\<forall>k. k \<noteq> key \<longrightarrow> bucket_root cr t1 k = bucket_root cr t k"
    by blast+
qed

section \<open>The collapse\<close>

lemma pstack_insert_below:
  assumes "diverges K h key" shows "m \<le> h \<Longrightarrow> pstack (insert key K) m key = []"
proof (induction m)
  case (Suc m)
  have "\<not> branch K m key" using diverges_branch_above [OF assms] Suc.prems by fastforce
  then have "\<not> branch (insert key K) m key"
    using branch_insert [OF assms, of m] Suc.prems assms by (auto simp: diverges_def)
  then show ?case using Suc by simp
qed simp

lemma pstack_insert:
  assumes "diverges K h key"
  shows "h < m \<Longrightarrow> m \<le> 40 \<Longrightarrow> pstack (insert key K) m key
    = pstack K m key @ [(node_id h key, path_bit 40 key (39 - h))]"
proof (induction m)
  case (Suc m)
  have m: "m < 40" "m \<le> 40" using Suc.prems by auto
  show ?case
  proof (cases "m = h")
    case True
    then show ?thesis
      using branch_insert [OF assms, of h] m pstack_insert_below [OF assms, of h]
        pstack_below [OF assms, of "Suc h"] by simp
  next
    case False
    then have "h < m" using Suc.prems by simp
    moreover from this have s: "sub K m key \<noteq> {}"
      using assms sub_mono [of "Suc h" m K key] by (auto simp: diverges_def)
    moreover have "sub (insert key K) m key \<noteq> {}" by (simp add: sub_insert_key)
    ultimately show ?thesis using branch_insert [OF assms m(1)] False Suc.IH m by simp
  qed
qed simp

lemma no_branch_below: "pstack K m key = [] \<Longrightarrow> m \<le> 40 \<Longrightarrow> j < m \<Longrightarrow> \<not> branch K j key"
  using pstack_nonempty by blast

text \<open>The nodes of the path, once the divergence node is dropped.\<close>

lemma path_slots_drop:
  assumes "struct_ok (insert key K) nodes" "diverges K h key" "m < 40"
  shows "map_option slots (fmlookup (fmdrop (node_id h key) nodes) (node_id m key)) =
    (if branch K m key then
       (let x = (if pstack K m key = [] then node_ref (node_id h key) else cslot K m key);
            y = cslot K m (flip_bit m key)
        in Some (if bit key m then (y, x) else (x, y)))
     else None)"
proof -
  have h: "h < 40" "k40 key" using assms(2) by (auto simp: diverges_def)
  show ?thesis
  proof (cases "m = h")
    case True
    then show ?thesis using diverges_branch_above [OF assms(2), of m] by auto
  next
    case False
    then have "fmlookup (fmdrop (node_id h key) nodes) (node_id m key) = fmlookup nodes (node_id m key)"
      using h assms(3) by (simp add: node_id_path_inject)
    then show ?thesis
      using path_slots [OF assms(1,3) h(2)] slots_insert_at [OF assms(2,3) False] by simp
  qed
qed

lemma collapse_loop_path:
  assumes s: "struct_ok (insert key K) nodes" and dv: "diverges K h key" and b: "\<forall>k\<in>K. k40 k"
  shows "collapse_loop (rev (pstack (insert key K) 40 key)) EMPTY nodes
    = Some (fmdrop (node_id h key) nodes, cslot K h (flip_bit h key))"
    "cslot K h (flip_bit h key) \<noteq> EMPTY"
proof -
  have h: "h < 40" "k40 key" "sub K h (flip_bit h key) \<noteq> {}"
    using dv by (auto simp: diverges_def sub_Suc)
  show ne: "cslot K h (flip_bit h key) \<noteq> EMPTY" using h b by (simp add: cslot_eq_EMPTY)
  have "branch (insert key K) h key" using branch_insert [OF dv h(1)] by simp
  then obtain n where n: "fmlookup nodes (node_id h key) = Some n"
    using struct_ok_branch [OF s h(1,2)] by metis
  have "(if path_bit 40 key (39 - h) = 0 then bn_right n else bn_left n) = cslot K h (flip_bit h key)"
    using struct_ok_sides(3) [OF s h(1,2) n] h(1) by (simp add: path_bit_height cslot_insert_flip split: if_splits)
  moreover have "collapse_loop st x nodes' = Some (nodes', x)" if "x \<noteq> EMPTY" for st x nodes'
    using that by (cases st) auto
  ultimately show "collapse_loop (rev (pstack (insert key K) 40 key)) EMPTY nodes
      = Some (fmdrop (node_id h key) nodes, cslot K h (flip_bit h key))"
    using pstack_insert [OF dv, of 40] h n ne by (simp add: Let_def)
qed

lemma struct_ok_drop:
  assumes s: "struct_ok (insert key K) nodes" and dv: "diverges K h key" and new: "key \<notin> K"
    and path: "\<forall>m<40. map_option slots (fmlookup nodes' (node_id m key)) =
      (if branch K m key then Some (lslot K m key, rslot K m key) else None)"
    and off: "\<forall>x. (\<forall>m<40. x \<noteq> node_id m key) \<longrightarrow> fmlookup nodes' x = fmlookup nodes x"
  shows "struct_ok K nodes'"
  using dv by (intro struct_ok_change [OF s _ _ path off]) (auto simp: diverges_def)

lemma hash_ok_below:
  assumes h: "hash_ok cr lf nodes (\<lambda>m k. \<not> agree (Suc m) k key)"
    and s: "struct_ok K nodes" "k40 key" "m0 \<le> 40" "pstack K m0 key = []"
  shows "hash_ok cr lf nodes (\<lambda>m k. \<not> agree (Suc m) k key \<or> m < m0)"
  unfolding hash_ok_def
proof (intro allI impI)
  fix m k n
  assume a: "m < 40" "k40 k" "\<not> agree (Suc m) k key \<or> m < m0" "fmlookup nodes (node_id m k) = Some n"
  have "branch K m k" using struct_ok_sides(1) [OF s(1) a(1,2,4)] .
  then have "\<not> agree (Suc m) k key"
    using a(1,3) branch_cong [OF a(1), of k key K] no_branch_below [OF s(4,3)] by blast
  then show "bn_hash n = rhash cr lf (Suc m) k" using h a by (simp add: hash_ok_def)
qed

text \<open>The tree below the surviving ancestor, or the whole tree, after the divergence node is gone.\<close>

lemma collapse_key_ok:
  assumes wf: "leaves_wf t" and s: "struct_ok (insert key K) (sm_nodes t)" and new: "key \<notin> K"
    and K: "K = smt_keys t" and key: "k40 key"
    and h0: "hash_ok cr (bucket_root cr t) (sm_nodes t) (\<lambda>m k. \<not> agree (Suc m) k key)"
    and rc: "root_child t = cslot (insert key K) 40 key"
  shows "\<exists>t'. collapse_key cr t key = Some t' \<and> canon cr t' \<and> content t' = content t"
proof -
  have bd: "\<forall>k\<in>K. k40 k" using wf by (simp add: K leaves_wf_def)
  have bd': "\<forall>k\<in>insert key K. k40 k" using bd key by simp
  have el: "\<forall>k. k \<notin> K \<longrightarrow> bucket_root cr t k = empty_leaf cr" by (simp add: bucket_root_absent K)
  let ?st = "pstack (insert key K) 40 key" and ?lf = "bucket_root cr t"
  have lc: "\<exists>sl re. locate_full t key = Some (?st, sl, re)"
    using locate_loop_ok [OF s bd' key, of 40 "[]" SlotRoot] rc by (simp add: locate_full_def)
  show ?thesis
  proof (cases "K = {}")
    case True
    have nb: "\<not> branch {key} m k" if "m < 40" for m k
      using that by (auto simp: branch_def sub_def) (metis agree_sym agree_trans not_agree_flip)
    have st: "?st = []" using pstack_last [of "{key}" 40 key] nb True by auto
    define t' where "t' = t\<lparr>root_child := EMPTY, root_hash := None\<rparr>"
    have sl: "same_leaves t t'" by (simp add: t'_def same_leaves_def)
    have nn: "fmlookup (sm_nodes t) x = None" for x
      using s True nb unfolding struct_ok_def by (metis map_option_is_None not_None_eq)
    have "sub {} m k = {}" for m k by (simp add: sub_def)
    then have "canon cr t'"
      using sl wf nn same_leaves_keys [OF sl] same_leaves_wf [OF sl] K True
      by (simp add: canon_def t'_def struct_ok_def hash_ok_def branch_def)
    moreover have "collapse_key cr t key = Some t'"
      using lc st by (auto simp: collapse_key_def t'_def)
    ultimately show ?thesis using same_leaves_content [OF sl] by simp
  next
    case False
    then obtain h where dv: "diverges K h key" using diverges_ex [OF bd key new] by blast
    have h: "h < 40" using dv by (simp add: diverges_def)
    let ?nodes = "fmdrop (node_id h key) (sm_nodes t)" and ?o = "cslot K h (flip_bit h key)"
    note cl = collapse_loop_path [OF s dv bd]
    have stk: "rev ?st = (node_id h key, path_bit 40 key (39 - h)) # rev (pstack K 40 key)"
      using pstack_insert [OF dv h] by simp
    have off1: "\<forall>x. (\<forall>m<40. x \<noteq> node_id m key) \<longrightarrow> fmlookup ?nodes x = fmlookup (sm_nodes t) x"
      using h by auto
    show ?thesis
    proof (cases "pstack K 40 key = []")
      case True
      define t2 where "t2 = t\<lparr>sm_nodes := ?nodes, root_child := ?o\<rparr>"
      have sl: "same_leaves t t2" by (simp add: t2_def same_leaves_def)
      have nb: "\<not> branch K m key" if "m < 40" for m using no_branch_below [OF True _ that] by simp
      have s2: "struct_ok K (sm_nodes t2)"
        using path_slots_drop [OF s dv] nb off1 by (intro struct_ok_drop [OF s dv new]) (simp_all add: t2_def)
      have "hash_ok cr ?lf (sm_nodes t2) (\<lambda>m k. \<not> agree (Suc m) k key)"
        using h0 by (auto simp: hash_ok_def t2_def split: if_splits)
      then have "hash_ok cr ?lf (sm_nodes t2) (\<lambda>m k. \<not> agree (Suc m) k key \<or> m < 40)"
        using True by (intro hash_ok_below [OF _ s2 key]) auto
      then have h2: "hash_ok cr ?lf (sm_nodes t2) (\<lambda>_ _. True)" by (simp add: hash_ok_def)
      have lf: "bucket_root cr t2 = ?lf" using sl by (rule bucket_root_same)
      have o: "?o = cslot K 40 key" using cslot_above [OF dv h] True by simp
      have "slot_value cr t2 (cslot K 40 key) (40 - 40) = Some (rhash cr (bucket_root cr t2) 40 key)"
        using s2 bd el h2 key lf by (intro slot_value_rhash) auto
      then have rv: "root_value cr t2 = Some (rhash cr ?lf 40 key)"
        by (simp add: root_value_slot t2_def o [symmetric] lf [unfolded t2_def])
      define t' where "t' = t2\<lparr>root_hash := Some (rhash cr ?lf 40 key)\<rparr>"
      have sl': "same_leaves t t'" using sl by (simp add: t'_def same_leaves_def)
      have "canon cr t'"
        using s2 h2 o False wf bucket_root_same [OF sl', of cr] same_leaves_keys [OF sl']
          same_leaves_wf [OF sl'] rhash_root [OF key, of cr] cslot_root [OF key, of K] K
        by (simp add: canon_def t'_def) (simp add: t2_def)
      moreover have "collapse_key cr t key = Some t'"
        using lc cl stk True rv by (auto simp: collapse_key_def t'_def t2_def Let_def)
      ultimately show ?thesis using same_leaves_content [OF sl'] by simp
    next
      case ne: False
      obtain m0 where m0: "m0 < 40" "branch K m0 key" "pstack K m0 key = []"
        "last (pstack K 40 key) = (node_id m0 key, path_bit 40 key (39 - m0))"
        using pstack_last [OF ne] by blast
      have hm: "h < m0" using diverges_branch_above [OF dv m0(2)] .
      have "branch (insert key K) m0 key" using branch_insert [OF dv m0(1)] m0(2) by simp
      then obtain n where n: "fmlookup (sm_nodes t) (node_id m0 key) = Some n"
        using struct_ok_branch [OF s m0(1) key] by metis
      have n1: "fmlookup ?nodes (node_id m0 key) = Some n"
        using n hm m0(1) h key by (simp add: node_id_path_inject)
      have nh: "slots n = (let y = cslot K m0 (flip_bit m0 key) in
          if bit key m0 then (y, node_ref (node_id h key)) else (node_ref (node_id h key), y))"
        using path_slots_drop [OF s dv m0(1)] n1 m0(2,3) by (simp add: Let_def)
      have find: "find (\<lambda>(p, _). fmlookup ?nodes p \<noteq> None) (rev ?st)
          = Some (node_id m0 key, path_bit 40 key (39 - m0))"
        using ne n1 m0(4) unfolding stk
        by (cases "pstack K 40 key" rule: rev_cases) auto
      define t2 where "t2 = t\<lparr>sm_nodes := fmupd (node_id m0 key) (set_side key m0 ?o n) ?nodes\<rparr>"
      have w: "write_slot (SlotChild (node_id m0 key) (path_bit 40 key (39 - m0))) ?o
          (t\<lparr>sm_nodes := ?nodes\<rparr>) = Some t2"
        using write_slot_path [OF m0(1), where t = "t\<lparr>sm_nodes := ?nodes\<rparr>" and n = n and val = ?o] n1
        by (simp add: t2_def)
      have o: "?o = cslot K m0 key" using cslot_above [OF dv hm] m0 by simp
      have s2: "struct_ok K (sm_nodes t2)"
      proof (rule struct_ok_drop [OF s dv new])
        show "\<forall>m<40. map_option slots (fmlookup (sm_nodes t2) (node_id m key)) =
          (if branch K m key then Some (lslot K m key, rslot K m key) else None)"
        proof (intro allI impI)
          fix m :: nat assume m: "m < 40"
          have one: "pstack K m key \<noteq> []" if "branch K m key" "m \<noteq> m0"
            using pstack_parent [OF dv that(1) m _ m0(2,1,3)] that(2) by blast
          show "map_option slots (fmlookup (sm_nodes t2) (node_id m key)) =
            (if branch K m key then Some (lslot K m key, rslot K m key) else None)"
          proof (cases "m = m0")
            case True
            then show ?thesis using m0(1,2) nh o
              by (simp add: t2_def set_side_def lr_slot_key Let_def slots_def split: if_splits)
          next
            case False
            then have "fmlookup (sm_nodes t2) (node_id m key) = fmlookup ?nodes (node_id m key)"
              using m m0(1) key by (simp add: t2_def node_id_path_inject)
            then show ?thesis using path_slots_drop [OF s dv m] one False
              by (simp add: lr_slot_key Let_def)
          qed
        qed
        show "\<forall>x. (\<forall>m<40. x \<noteq> node_id m key) \<longrightarrow> fmlookup (sm_nodes t2) x = fmlookup (sm_nodes t) x"
          using h m0(1) by (auto simp: t2_def)
      qed
      have sl: "same_leaves t t2" by (simp add: t2_def same_leaves_def)
      have lf: "bucket_root cr t2 = ?lf" using sl by (rule bucket_root_same)
      have kt2: "smt_keys t2 = K" using same_leaves_keys [OF sl] K by simp
      have off2: "\<forall>x. (\<forall>m<40. x \<noteq> node_id m key) \<longrightarrow> fmlookup (sm_nodes t2) x = fmlookup (sm_nodes t) x"
        using h m0(1) by (auto simp: t2_def)
      have "hash_ok cr ?lf (sm_nodes t2) (\<lambda>m k. \<not> agree (Suc m) k key)"
        unfolding hash_ok_def
      proof (intro allI impI)
        fix m k n' assume a: "m < 40" "k40 k" "\<not> agree (Suc m) k key" "fmlookup (sm_nodes t2) (node_id m k) = Some n'"
        then have "\<forall>m'<40. node_id m k \<noteq> node_id m' key" using key by (auto simp: node_id_inject)
        then have "fmlookup (sm_nodes t) (node_id m k) = Some n'" using off2 a(4) by simp
        then show "bn_hash n' = rhash cr ?lf (Suc m) k" using h0 a by (simp add: hash_ok_def)
      qed
      then have h2: "hash_ok cr ?lf (sm_nodes t2) (\<lambda>m k. \<not> agree (Suc m) k key \<or> m < m0)"
        using m0 by (intro hash_ok_below [OF _ s2 key]) auto
      have d: "39 - m0 + 1 = 40 - m0" "40 - (40 - m0) = m0" "Suc (39 - m0) = 40 - m0" using m0(1) by auto
      have "slot_value cr t2 (cslot K m0 key) (40 - m0) = Some (rhash cr (bucket_root cr t2) m0 key)"
        using s2 bd el h2 key lf m0(1) by (intro slot_value_rhash) auto
      then have cv: "child_value cr t2 ?o (39 - m0) = Some (rhash cr (bucket_root cr t2) m0 key)"
        using m0(1) o by (simp add: child_value_slot d)
      have "sub K m0 key \<noteq> {}" using m0(2) by (simp add: branch_def)
      moreover have "root_child t2 = cslot K 40 0"
        using rc cslot_insert [OF dv, of 40] h ne cslot_root [OF key, of K] by (simp add: t2_def)
      ultimately have "\<exists>t'. recompute_from cr t2 key (rhash cr (bucket_root cr t2) (40 - (40 - m0)) key) (40 - m0)
          = Some t' \<and> canon cr t' \<and> content t' = content t2"
        using s2 h2 key m0(1) wf same_leaves_wf [OF sl]
        by (intro recompute_from_canon) (simp_all only: kt2 d lf diff_le_self not_False_eq_True)
      then obtain t' where t': "recompute_from cr t2 key (rhash cr (bucket_root cr t2) m0 key) (40 - m0) = Some t'"
        "canon cr t'" "content t' = content t2" unfolding d by blast
      have "collapse_key cr t key = Some t'"
        using lc cl find w cv t'(1) m0(1) key d(1)
        by (auto simp: collapse_key_def Let_def simp del: write_slot.simps)
      then show ?thesis using t' same_leaves_content [OF sl] by simp
    qed
  qed
qed

theorem smt_remove_ok:
  assumes c: "canon cr t" and key: "k40 key"
  shows "\<exists>t'. smt_remove cr t key leaf = Some t' \<and> canon cr t'
    \<and> content t' = (content t)(key := content t key - {leaf})"
proof -
  obtain touched emptied t1 where rl: "remove_leaf t key leaf = (touched, emptied, t1)" by (metis prod_cases3)
  have wf: "leaves_wf t" using c by (simp add: canon_def)
  note ok = remove_leaf_ok [OF wf rl]
  show ?thesis
  proof (cases touched)
    case False
    then show ?thesis using rl ok c by (auto simp: smt_remove_def)
  next
    case True
    define t2 where "t2 = t1\<lparr>dirty_leaves := dirty_leaves t1 @ [key]\<rparr>"
    have sl: "same_leaves t1 t2" by (simp add: t2_def same_leaves_def)
    have n2: "sm_nodes t2 = sm_nodes t" "root_child t2 = root_child t" using ok by (simp_all add: t2_def)
    have c2: "content t2 = (content t)(key := content t key - {leaf})"
      using same_leaves_content [OF sl] ok(4) by simp
    have wf2: "leaves_wf t2" using same_leaves_wf [OF sl] ok(3) by simp
    have lf: "\<forall>k. k \<noteq> key \<longrightarrow> bucket_root cr t2 k = bucket_root cr t k"
      using ok(9) bucket_root_same [OF sl] by simp
    have h2: "hash_ok cr (bucket_root cr t2) (sm_nodes t2) (\<lambda>m k. \<not> agree (Suc m) k key)"
      using c n2 by (intro hash_ok_change [OF _ key lf]) (auto simp: canon_def)
    have kin: "key \<in> smt_keys t" using content_empty_iff [OF wf, of key] True ok(1) by auto
    have K2: "smt_keys t2 = (if emptied then smt_keys t - {key} else smt_keys t)"
    proof (rule set_eqI)
      fix x show "x \<in> smt_keys t2 \<longleftrightarrow> x \<in> (if emptied then smt_keys t - {key} else smt_keys t)"
        using content_empty_iff [OF wf2, of x] content_empty_iff [OF wf, of x] c2 ok(1,5) True kin
        by (cases "x = key") auto
    qed
    show ?thesis
    proof (cases emptied)
      case em: True
      have "\<exists>t'. collapse_key cr t2 key = Some t' \<and> canon cr t' \<and> content t' = content t2"
      proof (rule collapse_key_ok [OF wf2 _ _ refl key h2])
        have ins: "insert key (smt_keys t2) = smt_keys t" using K2 em kin by auto
        show "struct_ok (insert key (smt_keys t2)) (sm_nodes t2)"
          "root_child t2 = cslot (insert key (smt_keys t2)) 40 key"
          using c n2 cslot_root [OF key] unfolding ins by (simp_all add: canon_def)
        show "key \<notin> smt_keys t2" using K2 em by simp
      qed
      then show ?thesis using rl True em c2 by (auto simp: smt_remove_def t2_def Let_def)
    next
      case ne: False
      have sk: "sub (smt_keys t2) (40 - 40) key \<noteq> {}" using kin K2 ne by (simp add: sub_0)
      have "hash_ok cr (bucket_root cr t2) (sm_nodes t2) (\<lambda>m k. \<not> agree (Suc m) k key \<or> m < 40 - 40)"
        using h2 by (rule hash_ok_weaken) simp
      then have "\<exists>t'. recompute_from cr t2 key (rhash cr (bucket_root cr t2) (40 - 40) key) 40 = Some t'
          \<and> canon cr t' \<and> content t' = content t2"
        using c n2 K2 ne by (intro recompute_from_canon [OF wf2 _ key _ sk]) (simp_all add: canon_def)
      then show ?thesis using rl True ne c2 by (auto simp: smt_remove_def recompute_def t2_def Let_def)
    qed
  qed
qed

end
