(* ===== verification/Scone_Smt_Spec.thy ===== *)
theory Scone_Smt_Spec
  imports Scone_Smt_Remove
begin

text \<open>
  What the sparse Merkle tree promises to its client, the chain state: it is a map from 40-bit
  keys to finite sets of entry leaves; its physical shape and its root are functions of that
  content alone, whatever the history of insertions and removals; and its root commits to the
  bucket of every key. The contract is the locale \<open>leaf_store\<close>, proved for the model of
  \<^verbatim>\<open>smt.rs\<close> by interpretation.
\<close>

section \<open>The contract of a leaf store\<close>

datatype ('k, 'v) leaf_op = Put 'k 'v | Del 'k 'v

fun op_key :: "('k, 'v) leaf_op \<Rightarrow> 'k" where
  "op_key (Put k v) = k"
| "op_key (Del k v) = k"

fun spec_op :: "('k, 'v) leaf_op \<Rightarrow> ('k \<Rightarrow> 'v set) \<Rightarrow> ('k \<Rightarrow> 'v set)" where
  "spec_op (Put k v) c = c(k := insert v (c k))"
| "spec_op (Del k v) c = c(k := c k - {v})"

fun spec_ops :: "('k, 'v) leaf_op list \<Rightarrow> ('k \<Rightarrow> 'v set) \<Rightarrow> ('k \<Rightarrow> 'v set)" where
  "spec_ops [] c = c"
| "spec_ops (x # xs) c = spec_ops xs (spec_op x c)"

fun run_op :: "('t \<Rightarrow> 'k \<Rightarrow> 'v \<Rightarrow> 't option) \<Rightarrow> ('t \<Rightarrow> 'k \<Rightarrow> 'v \<Rightarrow> 't option)
    \<Rightarrow> ('k, 'v) leaf_op \<Rightarrow> 't \<Rightarrow> 't option" where
  "run_op ins del (Put k v) t = ins t k v"
| "run_op ins del (Del k v) t = del t k v"

fun run_ops :: "('t \<Rightarrow> 'k \<Rightarrow> 'v \<Rightarrow> 't option) \<Rightarrow> ('t \<Rightarrow> 'k \<Rightarrow> 'v \<Rightarrow> 't option)
    \<Rightarrow> ('k, 'v) leaf_op list \<Rightarrow> 't \<Rightarrow> 't option" where
  "run_ops ins del [] t = Some t"
| "run_ops ins del (x # xs) t = Option.bind (run_op ins del x t) (run_ops ins del xs)"

locale leaf_store =
  fixes emp :: 't
    and ins :: "'t \<Rightarrow> 'k \<Rightarrow> 'v \<Rightarrow> 't option"
    and del :: "'t \<Rightarrow> 'k \<Rightarrow> 'v \<Rightarrow> 't option"
    and cont :: "'t \<Rightarrow> 'k \<Rightarrow> 'v set"
    and ok :: "'t \<Rightarrow> bool"
    and kok :: "'k \<Rightarrow> bool"
    and same :: "'t \<Rightarrow> 't \<Rightarrow> bool"
    and root :: "'t \<Rightarrow> 'r"
    and ref_root :: "('k \<Rightarrow> 'v set) \<Rightarrow> 'r"
  assumes ok_emp: "ok emp" and cont_emp: "cont emp = (\<lambda>_. {})"
    and ins_ok: "ok t \<Longrightarrow> kok k \<Longrightarrow>
      \<exists>t'. ins t k v = Some t' \<and> ok t' \<and> cont t' = (cont t)(k := insert v (cont t k))"
    and del_ok: "ok t \<Longrightarrow> kok k \<Longrightarrow>
      \<exists>t'. del t k v = Some t' \<and> ok t' \<and> cont t' = (cont t)(k := cont t k - {v})"
    and canonical: "ok s \<Longrightarrow> ok t \<Longrightarrow> cont s = cont t \<Longrightarrow> same s t"
    and root_cont: "ok t \<Longrightarrow> root t = ref_root (cont t)"
begin

lemma run_op_ok:
  "ok t \<Longrightarrow> kok (op_key x) \<Longrightarrow>
     \<exists>t'. run_op ins del x t = Some t' \<and> ok t' \<and> cont t' = spec_op x (cont t)"
  using ins_ok del_ok by (cases x) auto

lemma run_ops_ok:
  "ok t \<Longrightarrow> \<forall>x\<in>set xs. kok (op_key x) \<Longrightarrow>
     \<exists>t'. run_ops ins del xs t = Some t' \<and> ok t' \<and> cont t' = spec_ops xs (cont t)"
proof (induction xs arbitrary: t)
  case (Cons x xs)
  then obtain t1 where "run_op ins del x t = Some t1" "ok t1" "cont t1 = spec_op x (cont t)"
    using run_op_ok [of t x] by auto
  then show ?case using Cons.IH [of t1] Cons.prems by auto
qed simp

lemma run_ops_root:
  "\<forall>x\<in>set xs. kok (op_key x) \<Longrightarrow>
     \<exists>t. run_ops ins del xs emp = Some t \<and> ok t \<and> cont t = spec_ops xs (\<lambda>_. {})
       \<and> root t = ref_root (spec_ops xs (\<lambda>_. {}))"
  using run_ops_ok [OF ok_emp, of xs] root_cont by (auto simp: cont_emp)

lemma run_ops_history:
  "\<forall>x\<in>set xs \<union> set ys. kok (op_key x) \<Longrightarrow> spec_ops xs (\<lambda>_. {}) = spec_ops ys (\<lambda>_. {}) \<Longrightarrow>
     \<exists>s t. run_ops ins del xs emp = Some s \<and> run_ops ins del ys emp = Some t
       \<and> same s t \<and> root s = root t"
  using run_ops_root [of xs] run_ops_root [of ys] canonical by fastforce

text \<open>Undoing a change of content undoes it physically.\<close>

lemma ins_del_undo:
  assumes "ok t" "kok k" "v \<notin> cont t k"
  shows "\<exists>t1 t2. ins t k v = Some t1 \<and> del t1 k v = Some t2 \<and> same t2 t"
proof -
  obtain t1 where t1: "ins t k v = Some t1" "ok t1" "cont t1 = (cont t)(k := insert v (cont t k))"
    using ins_ok [OF assms(1,2)] by blast
  obtain t2 where t2: "del t1 k v = Some t2" "ok t2" "cont t2 = (cont t1)(k := cont t1 k - {v})"
    using del_ok [OF t1(2) assms(2)] by blast
  have "cont t2 = cont t" using t1(3) t2(3) assms(3) by auto
  then show ?thesis using canonical [OF t2(2) assms(1)] t1(1) t2(1) by blast
qed

end

section \<open>The reference root\<close>

text \<open>The leaf of a key in the full tree, and the root of the full tree of depth 40.\<close>

definition ref_leaf :: "crypto \<Rightarrow> (u64 \<Rightarrow> hash32 set) \<Rightarrow> u64 \<Rightarrow> hash32" where
  "ref_leaf cr c k =
     (if c k = {} then empty_leaf cr else bucket_merkle_root cr (sorted_list_of_set (c k)))"

definition ref_root :: "crypto \<Rightarrow> (u64 \<Rightarrow> hash32 set) \<Rightarrow> hash32" where
  "ref_root cr c = rhash cr (ref_leaf cr c) D 0"

lemma bucket_root_ref:
  assumes "leaves_wf t"
  shows "bucket_root cr t = ref_leaf cr (content t)"
proof
  fix k
  show "bucket_root cr t k = ref_leaf cr (content t) k"
  proof (cases "fmlookup (sm_buckets t) k")
    case None
    then show ?thesis
      by (auto simp: bucket_root_def ref_leaf_def content_def bucket_merkle_root_def split: option.splits)
  next
    case (Some v)
    then have v: "sorted_wrt (<) v" "2 \<le> length v" using assms by (auto simp: leaves_wf_def)
    then have "sorted_list_of_set (set v) = v"
      by (simp add: sorted_list_of_set.idem_if_sorted_distinct strict_sorted_iff)
    then show ?thesis using Some v(2) by (auto simp: bucket_root_def ref_leaf_def content_def)
  qed
qed

lemma canon_root:
  assumes "canon cr t" shows "smt_root cr t = ref_root cr (content t)"
proof -
  have wf: "leaves_wf t" using assms by (simp add: canon_def)
  have "rhash cr (bucket_root cr t) 40 0 = defaults cr 40" if "smt_keys t = {}"
    using that by (intro rhash_default) (auto simp: bucket_root_absent)
  then show ?thesis
    using assms bucket_root_ref [OF wf] by (simp add: canon_def smt_root_def ref_root_def split: if_splits)
qed

section \<open>Canonicity\<close>

lemma content_inject:
  assumes "leaves_wf s" "leaves_wf t" "content s = content t"
  shows "sm_leaves s = sm_leaves t" "sm_buckets s = sm_buckets t"
proof -
  have sizes: "content u k = (case fmlookup (sm_buckets u) k of Some v \<Rightarrow> set v
      | None \<Rightarrow> (case fmlookup (sm_leaves u) k of Some h \<Rightarrow> {h} | None \<Rightarrow> {}))" for u k
    by (simp add: content_def)
  have b: "fmlookup (sm_buckets u) k = (if 2 \<le> card (content u k) then Some (sorted_list_of_set (content u k)) else None)"
    if "leaves_wf u" for u k
  proof (cases "fmlookup (sm_buckets u) k")
    case None
    then show ?thesis by (simp add: content_def split: option.splits)
  next
    case (Some v)
    then have v: "sorted_wrt (<) v" "2 \<le> length v" using that by (auto simp: leaves_wf_def)
    then have "sorted_list_of_set (set v) = v" "card (set v) = length v"
      by (simp_all add: sorted_list_of_set.idem_if_sorted_distinct strict_sorted_iff distinct_card)
    then show ?thesis using Some v(2) by (simp add: content_def)
  qed
  have l: "fmlookup (sm_leaves u) k = (if is_singleton (content u k) then Some (the_elem (content u k)) else None)"
    if "leaves_wf u" for u k
  proof (cases "fmlookup (sm_buckets u) k")
    case None
    then show ?thesis by (auto simp: content_def is_singleton_def split: option.splits)
  next
    case (Some v)
    then have "2 \<le> card (content u k)" using b [OF that, of k] by (metis option.distinct(1))
    then have "\<not> is_singleton (content u k)" by (auto simp: is_singleton_altdef)
    then show ?thesis using leaves_wf_dom [OF that Some] by simp
  qed
  show "sm_leaves s = sm_leaves t" using l assms by (intro fmap_ext) simp
  show "sm_buckets s = sm_buckets t" using b assms by (intro fmap_ext) simp
qed

lemma canon_unique:
  assumes "canon cr s" "canon cr t" "content s = content t"
  shows "smt_eq s t"
proof -
  have wf: "leaves_wf s" "leaves_wf t" using assms by (auto simp: canon_def)
  have lv: "sm_leaves s = sm_leaves t" "sm_buckets s = sm_buckets t"
    using content_inject [OF wf assms(3)] by auto
  have K: "smt_keys s = smt_keys t" using lv by (simp add: smt_keys_def)
  have R: "bucket_root cr s = bucket_root cr t" using bucket_root_ref wf assms(3) by simp
  have "sm_nodes s = sm_nodes t"
  proof (rule fmap_ext)
    fix x
    show "fmlookup (sm_nodes s) x = fmlookup (sm_nodes t) x"
    proof (cases "\<exists>m k. m < 40 \<and> k40 k \<and> x = node_id m k")
      case True
      then obtain m k where x: "m < 40" "k40 k" "x = node_id m k" by blast
      have st: "struct_ok (smt_keys t) (sm_nodes s)" "struct_ok (smt_keys t) (sm_nodes t)"
        using assms(1,2) K by (simp_all add: canon_def)
      have sl: "map_option slots (fmlookup (sm_nodes s) x) = map_option slots (fmlookup (sm_nodes t) x)"
        using path_slots [OF st(1) x(1,2)] path_slots [OF st(2) x(1,2)] x(3) by simp
      have "bn_hash n = rhash cr (bucket_root cr u) (Suc m) k"
        if "canon cr u" "fmlookup (sm_nodes u) x = Some n" for u n
        using that x by (auto simp: canon_def hash_ok_def)
      then show ?thesis using sl R assms(1,2)
        by (cases "fmlookup (sm_nodes s) x"; cases "fmlookup (sm_nodes t) x") (auto simp: slots_def)
    next
      case False
      then have "fmlookup (sm_nodes u) x = None" if "canon cr u" for u
        using that by (auto simp: canon_def struct_ok_def) (metis not_None_eq)
      then show ?thesis using assms(1,2) by simp
    qed
  qed
  then show ?thesis using assms lv K R by (simp add: smt_eq_def canon_def)
qed

interpretation smt: leaf_store smt_new "smt_insert cr" "smt_remove cr" content "canon cr" k40 smt_eq
  "smt_root cr" "ref_root cr" for cr
proof unfold_locales
  show "content smt_new = (\<lambda>_. {})" by (simp add: content_def smt_new_def fun_eq_iff)
qed (use canon_new smt_insert_ok smt_remove_ok canon_unique canon_root in auto)

section \<open>The root commits to every bucket\<close>

text \<open>The bytes hashed for the branch point of height \<open>Suc m\<close> on the path of a key.\<close>

definition node_preimage :: "crypto \<Rightarrow> (u64 \<Rightarrow> hash32) \<Rightarrow> nat \<Rightarrow> u64 \<Rightarrow> bytes" where
  "node_preimage cr lf m k =
     (let l = rhash cr lf m (if bit k m then flip_bit m k else k);
          r = rhash cr lf m (if bit k m then k else flip_bit m k)
      in SMT_NODE_TAG @ h32_bytes l @ h32_bytes r)"

lemma rhash_preimage: "rhash cr lf (Suc m) k = blake3 cr (node_preimage cr lf m k)"
  by (simp add: rhash.simps(2) node_preimage_def node_hash_def hash256_def)

lemma node_preimage_inject:
  "node_preimage cr lf m k = node_preimage cr lf' m k \<Longrightarrow> rhash cr lf m k = rhash cr lf' m k"
  by (auto simp: node_preimage_def Let_def be_bytes_inject split: if_splits)

lemma rhash_collision:
  "rhash cr lf M k = rhash cr lf' M k \<Longrightarrow> lf k \<noteq> lf' k \<Longrightarrow>
     \<exists>m<M. node_preimage cr lf m k \<noteq> node_preimage cr lf' m k
       \<and> blake3 cr (node_preimage cr lf m k) = blake3 cr (node_preimage cr lf' m k)"
proof (induction M)
  case (Suc M)
  show ?case
  proof (cases "rhash cr lf M k = rhash cr lf' M k")
    case True
    then show ?thesis using Suc by (meson less_SucI)
  next
    case False
    then have "node_preimage cr lf M k \<noteq> node_preimage cr lf' M k" using node_preimage_inject by blast
    then show ?thesis using Suc.prems(1) unfolding rhash_preimage by blast
  qed
qed simp

section \<open>Properties\<close>

lemma k40_smt_key [simp]: "k40 (smt_key i)"
  by (auto simp: k40_def smt_key_def bit_drop_bit_eq dest: bit_imp_le_length)

text \<open>The leaf writes of the chain state, addressed by 32-byte identifiers.\<close>

definition id_ops :: "(hash32, hash32) leaf_op list \<Rightarrow> (u64, hash32) leaf_op list" where
  "id_ops ops = map (map_leaf_op smt_key id) ops"

definition smt_run :: "crypto \<Rightarrow> (hash32, hash32) leaf_op list \<Rightarrow> smt option" where
  "smt_run cr ops = run_ops (smt_insert cr) (smt_remove cr) (id_ops ops) smt_new"

lemma id_ops_keys: "\<forall>x\<in>set (id_ops ops). k40 (op_key x)"
proof
  fix x assume "x \<in> set (id_ops ops)"
  then obtain y where "x = map_leaf_op smt_key id y" by (auto simp: id_ops_def)
  then show "k40 (op_key x)" by (cases y) simp_all
qed

lemmas smt_run_ok = smt.run_ops_root [OF id_ops_keys, folded smt_run_def]

text \<open>C15: any sequence of leaf insertions and removals on the sparse Merkle tree runs without a
  panic (no missing node, no failed \<^verbatim>\<open>expect\<close>, every descent ends), leaves exactly the leaves
  the operations specify, and the incrementally maintained root equals the root of the full,
  uncompacted tree of depth 40 over these leaves.\<close>

theorem smt_run_reference:
  "\<exists>t. smt_run cr ops = Some t \<and> content t = spec_ops (id_ops ops) (\<lambda>_. {})
     \<and> smt_root cr t = ref_root cr (spec_ops (id_ops ops) (\<lambda>_. {}))"
  using smt_run_ok by blast

text \<open>History independence. Two sequences of operations that leave the same leaves leave
  trees that are equal in the sense of \<^verbatim>\<open>PartialEq for Smt\<close> (leaves, buckets, branch nodes with
  their hashes, root slot and cached root), so the state root does not depend on the order in
  which a node learned the entries.\<close>

theorem smt_history_independent:
  assumes "spec_ops (id_ops xs) (\<lambda>_. {}) = spec_ops (id_ops ys) (\<lambda>_. {})"
  shows "\<exists>s t. smt_run cr xs = Some s \<and> smt_run cr ys = Some t \<and> smt_eq s t
    \<and> smt_root cr s = smt_root cr t"
  unfolding smt_run_def using id_ops_keys assms by (intro smt.run_ops_history) blast+

theorem smt_history_independent_witness:
  "\<exists>s t. smt_run toy_crypto [Put 0 1, Put 5 2, Del 5 2, Put 0 3] = Some s
     \<and> smt_run toy_crypto [Put 0 3, Put 0 1] = Some t \<and> smt_eq s t
     \<and> smt_root toy_crypto s = smt_root toy_crypto t"
proof -
  have "spec_ops (id_ops [Put 0 1, Put 5 2, Del 5 2, Put 0 3]) (\<lambda>_. {})
      = spec_ops (id_ops [Put 0 3, Put 0 1]) (\<lambda>_. {})"
    by (auto simp: id_ops_def fun_eq_iff)
  then show ?thesis by (rule smt_history_independent)
qed

text \<open>C26: the state root is binding. If two reachable trees have the same root but different
  bucket roots at some key, then on the path of that key there is a height at which the two
  trees hashed different byte strings to the same digest: a collision of the hash function is
  exhibited.\<close>

theorem smt_root_binding:
  assumes "smt_run cr xs = Some s" "smt_run cr ys = Some t" "smt_root cr s = smt_root cr t"
    "bucket_root cr s (smt_key i) \<noteq> bucket_root cr t (smt_key i)"
  shows "\<exists>m<40.
    node_preimage cr (bucket_root cr s) m (smt_key i) \<noteq> node_preimage cr (bucket_root cr t) m (smt_key i)
    \<and> blake3 cr (node_preimage cr (bucket_root cr s) m (smt_key i))
      = blake3 cr (node_preimage cr (bucket_root cr t) m (smt_key i))"
proof -
  have c: "canon cr s" "canon cr t" using smt_run_ok [of cr xs] smt_run_ok [of cr ys] assms(1,2) by auto
  have "smt_root cr u = rhash cr (bucket_root cr u) 40 (smt_key i)" if "canon cr u" for u
    using that canon_root [OF that] bucket_root_ref [of u cr] rhash_root [of "smt_key i" cr]
    by (simp add: canon_def ref_root_def)
  then show ?thesis using c assms(3,4) by (intro rhash_collision) simp_all
qed

lemma toy_node_hash [simp]: "node_hash toy_crypto l r = 0" by (simp add: node_hash_def hash256_def)

theorem smt_root_binding_witness:
  "\<exists>s t. smt_run toy_crypto [Put 0 1] = Some s \<and> smt_run toy_crypto [] = Some t
    \<and> bucket_root toy_crypto s (smt_key 0) \<noteq> bucket_root toy_crypto t (smt_key 0)
    \<and> (\<exists>m<40. node_preimage toy_crypto (bucket_root toy_crypto s) m (smt_key 0)
        \<noteq> node_preimage toy_crypto (bucket_root toy_crypto t) m (smt_key 0)
      \<and> blake3 toy_crypto (node_preimage toy_crypto (bucket_root toy_crypto s) m (smt_key 0))
        = blake3 toy_crypto (node_preimage toy_crypto (bucket_root toy_crypto t) m (smt_key 0)))"
proof -
  obtain s where s: "smt_run toy_crypto [Put 0 1] = Some s" "canon toy_crypto s"
    "content s = (\<lambda>_. {})(smt_key 0 := {1})" using smt_run_ok [of toy_crypto "[Put 0 1]"]
    by (auto simp: id_ops_def)
  obtain t where t: "smt_run toy_crypto [] = Some t" "canon toy_crypto t" "content t = (\<lambda>_. {})"
    using smt_run_ok [of toy_crypto "[]"] by (auto simp: id_ops_def)
  have root: "smt_root toy_crypto u = 0" if "canon toy_crypto u" for u
    using canon_root [OF that] rhash.simps(2) [of toy_crypto _ 39] by (simp add: ref_root_def)
  have "bucket_root toy_crypto s (smt_key 0) \<noteq> bucket_root toy_crypto t (smt_key 0)"
    using s t by (simp add: canon_def bucket_root_ref ref_leaf_def bucket_merkle_root_def
        empty_leaf_def hash256_def)
  then show ?thesis using smt_root_binding [OF s(1) t(1)] s t root by simp
qed

end
