(* ===== verification/Scone_Names.thy ===== *)
theory Scone_Names
  imports Scone_Crypto "HOL-Library.Char_ord" "HOL-Library.List_Lexorder"
begin

text \<open>
  The identities of \<^verbatim>\<open>crates/scone-core\<close>: names (\<^verbatim>\<open>name.rs\<close>), the derived 32-byte
  identifiers (\<^verbatim>\<open>id.rs\<close>, \<^verbatim>\<open>owner.rs\<close>), networks (\<^verbatim>\<open>network.rs\<close>), the consensus parameters
  (\<^verbatim>\<open>consensus_params.rs\<close>) and the DNS record data (\<^verbatim>\<open>record.rs\<close>).

  A Rust string is its list of UTF-8 bytes, one \<open>char\<close> each. The newtypes \<^verbatim>\<open>TldName\<close> and
  \<^verbatim>\<open>DomainName\<close> are strings; their constructors are the validating functions below. The message
  text of an error is dropped, its variant is kept.
\<close>

section \<open>Errors\<close>

datatype scone_error =
    InvalidName | InvalidTld | InvalidDomain | InvalidRecord | InvalidTransaction | InvalidOwner
  | InvalidSequence u64 | InvalidFormat | InvalidProof | InvalidCheckpoint

type_synonym 'a result = "scone_error + 'a"

text \<open>The \<^verbatim>\<open>?\<close> operator.\<close>

fun try_bind :: "'e + 'a \<Rightarrow> ('a \<Rightarrow> 'e + 'b) \<Rightarrow> 'e + 'b" where
  "try_bind (Inl e) f = Inl e"
| "try_bind (Inr x) f = f x"

lemma try_bind_Inr [simp]: "try_bind r f = Inr y \<longleftrightarrow> (\<exists>x. r = Inr x \<and> f x = Inr y)"
  by (cases r) auto

section \<open>Labels and names\<close>

definition is_ascii_lowercase :: "char \<Rightarrow> bool" where
  "is_ascii_lowercase b \<longleftrightarrow> CHR ''a'' \<le> b \<and> b \<le> CHR ''z''"

definition is_ascii_digit :: "char \<Rightarrow> bool" where
  "is_ascii_digit b \<longleftrightarrow> CHR ''0'' \<le> b \<and> b \<le> CHR ''9''"

definition starts_with :: "char \<Rightarrow> string \<Rightarrow> bool" where
  "starts_with c s = (case s of [] \<Rightarrow> False | x # _ \<Rightarrow> x = c)"

definition ends_with :: "char \<Rightarrow> string \<Rightarrow> bool" where
  "ends_with c s = starts_with c (rev s)"

definition ldh_byte :: "char \<Rightarrow> bool" where
  "ldh_byte b \<longleftrightarrow> is_ascii_lowercase b \<or> is_ascii_digit b \<or> b = CHR ''-''"

definition is_ldh :: "string \<Rightarrow> bool" where
  "is_ldh label \<longleftrightarrow> \<not> starts_with (CHR ''-'') label \<and> \<not> ends_with (CHR ''-'') label
     \<and> list_all ldh_byte label"

definition TLD_MAX_LEN :: nat where "TLD_MAX_LEN = 63"
definition MAX_LABEL_LEN :: nat where "MAX_LABEL_LEN = 63"
definition MAX_TOTAL_LEN :: nat where "MAX_TOTAL_LEN = 253"

definition tld_validate :: "string \<Rightarrow> unit result" where
  "tld_validate tld =
     (if tld = [] \<or> TLD_MAX_LEN < length tld then Inl InvalidTld
      else if \<not> is_ldh tld then Inl InvalidTld else Inr ())"

definition tld_new :: "string \<Rightarrow> string result" where
  "tld_new tld = try_bind (tld_validate tld) (\<lambda>_. Inr tld)"

text \<open>\<^verbatim>\<open>str::split(c)\<close>: never an empty list; \<^verbatim>\<open>str::rsplit_once(c)\<close>: split at the last \<open>c\<close>.\<close>

fun split_on :: "char \<Rightarrow> string \<Rightarrow> string list" where
  "split_on c [] = [[]]"
| "split_on c (x # xs) =
     (if x = c then [] # split_on c xs
      else case split_on c xs of [] \<Rightarrow> [[x]] | l # ls \<Rightarrow> (x # l) # ls)"

definition rsplit_once :: "char \<Rightarrow> string \<Rightarrow> (string \<times> string) option" where
  "rsplit_once c s =
     (let r = rev s; t = takeWhile (\<lambda>x. x \<noteq> c) r in
      if t = r then None else Some (rev (drop (Suc (length t)) r), rev t))"

fun validate_labels :: "string list \<Rightarrow> unit result" where
  "validate_labels [] = Inr ()"
| "validate_labels (label # ls) =
     (if label = [] then Inl InvalidDomain
      else if MAX_LABEL_LEN < length label then Inl InvalidDomain
      else if \<not> is_ldh label then Inl InvalidDomain
      else validate_labels ls)"

definition domain_validate :: "string \<Rightarrow> unit result" where
  "domain_validate name =
     (if name = [] then Inl InvalidDomain
      else if MAX_TOTAL_LEN < length name then Inl InvalidDomain
      else let all = split_on (CHR ''.'') name; tld = last all; labels = butlast all in
        if labels = [] then Inl InvalidDomain
        else try_bind (tld_validate tld) (\<lambda>_. validate_labels labels))"

definition domain_new :: "string \<Rightarrow> string result" where
  "domain_new name = try_bind (domain_validate name) (\<lambda>_. Inr name)"

definition labels :: "string \<Rightarrow> string list" where
  "labels name = split_on (CHR ''.'') name"

definition label_count :: "string \<Rightarrow> nat" where
  "label_count name = length (labels name)"

text \<open>\<^verbatim>\<open>DomainName::tld\<close>; the failed \<^verbatim>\<open>expect\<close> is \<open>None\<close>.\<close>

definition domain_tld :: "string \<Rightarrow> string option" where
  "domain_tld name = map_option snd (rsplit_once (CHR ''.'') name)"

section \<open>Identifiers\<close>

type_synonym domain_id = hash32
type_synonym tld_id = hash32
type_synonym owner_id = hash32

definition DOMAIN_ID_VERSION :: bytes where "DOMAIN_ID_VERSION = str_bytes ''SCONE-DOMAIN-V1''"
definition TLD_ID_VERSION :: bytes where "TLD_ID_VERSION = str_bytes ''SCONE-TLD-V1''"
definition PUBKEY_REF_VERSION :: bytes where "PUBKEY_REF_VERSION = str_bytes ''SCONE-PUBKEY-V1''"
definition OWNER_ID_VERSION :: bytes where "OWNER_ID_VERSION = str_bytes ''SCONE-OWNER-V1''"

definition domain_id_from_name :: "crypto \<Rightarrow> string \<Rightarrow> domain_id" where
  "domain_id_from_name cr name = hash256 cr [DOMAIN_ID_VERSION, str_bytes name]"

definition tld_id_from_tld :: "crypto \<Rightarrow> string \<Rightarrow> tld_id" where
  "tld_id_from_tld cr tld = hash256 cr [TLD_ID_VERSION, str_bytes tld]"

definition public_key_ref :: "crypto \<Rightarrow> bytes \<Rightarrow> hash32" where
  "public_key_ref cr encoded = hash256 cr [PUBKEY_REF_VERSION, encoded]"

definition owner_from_public_key_ref :: "crypto \<Rightarrow> hash32 \<Rightarrow> owner_id" where
  "owner_from_public_key_ref cr ref = hash256 cr [OWNER_ID_VERSION, h32_bytes ref]"

text \<open>\<^verbatim>\<open>to_hex\<close> of \<^verbatim>\<open>DomainId\<close> and \<^verbatim>\<open>TldId\<close>: 64 lowercase hexadecimal characters.\<close>

definition HEX_TABLE :: string where "HEX_TABLE = ''0123456789abcdef''"

fun hex_bytes :: "bytes \<Rightarrow> string" where
  "hex_bytes [] = []"
| "hex_bytes (b # bs) =
     HEX_TABLE ! unat (drop_bit 4 b) # HEX_TABLE ! unat (b AND 15) # hex_bytes bs"

definition domain_id_to_hex :: "domain_id \<Rightarrow> string" where
  "domain_id_to_hex i = hex_bytes (h32_bytes i)"

definition tld_id_to_hex :: "tld_id \<Rightarrow> string" where
  "tld_id_to_hex i = hex_bytes (h32_bytes i)"

section \<open>Networks and parameters\<close>

definition MAX_NETWORK_ID_LEN :: nat where "MAX_NETWORK_ID_LEN = 16"

text \<open>The fixed buffer and its length, as the code has them.\<close>

record network_id =
  ni_bytes :: bytes
  ni_len :: u8

definition from_ascii :: "bytes \<Rightarrow> network_id" where
  "from_ascii literal =
     \<lparr>ni_bytes = literal @ replicate (MAX_NETWORK_ID_LEN - length literal) 0,
      ni_len = of_nat (length literal)\<rparr>"

definition NETWORK_TESTNET :: network_id where
  "NETWORK_TESTNET = from_ascii (str_bytes ''scone-testnet'')"

definition NETWORK_MAINNET :: network_id where
  "NETWORK_MAINNET = from_ascii (str_bytes ''scone-mainnet'')"

definition network_new :: "string \<Rightarrow> network_id result" where
  "network_new input =
     (if input = [] \<or> MAX_NETWORK_ID_LEN < length input then Inl InvalidName
      else if \<not> list_all ldh_byte input then Inl InvalidName
      else Inr \<lparr>ni_bytes = str_bytes input @ replicate (MAX_NETWORK_ID_LEN - length input) 0,
                ni_len = of_nat (length input)\<rparr>)"

definition network_bytes :: "network_id \<Rightarrow> bytes" where
  "network_bytes n = take (unat (ni_len n)) (ni_bytes n)"

definition MIN_FINALITY_COMMITTEE_SIZE :: nat where "MIN_FINALITY_COMMITTEE_SIZE = 4"

definition quorum_for :: "nat \<Rightarrow> nat" where "quorum_for n = 2 * n div 3 + 1"

record consensus_params =
  committee_size :: nat
  epoch_secs :: u64
  recovery_max_epochs :: u32
  epoch_min_blocks :: u64

definition PARAMS_PRODUCTION :: consensus_params where
  "PARAMS_PRODUCTION = \<lparr>committee_size = 31, epoch_secs = 60, recovery_max_epochs = 3,
     epoch_min_blocks = 10\<rparr>"

definition PARAMS_TESTNET :: consensus_params where
  "PARAMS_TESTNET = \<lparr>committee_size = 4, epoch_secs = 10, recovery_max_epochs = 3,
     epoch_min_blocks = 4\<rparr>"

record network_params =
  np_network_id :: network_id
  tld_pow_difficulty :: u32
  domain_pow_difficulty :: u32
  np_consensus :: consensus_params

definition TESTNET :: network_params where
  "TESTNET = \<lparr>np_network_id = NETWORK_TESTNET, tld_pow_difficulty = 8, domain_pow_difficulty = 4,
     np_consensus = PARAMS_TESTNET\<rparr>"

definition MAINNET :: network_params where
  "MAINNET = \<lparr>np_network_id = NETWORK_MAINNET, tld_pow_difficulty = 24, domain_pow_difficulty = 20,
     np_consensus = PARAMS_PRODUCTION\<rparr>"

definition network_by_name :: "string \<Rightarrow> network_params option" where
  "network_by_name name =
     (if name = ''testnet'' then Some TESTNET else if name = ''mainnet'' then Some MAINNET else None)"

definition dir_name :: "network_params \<Rightarrow> string" where
  "dir_name p = (if np_network_id p = NETWORK_MAINNET then ''mainnet'' else ''testnet'')"

section \<open>DNS records\<close>

text \<open>An IPv4 address is its 4 bytes, an IPv6 address its 16.\<close>

datatype record_data =
    RA u32 | RAaaa "128 word" | RCname string | RMx u16 string | RTxt string | RNs string
  | RUnknown u16 bytes

record dns_record =
  dr_domain_id :: domain_id
  dr_sequence :: u64
  dr_expiration :: u64
  dr_records :: "record_data list"

definition dns_record_validate :: "dns_record \<Rightarrow> unit result" where
  "dns_record_validate r =
     (if dr_sequence r = 0 then Inl (InvalidSequence 0)
      else if dr_records r = [] then Inl InvalidRecord else Inr ())"

record signed_dns_record =
  sr_record :: dns_record
  sr_owner :: owner_id
  sr_signature :: bytes

section \<open>Splitting and joining\<close>

fun join_dots :: "string list \<Rightarrow> string" where
  "join_dots [] = []"
| "join_dots [l] = l"
| "join_dots (l # ls) = l @ CHR ''.'' # join_dots ls"

lemma split_on_not_Nil [simp]: "split_on c s \<noteq> []"
  by (cases s) (auto split: list.splits)

lemma split_on_parts: "l \<in> set (split_on c s) \<Longrightarrow> c \<notin> set l"
  by (induction s arbitrary: l) (auto split: if_splits list.splits)

lemma split_on_no_sep: "c \<notin> set s \<Longrightarrow> split_on c s = [s]"
  by (induction s) auto

lemma split_on_append: "c \<notin> set l \<Longrightarrow> split_on c (l @ c # s) = l # split_on c s"
  by (induction l) auto

lemma join_split: "join_dots (split_on (CHR ''.'') s) = s"
proof (induction s)
  case (Cons x s)
  obtain l ls where ls: "split_on (CHR ''.'') s = l # ls" using split_on_not_Nil by (meson neq_Nil_conv)
  show ?case
    using Cons ls by (cases ls) auto
qed simp

lemma split_join:
  "ls \<noteq> [] \<Longrightarrow> \<forall>l\<in>set ls. CHR ''.'' \<notin> set l \<Longrightarrow> split_on (CHR ''.'') (join_dots ls) = ls"
  by (induction ls rule: join_dots.induct) (auto simp: split_on_no_sep split_on_append)

lemma takeWhile_rev_last:
  "rev (takeWhile (\<lambda>x. x \<noteq> c) (rev s)) = last (split_on c s)"
proof (induction s)
  case (Cons x s)
  show ?case
  proof (cases "c \<in> set s")
    case True
    have "1 < length (split_on c s)" using True
      by (induction s) (auto split: if_splits list.splits)
    then obtain l l' ls where "split_on c s = l # l' # ls"
      by (metis One_nat_def length_0_conv length_Cons less_irrefl list.exhaust not_less_zero)
    then show ?thesis using Cons True by (simp add: takeWhile_append1)
  next
    case False
    then have t: "takeWhile (\<lambda>y. y \<noteq> c) (rev s) = rev s" by (auto simp: takeWhile_eq_all_conv)
    show ?thesis using False by (simp add: t takeWhile_append split_on_no_sep)
  qed
qed simp

lemma domain_tld_last:
  "domain_tld name = (if CHR ''.'' \<in> set name then Some (last (labels name)) else None)"
proof -
  have "(takeWhile (\<lambda>x. x \<noteq> CHR ''.'') (rev name) = rev name) = (CHR ''.'' \<notin> set name)"
    by (auto simp: takeWhile_eq_all_conv)
  then show ?thesis
    by (simp add: domain_tld_def rsplit_once_def Let_def labels_def takeWhile_rev_last)
qed

section \<open>What a valid name is\<close>

text \<open>RFC 1123 labels, stated by enumeration.\<close>

definition LDH_CHARS :: string where
  "LDH_CHARS = ''abcdefghijklmnopqrstuvwxyz0123456789-''"

definition label_spec :: "string \<Rightarrow> bool" where
  "label_spec l \<longleftrightarrow> 1 \<le> length l \<and> length l \<le> 63
     \<and> set l \<subseteq> set LDH_CHARS
     \<and> hd l \<noteq> CHR ''-'' \<and> last l \<noteq> CHR ''-''"

lemma LDH_CHARS_codes: "map of_char LDH_CHARS = [97..<123] @ [48..<58] @ [45::nat]"
  by (simp add: LDH_CHARS_def upt_rec)

lemma ldh_byte_enum: "ldh_byte b \<longleftrightarrow> b \<in> set LDH_CHARS"
proof -
  have "b \<in> set LDH_CHARS \<longleftrightarrow> (of_char b :: nat) \<in> set (map of_char LDH_CHARS)" by auto
  also have "\<dots> \<longleftrightarrow> ldh_byte b"
    unfolding LDH_CHARS_codes ldh_byte_def is_ascii_lowercase_def is_ascii_digit_def less_eq_char_def
      set_append set_upt of_char_eq_iff [where 'a = nat, symmetric, of b] by auto
  finally show ?thesis by blast
qed

lemma label_spec_iff: "label_spec l \<longleftrightarrow> l \<noteq> [] \<and> length l \<le> 63 \<and> is_ldh l"
proof (cases "l = []")
  case True
  then show ?thesis by (simp add: label_spec_def)
next
  case False
  have a: "list_all ldh_byte l \<longleftrightarrow> set l \<subseteq> set LDH_CHARS"
    unfolding list_all_iff ldh_byte_enum by blast
  have b: "starts_with (CHR ''-'') l \<longleftrightarrow> hd l = CHR ''-''"
    using False by (cases l) (simp_all add: starts_with_def)
  have c: "ends_with (CHR ''-'') l \<longleftrightarrow> last l = CHR ''-''"
    using False by (cases l rule: rev_cases) (simp_all add: starts_with_def ends_with_def)
  have d: "1 \<le> length l" using False by (simp add: Suc_le_eq)
  show ?thesis unfolding label_spec_def is_ldh_def a b c using False d by blast
qed

lemma label_spec_no_dot: "label_spec l \<Longrightarrow> CHR ''.'' \<notin> set l"
proof
  assume "label_spec l" "CHR ''.'' \<in> set l"
  then have "CHR ''.'' \<in> set LDH_CHARS" unfolding label_spec_def by blast
  then show False by (simp add: LDH_CHARS_def)
qed

lemma tld_validate_iff: "tld_validate t = Inr () \<longleftrightarrow> label_spec t"
  by (auto simp: tld_validate_def label_spec_iff TLD_MAX_LEN_def)

lemma validate_labels_iff: "validate_labels ls = Inr () \<longleftrightarrow> (\<forall>l\<in>set ls. label_spec l)"
  by (induction ls) (auto simp: label_spec_iff MAX_LABEL_LEN_def)

text \<open>C31: \<^verbatim>\<open>DomainName::new\<close> accepts exactly the names of RFC 1123: the dot-joined sequences of
  at least two labels, each of 1 to 63 letters (lowercase), digits and hyphens with no hyphen at
  either end, of total length at most 253; and it returns the name unchanged.\<close>

theorem domain_new_iff:
  "domain_new name = Inr r \<longleftrightarrow> r = name \<and> length name \<le> 253
     \<and> (\<exists>ls. 2 \<le> length ls \<and> list_all label_spec ls \<and> name = join_dots ls)"
proof -
  let ?all = "split_on (CHR ''.'') name"
  have nn: "name \<noteq> []" if "butlast ?all \<noteq> []" using that by auto
  have all: "set ?all = insert (last ?all) (set (butlast ?all))"
    by (metis append_butlast_last_id list.simps(15) rotate1.simps(2) set_rotate1 split_on_not_Nil)
  have "domain_validate name = Inr () \<longleftrightarrow>
    length name \<le> 253 \<and> butlast ?all \<noteq> [] \<and> (\<forall>l\<in>set ?all. label_spec l)"
    using nn unfolding all domain_validate_def Let_def MAX_TOTAL_LEN_def
    by (simp add: tld_validate_iff validate_labels_iff)
  moreover have "butlast ?all \<noteq> [] \<longleftrightarrow> 2 \<le> length ?all"
    by (cases ?all rule: rev_cases) (auto simp: neq_Nil_conv Suc_le_eq)
  moreover have "(\<exists>ls. 2 \<le> length ls \<and> (\<forall>l\<in>set ls. label_spec l) \<and> name = join_dots ls)
    \<longleftrightarrow> 2 \<le> length ?all \<and> (\<forall>l\<in>set ?all. label_spec l)"
  proof
    assume "\<exists>ls. 2 \<le> length ls \<and> (\<forall>l\<in>set ls. label_spec l) \<and> name = join_dots ls"
    then obtain ls where ls: "2 \<le> length ls" "\<forall>l\<in>set ls. label_spec l" "name = join_dots ls" by blast
    have "?all = ls" unfolding ls(3) using ls(1,2) label_spec_no_dot by (intro split_join) auto
    then show "2 \<le> length ?all \<and> (\<forall>l\<in>set ?all. label_spec l)" using ls by simp
  next
    assume "2 \<le> length ?all \<and> (\<forall>l\<in>set ?all. label_spec l)"
    then show "\<exists>ls. 2 \<le> length ls \<and> (\<forall>l\<in>set ls. label_spec l) \<and> name = join_dots ls"
      using join_split [of name] by metis
  qed
  ultimately show ?thesis by (auto simp: domain_new_def list_all_iff)
qed

lemma valid_name_tld:
  assumes "domain_validate name = Inr ()"
  shows "\<exists>t. domain_tld name = Some t \<and> tld_validate t = Inr () \<and> last (labels name) = t"
proof -
  have v: "butlast (labels name) \<noteq> []" "tld_validate (last (labels name)) = Inr ()"
    using assms by (auto simp: domain_validate_def Let_def labels_def split: if_splits)
  have "CHR ''.'' \<in> set name" using v(1) split_on_no_sep [of "CHR ''.''" name]
    by (force simp: labels_def)
  then show ?thesis using v by (simp add: domain_tld_last)
qed

section \<open>Identifiers and networks\<close>

lemma length_hex_bytes [simp]: "length (hex_bytes bs) = 2 * length bs"
  by (induction bs) auto

lemma HEX_TABLE_distinct: "distinct HEX_TABLE" "length HEX_TABLE = 16"
  by (simp_all add: HEX_TABLE_def)

lemma nibbles:
  fixes b :: u8
  shows "unat (drop_bit 4 b) < 16" "unat (b AND 15) < 16"
    "drop_bit 4 b = drop_bit 4 c \<Longrightarrow> b AND 15 = c AND 15 \<Longrightarrow> b = c"
proof -
  have m: "(15::u8) = mask 4" by (simp add: mask_eq_exp_minus_1)
  have "unat (drop_bit 4 b) = unat b div 16" unfolding unat_drop_bit_eq by (simp add: drop_bit_eq_div)
  moreover have "unat b < 2 ^ LENGTH(8)" by (rule unsigned_less)
  ultimately show "unat (drop_bit 4 b) < 16" by simp
  have "unat (take_bit 4 b) = take_bit 4 (unat b)" by (simp add: unsigned_take_bit_eq)
  then show "unat (b AND 15) < 16" unfolding m take_bit_eq_mask [symmetric]
    by (simp add: take_bit_eq_mod)
  assume e: "drop_bit 4 b = drop_bit 4 c" "b AND 15 = c AND 15"
  have "push_bit 4 (drop_bit 4 b) + take_bit 4 b = push_bit 4 (drop_bit 4 c) + take_bit 4 c"
    using e unfolding m take_bit_eq_mask by (simp only:)
  then show "b = c" unfolding bits_ident .
qed

lemma hex_bytes_inject: "length bs = length cs \<Longrightarrow> hex_bytes bs = hex_bytes cs \<Longrightarrow> bs = cs"
proof (induction bs cs rule: list_induct2)
  case (Cons b bs c cs)
  have inj: "HEX_TABLE ! i = HEX_TABLE ! j \<longleftrightarrow> i = j" if "i < 16" "j < 16" for i j
    using that HEX_TABLE_distinct by (simp add: nth_eq_iff_index_eq)
  have e: "HEX_TABLE ! unat (drop_bit 4 b) = HEX_TABLE ! unat (drop_bit 4 c)"
    "HEX_TABLE ! unat (b AND 15) = HEX_TABLE ! unat (c AND 15)" "hex_bytes bs = hex_bytes cs"
    using Cons.prems unfolding hex_bytes.simps list.inject by blast+
  have "unat (drop_bit 4 b) = unat (drop_bit 4 c)" "unat (b AND 15) = unat (c AND 15)"
    using e(1,2) unfolding inj [OF nibbles(1) nibbles(1)] inj [OF nibbles(2) nibbles(2)] by blast+
  then have "b = c" using nibbles(3) by (metis word_unat_eq_iff)
  then show ?case using Cons.IH e(3) by simp
qed simp

lemma network_new_bytes: "network_new s = Inr n \<Longrightarrow> network_bytes n = str_bytes s"
proof -
  assume a: "network_new s = Inr n"
  then have l: "length s \<le> 16" by (simp add: network_new_def MAX_NETWORK_ID_LEN_def split: if_splits)
  then have "unat (of_nat (length s) :: u8) = length s" by (simp add: unat_of_nat)
  then show ?thesis using a by (auto simp: network_new_def network_bytes_def split: if_splits)
qed

end
