(* ===== verification/Scone_Pow.thy ===== *)
theory Scone_Pow
  imports Scone_Names
begin

text \<open>
  The registration proof of work of \<^verbatim>\<open>crates/scone-core/src/pow.rs\<close>: the digest, the count of
  leading zero bits, verification of a proof payload, its encoding and the wallet's search.
  \<^verbatim>\<open>mine\<close> may not return: the search is a partial function whose value \<open>None\<close> also covers the
  overflow of the nonce.
\<close>

definition POW_VERSION :: bytes where "POW_VERSION = str_bytes ''SCONE-POW-V1''"

record checked_pow =
  cp_nonce :: u64
  cp_difficulty :: u32

definition digest :: "crypto \<Rightarrow> network_id \<Rightarrow> bytes \<Rightarrow> u64 \<Rightarrow> hash32" where
  "digest cr network challenge nonce =
     hash256 cr [POW_VERSION, network_bytes network, challenge, u64_le nonce]"

text \<open>\<^verbatim>\<open>u8::leading_zeros\<close>.\<close>

fun clz8_from :: "nat \<Rightarrow> u8 \<Rightarrow> nat" where
  "clz8_from 0 x = 0"
| "clz8_from (Suc n) x = (if bit x n then 0 else Suc (clz8_from n x))"

fun zero_bits :: "bytes \<Rightarrow> u32" where
  "zero_bits [] = 0"
| "zero_bits (b # bs) = (if b = 0 then 8 + zero_bits bs else of_nat (clz8_from 8 b))"

definition leading_zero_bits :: "hash32 \<Rightarrow> u32" where
  "leading_zero_bits d = zero_bits (h32_bytes d)"

definition check_pow :: "crypto \<Rightarrow> network_id \<Rightarrow> bytes \<Rightarrow> u64 \<Rightarrow> u32 \<Rightarrow> checked_pow result" where
  "check_pow cr network challenge nonce difficulty =
     (if 256 < difficulty then Inl InvalidProof
      else let d = digest cr network challenge nonce; zeros = leading_zero_bits d in
        if zeros < difficulty then Inl InvalidProof
        else Inr \<lparr>cp_nonce = nonce, cp_difficulty = difficulty\<rparr>)"

partial_function (option) mine_loop ::
  "crypto \<Rightarrow> network_id \<Rightarrow> bytes \<Rightarrow> u32 \<Rightarrow> u64 \<Rightarrow> checked_pow option" where
  "mine_loop cr network challenge difficulty nonce =
     (case check_pow cr network challenge nonce difficulty of
        Inr checked \<Rightarrow> Some checked
      | Inl _ \<Rightarrow> if nonce = - 1 then None
          else mine_loop cr network challenge difficulty (nonce + 1))"

definition mine :: "crypto \<Rightarrow> network_id \<Rightarrow> bytes \<Rightarrow> u32 \<Rightarrow> checked_pow option" where
  "mine cr network challenge difficulty = mine_loop cr network challenge difficulty 0"

definition encode_proof :: "checked_pow \<Rightarrow> bytes" where
  "encode_proof checked = u64_le (cp_nonce checked) @ u32_le (cp_difficulty checked)"

definition verify_pow :: "crypto \<Rightarrow> network_id \<Rightarrow> bytes \<Rightarrow> bytes \<Rightarrow> u32 \<Rightarrow> checked_pow result" where
  "verify_pow cr network challenge proof expected =
     (if length proof \<noteq> 12 then Inl InvalidProof
      else let nonce = from_le_bytes (take 8 proof); difficulty = from_le_bytes (drop 8 proof) in
        if difficulty \<noteq> expected then Inl InvalidProof
        else check_pow cr network challenge nonce expected)"

text \<open>The challenges of the two registration kinds (state layer and wallet use these bytes).\<close>

definition tld_challenge :: "string \<Rightarrow> bytes" where
  "tld_challenge tld = TLD_ID_VERSION @ str_bytes tld"

definition domain_challenge :: "string \<Rightarrow> bytes" where
  "domain_challenge name = DOMAIN_ID_VERSION @ str_bytes name"

section \<open>Leading zero bits\<close>

lemma clz8_from_le: "clz8_from n b \<le> n"
  by (induction n) auto

lemma clz8_from_spec: "k \<le> n \<Longrightarrow> k \<le> clz8_from n b \<longleftrightarrow> (\<forall>j. n - k \<le> j \<and> j < n \<longrightarrow> \<not> bit b j)"
proof (induction n arbitrary: k)
  case (Suc n)
  show ?case
  proof (cases k)
    case (Suc k')
    then have "k' \<le> n" using Suc.prems by simp
    moreover have "(\<forall>j. Suc n - k \<le> j \<and> j < Suc n \<longrightarrow> \<not> bit b j)
        \<longleftrightarrow> \<not> bit b n \<and> (\<forall>j. n - k' \<le> j \<and> j < n \<longrightarrow> \<not> bit b j)"
      using Suc \<open>k' \<le> n\<close> by (auto simp: less_Suc_eq)
    ultimately show ?thesis using Suc Suc.IH [of k'] by simp
  qed auto
qed simp

text \<open>The number a big-endian byte string denotes.\<close>

fun be_val :: "bytes \<Rightarrow> nat" where
  "be_val [] = 0"
| "be_val (b # bs) = unat b * 2 ^ (8 * length bs) + be_val bs"

lemma be_val_snoc: "be_val (bs @ [b]) = 256 * be_val bs + unat b"
  by (induction bs) (auto simp: algebra_simps power_add)

lemma unat_byte: "unat (b :: u8) < 256"
proof -
  have "unat b < 2 ^ LENGTH(8)" by (rule unsigned_less)
  then show ?thesis by simp
qed

lemma be_val_less: "be_val bs < 2 ^ (8 * length bs)"
proof (induction bs)
  case (Cons b bs)
  have "unat b * 2 ^ (8 * length bs) + be_val bs < (unat b + 1) * 2 ^ (8 * length bs)"
    using Cons by simp
  also have "\<dots> \<le> 256 * 2 ^ (8 * length bs)"
    using unat_byte [of b] by (intro mult_right_mono) auto
  finally show ?case by (simp add: power_add)
qed simp

lemma be_val_be_bytes: "be_val (be_bytes n w) = unat (w :: 'a::len word) mod 2 ^ (8 * n)"
proof (induction n arbitrary: w)
  case (Suc n)
  have b: "unat (ucast w :: u8) = unat w mod 256" by (simp add: unsigned_ucast_eq take_bit_eq_mod)
  have d: "unat (drop_bit 8 w) = unat w div 256" unfolding unat_drop_bit_eq by (simp add: drop_bit_eq_div)
  have "be_val (be_bytes (Suc n) w) = 256 * be_val (be_bytes n (drop_bit 8 w)) + unat w mod 256"
    by (simp add: be_bytes_def be_val_snoc b)
  also have "\<dots> = unat w mod (256 * 2 ^ (8 * n))"
    unfolding Suc.IH d by (simp add: mod_mult2_eq)
  finally show ?case by (simp add: power_add)
qed (simp add: be_bytes_def)

lemma unat_be_val: "unat (d :: hash32) = be_val (h32_bytes d)"
proof -
  have "unat d < 2 ^ LENGTH(256)" by (rule unsigned_less)
  then show ?thesis by (simp add: be_val_be_bytes)
qed

lemma clz8_less:
  assumes "k \<le> 8" shows "k \<le> clz8_from 8 b \<longleftrightarrow> unat b < 2 ^ (8 - k)"
proof -
  have "(\<forall>j. 8 - k \<le> j \<and> j < 8 \<longrightarrow> \<not> bit b j) \<longleftrightarrow> (\<forall>n. \<not> bit b (8 - k + n))"
  proof (intro iffI allI impI notI)
    fix n assume "\<forall>j. 8 - k \<le> j \<and> j < 8 \<longrightarrow> \<not> bit b j" "bit b (8 - k + n)"
    then show False using bit_imp_le_length [of b "8 - k + n"] by simp
  next
    fix j assume "\<forall>n. \<not> bit b (8 - k + n)" "8 - k \<le> j \<and> j < 8" "bit b j"
    then show False by (metis le_add_diff_inverse)
  qed
  also have "\<dots> \<longleftrightarrow> drop_bit (8 - k) b = 0"
    unfolding bit_eq_iff [where a = "drop_bit (8 - k) b"] bit_drop_bit_eq comp_def bit_0_eq
    using bit_imp_le_length [of b] by fastforce
  also have "\<dots> \<longleftrightarrow> unat (drop_bit (8 - k) b) = 0" by (simp add: unat_eq_0)
  also have "\<dots> \<longleftrightarrow> unat b < 2 ^ (8 - k)"
    unfolding unat_drop_bit_eq by (simp add: drop_bit_eq_div div_eq_0_iff)
  finally show ?thesis using clz8_from_spec [OF assms, of b] by simp
qed

lemma unat_zero_bits_Cons:
  assumes "8 * Suc (length bs) < 2 ^ 32"
    and le: "unat (zero_bits bs) \<le> 8 * length bs"
  shows "unat (zero_bits (b # bs)) = (if b = 0 then 8 + unat (zero_bits bs) else clz8_from 8 b)"
proof -
  have "unat (8 + zero_bits bs) = 8 + unat (zero_bits bs)"
    using le assms(1) by (simp add: unat_word_ariths)
  moreover have "unat (of_nat (clz8_from 8 b) :: u32) = clz8_from 8 b"
    using clz8_from_le [of 8 b] by (simp add: unat_of_nat)
  ultimately show ?thesis by simp
qed

lemma unat_zero_bits: "8 * length bs < 2 ^ 32 \<Longrightarrow> unat (zero_bits bs) \<le> 8 * length bs"
proof (induction bs)
  case (Cons b bs)
  then have le: "unat (zero_bits bs) \<le> 8 * length bs" by simp
  show ?case
    using unat_zero_bits_Cons [of bs b] le Cons.prems clz8_from_le [of 8 b] by (auto split: if_splits)
qed simp

lemma zero_bits_less:
  "8 * length bs < 2 ^ 32 \<Longrightarrow> k \<le> 8 * length bs \<Longrightarrow>
     k \<le> unat (zero_bits bs) \<longleftrightarrow> be_val bs < 2 ^ (8 * length bs - k)"
proof (induction bs arbitrary: k)
  case (Cons b bs)
  let ?n = "8 * length bs"
  have le: "unat (zero_bits bs) \<le> ?n" using Cons.prems by (intro unat_zero_bits) simp
  have z: "unat (zero_bits (b # bs)) = (if b = 0 then 8 + unat (zero_bits bs) else clz8_from 8 b)"
    using Cons.prems le by (intro unat_zero_bits_Cons) auto
  show ?case
  proof (cases "k \<le> 8")
    case True
    have e: "8 * length (b # bs) - k = ?n + (8 - k)" using True by simp
    have "be_val (b # bs) < 2 ^ (8 * length (b # bs) - k) \<longleftrightarrow> unat b < 2 ^ (8 - k)"
    proof
      assume a: "be_val (b # bs) < 2 ^ (8 * length (b # bs) - k)"
      have "unat b * 2 ^ ?n \<le> be_val (b # bs)" by simp
      with a have "unat b * 2 ^ ?n < 2 ^ (8 - k) * 2 ^ ?n"
        unfolding e power_add mult.commute [of "2 ^ ?n"] by (rule le_less_trans [rotated])
      then show "unat b < 2 ^ (8 - k)" unfolding mult_less_cancel2 by blast
    next
      assume "unat b < 2 ^ (8 - k)"
      then have "(unat b + 1) * 2 ^ ?n \<le> 2 ^ (8 - k) * 2 ^ ?n" by (intro mult_right_mono) auto
      then show "be_val (b # bs) < 2 ^ (8 * length (b # bs) - k)"
        using be_val_less [of bs] unfolding e by (simp add: power_add mult.commute)
    qed
    moreover have "k \<le> unat (zero_bits (b # bs)) \<longleftrightarrow> unat b < 2 ^ (8 - k)"
      using True clz8_less [OF True, of b] unfolding z by auto
    ultimately show ?thesis by simp
  next
    case False
    then have k: "8 * length (b # bs) - k = ?n - (k - 8)" "k - 8 \<le> ?n" using Cons.prems by auto
    show ?thesis
    proof (cases "b = 0")
      case True
      then show ?thesis using Cons.IH [of "k - 8"] Cons.prems False k unfolding z by auto
    next
      case nz: False
      have "2 ^ (?n - (k - 8)) \<le> (2::nat) ^ ?n" by (intro power_increasing) auto
      also have "\<dots> \<le> unat b * 2 ^ ?n" using nz by (simp add: unat_gt_0 Suc_leI)
      finally have "\<not> be_val (b # bs) < 2 ^ (8 * length (b # bs) - k)" unfolding k by simp
      moreover have "\<not> k \<le> clz8_from 8 b" using clz8_from_le [of 8 b] False by simp
      ultimately show ?thesis using nz unfolding z by simp
    qed
  qed
qed simp

lemma leading_zero_bits_less:
  "k \<le> 256 \<Longrightarrow> k \<le> unat (leading_zero_bits d) \<longleftrightarrow> unat d < 2 ^ (256 - k)"
  using zero_bits_less [of "h32_bytes d" k] by (simp add: leading_zero_bits_def unat_be_val)

lemma leading_zero_bits_le: "unat (leading_zero_bits d) \<le> 256"
  using unat_zero_bits [of "h32_bytes d"] by (simp add: leading_zero_bits_def)

section \<open>Verification, encoding and search\<close>

lemma check_pow_iff:
  "check_pow cr n ch k e = Inr c \<longleftrightarrow> c = \<lparr>cp_nonce = k, cp_difficulty = e\<rparr> \<and> e \<le> 256
     \<and> unat (digest cr n ch k) < 2 ^ (256 - unat e)"
proof (cases "e \<le> 256")
  case True
  then have "unat e \<le> 256" by (simp add: word_le_nat_alt)
  then show ?thesis using True leading_zero_bits_less [of "unat e" "digest cr n ch k"]
    by (auto simp: check_pow_def Let_def word_le_nat_alt word_less_nat_alt not_less)
qed (auto simp: check_pow_def)

lemma verify_pow_exact:
  "verify_pow cr n ch proof e = Inr c \<longleftrightarrow>
     proof = encode_proof c \<and> cp_difficulty c = e \<and> e \<le> 256
     \<and> unat (digest cr n ch (cp_nonce c)) < 2 ^ (256 - unat e)"
proof
  assume a: "verify_pow cr n ch proof e = Inr c"
  then have l: "length proof = 12" and d: "from_le_bytes (drop 8 proof) = e"
    and c: "check_pow cr n ch (from_le_bytes (take 8 proof)) e = Inr c"
    by (auto simp: verify_pow_def Let_def split: if_splits)
  have "le_bytes (length (take 8 proof)) (from_le_bytes (take 8 proof) :: u64) = take 8 proof"
    "le_bytes (length (drop 8 proof)) (from_le_bytes (drop 8 proof) :: u32) = drop 8 proof"
    using l by (intro le_from_le_bytes; simp)+
  then have "encode_proof c = take 8 proof @ drop 8 proof"
    using c d l by (auto simp: encode_proof_def check_pow_iff)
  then show "proof = encode_proof c \<and> cp_difficulty c = e \<and> e \<le> 256
     \<and> unat (digest cr n ch (cp_nonce c)) < 2 ^ (256 - unat e)"
    using c by (auto simp: check_pow_iff)
next
  assume a: "proof = encode_proof c \<and> cp_difficulty c = e \<and> e \<le> 256
     \<and> unat (digest cr n ch (cp_nonce c)) < 2 ^ (256 - unat e)"
  then show "verify_pow cr n ch proof e = Inr c"
    by (auto simp: verify_pow_def encode_proof_def Let_def check_pow_iff from_le_le_bytes)
qed

text \<open>C28: a proof payload is accepted exactly when it is the 12-byte encoding of a nonce and of
  the network's difficulty (no other self-declared difficulty, no trailing byte) and the digest
  of the challenge with that nonce, read as a big-endian number, lies below
  \<open>2 ^ (256 - difficulty)\<close>; in particular every proof encoded from a successful check is
  accepted.\<close>

theorem verify_pow_iff:
  "verify_pow cr n ch proof e = Inr c \<longleftrightarrow>
     proof = encode_proof c \<and> cp_difficulty c = e \<and> e \<le> 256
     \<and> unat (digest cr n ch (cp_nonce c)) < 2 ^ (256 - unat e)"
  by (rule verify_pow_exact)

lemma nonce_step:
  assumes "Suc i < 2 ^ 64"
  shows "(of_nat i :: u64) \<noteq> - 1" "(of_nat i :: u64) + 1 = of_nat (Suc i)"
proof -
  show s: "(of_nat i :: u64) + 1 = of_nat (Suc i)" by simp
  have "unat (of_nat (Suc i) :: u64) = Suc i" using assms by (simp only: unat_of_nat) simp
  then have "(of_nat (Suc i) :: u64) \<noteq> 0" by (metis nat.distinct(1) unat_0)
  then show "(of_nat i :: u64) \<noteq> - 1" unfolding s [symmetric] by (metis add.left_inverse)
qed

definition solves :: "crypto \<Rightarrow> network_id \<Rightarrow> bytes \<Rightarrow> u32 \<Rightarrow> u64 \<Rightarrow> bool" where
  "solves cr n ch e k \<longleftrightarrow> e \<le> 256 \<and> unat (digest cr n ch k) < 2 ^ (256 - unat e)"

lemma mine_loop_step:
  "mine_loop cr n ch e k = (if solves cr n ch e k then Some \<lparr>cp_nonce = k, cp_difficulty = e\<rparr>
     else if k = - 1 then None else mine_loop cr n ch e (k + 1))"
proof -
  have "check_pow cr n ch k e = (if solves cr n ch e k then Inr \<lparr>cp_nonce = k, cp_difficulty = e\<rparr>
      else Inl InvalidProof)"
    using check_pow_iff [of cr n ch k e] unfolding solves_def
    by (cases "check_pow cr n ch k e") (auto simp: check_pow_def Let_def split: if_splits)
  then show ?thesis by (subst mine_loop.simps) simp
qed

lemma mine_loop_found:
  assumes "solves cr n ch e (of_nat m)" "m < 2 ^ 64"
  shows "i \<le> m \<Longrightarrow> \<forall>j. i \<le> j \<and> j < m \<longrightarrow> \<not> solves cr n ch e (of_nat j) \<Longrightarrow>
    mine_loop cr n ch e (of_nat i) = Some \<lparr>cp_nonce = of_nat m, cp_difficulty = e\<rparr>"
proof (induction "m - i" arbitrary: i)
  case 0
  then have "i = m" by simp
  then show ?case using assms(1) by (subst mine_loop_step) simp
next
  case (Suc x)
  then have i: "i < m" "\<not> solves cr n ch e (of_nat i)" "Suc i < 2 ^ 64" using assms(2) by auto
  have "mine_loop cr n ch e (of_nat (Suc i)) = Some \<lparr>cp_nonce = of_nat m, cp_difficulty = e\<rparr>"
    using Suc.hyps(2) Suc.prems i(1) by (intro Suc.hyps(1)) auto
  then show ?case using i nonce_step [OF i(3)] by (subst mine_loop_step) (simp add: add.commute)
qed

lemma mine_loop_none:
  assumes "\<And>k. \<not> solves cr n ch e k"
  shows "i < 2 ^ 64 \<Longrightarrow> mine_loop cr n ch e (of_nat i) = None"
proof (induction "2 ^ 64 - 1 - i" arbitrary: i)
  case 0
  then have "i = 2 ^ 64 - 1" by simp
  then have "(of_nat i :: u64) = - 1" by simp
  then show ?case using assms by (subst mine_loop_step) simp
next
  case (Suc x)
  then have i: "Suc i < 2 ^ 64" by simp
  have "mine_loop cr n ch e (of_nat (Suc i)) = None" using Suc.hyps(2) i by (intro Suc.hyps(1)) auto
  then show ?case using assms nonce_step [OF i] by (subst mine_loop_step) (simp add: add.commute)
qed

lemma mine_least:
  assumes "solves cr n ch e k"
  shows "\<exists>m. mine cr n ch e = Some \<lparr>cp_nonce = m, cp_difficulty = e\<rparr> \<and> solves cr n ch e m
    \<and> (\<forall>j<m. \<not> solves cr n ch e j)"
proof -
  define P where "P i \<longleftrightarrow> i < 2 ^ 64 \<and> solves cr n ch e (of_nat i)" for i
  have "unat k < 2 ^ LENGTH(64)" by (rule unsigned_less)
  then have "P (unat k)" using assms by (simp add: P_def)
  define m where "m = (LEAST i. P i)"
  have m: "P m" unfolding m_def using \<open>P (unat k)\<close> by (rule LeastI)
  have l: "\<not> solves cr n ch e (of_nat j)" if "j < m" for j
    using not_less_Least [of j P] that m by (auto simp: P_def m_def)
  have "mine cr n ch e = Some \<lparr>cp_nonce = of_nat m, cp_difficulty = e\<rparr>"
    using mine_loop_found [of cr n ch e m 0] m l by (simp add: mine_def P_def)
  moreover have "\<not> solves cr n ch e j" if "j < of_nat m" for j
  proof -
    have "unat (of_nat m :: u64) = m" using m by (simp add: P_def unat_of_nat)
    then have "unat j < m" using that by (simp add: word_less_nat_alt)
    then show ?thesis using l [of "unat j"] by simp
  qed
  ultimately show ?thesis using m by (auto simp: P_def)
qed

text \<open>C29: the wallet's search is complete and minimal. \<^verbatim>\<open>mine\<close> returns a result exactly when some
  64-bit nonce solves the challenge, and then it returns the smallest such nonce together with
  the requested difficulty, so its encoded proof is accepted by the verifier.\<close>

theorem mine_complete:
  "case mine cr n ch e of
     None \<Rightarrow> (\<nexists>k. solves cr n ch e k)
   | Some c \<Rightarrow> verify_pow cr n ch (encode_proof c) e = Inr c \<and> (\<forall>j<cp_nonce c. \<not> solves cr n ch e j)"
proof (cases "\<exists>k. solves cr n ch e k")
  case True
  then obtain k where "solves cr n ch e k" ..
  from mine_least [OF this] show ?thesis by (auto simp: verify_pow_exact solves_def)
next
  case False
  then have "mine cr n ch e = None" using mine_loop_none [of cr n ch e 0] by (simp add: mine_def)
  then show ?thesis using False by simp
qed

lemma toy_solves: "e \<le> 256 \<Longrightarrow> solves toy_crypto n ch e k"
  by (simp add: solves_def digest_def hash256_def)

theorem mine_complete_witness:
  "\<exists>c. mine toy_crypto NETWORK_TESTNET (tld_challenge ''uip'') 8 = Some c
     \<and> verify_pow toy_crypto NETWORK_TESTNET (tld_challenge ''uip'') (encode_proof c) 8 = Inr c"
proof -
  have "mine toy_crypto NETWORK_TESTNET (tld_challenge ''uip'') 8 \<noteq> None"
    using mine_least [OF toy_solves, of 8 NETWORK_TESTNET "tld_challenge ''uip''"] by auto
  then show ?thesis
    using mine_complete [of toy_crypto NETWORK_TESTNET "tld_challenge ''uip''" 8]
    by (auto split: option.splits)
qed

section \<open>No replay across networks, kinds or objects\<close>

definition pow_input :: "network_id \<Rightarrow> bytes \<Rightarrow> u64 \<Rightarrow> bytes" where
  "pow_input n ch k = POW_VERSION @ network_bytes n @ ch @ u64_le k"

lemma digest_input: "digest cr n ch k = blake3 cr (pow_input n ch k)"
  by (simp add: digest_def hash256_def pow_input_def)

text \<open>A network id has no byte \<open>S\<close>, and both challenges start with it.\<close>

lemma network_no_S: "network_new s = Inr n \<Longrightarrow> of_char CHR ''S'' \<notin> set (network_bytes n)"
proof
  assume n: "network_new s = Inr n" and "of_char CHR ''S'' \<in> set (network_bytes n)"
  then have "(of_char CHR ''S'' :: u8) \<in> of_char ` set s"
    unfolding network_new_bytes [OF n] str_bytes_def set_map by blast
  then have "CHR ''S'' \<in> set s" unfolding image_iff of_char_u8_inject by simp
  moreover have "list_all ldh_byte s" using n by (simp add: network_new_def split: if_splits)
  ultimately have "ldh_byte CHR ''S''" by (auto simp: list_all_iff)
  then show False by (simp add: ldh_byte_enum LDH_CHARS_def)
qed

lemma append_marker_inject:
  "x \<notin> set a \<Longrightarrow> x \<notin> set b \<Longrightarrow> a @ x # u = b @ x # v \<longleftrightarrow> a = b \<and> u = v"
proof (induction a arbitrary: b)
  case Nil
  then show ?case by (cases b) auto
next
  case (Cons y a)
  then show ?case by (cases b) auto
qed

definition challenges :: "bytes set" where
  "challenges = range tld_challenge \<union> range domain_challenge"

lemma challenge_S: "ch \<in> challenges \<Longrightarrow> \<exists>r. ch = of_char CHR ''S'' # r"
  by (auto simp: challenges_def tld_challenge_def domain_challenge_def TLD_ID_VERSION_def
      DOMAIN_ID_VERSION_def str_bytes_def)

lemma tld_domain_challenge: "tld_challenge t \<noteq> domain_challenge d"
  by (simp add: tld_challenge_def domain_challenge_def TLD_ID_VERSION_def DOMAIN_ID_VERSION_def
      str_bytes_def)

lemma pow_input_inject:
  assumes "network_new s = Inr n" "network_new s' = Inr n'" "ch \<in> challenges" "ch' \<in> challenges"
  shows "pow_input n ch k = pow_input n' ch' k' \<longleftrightarrow> n = n' \<and> ch = ch' \<and> k = k'"
proof
  assume eq: "pow_input n ch k = pow_input n' ch' k'"
  obtain r r' where r: "ch = of_char CHR ''S'' # r" "ch' = of_char CHR ''S'' # r'"
    using challenge_S assms(3,4) by metis
  have "network_bytes n = network_bytes n'" "r @ u64_le k = r' @ u64_le k'"
    using eq r append_marker_inject [OF network_no_S [OF assms(1)] network_no_S [OF assms(2)]]
    by (auto simp: pow_input_def)
  moreover have "s = s'" using calculation(1) network_new_bytes [OF assms(1)] network_new_bytes [OF assms(2)]
    by simp
  ultimately show "n = n' \<and> ch = ch' \<and> k = k'"
    using r assms(1,2) by (simp add: le_bytes_inject)
qed simp

text \<open>C30: a proof of work cannot be replayed. For validated network identifiers, the digests of
  two registrations are hashes of byte strings that are equal only if the networks, the claimed
  objects (a TLD or a domain, and which one) and the nonces are all equal: network and challenge
  are concatenated without a separator, yet unambiguously.\<close>

theorem digest_separation:
  assumes "network_new s = Inr n" "network_new s' = Inr n'"
    "ch \<in> {tld_challenge t, domain_challenge d}" "ch' \<in> {tld_challenge t', domain_challenge d'}"
  shows "\<exists>x y. digest cr n ch k = blake3 cr x \<and> digest cr n' ch' k' = blake3 cr y
    \<and> (x = y \<longleftrightarrow> n = n' \<and> ch = ch' \<and> k = k')
    \<and> tld_challenge t \<noteq> domain_challenge d'"
proof -
  have "ch \<in> challenges" "ch' \<in> challenges" using assms(3,4) by (auto simp: challenges_def)
  then show ?thesis using digest_input pow_input_inject [OF assms(1,2)] tld_domain_challenge by blast
qed

theorem digest_separation_witness:
  "\<exists>x y. digest toy_crypto NETWORK_TESTNET (tld_challenge ''uip'') 7 = blake3 toy_crypto x
    \<and> digest toy_crypto NETWORK_MAINNET (tld_challenge ''uip'') 7 = blake3 toy_crypto y \<and> x \<noteq> y"
proof -
  have n: "network_new ''scone-testnet'' = Inr NETWORK_TESTNET"
    "network_new ''scone-mainnet'' = Inr NETWORK_MAINNET"
    by (simp_all add: network_new_def NETWORK_TESTNET_def NETWORK_MAINNET_def from_ascii_def
        MAX_NETWORK_ID_LEN_def ldh_byte_enum LDH_CHARS_def)
  have "str_bytes ''scone-testnet'' \<noteq> str_bytes ''scone-mainnet''" by simp
  then have "NETWORK_TESTNET \<noteq> NETWORK_MAINNET"
    unfolding network_new_bytes [OF n(1), symmetric] network_new_bytes [OF n(2), symmetric] by (rule contrapos_nn) simp
  then show ?thesis
    using digest_separation [OF n, of "tld_challenge ''uip''" "''uip''" "''a.uip''"
      "tld_challenge ''uip''" "''uip''" "''a.uip''" toy_crypto 7 7] by blast
qed

end
