(* ===== verification/Scone_Checkpoint.thy ===== *)
theory Scone_Checkpoint
  imports Scone_Names "HOL-Library.Product_Lexorder"
begin

text \<open>
  Checkpoints of \<^verbatim>\<open>crates/scone-core/src/checkpoint.rs\<close>: the signed content and its canonical
  preimage, the checkpoint hash, the quorum check over the collected signatures, the seeds and
  the committee draw. The quorum arithmetic is an interface of its own, the locale
  \<open>quorum_rule\<close>, discharged for \<^verbatim>\<open>quorum_for\<close>.
\<close>

definition CHECKPOINT_TAG :: bytes where "CHECKPOINT_TAG = str_bytes ''SCONE-CKPT-V1''"
definition COMMITTEE_TAG :: bytes where "COMMITTEE_TAG = str_bytes ''SCONE-COMMITTEE-V1''"
definition RECOVERY_TAG :: bytes where "RECOVERY_TAG = str_bytes ''SCONE-RECOVERY-V1''"
definition SEED_TAG :: bytes where "SEED_TAG = str_bytes ''SCONE-SEED-V1''"
definition GENESIS_CHECKPOINT_HASH :: hash32 where "GENESIS_CHECKPOINT_HASH = 0"

record checkpoint_data =
  cd_epoch :: u64
  cd_height :: u64
  cd_block_hash :: hash32
  cd_prev_checkpoint_hash :: hash32
  cd_state_root :: hash32
  cd_recovery :: u32

definition signing_bytes :: "checkpoint_data \<Rightarrow> bytes" where
  "signing_bytes d = CHECKPOINT_TAG @ u64_le (cd_epoch d) @ u64_le (cd_height d)
     @ u32_le (cd_recovery d) @ h32_bytes (cd_block_hash d)
     @ h32_bytes (cd_prev_checkpoint_hash d) @ h32_bytes (cd_state_root d)"

definition signing_hash :: "crypto \<Rightarrow> checkpoint_data \<Rightarrow> hash32" where
  "signing_hash cr d = hash256 cr [signing_bytes d]"

record checkpoint =
  ck_data :: checkpoint_data
  ck_signatures :: "(public_key \<times> signature) list"

text \<open>The minimal LEB128 encoding of the number of signatures.\<close>

function leb128 :: "u64 \<Rightarrow> bytes" where
  "leb128 n =
     (let b = ucast (n AND 127) :: u8; n' = drop_bit 7 n in
      if n' = 0 then [b] else (b OR 128) # leb128 n')"
  by pat_completeness auto
termination
proof (relation "measure unat", simp, goal_cases)
  case (1 n b n')
  have "unat (drop_bit 7 n) = unat n div 128" unfolding unat_drop_bit_eq by (simp add: drop_bit_eq_div)
  moreover have "unat n \<noteq> 0" using 1 by (auto simp: unat_eq_0)
  ultimately show ?case using 1 by simp
qed

declare leb128.simps [simp del]

definition checkpoint_hash :: "crypto \<Rightarrow> checkpoint \<Rightarrow> hash32" where
  "checkpoint_hash cr c = hash256 cr [h32_bytes (signing_hash cr (ck_data c))
     @ leb128 (of_nat (length (ck_signatures c)))
     @ concat (map (\<lambda>(pk, sig). h32_bytes pk @ s64_bytes sig) (ck_signatures c))]"

text \<open>One pass over the signatures: the signers seen so far and the number of valid ones.\<close>

fun quorum_step :: "crypto \<Rightarrow> public_key list \<Rightarrow> hash32 \<Rightarrow> public_key \<times> signature
     \<Rightarrow> public_key fset \<times> nat \<Rightarrow> public_key fset \<times> nat" where
  "quorum_step cr committee msg (pk, sig) (signers, valid) =
     (if pk \<notin> set committee then (signers, valid)
      else if pk |\<in>| signers then (signers, valid)
      else (finsert pk signers, if pk_verify cr pk (h32_bytes msg) sig then valid + 1 else valid))"

definition verify_quorum :: "crypto \<Rightarrow> checkpoint \<Rightarrow> public_key list \<Rightarrow> nat \<Rightarrow> bool" where
  "verify_quorum cr c committee quorum \<longleftrightarrow>
     quorum \<le> snd (fold (quorum_step cr committee (signing_hash cr (ck_data c)))
                        (ck_signatures c) ({||}, 0))"

definition next_seed :: "crypto \<Rightarrow> hash32 \<Rightarrow> hash32" where
  "next_seed cr h = hash256 cr [SEED_TAG, h32_bytes h]"

definition recovery_seed :: "crypto \<Rightarrow> hash32 \<Rightarrow> u32 \<Rightarrow> hash32" where
  "recovery_seed cr seed k = hash256 cr [RECOVERY_TAG, h32_bytes seed, u32_le k]"

definition committee_rank :: "crypto \<Rightarrow> hash32 \<Rightarrow> public_key \<Rightarrow> hash32 \<times> public_key" where
  "committee_rank cr seed pk = (hash256 cr [COMMITTEE_TAG, h32_bytes seed, h32_bytes pk], pk)"

definition select_committee :: "crypto \<Rightarrow> hash32 \<Rightarrow> public_key list \<Rightarrow> nat \<Rightarrow> public_key list" where
  "select_committee cr seed eligible n =
     map snd (take n (sort (map (committee_rank cr seed) (sorted_list_of_set (set eligible)))))"

section \<open>Signed content\<close>

lemma signing_bytes_inject [simp]: "signing_bytes d = signing_bytes d' \<longleftrightarrow> d = d'"
  by (cases d; cases d') (auto simp: signing_bytes_def le_bytes_inject be_bytes_inject)

section \<open>The quorum check\<close>

text \<open>The members whose first listed signature is valid.\<close>

definition valid_signers :: "crypto \<Rightarrow> checkpoint \<Rightarrow> public_key list \<Rightarrow> public_key set" where
  "valid_signers cr c committee = {pk \<in> set committee. \<exists>sig. map_of (ck_signatures c) pk = Some sig
     \<and> pk_verify cr pk (h32_bytes (signing_hash cr (ck_data c))) sig}"

lemma finite_valid_signers [simp]: "finite (valid_signers cr c committee)"
  by (simp add: valid_signers_def)

lemma quorum_fold:
  "snd (fold (quorum_step cr com msg) sigs (S, v)) =
     v + card {pk \<in> set com. pk |\<notin>| S \<and> (\<exists>sig. map_of sigs pk = Some sig \<and> pk_verify cr pk (h32_bytes msg) sig)}"
proof (induction sigs arbitrary: S v)
  case (Cons e sigs)
  obtain pk sig where e: "e = (pk, sig)" by (cases e)
  define A where "A S sigs = {p \<in> set com. p |\<notin>| S
    \<and> (\<exists>s. map_of sigs p = Some s \<and> pk_verify cr p (h32_bytes msg) s)}" for S sigs
  have fin: "finite (A S sigs)" for S sigs by (simp add: A_def)
  have IH: "snd (fold (quorum_step cr com msg) sigs (S, v)) = v + card (A S sigs)" for S v
    using Cons.IH by (simp add: A_def)
  have "snd (fold (quorum_step cr com msg) (e # sigs) (S, v)) = v + card (A S (e # sigs))"
  proof (cases "pk \<notin> set com \<or> pk |\<in>| S")
    case True
    then have "A S (e # sigs) = A S sigs" using e by (auto simp: A_def)
    then show ?thesis using True IH e by auto
  next
    case False
    then have "A S (e # sigs) = (if pk_verify cr pk (h32_bytes msg) sig
        then insert pk (A (finsert pk S) sigs) else A (finsert pk S) sigs)" "pk \<notin> A (finsert pk S) sigs"
      using e by (auto simp: A_def)
    then show ?thesis using False IH e fin by simp
  qed
  then show ?case by (simp only: A_def)
qed simp

lemma verify_quorum_valid: "verify_quorum cr c com q \<longleftrightarrow> q \<le> card (valid_signers cr c com)"
  by (simp add: verify_quorum_def quorum_fold valid_signers_def)

section \<open>Quorum intersection\<close>

locale quorum_rule =
  fixes q :: "nat \<Rightarrow> nat"
  assumes majority: "4 * n < 6 * q n"
begin

text \<open>Two quorums of one committee share more than a third of it.\<close>

lemma quorums_intersect:
  assumes "finite M" "A \<subseteq> M" "B \<subseteq> M" "q (card M) \<le> card A" "q (card M) \<le> card B"
  shows "card M < 3 * card (A \<inter> B)"
proof -
  have fin: "finite A" "finite B" using assms by (auto intro: finite_subset)
  have "card A + card B = card (A \<union> B) + card (A \<inter> B)" using fin by (rule card_Un_Int)
  moreover have "card (A \<union> B) \<le> card M" using assms by (intro card_mono) auto
  ultimately show ?thesis using assms(4,5) majority [of "card M"] by simp
qed

end

interpretation bft: quorum_rule quorum_for
  by unfold_locales (simp add: quorum_for_def)

lemma quorum_for_le: "0 < n \<Longrightarrow> quorum_for n \<le> n"
  by (simp add: quorum_for_def)

section \<open>The committee draw\<close>

lemma inj_committee_rank: "inj (committee_rank cr seed)"
  by (auto simp: inj_def committee_rank_def)

lemma snd_committee_rank [simp]: "snd (committee_rank cr seed pk) = pk"
  by (simp add: committee_rank_def)

lemma ranked_distinct:
  "distinct (sort (map (committee_rank cr seed) (sorted_list_of_set (set eligible))))"
  using inj_on_subset [OF inj_committee_rank subset_UNIV] by (simp add: distinct_map)

lemma snd_ranked: "(h, pk) \<in> set (sort (map (committee_rank cr seed) xs)) \<Longrightarrow> (h, pk) = committee_rank cr seed pk"
  by (auto simp: committee_rank_def)

lemma strict_sorted_take_drop:
  fixes xs :: "'a::linorder list"
  assumes "sorted xs" "distinct xs" "x \<in> set (take n xs)" "y \<in> set (drop n xs)"
  shows "x < y"
proof -
  have "sorted_wrt (<) (take n xs @ drop n xs)" using assms(1,2) by (simp add: strict_sorted_iff)
  then show ?thesis using assms(3,4) unfolding sorted_wrt_append by blast
qed

text \<open>The committee draw. The committee has distinct members, all eligible, as many as the
  size allows; it is exactly the eligible keys of lowest rank (hash of tag, seed and key, ties by
  key), so it does not depend on the order or the multiplicity in which the eligible keys are
  listed.\<close>

theorem select_committee_spec:
  "distinct (select_committee cr seed eligible n)
   \<and> length (select_committee cr seed eligible n) = min n (card (set eligible))
   \<and> set (select_committee cr seed eligible n) \<subseteq> set eligible
   \<and> (\<forall>x\<in>set (select_committee cr seed eligible n).
        \<forall>y\<in>set eligible - set (select_committee cr seed eligible n).
          committee_rank cr seed x < committee_rank cr seed y)
   \<and> (\<forall>eligible'. set eligible' = set eligible \<longrightarrow>
        select_committee cr seed eligible' n = select_committee cr seed eligible n)"
proof -
  define L where "L = sort (map (committee_rank cr seed) (sorted_list_of_set (set eligible)))"
  have L: "sorted L" "distinct L" "set L = committee_rank cr seed ` set eligible" "length L = card (set eligible)"
    using ranked_distinct by (auto simp: L_def)
  have sel: "select_committee cr seed eligible n = map snd (take n L)"
    by (simp add: select_committee_def L_def)
  have inj: "inj_on snd (set L)" unfolding L(3) by (auto simp: inj_on_def)
  have d: "distinct (map snd (take n L))"
    using L(2) inj set_take_subset [of n L] by (auto simp: distinct_map intro: inj_on_subset)
  have sub: "set (map snd (take n L)) \<subseteq> set eligible"
    using set_take_subset [of n L] L(3) by auto
  have rank: "committee_rank cr seed x \<in> set (take n L)" if x: "x \<in> set (map snd (take n L))" for x
  proof -
    obtain e where e: "e \<in> set (take n L)" "snd e = x" using x by auto
    then have "e \<in> set L" using set_take_subset by fast
    then show ?thesis using e L(3) by auto
  qed
  have "committee_rank cr seed x < committee_rank cr seed y"
    if x: "x \<in> set (map snd (take n L))" and y: "y \<in> set eligible - set (map snd (take n L))" for x y
  proof -
    have "committee_rank cr seed y \<in> set L" using y L(3) by simp
    moreover have "committee_rank cr seed y \<notin> set (take n L)" using y by force
    ultimately have "committee_rank cr seed y \<in> set (drop n L)"
      by (metis UnE append_take_drop_id set_append)
    then show ?thesis using strict_sorted_take_drop [OF L(1,2) rank [OF x]] by blast
  qed
  then show ?thesis using d sub L(4) unfolding sel by (auto simp: select_committee_def L_def)
qed

theorem select_committee_spec_witness:
  "set (select_committee toy_crypto 0 [3, 1, 2, 1] 2) \<subseteq> {1, 2, 3}
   \<and> length (select_committee toy_crypto 0 [3, 1, 2, 1] 2) = 2
   \<and> select_committee toy_crypto 0 [3, 1, 2, 1] 2 = select_committee toy_crypto 0 [1, 2, 3] 2"
proof -
  have s: "set [3, 1, 2, 1 :: public_key] = {1, 2, 3}" "card {1, 2, 3 :: public_key} = 3" by auto
  then have c: "card (set [3, 1, 2, 1 :: public_key]) = 3" "set [3, 1, 2, 1 :: public_key] = {1, 2, 3}"
    "set [1, 2, 3 :: public_key] = set [3, 1, 2, 1]" by (simp_all only: s) auto
  note spec = select_committee_spec [of toy_crypto 0 "[3, 1, 2, 1]" 2]
  have "length (select_committee toy_crypto 0 [3, 1, 2, 1] 2) = min 2 3"
    using spec unfolding c(1) by blast
  moreover have "select_committee toy_crypto 0 [1, 2, 3] 2 = select_committee toy_crypto 0 [3, 1, 2, 1] 2"
    using spec c(3) by blast
  moreover have "set (select_committee toy_crypto 0 [3, 1, 2, 1] 2) \<subseteq> {1, 2, 3}"
    using spec unfolding c(2) by blast
  ultimately show ?thesis by simp
qed

text \<open>The quorum check counts exactly the distinct committee members whose first listed
  signature over the checkpoint's signing hash verifies: foreign keys, repeated entries and
  invalid signatures never count.\<close>

theorem verify_quorum_iff:
  "verify_quorum cr c committee q \<longleftrightarrow>
     q \<le> card {pk \<in> set committee. \<exists>sig. map_of (ck_signatures c) pk = Some sig
            \<and> pk_verify cr pk (h32_bytes (signing_hash cr (ck_data c))) sig}"
  by (simp add: verify_quorum_valid valid_signers_def)

text \<open>Quorum intersection. If two checkpoints pass the quorum check of one committee of
  distinct members, more than a third of the committee signed both of them.\<close>

theorem quorum_intersection:
  assumes "distinct committee"
    "verify_quorum cr c committee (quorum_for (length committee))"
    "verify_quorum cr c' committee (quorum_for (length committee))"
  shows "length committee < 3 * card (valid_signers cr c committee \<inter> valid_signers cr c' committee)"
proof -
  have "card (set committee) = length committee" using assms(1) by (rule distinct_card)
  then show ?thesis
    using bft.quorums_intersect [of "set committee" "valid_signers cr c committee" "valid_signers cr c' committee"]
      assms(2,3) by (simp add: verify_quorum_valid valid_signers_def)
qed

definition toy_checkpoint :: "u64 \<Rightarrow> checkpoint" where
  "toy_checkpoint h = \<lparr>ck_data = \<lparr>cd_epoch = 1, cd_height = h, cd_block_hash = 0,
     cd_prev_checkpoint_hash = 0, cd_state_root = 0, cd_recovery = 0\<rparr>,
     ck_signatures = [(1, 1), (2, 1), (3, 1), (4, 0)]\<rparr>"

lemma toy_verify_quorum: "verify_quorum toy_crypto (toy_checkpoint h) [1, 2, 3, 4] 3"
  by (simp add: verify_quorum_def toy_checkpoint_def pk_verify_def)

theorem quorum_intersection_witness:
  "length [1, 2, 3, 4 :: public_key] < 3 * card (valid_signers toy_crypto (toy_checkpoint 5) [1, 2, 3, 4]
     \<inter> valid_signers toy_crypto (toy_checkpoint 6) [1, 2, 3, 4])"
proof (rule quorum_intersection)
  show "distinct [1, 2, 3, 4 :: public_key]" by simp
qed (use toy_verify_quorum in \<open>simp_all add: quorum_for_def\<close>)

end
