(* ===== verification/Scone_Tx.thy ===== *)
theory Scone_Tx
  imports Scone_Pow Scone_Checkpoint
begin

text \<open>
  The transactions of \<^verbatim>\<open>crates/scone-core/src/transaction.rs\<close>: one record per transaction kind
  with the fields of the Rust struct, the two constructors of each kind (for testnet and for a
  given network), \<^verbatim>\<open>validate\<close>, the equivocation evidence of \<^verbatim>\<open>SlashTx\<close>, and the
  \<^verbatim>\<open>Transaction\<close> enum with its accessors. \<^verbatim>\<open>Proof\<close> is its bytes, \<^verbatim>\<open>RecordHash\<close> a 32-byte word.
\<close>

section \<open>Owner binding\<close>

definition owner_of :: "crypto \<Rightarrow> public_key \<Rightarrow> owner_id" where
  "owner_of cr pk = owner_from_public_key_ref cr (public_key_ref cr (h32_bytes pk))"

definition check_owner_binding :: "crypto \<Rightarrow> owner_id \<Rightarrow> public_key \<Rightarrow> unit result" where
  "check_owner_binding cr own pk = (if own \<noteq> owner_of cr pk then Inl InvalidOwner else Inr ())"

section \<open>Transaction kinds\<close>

record register_domain =
  rd_network :: network_id
  rd_name :: string
  rd_domain_id :: domain_id
  rd_owner :: owner_id
  rd_timestamp :: u64
  rd_proof :: bytes
  rd_public_key :: public_key
  rd_signature :: signature

definition register_domain_on :: "crypto \<Rightarrow> network_id \<Rightarrow> string \<Rightarrow> u64 \<Rightarrow> bytes \<Rightarrow> public_key \<Rightarrow> signature \<Rightarrow> register_domain" where
  "register_domain_on cr network name timestamp prf pk sig =
     \<lparr>rd_network = network, rd_name = name, rd_domain_id = domain_id_from_name cr name, rd_owner = owner_of cr pk, rd_timestamp = timestamp, rd_proof = prf, rd_public_key = pk, rd_signature = sig\<rparr>"

definition register_domain_signed :: "crypto \<Rightarrow> string \<Rightarrow> u64 \<Rightarrow> bytes \<Rightarrow> public_key \<Rightarrow> signature \<Rightarrow> register_domain" where
  "register_domain_signed cr name timestamp prf pk sig =
     register_domain_on cr (np_network_id TESTNET) name timestamp prf pk sig"

definition register_domain_validate :: "crypto \<Rightarrow> register_domain \<Rightarrow> unit result" where
  "register_domain_validate cr tx =
     try_bind (check_owner_binding cr (rd_owner tx) (rd_public_key tx))
       (\<lambda>_. if rd_domain_id tx \<noteq> domain_id_from_name cr (rd_name tx) then Inl InvalidDomain else Inr ())"

record update_domain =
  ud_network :: network_id
  ud_domain_id :: domain_id
  ud_owner :: owner_id
  ud_sequence :: u64
  ud_record_hash :: hash32
  ud_public_key :: public_key
  ud_signature :: signature

definition update_domain_on :: "crypto \<Rightarrow> network_id \<Rightarrow> domain_id \<Rightarrow> u64 \<Rightarrow> hash32 \<Rightarrow> public_key \<Rightarrow> signature \<Rightarrow> update_domain" where
  "update_domain_on cr network domain_id sequence record_hash pk sig =
     \<lparr>ud_network = network, ud_domain_id = domain_id, ud_owner = owner_of cr pk, ud_sequence = sequence, ud_record_hash = record_hash, ud_public_key = pk, ud_signature = sig\<rparr>"

definition update_domain_signed :: "crypto \<Rightarrow> domain_id \<Rightarrow> u64 \<Rightarrow> hash32 \<Rightarrow> public_key \<Rightarrow> signature \<Rightarrow> update_domain" where
  "update_domain_signed cr domain_id sequence record_hash pk sig =
     update_domain_on cr (np_network_id TESTNET) domain_id sequence record_hash pk sig"

definition update_domain_validate :: "crypto \<Rightarrow> update_domain \<Rightarrow> unit result" where
  "update_domain_validate cr tx =
     (if ud_sequence tx = 0 then Inl (InvalidSequence 0)
      else check_owner_binding cr (ud_owner tx) (ud_public_key tx))"

record register_tld =
  rt_network :: network_id
  rt_name :: string
  rt_tld_id :: tld_id
  rt_owner :: owner_id
  rt_timestamp :: u64
  rt_proof :: bytes
  rt_public_key :: public_key
  rt_signature :: signature

definition register_tld_on :: "crypto \<Rightarrow> network_id \<Rightarrow> string \<Rightarrow> u64 \<Rightarrow> bytes \<Rightarrow> public_key \<Rightarrow> signature \<Rightarrow> register_tld" where
  "register_tld_on cr network name timestamp prf pk sig =
     \<lparr>rt_network = network, rt_name = name, rt_tld_id = tld_id_from_tld cr name, rt_owner = owner_of cr pk, rt_timestamp = timestamp, rt_proof = prf, rt_public_key = pk, rt_signature = sig\<rparr>"

definition register_tld_signed :: "crypto \<Rightarrow> string \<Rightarrow> u64 \<Rightarrow> bytes \<Rightarrow> public_key \<Rightarrow> signature \<Rightarrow> register_tld" where
  "register_tld_signed cr name timestamp prf pk sig =
     register_tld_on cr (np_network_id TESTNET) name timestamp prf pk sig"

definition register_tld_validate :: "crypto \<Rightarrow> register_tld \<Rightarrow> unit result" where
  "register_tld_validate cr tx =
     try_bind (check_owner_binding cr (rt_owner tx) (rt_public_key tx))
       (\<lambda>_. if rt_tld_id tx \<noteq> tld_id_from_tld cr (rt_name tx) then Inl InvalidTld else Inr ())"

record transfer_tld =
  tt_network :: network_id
  tt_tld_id :: tld_id
  tt_owner :: owner_id
  tt_new_owner :: owner_id
  tt_public_key :: public_key
  tt_signature :: signature

definition transfer_tld_on :: "crypto \<Rightarrow> network_id \<Rightarrow> tld_id \<Rightarrow> owner_id \<Rightarrow> public_key \<Rightarrow> signature \<Rightarrow> transfer_tld" where
  "transfer_tld_on cr network tld_id new_owner pk sig =
     \<lparr>tt_network = network, tt_tld_id = tld_id, tt_owner = owner_of cr pk, tt_new_owner = new_owner, tt_public_key = pk, tt_signature = sig\<rparr>"

definition transfer_tld_signed :: "crypto \<Rightarrow> tld_id \<Rightarrow> owner_id \<Rightarrow> public_key \<Rightarrow> signature \<Rightarrow> transfer_tld" where
  "transfer_tld_signed cr tld_id new_owner pk sig =
     transfer_tld_on cr (np_network_id TESTNET) tld_id new_owner pk sig"

definition transfer_tld_validate :: "crypto \<Rightarrow> transfer_tld \<Rightarrow> unit result" where
  "transfer_tld_validate cr tx =
     check_owner_binding cr (tt_owner tx) (tt_public_key tx)"

record transfer_domain =
  td_network :: network_id
  td_domain_id :: domain_id
  td_owner :: owner_id
  td_new_owner :: owner_id
  td_public_key :: public_key
  td_signature :: signature

definition transfer_domain_on :: "crypto \<Rightarrow> network_id \<Rightarrow> domain_id \<Rightarrow> owner_id \<Rightarrow> public_key \<Rightarrow> signature \<Rightarrow> transfer_domain" where
  "transfer_domain_on cr network domain_id new_owner pk sig =
     \<lparr>td_network = network, td_domain_id = domain_id, td_owner = owner_of cr pk, td_new_owner = new_owner, td_public_key = pk, td_signature = sig\<rparr>"

definition transfer_domain_signed :: "crypto \<Rightarrow> domain_id \<Rightarrow> owner_id \<Rightarrow> public_key \<Rightarrow> signature \<Rightarrow> transfer_domain" where
  "transfer_domain_signed cr domain_id new_owner pk sig =
     transfer_domain_on cr (np_network_id TESTNET) domain_id new_owner pk sig"

definition transfer_domain_validate :: "crypto \<Rightarrow> transfer_domain \<Rightarrow> unit result" where
  "transfer_domain_validate cr tx =
     check_owner_binding cr (td_owner tx) (td_public_key tx)"

record revoke_tld =
  rv_network :: network_id
  rv_tld_id :: tld_id
  rv_owner :: owner_id
  rv_public_key :: public_key
  rv_signature :: signature

definition revoke_tld_on :: "crypto \<Rightarrow> network_id \<Rightarrow> tld_id \<Rightarrow> public_key \<Rightarrow> signature \<Rightarrow> revoke_tld" where
  "revoke_tld_on cr network tld_id pk sig =
     \<lparr>rv_network = network, rv_tld_id = tld_id, rv_owner = owner_of cr pk, rv_public_key = pk, rv_signature = sig\<rparr>"

definition revoke_tld_signed :: "crypto \<Rightarrow> tld_id \<Rightarrow> public_key \<Rightarrow> signature \<Rightarrow> revoke_tld" where
  "revoke_tld_signed cr tld_id pk sig =
     revoke_tld_on cr (np_network_id TESTNET) tld_id pk sig"

definition revoke_tld_validate :: "crypto \<Rightarrow> revoke_tld \<Rightarrow> unit result" where
  "revoke_tld_validate cr tx =
     check_owner_binding cr (rv_owner tx) (rv_public_key tx)"

record set_tld_open =
  so_network :: network_id
  so_tld_id :: tld_id
  so_owner :: owner_id
  so_open :: bool
  so_public_key :: public_key
  so_signature :: signature

definition set_tld_open_on :: "crypto \<Rightarrow> network_id \<Rightarrow> tld_id \<Rightarrow> bool \<Rightarrow> public_key \<Rightarrow> signature \<Rightarrow> set_tld_open" where
  "set_tld_open_on cr network tld_id opn pk sig =
     \<lparr>so_network = network, so_tld_id = tld_id, so_owner = owner_of cr pk, so_open = opn, so_public_key = pk, so_signature = sig\<rparr>"

definition set_tld_open_signed :: "crypto \<Rightarrow> tld_id \<Rightarrow> bool \<Rightarrow> public_key \<Rightarrow> signature \<Rightarrow> set_tld_open" where
  "set_tld_open_signed cr tld_id opn pk sig =
     set_tld_open_on cr (np_network_id TESTNET) tld_id opn pk sig"

definition set_tld_open_validate :: "crypto \<Rightarrow> set_tld_open \<Rightarrow> unit result" where
  "set_tld_open_validate cr tx =
     check_owner_binding cr (so_owner tx) (so_public_key tx)"

record assign_domain =
  ad_network :: network_id
  ad_name :: string
  ad_domain_id :: domain_id
  ad_owner :: owner_id
  ad_assignee :: owner_id
  ad_public_key :: public_key
  ad_signature :: signature

definition assign_domain_on :: "crypto \<Rightarrow> network_id \<Rightarrow> string \<Rightarrow> owner_id \<Rightarrow> public_key \<Rightarrow> signature \<Rightarrow> assign_domain" where
  "assign_domain_on cr network name assignee pk sig =
     \<lparr>ad_network = network, ad_name = name, ad_domain_id = domain_id_from_name cr name, ad_owner = owner_of cr pk, ad_assignee = assignee, ad_public_key = pk, ad_signature = sig\<rparr>"

definition assign_domain_signed :: "crypto \<Rightarrow> string \<Rightarrow> owner_id \<Rightarrow> public_key \<Rightarrow> signature \<Rightarrow> assign_domain" where
  "assign_domain_signed cr name assignee pk sig =
     assign_domain_on cr (np_network_id TESTNET) name assignee pk sig"

definition assign_domain_validate :: "crypto \<Rightarrow> assign_domain \<Rightarrow> unit result" where
  "assign_domain_validate cr tx =
     try_bind (check_owner_binding cr (ad_owner tx) (ad_public_key tx))
       (\<lambda>_. if ad_domain_id tx \<noteq> domain_id_from_name cr (ad_name tx) then Inl InvalidDomain else Inr ())"

record renew_domain =
  rn_network :: network_id
  rn_domain_id :: domain_id
  rn_owner :: owner_id
  rn_valid_until :: u64
  rn_public_key :: public_key
  rn_signature :: signature

definition renew_domain_on :: "crypto \<Rightarrow> network_id \<Rightarrow> domain_id \<Rightarrow> u64 \<Rightarrow> public_key \<Rightarrow> signature \<Rightarrow> renew_domain" where
  "renew_domain_on cr network domain_id valid_until pk sig =
     \<lparr>rn_network = network, rn_domain_id = domain_id, rn_owner = owner_of cr pk, rn_valid_until = valid_until, rn_public_key = pk, rn_signature = sig\<rparr>"

definition renew_domain_signed :: "crypto \<Rightarrow> domain_id \<Rightarrow> u64 \<Rightarrow> public_key \<Rightarrow> signature \<Rightarrow> renew_domain" where
  "renew_domain_signed cr domain_id valid_until pk sig =
     renew_domain_on cr (np_network_id TESTNET) domain_id valid_until pk sig"

definition renew_domain_validate :: "crypto \<Rightarrow> renew_domain \<Rightarrow> unit result" where
  "renew_domain_validate cr tx =
     check_owner_binding cr (rn_owner tx) (rn_public_key tx)"

section \<open>Equivocation evidence\<close>

record slash_tx =
  sl_network :: network_id
  sl_offender :: public_key
  sl_evidence_a :: checkpoint_data
  sl_sig_a :: signature
  sl_evidence_b :: checkpoint_data
  sl_sig_b :: signature
  sl_public_key :: public_key
  sl_signature :: signature

definition slash_on :: "network_id \<Rightarrow> public_key \<Rightarrow> checkpoint_data \<Rightarrow> signature \<Rightarrow> checkpoint_data
     \<Rightarrow> signature \<Rightarrow> public_key \<Rightarrow> signature \<Rightarrow> slash_tx" where
  "slash_on network offender ea sa eb sb pk sig =
     \<lparr>sl_network = network, sl_offender = offender, sl_evidence_a = ea, sl_sig_a = sa,
      sl_evidence_b = eb, sl_sig_b = sb, sl_public_key = pk, sl_signature = sig\<rparr>"

definition slash_signed :: "public_key \<Rightarrow> checkpoint_data \<Rightarrow> signature \<Rightarrow> checkpoint_data
     \<Rightarrow> signature \<Rightarrow> public_key \<Rightarrow> signature \<Rightarrow> slash_tx" where
  "slash_signed offender ea sa eb sb pk sig =
     slash_on (np_network_id TESTNET) offender ea sa eb sb pk sig"

definition verify_evidence :: "crypto \<Rightarrow> slash_tx \<Rightarrow> bool" where
  "verify_evidence cr tx =
     (let a = sl_evidence_a tx; b = sl_evidence_b tx in
      if cd_epoch a \<noteq> cd_epoch b \<or> cd_prev_checkpoint_hash a \<noteq> cd_prev_checkpoint_hash b then False
      else let msg_a = signing_hash cr a; msg_b = signing_hash cr b in
        if msg_a = msg_b then False
        else pk_verify cr (sl_offender tx) (h32_bytes msg_a) (sl_sig_a tx)
          \<and> pk_verify cr (sl_offender tx) (h32_bytes msg_b) (sl_sig_b tx))"

definition slash_validate :: "crypto \<Rightarrow> slash_tx \<Rightarrow> unit result" where
  "slash_validate cr tx = (if \<not> verify_evidence cr tx then Inl InvalidCheckpoint else Inr ())"

section \<open>The transaction enum\<close>

datatype transaction =
    RegisterDomain register_domain
  | UpdateDomain update_domain
  | RegisterTld register_tld
  | TransferTld transfer_tld
  | RevokeTld revoke_tld
  | SetTldOpen set_tld_open
  | AssignDomain assign_domain
  | RenewDomain renew_domain
  | TransferDomain transfer_domain
  | Slash slash_tx

fun tx_network :: "transaction \<Rightarrow> network_id" where
  "tx_network (RegisterDomain tx) = rd_network tx"
| "tx_network (UpdateDomain tx) = ud_network tx"
| "tx_network (RegisterTld tx) = rt_network tx"
| "tx_network (TransferTld tx) = tt_network tx"
| "tx_network (RevokeTld tx) = rv_network tx"
| "tx_network (SetTldOpen tx) = so_network tx"
| "tx_network (AssignDomain tx) = ad_network tx"
| "tx_network (RenewDomain tx) = rn_network tx"
| "tx_network (TransferDomain tx) = td_network tx"
| "tx_network (Slash tx) = sl_network tx"

fun tx_owner :: "crypto \<Rightarrow> transaction \<Rightarrow> owner_id" where
  "tx_owner cr (RegisterDomain tx) = rd_owner tx"
| "tx_owner cr (UpdateDomain tx) = ud_owner tx"
| "tx_owner cr (RegisterTld tx) = rt_owner tx"
| "tx_owner cr (TransferTld tx) = tt_owner tx"
| "tx_owner cr (RevokeTld tx) = rv_owner tx"
| "tx_owner cr (SetTldOpen tx) = so_owner tx"
| "tx_owner cr (AssignDomain tx) = ad_owner tx"
| "tx_owner cr (RenewDomain tx) = rn_owner tx"
| "tx_owner cr (TransferDomain tx) = td_owner tx"
| "tx_owner cr (Slash tx) = owner_of cr (sl_public_key tx)"

fun tx_public_key :: "transaction \<Rightarrow> public_key" where
  "tx_public_key (RegisterDomain tx) = rd_public_key tx"
| "tx_public_key (UpdateDomain tx) = ud_public_key tx"
| "tx_public_key (RegisterTld tx) = rt_public_key tx"
| "tx_public_key (TransferTld tx) = tt_public_key tx"
| "tx_public_key (RevokeTld tx) = rv_public_key tx"
| "tx_public_key (SetTldOpen tx) = so_public_key tx"
| "tx_public_key (AssignDomain tx) = ad_public_key tx"
| "tx_public_key (RenewDomain tx) = rn_public_key tx"
| "tx_public_key (TransferDomain tx) = td_public_key tx"
| "tx_public_key (Slash tx) = sl_public_key tx"

fun tx_signature :: "transaction \<Rightarrow> signature" where
  "tx_signature (RegisterDomain tx) = rd_signature tx"
| "tx_signature (UpdateDomain tx) = ud_signature tx"
| "tx_signature (RegisterTld tx) = rt_signature tx"
| "tx_signature (TransferTld tx) = tt_signature tx"
| "tx_signature (RevokeTld tx) = rv_signature tx"
| "tx_signature (SetTldOpen tx) = so_signature tx"
| "tx_signature (AssignDomain tx) = ad_signature tx"
| "tx_signature (RenewDomain tx) = rn_signature tx"
| "tx_signature (TransferDomain tx) = td_signature tx"
| "tx_signature (Slash tx) = sl_signature tx"

fun tx_validate :: "crypto \<Rightarrow> transaction \<Rightarrow> unit result" where
  "tx_validate cr (RegisterDomain tx) = register_domain_validate cr tx"
| "tx_validate cr (UpdateDomain tx) = update_domain_validate cr tx"
| "tx_validate cr (RegisterTld tx) = register_tld_validate cr tx"
| "tx_validate cr (TransferTld tx) = transfer_tld_validate cr tx"
| "tx_validate cr (RevokeTld tx) = revoke_tld_validate cr tx"
| "tx_validate cr (SetTldOpen tx) = set_tld_open_validate cr tx"
| "tx_validate cr (AssignDomain tx) = assign_domain_validate cr tx"
| "tx_validate cr (RenewDomain tx) = renew_domain_validate cr tx"
| "tx_validate cr (TransferDomain tx) = transfer_domain_validate cr tx"
| "tx_validate cr (Slash tx) = slash_validate cr tx"

section \<open>What validation guarantees\<close>

lemma check_owner_binding_iff [simp]: "check_owner_binding cr own pk = Inr () \<longleftrightarrow> own = owner_of cr pk"
  by (simp add: check_owner_binding_def)

lemmas tx_validate_defs = register_domain_validate_def update_domain_validate_def
  register_tld_validate_def transfer_tld_validate_def revoke_tld_validate_def
  set_tld_open_validate_def assign_domain_validate_def renew_domain_validate_def
  transfer_domain_validate_def slash_validate_def

lemmas tx_on_defs = register_domain_on_def update_domain_on_def register_tld_on_def
  transfer_tld_on_def revoke_tld_on_def set_tld_open_on_def assign_domain_on_def
  renew_domain_on_def transfer_domain_on_def

text \<open>What validation asks of a transaction besides its owner: identifiers derived from the names, a sequence
  that is not zero, evidence that verifies.\<close>

fun content_ok :: "crypto \<Rightarrow> transaction \<Rightarrow> bool" where
  "content_ok cr (RegisterDomain tx) \<longleftrightarrow> rd_domain_id tx = domain_id_from_name cr (rd_name tx)"
| "content_ok cr (AssignDomain tx) \<longleftrightarrow> ad_domain_id tx = domain_id_from_name cr (ad_name tx)"
| "content_ok cr (RegisterTld tx) \<longleftrightarrow> rt_tld_id tx = tld_id_from_tld cr (rt_name tx)"
| "content_ok cr (UpdateDomain tx) \<longleftrightarrow> ud_sequence tx \<noteq> 0"
| "content_ok cr (Slash tx) \<longleftrightarrow> verify_evidence cr tx"
| "content_ok cr _ \<longleftrightarrow> True"

lemma tx_validate_iff:
  "tx_validate cr tx = Inr () \<longleftrightarrow> tx_owner cr tx = owner_of cr (tx_public_key tx) \<and> content_ok cr tx"
  by (cases tx) (auto simp: tx_validate_defs)

lemma verify_evidence_iff:
  "verify_evidence cr tx \<longleftrightarrow>
     cd_epoch (sl_evidence_a tx) = cd_epoch (sl_evidence_b tx)
   \<and> cd_prev_checkpoint_hash (sl_evidence_a tx) = cd_prev_checkpoint_hash (sl_evidence_b tx)
   \<and> signing_hash cr (sl_evidence_a tx) \<noteq> signing_hash cr (sl_evidence_b tx)
   \<and> pk_verify cr (sl_offender tx) (h32_bytes (signing_hash cr (sl_evidence_a tx))) (sl_sig_a tx)
   \<and> pk_verify cr (sl_offender tx) (h32_bytes (signing_hash cr (sl_evidence_b tx))) (sl_sig_b tx)"
  by (auto simp: verify_evidence_def Let_def)

text \<open>C17: accountable safety of finality. If two checkpoints of the same epoch that chain the
  same predecessor but sign different content both reach the quorum of one committee, then more
  than a third of the committee equivocated, and for each of these members the two collected
  signatures form a slash transaction that passes validation.\<close>

theorem accountable_safety:
  assumes "distinct committee"
    "verify_quorum cr c committee (quorum_for (length committee))"
    "verify_quorum cr c' committee (quorum_for (length committee))"
    "cd_epoch (ck_data c) = cd_epoch (ck_data c')"
    "cd_prev_checkpoint_hash (ck_data c) = cd_prev_checkpoint_hash (ck_data c')"
    "signing_hash cr (ck_data c) \<noteq> signing_hash cr (ck_data c')"
  shows "\<exists>offenders \<subseteq> set committee. length committee < 3 * card offenders
    \<and> (\<forall>pk\<in>offenders. \<exists>sa sb. (pk, sa) \<in> set (ck_signatures c) \<and> (pk, sb) \<in> set (ck_signatures c')
        \<and> tx_validate cr (Slash (slash_on network pk (ck_data c) sa (ck_data c') sb reporter sig)) = Inr ())"
proof -
  define offenders where "offenders = valid_signers cr c committee \<inter> valid_signers cr c' committee"
  have "card (set committee) = length committee" using assms(1) by (rule distinct_card)
  then have "length committee < 3 * card offenders"
    using bft.quorums_intersect [of "set committee" "valid_signers cr c committee" "valid_signers cr c' committee"]
      assms(2,3) by (simp add: verify_quorum_valid valid_signers_def offenders_def)
  moreover have "offenders \<subseteq> set committee" by (auto simp: offenders_def valid_signers_def)
  moreover have "\<exists>sa sb. (pk, sa) \<in> set (ck_signatures c) \<and> (pk, sb) \<in> set (ck_signatures c')
      \<and> tx_validate cr (Slash (slash_on network pk (ck_data c) sa (ck_data c') sb reporter sig)) = Inr ()"
    if pk: "pk \<in> offenders" for pk
  proof -
    obtain sa sb where "map_of (ck_signatures c) pk = Some sa" "map_of (ck_signatures c') pk = Some sb"
      "pk_verify cr pk (h32_bytes (signing_hash cr (ck_data c))) sa"
      "pk_verify cr pk (h32_bytes (signing_hash cr (ck_data c'))) sb"
      using pk by (auto simp: valid_signers_def offenders_def)
    then show ?thesis
      using assms(4-6) by (intro exI [of _ sa] exI [of _ sb])
        (auto simp: slash_validate_def slash_on_def verify_evidence_iff dest: map_of_SomeD)
  qed
  ultimately show ?thesis by blast
qed

text \<open>A hash that keeps the last byte, so that the two toy checkpoints differ.\<close>

definition toy_crypto2 :: crypto where
  "toy_crypto2 = toy_crypto\<lparr>blake3 := (\<lambda>bs. ucast (last (0 # bs)))\<rparr>"

definition toy_checkpoint2 :: "hash32 \<Rightarrow> checkpoint" where
  "toy_checkpoint2 r = (toy_checkpoint 5)\<lparr>ck_data := (ck_data (toy_checkpoint 5))\<lparr>cd_state_root := r\<rparr>\<rparr>"

lemma h32_last: "h32_bytes r \<noteq> []" "last (h32_bytes r) = (ucast r :: u8)"
proof -
  have n: "(32 :: nat) = Suc 31" by simp
  have b: "h32_bytes r = rev (le_bytes 31 (drop_bit 8 r)) @ [ucast r]"
    unfolding be_bytes_def n le_bytes.simps by simp
  show "h32_bytes r \<noteq> []" "last (h32_bytes r) = (ucast r :: u8)" unfolding b by simp_all
qed

lemma toy_signing_hash: "signing_hash toy_crypto2 (ck_data (toy_checkpoint2 r)) = ucast (ucast r :: u8)"
  using h32_last
  by (simp add: signing_hash_def hash256_def toy_crypto2_def signing_bytes_def toy_checkpoint2_def
      toy_checkpoint_def)

lemma toy_verify_quorum2: "verify_quorum toy_crypto2 (toy_checkpoint2 r) [1, 2, 3, 4] 3"
  by (simp add: verify_quorum_def toy_checkpoint2_def toy_checkpoint_def pk_verify_def toy_crypto2_def
      toy_crypto_def)

theorem accountable_safety_witness:
  "\<exists>offenders \<subseteq> {1, 2, 3, 4}. 4 < 3 * card offenders
    \<and> (\<forall>pk\<in>offenders. \<exists>sa sb. tx_validate toy_crypto2 (Slash (slash_on NETWORK_TESTNET pk
         (ck_data (toy_checkpoint2 0)) sa (ck_data (toy_checkpoint2 1)) sb 9 9)) = Inr ())"
proof -
  define com :: "public_key list" where "com = [1, 2, 3, 4]"
  have l: "set com = {1, 2, 3, 4}" "length com = 4" "distinct com" by (simp_all add: com_def)
  have q: "verify_quorum toy_crypto2 (toy_checkpoint2 r) com (quorum_for (length com))" for r
    using toy_verify_quorum2 by (simp add: quorum_for_def com_def)
  have e: "cd_epoch (ck_data (toy_checkpoint2 0)) = cd_epoch (ck_data (toy_checkpoint2 1))"
    "cd_prev_checkpoint_hash (ck_data (toy_checkpoint2 0)) = cd_prev_checkpoint_hash (ck_data (toy_checkpoint2 1))"
    by (simp_all add: toy_checkpoint2_def)
  have h: "signing_hash toy_crypto2 (ck_data (toy_checkpoint2 0)) \<noteq> signing_hash toy_crypto2 (ck_data (toy_checkpoint2 1))"
    by (simp add: toy_signing_hash)
  note acc = accountable_safety [OF l(3) q [of 0] q [of 1] e h, where network = NETWORK_TESTNET
    and reporter = 9 and sig = 9]
  from acc obtain Q where Q: "Q \<subseteq> set com" "length com < 3 * card Q"
    and ev: "\<forall>pk\<in>Q. \<exists>sa sb. (pk, sa) \<in> set (ck_signatures (toy_checkpoint2 0))
      \<and> (pk, sb) \<in> set (ck_signatures (toy_checkpoint2 1))
      \<and> tx_validate toy_crypto2 (Slash (slash_on NETWORK_TESTNET pk
         (ck_data (toy_checkpoint2 0)) sa (ck_data (toy_checkpoint2 1)) sb 9 9)) = Inr ()"
    by (elim exE conjE)
  show ?thesis
  proof (rule exI [of _ Q], intro conjI ballI)
    show "Q \<subseteq> {1, 2, 3, 4}" "4 < 3 * card Q" using Q unfolding l by simp_all
    fix pk assume "pk \<in> Q"
    from bspec [OF ev this] show "\<exists>sa sb. tx_validate toy_crypto2 (Slash (slash_on NETWORK_TESTNET pk
         (ck_data (toy_checkpoint2 0)) sa (ck_data (toy_checkpoint2 1)) sb 9 9)) = Inr ()"
      by (elim exE conjE) (intro exI)
  qed
qed


end
