(* ===== verification/Scone_Errors.thy ===== *)
theory Scone_Errors
  imports Scone_Names
begin

text \<open>
  The error enums of \<^verbatim>\<open>crates/scone-protocol/src/error.rs\<close> and
  \<^verbatim>\<open>crates/scone-blockchain/src/error.rs\<close>. Free-text payloads are dropped where they only carry a
  message; numeric payloads are kept. Constructors that share a Rust name with another enum of
  the development have a prefix.
\<close>

datatype protocol_error =
    Truncated
  | InvalidVarint
  | IntegerOutOfRange
  | UnsupportedVersion u64
  | UnknownDiscriminant u8
  | LimitExceeded
  | InvalidUtf8
  | InvalidTransactionKey
  | TrailingBytes nat
  | Validation scone_error
  | NonCanonical

datatype bc_error =
    UnknownParent
  | ParentNotTip
  | BlockPruned u64
  | InvalidHeight u64 u64
  | InvalidVersion u32
  | MerkleMismatch
  | TooManyTransactions nat
  | DomainAlreadyRegistered
  | TldAlreadyRegistered
  | UnknownTld
  | UnknownDomain
  | NotOwner
  | BcInvalidSequence u64 u64
  | UnsupportedTransaction
  | WrongNetwork network_id network_id
  | TldClosed
  | NotTldOwner
  | RenewalNotExtending u64 u64
  | RenewalExceedsTerm u64 u64
  | BcConsensus
  | InvalidProducer
  | IcannTldReserved string
  | OwnerKeyMismatch
  | BcInvalidSignature
  | Core scone_error
  | Protocol protocol_error
  | BcSigner
  | TxReplay
  | SlashOffenderNotInPool

text \<open>The \<^verbatim>\<open>From\<close> conversions behind \<^verbatim>\<open>?\<close>.\<close>

definition core_result :: "'a result \<Rightarrow> bc_error + 'a" where
  "core_result r = (case r of Inl e \<Rightarrow> Inl (Core e) | Inr x \<Rightarrow> Inr x)"

definition protocol_result :: "protocol_error + 'a \<Rightarrow> bc_error + 'a" where
  "protocol_result r = (case r of Inl e \<Rightarrow> Inl (Protocol e) | Inr x \<Rightarrow> Inr x)"

end
