(* ===== verification/Scone_Codec.thy ===== *)
theory Scone_Codec
  imports Scone_Errors
begin

text \<open>
  The wire primitives of \<^verbatim>\<open>crates/scone-protocol/src/varint.rs\<close>, \<^verbatim>\<open>codec.rs\<close> and \<^verbatim>\<open>limits.rs\<close>.

  A reader takes the input and returns the value with the remaining input, as the code advances
  its \<^verbatim>\<open>&mut &[u8]\<close> cursor; a writer returns the bytes it appends. The contract of an encoding is the
  locale \<open>wire\<close>: a value that can be written is read back whatever follows it, and whatever is read
  is the one encoding of the value read. Both together make encodings injective and prefix-free.
\<close>

type_synonym 'a reader = "bytes \<Rightarrow> protocol_error + ('a \<times> bytes)"
type_synonym written = "protocol_error + bytes"

section \<open>Limits\<close>

definition MAX_NAME_LEN :: nat where "MAX_NAME_LEN = MAX_TOTAL_LEN"
definition MAX_TLD_LEN :: nat where "MAX_TLD_LEN = TLD_MAX_LEN"
definition MAX_TXT_LEN :: nat where "MAX_TXT_LEN = 4096"
definition MAX_PROOF_LEN :: nat where "MAX_PROOF_LEN = 256"
definition MAX_SIGNATURE_LEN :: nat where "MAX_SIGNATURE_LEN = 128"
definition MAX_RECORDS_PER_SET :: nat where "MAX_RECORDS_PER_SET = 256"
definition MAX_UNKNOWN_DATA :: nat where "MAX_UNKNOWN_DATA = 4096"
definition MAX_TXS_PER_BLOCK :: nat where "MAX_TXS_PER_BLOCK = 4096"
definition MAX_CONSENSUS_LEN :: nat where "MAX_CONSENSUS_LEN = 256"
definition MAX_BLOCKS_PER_REQUEST :: nat where "MAX_BLOCKS_PER_REQUEST = 128"
definition MAX_MESSAGE_LEN :: nat where "MAX_MESSAGE_LEN = 1024 * 1024"

section \<open>Varints\<close>

definition MAX_VARINT_LEN :: nat where "MAX_VARINT_LEN = 10"

function put_u64 :: "u64 \<Rightarrow> bytes" where
  "put_u64 v = (let byte = ucast (v AND 0x7f); rest = drop_bit 7 v in
     if rest = 0 then [byte] else (byte OR 0x80) # put_u64 rest)"
  by pat_completeness auto
termination
proof (relation "measure unat")
  fix v :: u64 and byte :: u8 and rest
  assume r: "rest = drop_bit 7 v" "rest \<noteq> 0"
  then have "unat rest = drop_bit 7 (unat v)" by (simp only: unat_drop_bit_eq)
  then have "unat rest = unat v div 128" by (simp add: drop_bit_eq_div)
  moreover have "unat rest \<noteq> 0" using r(2) by (simp add: unat_eq_zero)
  ultimately show "(rest, v) \<in> measure unat" by simp
qed simp

declare put_u64.simps [simp del]

function take_u64_loop :: "nat \<Rightarrow> u64 \<Rightarrow> u64 reader" where
  "take_u64_loop i val input =
     (if MAX_VARINT_LEN \<le> i then Inl InvalidVarint
      else case input of
        [] \<Rightarrow> Inl Truncated
      | byte # rest \<Rightarrow>
          if byte AND 0x80 = 0 then
            let lst = ucast byte in
            if i = MAX_VARINT_LEN - 1 \<and> 1 < lst then Inl InvalidVarint
            else if 0 < i \<and> lst = 0 then Inl InvalidVarint
            else Inr (val OR push_bit (7 * i) lst, rest)
          else take_u64_loop (Suc i) (val OR push_bit (7 * i) (ucast (byte AND 0x7f))) rest)"
  by pat_completeness auto
termination
  by (relation "measure (\<lambda>(i, val, input). MAX_VARINT_LEN - i)") auto

declare take_u64_loop.simps [simp del]

definition take_u64 :: "u64 reader" where "take_u64 input = take_u64_loop 0 0 input"

section \<open>Readers and writers\<close>

text \<open>\<^verbatim>\<open>let x = p(input)?; ...\<close>\<close>

definition rbind :: "'a reader \<Rightarrow> ('a \<Rightarrow> 'b reader) \<Rightarrow> 'b reader" where
  "rbind p f input = (case p input of Inl e \<Rightarrow> Inl e | Inr (x, rest) \<Rightarrow> f x rest)"

definition rreturn :: "'a \<Rightarrow> 'a reader" where "rreturn x input = Inr (x, input)"

definition rfail :: "protocol_error \<Rightarrow> 'a reader" where "rfail e input = Inl e"

text \<open>Writing in sequence: the first error stops.\<close>

fun wseq :: "written list \<Rightarrow> written" where
  "wseq [] = Inr []"
| "wseq (Inl e # ws) = Inl e"
| "wseq (Inr bs # ws) = (case wseq ws of Inl e \<Rightarrow> Inl e | Inr cs \<Rightarrow> Inr (bs @ cs))"

definition decode_complete :: "'a reader \<Rightarrow> bytes \<Rightarrow> protocol_error + 'a" where
  "decode_complete p input = (case p input of Inl e \<Rightarrow> Inl e
     | Inr (x, rest) \<Rightarrow> if rest \<noteq> [] then Inl (TrailingBytes (length rest)) else Inr x)"

definition take_u32 :: "u32 reader" where
  "take_u32 = rbind take_u64 (\<lambda>v. if unat v < 2 ^ 32 then rreturn (ucast v) else rfail IntegerOutOfRange)"

definition take_u16 :: "u16 reader" where
  "take_u16 = rbind take_u64 (\<lambda>v. if unat v < 2 ^ 16 then rreturn (ucast v) else rfail IntegerOutOfRange)"

definition put_u32 :: "u32 \<Rightarrow> bytes" where "put_u32 v = put_u64 (ucast v)"
definition put_u16 :: "u16 \<Rightarrow> bytes" where "put_u16 v = put_u64 (ucast v)"

definition take_u8 :: "u8 reader" where
  "take_u8 input = (case input of [] \<Rightarrow> Inl Truncated | b # rest \<Rightarrow> Inr (b, rest))"

definition put_bounded :: "bytes \<Rightarrow> nat \<Rightarrow> written" where
  "put_bounded bs mx = (if mx < length bs then Inl LimitExceeded else Inr (put_u64 (of_nat (length bs)) @ bs))"

definition take_bytes :: "nat \<Rightarrow> bytes reader" where
  "take_bytes mx = rbind take_u64 (\<lambda>len input.
     if mx < unat len then Inl LimitExceeded
     else if length input < unat len then Inl Truncated
     else Inr (take (unat len) input, drop (unat len) input))"

definition take_array :: "nat \<Rightarrow> bytes reader" where
  "take_array n input = (if length input < n then Inl Truncated else Inr (take n input, drop n input))"

definition put_bool :: "bool \<Rightarrow> bytes" where "put_bool b = [of_bool b]"

definition take_bool :: "bool reader" where
  "take_bool = rbind take_u8 (\<lambda>b. if b = 0 then rreturn False else if b = 1 then rreturn True else rfail NonCanonical)"

text \<open>\<^verbatim>\<open>std::str::from_utf8\<close>: well-formed UTF-8.\<close>

definition utf8_cont :: "u8 \<Rightarrow> bool" where "utf8_cont b \<longleftrightarrow> 0x80 \<le> b \<and> b \<le> 0xBF"

fun utf8_valid :: "bytes \<Rightarrow> bool" where
  "utf8_valid [] \<longleftrightarrow> True"
| "utf8_valid (b # bs) \<longleftrightarrow>
     (if b < 0x80 then utf8_valid bs
      else case bs of
        [] \<Rightarrow> False
      | c # cs \<Rightarrow>
          if 0xC2 \<le> b \<and> b \<le> 0xDF then utf8_cont c \<and> utf8_valid cs
          else case cs of
            [] \<Rightarrow> False
          | d # ds \<Rightarrow>
              if b = 0xE0 then 0xA0 \<le> c \<and> c \<le> 0xBF \<and> utf8_cont d \<and> utf8_valid ds
              else if 0xE1 \<le> b \<and> b \<le> 0xEC \<or> b = 0xEE \<or> b = 0xEF then utf8_cont c \<and> utf8_cont d \<and> utf8_valid ds
              else if b = 0xED then 0x80 \<le> c \<and> c \<le> 0x9F \<and> utf8_cont d \<and> utf8_valid ds
              else case ds of
                [] \<Rightarrow> False
              | e # es \<Rightarrow>
                  if b = 0xF0 then 0x90 \<le> c \<and> c \<le> 0xBF \<and> utf8_cont d \<and> utf8_cont e \<and> utf8_valid es
                  else if 0xF1 \<le> b \<and> b \<le> 0xF3 then utf8_cont c \<and> utf8_cont d \<and> utf8_cont e \<and> utf8_valid es
                  else if b = 0xF4 then 0x80 \<le> c \<and> c \<le> 0x8F \<and> utf8_cont d \<and> utf8_cont e \<and> utf8_valid es
                  else False)"

definition bytes_str :: "bytes \<Rightarrow> string" where "bytes_str bs = map (\<lambda>b. char_of (unat b)) bs"

definition take_string :: "nat \<Rightarrow> string reader" where
  "take_string mx = rbind (take_bytes mx) (\<lambda>bs. if utf8_valid bs then rreturn (bytes_str bs) else rfail InvalidUtf8)"


section \<open>The contract\<close>

locale wire =
  fixes put :: "'a \<Rightarrow> written" and get :: "'a reader" and ok :: "'a \<Rightarrow> bool"
  assumes get_put: "ok x \<Longrightarrow> put x = Inr bs \<Longrightarrow> get (bs @ rest) = Inr (x, rest)"
    and put_get: "get input = Inr (x, rest) \<Longrightarrow> ok x \<and> (\<exists>bs. put x = Inr bs \<and> input = bs @ rest)"
begin

lemma put_inject:
  assumes "ok x" "ok y" "put x = Inr bs" "put y = Inr bs" shows "x = y"
  using get_put [OF assms(1,3), of "[]"] get_put [OF assms(2,4), of "[]"] by simp

lemma prefix_free:
  assumes "ok x" "ok y" "put x = Inr bs" "put y = Inr cs" "bs @ r = cs @ q" shows "x = y \<and> r = q"
  using get_put [OF assms(1,3), of r] get_put [OF assms(2,4), of q] assms(5) by simp

text \<open>Reading and writing in sequence.\<close>

lemma rbind_put: "ok x \<Longrightarrow> put x = Inr bs \<Longrightarrow> rbind get f (bs @ rest) = f x rest"
  by (simp add: rbind_def get_put)

lemma rbind_written: "put x = Inr bs \<Longrightarrow> ok x \<Longrightarrow> rbind get f (bs @ rest) = f x rest"
  by (rule rbind_put)

lemma rbind_get:
  "rbind get f input = Inr (y, rest) \<Longrightarrow>
     \<exists>x bs r. ok x \<and> put x = Inr bs \<and> input = bs @ r \<and> f x r = Inr (y, rest)"
  using put_get by (fastforce simp: rbind_def split: sum.splits prod.splits)

text \<open>\<^verbatim>\<open>decode_complete\<close> accepts exactly the encodings.\<close>

lemma decode_complete_iff: "decode_complete get input = Inr x \<longleftrightarrow> ok x \<and> put x = Inr input"
proof
  assume "decode_complete get input = Inr x"
  then have "get input = Inr (x, [])" by (auto simp: decode_complete_def split: sum.splits if_splits)
  then show "ok x \<and> put x = Inr input" using put_get by fastforce
next
  assume "ok x \<and> put x = Inr input"
  then show "decode_complete get input = Inr x" using get_put [of x input "[]"] by (simp add: decode_complete_def)
qed

end

lemma wseq_Cons: "wseq (w # ws) = Inr out \<longleftrightarrow> (\<exists>b c. w = Inr b \<and> wseq ws = Inr c \<and> out = b @ c)"
  by (cases w) (auto split: sum.splits)

declare wseq.simps(2,3) [simp del]

lemma rreturn_Inr [simp]: "rreturn x input = Inr (y, rest) \<longleftrightarrow> y = x \<and> rest = input"
  by (auto simp: rreturn_def)

lemma rreturn_apply: "rreturn x input = Inr (x, input)"
  by (simp add: rreturn_def)

lemma rfail_Inr [simp]: "rfail e input = Inr z \<longleftrightarrow> False"
  by (simp add: rfail_def)

section \<open>Varints are canonical\<close>

lemma and7f: "(a :: 'a::len word) AND 0x7f = take_bit 7 a"
  by (simp add: take_bit_eq_mask mask_eq_exp_minus_1)

lemma or80: "(a :: u8) OR 0x80 = set_bit 7 a"
  by (simp add: set_bit_eq_or push_bit_eq_mult)

lemma byte7: "(byte :: u8) AND 0x80 = 0 \<longleftrightarrow> \<not> bit byte 7"
proof -
  have "(0x80 :: u8) = 2 ^ 7" by simp
  then show ?thesis by (simp only: and_exp_eq_0_iff_not_bit)
qed

lemma drop_bit_0_iff: "drop_bit n (v :: u64) = 0 \<longleftrightarrow> (\<forall>k\<ge>n. \<not> bit v k)"
proof
  assume 0: "drop_bit n v = 0"
  have "bit v k \<longleftrightarrow> bit (drop_bit n v) (k - n)" if "n \<le> k" for k using that by (simp add: bit_drop_bit_eq)
  then show "\<forall>k\<ge>n. \<not> bit v k" by (simp add: 0)
next
  assume "\<forall>k\<ge>n. \<not> bit v k"
  then show "drop_bit n v = 0" by (intro bit_word_eqI) (simp add: bit_drop_bit_eq)
qed

lemma put_last: "drop_bit 7 v = 0 \<Longrightarrow> put_u64 v = [ucast v]"
proof -
  assume v: "drop_bit 7 v = 0"
  then have "take_bit 7 v = v" by (intro bit_word_eqI) (auto simp: bit_take_bit_iff drop_bit_0_iff, metis not_le)
  then show ?thesis using v by (simp add: put_u64.simps [of v] and7f)
qed

lemma put_more: "drop_bit 7 v \<noteq> 0 \<Longrightarrow> put_u64 v = set_bit 7 (ucast (take_bit 7 v)) # put_u64 (drop_bit 7 v)"
  by (simp add: put_u64.simps [of v] and7f or80)

lemma bit_u8: "bit (b :: u8) k \<Longrightarrow> k < 8"
  using bit_imp_le_length [of b k] by simp

lemma split7: "(v :: u64) = take_bit 7 v OR push_bit 7 (drop_bit 7 v)"
  by (intro bit_word_eqI) (auto simp: bit_simps, metis le_add_diff_inverse not_le)

lemma push_split7: "push_bit (7 * i) (v :: u64) = push_bit (7 * i) (take_bit 7 v) OR push_bit (7 * Suc i) (drop_bit 7 v)"
  by (subst split7 [of v]) (simp add: push_bit_or push_bit_push_bit add.commute)

lemma take_put_loop:
  "i < 10 \<Longrightarrow> drop_bit (64 - 7 * i) v = 0 \<Longrightarrow> (0 < i \<longrightarrow> v \<noteq> 0) \<Longrightarrow>
     take_u64_loop i val (put_u64 v @ rest) = Inr (val OR push_bit (7 * i) v, rest)"
proof (induction v arbitrary: i val rule: put_u64.induct)
  case (1 v)
  have fit: "\<And>k. bit v k \<Longrightarrow> k < 64 - 7 * i" using "1.prems"(2) by (metis drop_bit_0_iff not_le)
  show ?case
  proof (cases "drop_bit 7 v = 0")
    case True
    then have b: "\<And>k. bit v k \<Longrightarrow> k < 7" by (metis drop_bit_0_iff not_le)
    have u: "ucast (ucast v :: u8) = v" by (intro bit_word_eqI) (auto simp: bit_simps dest: b)
    have "\<not> bit (ucast v :: u8) 7" using b [of 7] by (auto simp: bit_simps)
    moreover have "\<not> 1 < v" if "i = 9"
    proof -
      have "unat (drop_bit 1 v) = 0" using "1.prems"(2) that by simp
      then have "unat v < 2" unfolding unat_drop_bit_eq by (simp add: drop_bit_eq_div)
      then show ?thesis by (simp add: word_less_nat_alt)
    qed
    ultimately show ?thesis using True "1.prems" u
      by (subst take_u64_loop.simps) (auto simp: put_last byte7 MAX_VARINT_LEN_def)
  next
    case False
    then obtain n where n: "7 \<le> n" "bit v n" by (auto simp: drop_bit_0_iff)
    then have i: "7 * i < 57" using fit [OF n(2)] by simp
    have low: "ucast (take_bit 7 (set_bit 7 (ucast (take_bit 7 v)) :: u8)) = take_bit 7 v"
      by (intro bit_word_eqI) (auto simp: bit_simps)
    have "bit (set_bit 7 (ucast (take_bit 7 v)) :: u8) 7" by (simp add: bit_set_bit_iff)
    then have "take_u64_loop i val (put_u64 v @ rest)
        = take_u64_loop (Suc i) (val OR push_bit (7 * i) (take_bit 7 v)) (put_u64 (drop_bit 7 v) @ rest)"
      using False "1.prems"(1) low by (subst take_u64_loop.simps) (simp add: put_more byte7 and7f MAX_VARINT_LEN_def)
    also have "\<dots> = Inr ((val OR push_bit (7 * i) (take_bit 7 v)) OR push_bit (7 * Suc i) (drop_bit 7 v), rest)"
    proof (rule "1.IH" [OF refl refl False])
      show "Suc i < 10" using i by simp
      show "drop_bit (64 - 7 * Suc i) (drop_bit 7 v) = 0" using "1.prems"(2) i by (simp add: drop_bit_drop_bit)
    qed (use False in simp)
    also have "(val OR push_bit (7 * i) (take_bit 7 v)) OR push_bit (7 * Suc i) (drop_bit 7 v) = val OR push_bit (7 * i) v"
      by (simp only: push_split7 [of i v] or.assoc)
    finally show ?thesis .
  qed
qed

lemma put_take_loop:
  "take_u64_loop i val input = Inr (x, rest) \<Longrightarrow>
     \<exists>v. i < 10 \<and> drop_bit (64 - 7 * i) v = 0 \<and> (0 < i \<longrightarrow> v \<noteq> 0) \<and> input = put_u64 v @ rest \<and> x = val OR push_bit (7 * i) v"
proof (induction i val input rule: take_u64_loop.induct)
  case (1 i val input)
  then obtain byte r where r: "input = byte # r" "i < 10"
    by (auto simp: take_u64_loop.simps [of i] MAX_VARINT_LEN_def split: if_splits list.splits)
  show ?case
  proof (cases "bit byte 7")
    case False
    have b: "k < 7" if "bit byte k" for k using bit_u8 [OF that] that False by (cases "k = 7") auto
    have x: "x = val OR push_bit (7 * i) (ucast byte)" "rest = r" "i = 9 \<Longrightarrow> \<not> 1 < (ucast byte :: u64)"
      "0 < i \<Longrightarrow> (ucast byte :: u64) \<noteq> 0"
      using "1.prems" False r(2) unfolding r(1) take_u64_loop.simps [of i]
      by (auto simp: byte7 MAX_VARINT_LEN_def Let_def split: if_splits)
    have "drop_bit 7 (ucast byte :: u64) = 0" using b by (auto simp: drop_bit_0_iff bit_simps dest: b)
    moreover have "(ucast (ucast byte :: u64) :: u8) = byte" by (intro bit_word_eqI) (auto simp: bit_simps)
    moreover have "drop_bit (64 - 7 * i) (ucast byte :: u64) = 0"
    proof (cases "i = 9")
      case True
      then have "unat (ucast byte :: u64) \<le> 1" using x(3) by (simp add: word_less_nat_alt)
      then have "unat (drop_bit 1 (ucast byte :: u64)) = 0" unfolding unat_drop_bit_eq by (simp add: drop_bit_eq_div)
      then show ?thesis using True by (simp add: unat_eq_zero)
    next
      case False
      then show ?thesis using r(2) b by (auto simp: drop_bit_0_iff bit_simps dest: b)
    qed
    ultimately show ?thesis using x r put_last [of "ucast byte"] by (intro exI [of _ "ucast byte"]) simp
  next
    case True
    let ?low = "ucast (take_bit 7 byte) :: u64"
    have "take_u64_loop (Suc i) (val OR push_bit (7 * i) ?low) r = Inr (x, rest)"
      using "1.prems" True r by (simp add: take_u64_loop.simps [of i] byte7 and7f MAX_VARINT_LEN_def)
    then obtain w where w: "Suc i < 10" "drop_bit (64 - 7 * Suc i) w = 0" "w \<noteq> 0" "r = put_u64 w @ rest"
      "x = (val OR push_bit (7 * i) ?low) OR push_bit (7 * Suc i) w"
      using "1.IH" [of byte r] True r by (auto simp: byte7 and7f MAX_VARINT_LEN_def)
    have fit: "\<And>k. bit w k \<Longrightarrow> k < 57 - 7 * i" using w(1,2) by (fastforce simp: drop_bit_0_iff not_le)
    define v where "v = push_bit 7 w OR ?low"
    have d: "drop_bit 7 v = w"
      by (intro bit_word_eqI) (auto simp: v_def bit_simps dest: fit)
    have l: "set_bit 7 (ucast (take_bit 7 v)) = byte"
    proof (rule bit_word_eqI)
      fix n assume "n < LENGTH(8)"
      then show "bit (set_bit 7 (ucast (take_bit 7 v)) :: u8) n = bit byte n"
        using True by (cases "n = 7") (auto simp: v_def bit_simps)
    qed
    have "drop_bit (64 - 7 * i) v = 0"
      unfolding drop_bit_0_iff
    proof (intro allI impI notI)
      fix k assume k: "64 - 7 * i \<le> k" "bit v k"
      then have "bit w (k - 7)" using w(1) by (auto simp: v_def bit_simps)
      then show False using fit k(1) w(1) by fastforce
    qed
    moreover have "take_bit 7 v = ?low"
      by (intro bit_word_eqI) (auto simp: v_def bit_simps)
    then have "x = val OR push_bit (7 * i) v"
      unfolding w(5) push_split7 [of i v] d by (simp only: or.assoc)
    moreover have "put_u64 v = byte # put_u64 w" using put_more [of v] d w(3) l by simp
    moreover have "v \<noteq> 0" using d w(3) by auto
    ultimately show ?thesis using r w(4) by auto
  qed
qed

lemma take_put_u64 [simp]: "take_u64 (put_u64 v @ rest) = Inr (v, rest)"
  using take_put_loop [of 0 v 0 rest] by (simp add: take_u64_def drop_bit_0_iff bit_imp_le_length not_le)

lemma put_take_u64: "take_u64 input = Inr (v, rest) \<Longrightarrow> input = put_u64 v @ rest"
  using put_take_loop [of 0 0 input v rest] by (auto simp: take_u64_def)

interpretation u64: wire "\<lambda>v. Inr (put_u64 v)" take_u64 "\<lambda>_. True"
  by unfold_locales (auto dest: put_take_u64)


section \<open>The other primitives\<close>

lemma take_bit_small: "unat (v :: 'a::len word) < 2 ^ n \<Longrightarrow> take_bit n v = v"
  by (simp add: word_unat_eq_iff unsigned_take_bit_eq take_bit_nat_eq_self)

lemma ucast_small:
  "unat v < 2 ^ 32 \<Longrightarrow> (ucast (ucast v :: u32) :: u64) = v" "unat v < 2 ^ 16 \<Longrightarrow> (ucast (ucast v :: u16) :: u64) = v"
proof -
  have "(ucast (ucast v :: u32) :: u64) = take_bit 32 v" "(ucast (ucast v :: u16) :: u64) = take_bit 16 v"
    by (intro bit_word_eqI; auto simp: bit_simps)+
  then show "unat v < 2 ^ 32 \<Longrightarrow> (ucast (ucast v :: u32) :: u64) = v" "unat v < 2 ^ 16 \<Longrightarrow> (ucast (ucast v :: u16) :: u64) = v"
    using take_bit_small [of v] by simp_all
qed

lemma ucast_back:
  "(ucast (ucast w :: u64) :: u32) = w" "(ucast (ucast w' :: u64) :: u16) = w'"
  "unat (ucast w :: u64) < 2 ^ 32" "unat (ucast w' :: u64) < 2 ^ 16"
proof -
  have "unat w < 2 ^ LENGTH(32)" "unat w' < 2 ^ LENGTH(16)" by (rule unsigned_less)+
  then have s: "unat w < 2 ^ 32" "unat w' < 2 ^ 16" by simp_all
  have "unat w < 2 ^ 64" using s(1) by simp
  moreover have "unat w' < 2 ^ 64" using s(2) by simp
  ultimately have "unat (ucast w :: u64) = unat w" "unat (ucast w' :: u64) = unat w'"
    by (simp_all add: unsigned_ucast_eq take_bit_nat_eq_self_iff)
  then show "unat (ucast w :: u64) < 2 ^ 32" "unat (ucast w' :: u64) < 2 ^ 16" using s by simp_all
qed (intro bit_word_eqI; auto simp: bit_simps)+

interpretation u32: wire "\<lambda>v. Inr (put_u32 v)" take_u32 "\<lambda>_. True"
proof unfold_locales
  fix x :: u32 and bs rest
  assume "Inr (put_u32 x) = (Inr bs :: written)"
  then show "take_u32 (bs @ rest) = Inr (x, rest)"
    using ucast_back(1,3) [of x] by (auto simp: take_u32_def put_u32_def rbind_def rreturn_def)
next
  fix input x rest
  assume "take_u32 input = Inr (x, rest)"
  then show "True \<and> (\<exists>bs. Inr (put_u32 x) = (Inr bs :: written) \<and> input = bs @ rest)"
    using ucast_small(1)
    by (auto simp: take_u32_def put_u32_def dest!: u64.rbind_get split: if_splits)
qed

interpretation u16: wire "\<lambda>v. Inr (put_u16 v)" take_u16 "\<lambda>_. True"
proof unfold_locales
  fix x :: u16 and bs rest
  assume "Inr (put_u16 x) = (Inr bs :: written)"
  then show "take_u16 (bs @ rest) = Inr (x, rest)"
    using ucast_back(2,4) [of x] by (auto simp: take_u16_def put_u16_def rbind_def rreturn_def)
next
  fix input x rest
  assume "take_u16 input = Inr (x, rest)"
  then show "True \<and> (\<exists>bs. Inr (put_u16 x) = (Inr bs :: written) \<and> input = bs @ rest)"
    using ucast_small(2)
    by (auto simp: take_u16_def put_u16_def dest!: u64.rbind_get split: if_splits)
qed

interpretation u8: wire "\<lambda>v. Inr [v]" take_u8 "\<lambda>_. True"
  by unfold_locales (auto simp: take_u8_def split: list.splits)

interpretation bool: wire "\<lambda>v. Inr (put_bool v)" take_bool "\<lambda>_. True"
proof unfold_locales
  fix x bs rest
  assume "Inr (put_bool x) = (Inr bs :: written)"
  then show "take_bool (bs @ rest) = Inr (x, rest)"
    by (cases x) (auto simp: take_bool_def put_bool_def rbind_def take_u8_def rreturn_def)
next
  fix input x rest
  assume "take_bool input = Inr (x, rest)"
  then show "True \<and> (\<exists>bs. Inr (put_bool x) = (Inr bs :: written) \<and> input = bs @ rest)"
    by (auto simp: take_bool_def put_bool_def dest!: u8.rbind_get split: if_splits)
qed

lemma wire_array: "wire Inr (take_array n) (\<lambda>bs. length bs = n)"
  by unfold_locales (auto simp: take_array_def split: if_splits intro: append_take_drop_id [symmetric])

lemma unat_of_length: "n \<le> 2 ^ 20 \<Longrightarrow> unat (of_nat n :: u64) = n"
  by (simp add: unat_of_nat)

lemma wire_bounded:
  assumes "mx \<le> 2 ^ 20"
  shows "wire (\<lambda>bs. put_bounded bs mx) (take_bytes mx) (\<lambda>_. True)"
proof unfold_locales
  fix x bs rest
  assume "put_bounded x mx = Inr bs"
  then have "length x \<le> mx" "bs = put_u64 (of_nat (length x)) @ x" by (auto simp: put_bounded_def split: if_splits)
  then show "take_bytes mx (bs @ rest) = Inr (x, rest)"
    using assms unat_of_length [of "length x"] by (simp add: take_bytes_def rbind_def)
next
  fix input x rest
  assume "take_bytes mx input = Inr (x, rest)"
  then obtain len r where r: "input = put_u64 len @ r" "unat len \<le> mx" "unat len \<le> length r"
    "x = take (unat len) r" "rest = drop (unat len) r"
    by (auto simp: take_bytes_def dest!: u64.rbind_get split: if_splits)
  have x: "length x = unat len" "x @ rest = r" using r(3-5) by simp_all
  have "put_bounded x mx = Inr (put_u64 len @ x)" using x(1) r(2) by (simp add: put_bounded_def)
  then show "True \<and> (\<exists>bs. put_bounded x mx = Inr bs \<and> input = bs @ rest)"
    unfolding r(1) x(2) [symmetric] by simp
qed

text \<open>Fixed-size values of a word type.\<close>

definition take_h32 :: "hash32 reader" where
  "take_h32 = rbind (take_array 32) (\<lambda>bs. rreturn (h32_of_bytes bs))"

definition take_s64 :: "sig64 reader" where
  "take_s64 = rbind (take_array 64) (\<lambda>bs. rreturn (s64_of_bytes bs))"

lemma wire_word:
  assumes "8 * n = LENGTH('a)"
  shows "wire (\<lambda>h :: 'a::len word. Inr (be_bytes n h)) (rbind (take_array n) (\<lambda>bs. rreturn (from_be_bytes bs))) (\<lambda>_. True)"
proof unfold_locales
  fix x :: "'a word" and bs rest
  assume "Inr (be_bytes n x) = (Inr bs :: written)"
  then show "rbind (take_array n) (\<lambda>bs. rreturn (from_be_bytes bs)) (bs @ rest) = Inr (x, rest)"
    using assms by (auto simp: rbind_def take_array_def rreturn_def from_be_be_bytes)
next
  fix input rest and x :: "'a word"
  assume "rbind (take_array n) (\<lambda>bs. rreturn (from_be_bytes bs)) input = Inr (x, rest)"
  then have x: "n \<le> length input" "x = from_be_bytes (take n input)" "rest = drop n input"
    by (auto simp: rbind_def take_array_def split: if_splits)
  then have "be_bytes n x = take n input" using assms be_from_be_bytes [of "take n input", where 'a = 'a] by simp
  then show "True \<and> (\<exists>bs. Inr (be_bytes n x) = (Inr bs :: written) \<and> input = bs @ rest)" using x by simp
qed

interpretation h32: wire "\<lambda>h. Inr (h32_bytes h)" take_h32 "\<lambda>_. True"
  unfolding take_h32_def by (rule wire_word) simp

interpretation s64: wire "\<lambda>h. Inr (s64_bytes h)" take_s64 "\<lambda>_. True"
  unfolding take_s64_def by (rule wire_word) simp

lemma bytes_str_bytes [simp]: "bytes_str (str_bytes s) = s"
  by (induction s) (simp_all add: bytes_str_def str_bytes_def unat_of_char_u8)

lemma str_bytes_str [simp]: "str_bytes (bytes_str bs) = bs"
proof -
  have "of_char (char_of (unat b) :: char) = b" for b :: u8
  proof -
    have "unat b < 2 ^ LENGTH(8)" by (rule unsigned_less)
    then have "unat (of_char (char_of (unat b) :: char) :: u8) = unat b" by (simp add: unat_of_char_u8)
    then show ?thesis by (simp add: word_unat_eq_iff)
  qed
  then show ?thesis by (induction bs) (simp_all add: bytes_str_def str_bytes_def)
qed

lemma utf8_ascii: "\<forall>b\<in>set bs. b < 0x80 \<Longrightarrow> utf8_valid bs"
  by (induction bs) auto

end
