(* ===== verification/Scone_Fields.thy ===== *)
theory Scone_Fields
  imports Scone_Codec Scone_Checkpoint
begin

text \<open>
  The wire encodings of the fields of messages: identifiers, names and network identifiers
  (\<^verbatim>\<open>ids.rs\<close>), proofs, keys and signatures (\<^verbatim>\<open>transaction.rs\<close>), checkpoints (\<^verbatim>\<open>checkpoint.rs\<close>). Every
  one meets the contract \<open>wire\<close>. The predicate of each interpretation is the invariant of the Rust
  type: a \<^verbatim>\<open>DomainName\<close>, \<^verbatim>\<open>TldName\<close>, \<^verbatim>\<open>NetworkId\<close> or \<^verbatim>\<open>PublicKey\<close> only exists after validation.
\<close>

section \<open>Names and networks\<close>

definition put_network :: "network_id \<Rightarrow> written" where
  "put_network n = put_bounded (network_bytes n) MAX_NETWORK_ID_LEN"

definition take_network :: "network_id reader" where
  "take_network = rbind (take_bytes MAX_NETWORK_ID_LEN) (\<lambda>bs.
     if \<not> utf8_valid bs then rfail InvalidUtf8
     else case network_new (bytes_str bs) of Inl e \<Rightarrow> rfail (Validation e) | Inr n \<Rightarrow> rreturn n)"

definition put_tld_name :: "string \<Rightarrow> written" where
  "put_tld_name name = put_bounded (str_bytes name) MAX_TLD_LEN"

definition take_tld_name :: "string reader" where
  "take_tld_name = rbind (take_bytes MAX_TLD_LEN) (\<lambda>bs.
     if \<not> utf8_valid bs then rfail InvalidUtf8
     else case tld_new (bytes_str bs) of Inl e \<Rightarrow> rfail (Validation e) | Inr n \<Rightarrow> rreturn n)"

definition put_domain_name :: "string \<Rightarrow> written" where
  "put_domain_name name = put_bounded (str_bytes name) MAX_NAME_LEN"

definition take_domain_name :: "string reader" where
  "take_domain_name = rbind (take_bytes MAX_NAME_LEN) (\<lambda>bs.
     if \<not> utf8_valid bs then rfail InvalidUtf8
     else case domain_new (bytes_str bs) of Inl e \<Rightarrow> rfail (Validation e) | Inr n \<Rightarrow> rreturn n)"

definition network_ok :: "network_id \<Rightarrow> bool" where
  "network_ok n \<longleftrightarrow> network_new (bytes_str (network_bytes n)) = Inr n"

definition tld_ok :: "string \<Rightarrow> bool" where "tld_ok t \<longleftrightarrow> tld_new t = Inr t"
definition domain_ok :: "string \<Rightarrow> bool" where "domain_ok n \<longleftrightarrow> domain_new n = Inr n"

lemma ldh_ascii: "ldh_byte c \<Longrightarrow> (of_char c :: u8) < 0x80"
proof -
  assume "ldh_byte c"
  then have "(of_char c :: nat) < 128"
    by (auto simp: ldh_byte_def is_ascii_lowercase_def is_ascii_digit_def less_eq_char_def)
  then show ?thesis by (simp add: word_less_nat_alt unat_of_char_u8)
qed

lemma utf8_ldh: "\<forall>c\<in>set s. ldh_byte c \<or> c = CHR ''.'' \<Longrightarrow> utf8_valid (str_bytes s)"
  by (intro utf8_ascii) (auto simp: str_bytes_def ldh_ascii)

lemma label_chars: "label_spec l \<Longrightarrow> \<forall>c\<in>set l. ldh_byte c"
  unfolding label_spec_def ldh_byte_enum by blast

lemma utf8_tld: "tld_ok t \<Longrightarrow> utf8_valid (str_bytes t)"
  using label_chars [of t] by (intro utf8_ldh) (auto simp: tld_ok_def tld_new_def tld_validate_iff)

lemma set_join: "set (join_dots ls) \<subseteq> insert (CHR ''.'') (\<Union> (set ` set ls))"
  by (induction ls rule: join_dots.induct) auto

lemma utf8_domain:
  assumes "domain_ok n" shows "utf8_valid (str_bytes n)"
proof -
  have v: "domain_validate n = Inr ()" using assms by (auto simp: domain_ok_def domain_new_def)
  let ?all = "split_on (CHR ''.'') n"
  have "label_spec (last ?all)" "\<forall>l\<in>set (butlast ?all). label_spec l"
    using v by (auto simp: domain_validate_def Let_def tld_validate_iff validate_labels_iff split: if_splits)
  moreover have "set ?all = insert (last ?all) (set (butlast ?all))"
    by (metis append_butlast_last_id list.simps(15) rotate1.simps(2) set_rotate1 split_on_not_Nil)
  ultimately have "\<forall>l\<in>set ?all. label_spec l" by auto
  then have "\<forall>c\<in>set (join_dots ?all). ldh_byte c \<or> c = CHR ''.''" using set_join [of ?all] label_chars by blast
  then show ?thesis unfolding join_split by (rule utf8_ldh)
qed

lemma network_of_new: "network_new s = Inr n \<Longrightarrow> network_ok n \<and> utf8_valid (network_bytes n) \<and> bytes_str (network_bytes n) = s"
  using network_new_bytes [of s n] utf8_ldh [of s]
  by (auto simp: network_ok_def network_new_def list_all_iff split: if_splits)

lemma wire_limits:
  "MAX_NETWORK_ID_LEN \<le> 2 ^ 20" "MAX_TLD_LEN \<le> 2 ^ 20" "MAX_NAME_LEN \<le> 2 ^ 20" "MAX_PROOF_LEN \<le> 2 ^ 20"
  "MAX_CONSENSUS_LEN \<le> 2 ^ 20" "MAX_SIGNATURE_LEN \<le> 2 ^ 20" "MAX_TXT_LEN \<le> 2 ^ 20" "MAX_UNKNOWN_DATA \<le> 2 ^ 20"
  by (simp_all add: MAX_NETWORK_ID_LEN_def MAX_TLD_LEN_def TLD_MAX_LEN_def MAX_NAME_LEN_def MAX_TOTAL_LEN_def
      MAX_PROOF_LEN_def MAX_CONSENSUS_LEN_def MAX_SIGNATURE_LEN_def MAX_TXT_LEN_def MAX_UNKNOWN_DATA_def)

text \<open>A validated string: read, checked for UTF-8, then handed to its constructor.\<close>

lemma wire_checked:
  assumes mx: "mx \<le> 2 ^ 20"
    and new: "\<And>x. ok x \<longleftrightarrow> new (bytes_str (raw x)) = Inr x"
    and raw: "\<And>s x. new s = Inr x \<Longrightarrow> raw x = str_bytes s"
    and utf8: "\<And>x. ok x \<Longrightarrow> utf8_valid (raw x)"
  shows "wire (\<lambda>x. put_bounded (raw x) mx) (rbind (take_bytes mx) (\<lambda>bs.
     if \<not> utf8_valid bs then rfail InvalidUtf8
     else case new (bytes_str bs) of Inl e \<Rightarrow> rfail (Validation e) | Inr n \<Rightarrow> rreturn n)) ok"
proof unfold_locales
  fix x bs rest
  assume "ok x" "put_bounded (raw x) mx = Inr bs"
  then show "rbind (take_bytes mx) (\<lambda>bs. if \<not> utf8_valid bs then rfail InvalidUtf8
     else case new (bytes_str bs) of Inl e \<Rightarrow> rfail (Validation e) | Inr n \<Rightarrow> rreturn n) (bs @ rest) = Inr (x, rest)"
    using wire.get_put [OF wire_bounded [OF mx], of "raw x" bs rest] utf8 [of x] new [of x]
    by (simp add: rbind_def rreturn_def)
next
  fix input x rest
  assume "rbind (take_bytes mx) (\<lambda>bs. if \<not> utf8_valid bs then rfail InvalidUtf8
     else case new (bytes_str bs) of Inl e \<Rightarrow> rfail (Validation e) | Inr n \<Rightarrow> rreturn n) input = Inr (x, rest)"
  then obtain b cs r where b: "put_bounded b mx = Inr cs" "input = cs @ r" "utf8_valid b" "new (bytes_str b) = Inr x" "rest = r"
    by (auto dest!: wire.rbind_get [OF wire_bounded [OF mx]] split: if_splits sum.splits)
  have "raw x = b" using raw [OF b(4)] by simp
  then show "ok x \<and> (\<exists>bs. put_bounded (raw x) mx = Inr bs \<and> input = bs @ rest)" using b new [of x] by auto
qed

interpretation network: wire put_network take_network network_ok
  unfolding take_network_def put_network_def [abs_def]
proof (rule wire_checked [OF wire_limits(1)])
  show "\<And>s n. network_new s = Inr n \<Longrightarrow> network_bytes n = str_bytes s" by (rule network_new_bytes)
  show "\<And>n. network_ok n \<Longrightarrow> utf8_valid (network_bytes n)" unfolding network_ok_def using network_of_new by blast
qed (rule network_ok_def)

interpretation tld_name: wire put_tld_name take_tld_name tld_ok
  unfolding take_tld_name_def put_tld_name_def [abs_def]
proof (rule wire_checked [OF wire_limits(2)])
  show "\<And>s n. tld_new s = Inr n \<Longrightarrow> str_bytes n = str_bytes s" by (auto simp: tld_new_def split: sum.splits)
qed (simp_all add: tld_ok_def utf8_tld)

interpretation domain_name: wire put_domain_name take_domain_name domain_ok
  unfolding take_domain_name_def put_domain_name_def [abs_def]
proof (rule wire_checked [OF wire_limits(3)])
  show "\<And>s n. domain_new s = Inr n \<Longrightarrow> str_bytes n = str_bytes s" by (auto simp: domain_new_def split: sum.splits)
qed (simp_all add: domain_ok_def utf8_domain)

section \<open>Proofs, keys and signatures\<close>

definition put_proof :: "bytes \<Rightarrow> written" where "put_proof p = put_bounded p MAX_PROOF_LEN"
definition take_proof :: "bytes reader" where "take_proof = take_bytes MAX_PROOF_LEN"

definition put_public_key :: "public_key \<Rightarrow> bytes" where "put_public_key pk = h32_bytes pk"

definition take_public_key :: "crypto \<Rightarrow> public_key reader" where
  "take_public_key cr = rbind take_h32 (\<lambda>bs.
     case public_key_from_bytes cr bs of None \<Rightarrow> rfail InvalidTransactionKey | Some pk \<Rightarrow> rreturn pk)"

definition put_signature :: "signature \<Rightarrow> bytes" where "put_signature sig = s64_bytes sig"
definition take_signature :: "signature reader" where "take_signature = take_s64"

interpretation proof_field: wire put_proof take_proof "\<lambda>_. True"
  unfolding take_proof_def put_proof_def [abs_def] by (rule wire_bounded) (rule wire_limits)

interpretation public_key: wire "\<lambda>pk. Inr (put_public_key pk)" "take_public_key cr" "ed_key_ok cr" for cr
proof unfold_locales
  fix x bs rest
  assume "ed_key_ok cr x" "Inr (put_public_key x) = (Inr bs :: written)"
  then show "take_public_key cr (bs @ rest) = Inr (x, rest)"
    using h32.get_put [of x bs rest]
    by (auto simp: take_public_key_def put_public_key_def public_key_from_bytes_def rbind_def rreturn_def)
next
  fix input x rest
  assume "take_public_key cr input = Inr (x, rest)"
  then show "ed_key_ok cr x \<and> (\<exists>bs. Inr (put_public_key x) = (Inr bs :: written) \<and> input = bs @ rest)"
    by (auto simp: take_public_key_def put_public_key_def public_key_from_bytes_def dest!: h32.rbind_get split: if_splits)
qed

interpretation signature: wire "\<lambda>sig. Inr (put_signature sig)" take_signature "\<lambda>_. True"
  unfolding put_signature_def take_signature_def by (rule s64.wire_axioms)

section \<open>Checkpoints\<close>

definition CHECKPOINT_WIRE_TAG :: bytes where "CHECKPOINT_WIRE_TAG = str_bytes ''SCONE-CKPT-V1''"
definition CHECKPOINT_DATA_LEN :: nat where "CHECKPOINT_DATA_LEN = 8 + 8 + 4 + 32 + 32 + 32"
definition MAX_CHECKPOINT_SIGNERS :: nat where "MAX_CHECKPOINT_SIGNERS = 64"

text \<open>\<^verbatim>\<open>body[i..j]\<close>.\<close>

definition slice :: "nat \<Rightarrow> nat \<Rightarrow> 'a list \<Rightarrow> 'a list" where "slice i j xs = take (j - i) (drop i xs)"

definition put_checkpoint_data :: "checkpoint_data \<Rightarrow> bytes" where
  "put_checkpoint_data d = u64_le (cd_epoch d) @ u64_le (cd_height d) @ u32_le (cd_recovery d)
     @ h32_bytes (cd_block_hash d) @ h32_bytes (cd_prev_checkpoint_hash d) @ h32_bytes (cd_state_root d)"

definition take_checkpoint_data :: "checkpoint_data reader" where
  "take_checkpoint_data = rbind (take_array CHECKPOINT_DATA_LEN) (\<lambda>body. rreturn
     \<lparr>cd_epoch = from_le_bytes (slice 0 8 body), cd_height = from_le_bytes (slice 8 16 body),
      cd_block_hash = h32_of_bytes (slice 20 52 body),
      cd_prev_checkpoint_hash = h32_of_bytes (slice 52 84 body), cd_state_root = h32_of_bytes (slice 84 116 body),
      cd_recovery = from_le_bytes (slice 16 20 body)\<rparr>)"

text \<open>The loop over the signatures; \<open>prev\<close> is the key before.\<close>

fun put_signers :: "public_key option \<Rightarrow> (public_key \<times> signature) list \<Rightarrow> written" where
  "put_signers prev [] = Inr []"
| "put_signers prev ((pk, sig) # sigs) =
     (if (case prev of Some p \<Rightarrow> pk \<le> p | None \<Rightarrow> False) then Inl NonCanonical
      else wseq [Inr (h32_bytes pk), Inr (s64_bytes sig), put_signers (Some pk) sigs])"

primrec take_signers :: "crypto \<Rightarrow> nat \<Rightarrow> public_key option \<Rightarrow> (public_key \<times> signature) list reader" where
  "take_signers cr 0 prev = rreturn []"
| "take_signers cr (Suc n) prev = rbind take_h32 (\<lambda>pk. rbind take_s64 (\<lambda>sig.
     if (case prev of Some p \<Rightarrow> pk \<le> p | None \<Rightarrow> False) then rfail NonCanonical
     else case public_key_from_bytes cr pk of
       None \<Rightarrow> rfail InvalidTransactionKey
     | Some pk \<Rightarrow> rbind (take_signers cr n (Some pk)) (\<lambda>sigs. rreturn ((pk, sig) # sigs))))"

definition put_checkpoint :: "checkpoint \<Rightarrow> written" where
  "put_checkpoint c = wseq [Inr CHECKPOINT_WIRE_TAG, Inr (put_checkpoint_data (ck_data c)),
     (if MAX_CHECKPOINT_SIGNERS < length (ck_signatures c) then Inl LimitExceeded
      else wseq [Inr (put_u64 (of_nat (length (ck_signatures c)))), put_signers None (ck_signatures c)])]"

definition take_checkpoint :: "crypto \<Rightarrow> checkpoint reader" where
  "take_checkpoint cr = rbind (take_array (length CHECKPOINT_WIRE_TAG)) (\<lambda>tag.
     if tag \<noteq> CHECKPOINT_WIRE_TAG then rfail NonCanonical
     else rbind take_checkpoint_data (\<lambda>d. rbind take_u64 (\<lambda>count input.
       if of_nat MAX_CHECKPOINT_SIGNERS < count then Inl LimitExceeded
       else if length input < unat count * 96 then Inl Truncated
       else rbind (take_signers cr (unat count) None) (\<lambda>sigs. rreturn \<lparr>ck_data = d, ck_signatures = sigs\<rparr>) input)))"

lemma slice_join: "i \<le> j \<Longrightarrow> j \<le> k \<Longrightarrow> slice i j xs @ slice j k xs = slice i k xs"
  using take_add [of "j - i" "k - j" "drop i xs"] by (simp add: slice_def)

lemma checkpoint_body: "length body = 116 \<Longrightarrow>
  slice 0 8 body @ slice 8 16 body @ slice 16 20 body @ slice 20 52 body @ slice 52 84 body @ slice 84 116 body = body"
  by (simp add: slice_join) (simp add: slice_def)

interpretation checkpoint_data: wire "\<lambda>d. Inr (put_checkpoint_data d)" take_checkpoint_data "\<lambda>_. True"
proof unfold_locales
  fix x bs rest
  assume "Inr (put_checkpoint_data x) = (Inr bs :: written)"
  then show "take_checkpoint_data (bs @ rest) = Inr (x, rest)"
    by (auto simp: take_checkpoint_data_def put_checkpoint_data_def CHECKPOINT_DATA_LEN_def rbind_def take_array_def
        rreturn_def slice_def from_be_be_bytes from_le_le_bytes)
next
  fix input x rest
  assume "take_checkpoint_data input = Inr (x, rest)"
  then obtain body where b: "length body = 116" "input = body @ rest"
    "cd_epoch x = from_le_bytes (slice 0 8 body)" "cd_height x = from_le_bytes (slice 8 16 body)"
    "cd_block_hash x = h32_of_bytes (slice 20 52 body)" "cd_prev_checkpoint_hash x = h32_of_bytes (slice 52 84 body)"
    "cd_state_root x = h32_of_bytes (slice 84 116 body)" "cd_recovery x = from_le_bytes (slice 16 20 body)"
    by (auto simp: take_checkpoint_data_def CHECKPOINT_DATA_LEN_def dest!: wire.rbind_get [OF wire_array])
  have l: "length (slice 0 8 body) = 8" "length (slice 8 16 body) = 8" "length (slice 16 20 body) = 4"
    "length (slice 20 52 body) = 32" "length (slice 52 84 body) = 32" "length (slice 84 116 body) = 32"
    by (simp_all add: slice_def b(1))
  have "put_checkpoint_data x = body"
    unfolding put_checkpoint_data_def b(3-8)
    using le_from_le_bytes [of "slice 0 8 body", where 'a = 64] le_from_le_bytes [of "slice 8 16 body", where 'a = 64]
      le_from_le_bytes [of "slice 16 20 body", where 'a = 32] be_from_be_bytes [of "slice 20 52 body", where 'a = 256]
      be_from_be_bytes [of "slice 52 84 body", where 'a = 256] be_from_be_bytes [of "slice 84 116 body", where 'a = 256]
    by (simp add: l checkpoint_body [OF b(1)])
  then show "True \<and> (\<exists>bs. Inr (put_checkpoint_data x) = (Inr bs :: written) \<and> input = bs @ rest)" using b(2) by simp
qed

text \<open>The checkpoints whose signers are valid keys.\<close>

definition signers_ok :: "crypto \<Rightarrow> (public_key \<times> signature) list \<Rightarrow> bool" where
  "signers_ok cr sigs \<longleftrightarrow> list_all (\<lambda>(pk, sig). ed_key_ok cr pk) sigs"

lemma take_put_signers:
  "signers_ok cr sigs \<Longrightarrow> put_signers prev sigs = Inr bs \<Longrightarrow> take_signers cr (length sigs) prev (bs @ rest) = Inr (sigs, rest)"
  by (induction sigs arbitrary: prev bs)
    (auto simp: signers_ok_def wseq_Cons rreturn_def public_key_from_bytes_def h32.rbind_put [OF TrueI refl]
      s64.rbind_put [OF TrueI refl] rbind_def [of "take_signers _ _ _"] split: if_splits)

lemma length_put_signers: "put_signers prev sigs = Inr bs \<Longrightarrow> length bs = length sigs * 96"
  by (induction prev sigs arbitrary: bs rule: put_signers.induct) (auto simp: wseq_Cons split: if_splits)

lemma put_take_signers:
  "take_signers cr n prev input = Inr (sigs, rest) \<Longrightarrow>
     signers_ok cr sigs \<and> length sigs = n \<and> (\<exists>bs. put_signers prev sigs = Inr bs \<and> input = bs @ rest)"
proof (induction n arbitrary: prev input sigs)
  case (Suc n)
  then obtain pk sig r sigs' where r: "input = h32_bytes pk @ s64_bytes sig @ r" "\<not> (case prev of Some p \<Rightarrow> pk \<le> p | None \<Rightarrow> False)"
    "ed_key_ok cr pk" "take_signers cr n (Some pk) r = Inr (sigs', rest)" "sigs = (pk, sig) # sigs'"
    by (auto simp: public_key_from_bytes_def rbind_def [of "take_signers _ _ _"] dest!: h32.rbind_get s64.rbind_get
        split: if_splits sum.splits)
  show ?case using Suc.IH [OF r(4)] r(1-3,5) by (auto simp: signers_ok_def wseq_Cons)
qed (simp add: signers_ok_def)

interpretation checkpoint: wire put_checkpoint "take_checkpoint cr" "\<lambda>c. signers_ok cr (ck_signatures c)" for cr
proof unfold_locales
  fix x bs rest
  assume ok: "signers_ok cr (ck_signatures x)" and "put_checkpoint x = Inr bs"
  then obtain s where s: "length (ck_signatures x) \<le> 64" "put_signers None (ck_signatures x) = Inr s"
    "bs = CHECKPOINT_WIRE_TAG @ put_checkpoint_data (ck_data x) @ put_u64 (of_nat (length (ck_signatures x))) @ s"
    by (auto simp: put_checkpoint_def wseq_Cons MAX_CHECKPOINT_SIGNERS_def split: if_splits)
  have c: "unat (of_nat (length (ck_signatures x)) :: u64) = length (ck_signatures x)" using s(1) by (intro unat_of_length) simp
  show "take_checkpoint cr (bs @ rest) = Inr (x, rest)"
    using take_put_signers [OF ok s(2), of rest] length_put_signers [OF s(2)] s(1) c unfolding s(3)
    by (simp add: take_checkpoint_def wire.rbind_put [OF wire_array refl refl] checkpoint_data.rbind_put [OF TrueI refl]
        u64.rbind_put [OF TrueI refl] MAX_CHECKPOINT_SIGNERS_def word_less_nat_alt rbind_def [of "take_signers _ _ _"] rreturn_def)
next
  fix input x rest
  assume "take_checkpoint cr input = Inr (x, rest)"
  then obtain d count r sigs where r: "input = CHECKPOINT_WIRE_TAG @ put_checkpoint_data d @ put_u64 count @ r"
    "count \<le> 64" "take_signers cr (unat count) None r = Inr (sigs, rest)" "x = \<lparr>ck_data = d, ck_signatures = sigs\<rparr>"
    by (auto simp: take_checkpoint_def MAX_CHECKPOINT_SIGNERS_def rbind_def [of "take_signers _ _ _"]
        dest!: wire.rbind_get [OF wire_array] checkpoint_data.rbind_get u64.rbind_get split: if_splits sum.splits)
  from put_take_signers [OF r(3)] obtain bs where b: "signers_ok cr sigs" "length sigs = unat count"
    "put_signers None sigs = Inr bs" "r = bs @ rest" by blast
  have "put_checkpoint x = Inr (CHECKPOINT_WIRE_TAG @ put_checkpoint_data d @ put_u64 count @ bs)"
    using b r(2) by (simp add: put_checkpoint_def r(4) MAX_CHECKPOINT_SIGNERS_def word_le_nat_alt wseq_Cons)
  then show "signers_ok cr (ck_signatures x) \<and> (\<exists>bs. put_checkpoint x = Inr bs \<and> input = bs @ rest)"
    using b r(1,4) by simp
qed

end
