(* ===== verification/Scone_Wire.thy ===== *)
theory Scone_Wire
  imports Scone_Fields Scone_Tx
begin

text \<open>
  The signed transaction format of \<^verbatim>\<open>crates/scone-protocol/src/transaction.rs\<close>: a discriminant byte, a
  version byte and the fields of the kind in order; the unsigned view and the payload a signer signs.
  Encoding and decoding both run the validation of the kind. Every codec meets the contract \<open>wire\<close>.
\<close>

section \<open>Transaction kinds\<close>

definition REGISTER_DOMAIN :: u8 where "REGISTER_DOMAIN = 0x21"
definition UPDATE_DOMAIN :: u8 where "UPDATE_DOMAIN = 0x52"
definition REGISTER_TLD :: u8 where "REGISTER_TLD = 0x93"
definition TRANSFER_TLD :: u8 where "TRANSFER_TLD = 0x47"
definition REVOKE_TLD :: u8 where "REVOKE_TLD = 0x6b"
definition SET_TLD_OPEN :: u8 where "SET_TLD_OPEN = 0xb8"
definition ASSIGN_DOMAIN :: u8 where "ASSIGN_DOMAIN = 0xd4"
definition RENEW_DOMAIN :: u8 where "RENEW_DOMAIN = 0x3c"
definition TRANSFER_DOMAIN :: u8 where "TRANSFER_DOMAIN = 0xe2"
definition SLASH :: u8 where "SLASH = 0x15"
definition TX_FORMAT_VERSION :: u8 where "TX_FORMAT_VERSION = 1"
definition TX_SIG_PREFIX :: bytes where "TX_SIG_PREFIX = str_bytes ''SCONE-TX-SIG-V1''"

definition written_if :: "'a result \<Rightarrow> written \<Rightarrow> written" where
  "written_if checked out = (case checked of Inl e \<Rightarrow> Inl (Validation e) | Inr _ \<Rightarrow> out)"

definition read_if :: "('a \<Rightarrow> unit result) \<Rightarrow> 'a \<Rightarrow> 'a reader" where
  "read_if checked x = (case checked x of Inl e \<Rightarrow> rfail (Validation e) | Inr _ \<Rightarrow> rreturn x)"

definition put_register_domain :: "crypto \<Rightarrow> register_domain \<Rightarrow> written" where
  "put_register_domain cr tx = written_if (register_domain_validate cr tx) (wseq
     [put_network (rd_network tx), put_domain_name (rd_name tx), Inr (h32_bytes (rd_domain_id tx)),
      Inr (h32_bytes (rd_owner tx)), Inr (put_u64 (rd_timestamp tx)), put_proof (rd_proof tx),
      Inr (put_public_key (rd_public_key tx)), Inr (put_signature (rd_signature tx))])"

definition take_register_domain :: "crypto \<Rightarrow> register_domain reader" where
  "take_register_domain cr = rbind take_network (\<lambda>net. rbind take_domain_name (\<lambda>nm. rbind take_h32 (\<lambda>did.
     rbind take_h32 (\<lambda>own. rbind take_u64 (\<lambda>ts. rbind take_proof (\<lambda>prf.
     rbind (take_public_key cr) (\<lambda>pk. rbind take_signature (\<lambda>sig.
     read_if (register_domain_validate cr)
       \<lparr>rd_network = net, rd_name = nm, rd_domain_id = did, rd_owner = own, rd_timestamp = ts, rd_proof = prf,
        rd_public_key = pk, rd_signature = sig\<rparr>))))))))"

definition put_update_domain :: "crypto \<Rightarrow> update_domain \<Rightarrow> written" where
  "put_update_domain cr tx = written_if (update_domain_validate cr tx) (wseq
     [put_network (ud_network tx), Inr (h32_bytes (ud_domain_id tx)), Inr (h32_bytes (ud_owner tx)),
      Inr (put_u64 (ud_sequence tx)), Inr (h32_bytes (ud_record_hash tx)),
      Inr (put_public_key (ud_public_key tx)), Inr (put_signature (ud_signature tx))])"

definition take_update_domain :: "crypto \<Rightarrow> update_domain reader" where
  "take_update_domain cr = rbind take_network (\<lambda>net. rbind take_h32 (\<lambda>did. rbind take_h32 (\<lambda>own.
     rbind take_u64 (\<lambda>sq. rbind take_h32 (\<lambda>rh. rbind (take_public_key cr) (\<lambda>pk.
     rbind take_signature (\<lambda>sig.
     read_if (update_domain_validate cr)
       \<lparr>ud_network = net, ud_domain_id = did, ud_owner = own, ud_sequence = sq, ud_record_hash = rh,
        ud_public_key = pk, ud_signature = sig\<rparr>)))))))"

definition put_register_tld :: "crypto \<Rightarrow> register_tld \<Rightarrow> written" where
  "put_register_tld cr tx = written_if (register_tld_validate cr tx) (wseq
     [put_network (rt_network tx), put_tld_name (rt_name tx), Inr (h32_bytes (rt_tld_id tx)),
      Inr (h32_bytes (rt_owner tx)), Inr (put_u64 (rt_timestamp tx)), put_proof (rt_proof tx),
      Inr (put_public_key (rt_public_key tx)), Inr (put_signature (rt_signature tx))])"

definition take_register_tld :: "crypto \<Rightarrow> register_tld reader" where
  "take_register_tld cr = rbind take_network (\<lambda>net. rbind take_tld_name (\<lambda>nm. rbind take_h32 (\<lambda>tid.
     rbind take_h32 (\<lambda>own. rbind take_u64 (\<lambda>ts. rbind take_proof (\<lambda>prf.
     rbind (take_public_key cr) (\<lambda>pk. rbind take_signature (\<lambda>sig.
     read_if (register_tld_validate cr)
       \<lparr>rt_network = net, rt_name = nm, rt_tld_id = tid, rt_owner = own, rt_timestamp = ts, rt_proof = prf,
        rt_public_key = pk, rt_signature = sig\<rparr>))))))))"

definition put_transfer_tld :: "crypto \<Rightarrow> transfer_tld \<Rightarrow> written" where
  "put_transfer_tld cr tx = written_if (transfer_tld_validate cr tx) (wseq
     [put_network (tt_network tx), Inr (h32_bytes (tt_tld_id tx)), Inr (h32_bytes (tt_owner tx)),
      Inr (h32_bytes (tt_new_owner tx)), Inr (put_public_key (tt_public_key tx)),
      Inr (put_signature (tt_signature tx))])"

definition take_transfer_tld :: "crypto \<Rightarrow> transfer_tld reader" where
  "take_transfer_tld cr = rbind take_network (\<lambda>net. rbind take_h32 (\<lambda>tid. rbind take_h32 (\<lambda>own.
     rbind take_h32 (\<lambda>new. rbind (take_public_key cr) (\<lambda>pk.
     rbind take_signature (\<lambda>sig.
     read_if (transfer_tld_validate cr)
       \<lparr>tt_network = net, tt_tld_id = tid, tt_owner = own, tt_new_owner = new, tt_public_key = pk,
        tt_signature = sig\<rparr>))))))"

definition put_revoke_tld :: "crypto \<Rightarrow> revoke_tld \<Rightarrow> written" where
  "put_revoke_tld cr tx = written_if (revoke_tld_validate cr tx) (wseq
     [put_network (rv_network tx), Inr (h32_bytes (rv_tld_id tx)), Inr (h32_bytes (rv_owner tx)),
      Inr (put_public_key (rv_public_key tx)), Inr (put_signature (rv_signature tx))])"

definition take_revoke_tld :: "crypto \<Rightarrow> revoke_tld reader" where
  "take_revoke_tld cr = rbind take_network (\<lambda>net. rbind take_h32 (\<lambda>tid. rbind take_h32 (\<lambda>own.
     rbind (take_public_key cr) (\<lambda>pk. rbind take_signature (\<lambda>sig.
     read_if (revoke_tld_validate cr)
       \<lparr>rv_network = net, rv_tld_id = tid, rv_owner = own, rv_public_key = pk, rv_signature = sig\<rparr>)))))"

definition put_set_tld_open :: "crypto \<Rightarrow> set_tld_open \<Rightarrow> written" where
  "put_set_tld_open cr tx = written_if (set_tld_open_validate cr tx) (wseq
     [put_network (so_network tx), Inr (h32_bytes (so_tld_id tx)), Inr (h32_bytes (so_owner tx)),
      Inr (put_bool (so_open tx)), Inr (put_public_key (so_public_key tx)),
      Inr (put_signature (so_signature tx))])"

definition take_set_tld_open :: "crypto \<Rightarrow> set_tld_open reader" where
  "take_set_tld_open cr = rbind take_network (\<lambda>net. rbind take_h32 (\<lambda>tid. rbind take_h32 (\<lambda>own.
     rbind take_bool (\<lambda>opn. rbind (take_public_key cr) (\<lambda>pk.
     rbind take_signature (\<lambda>sig.
     read_if (set_tld_open_validate cr)
       \<lparr>so_network = net, so_tld_id = tid, so_owner = own, so_open = opn, so_public_key = pk, so_signature = sig\<rparr>))))))"

definition put_assign_domain :: "crypto \<Rightarrow> assign_domain \<Rightarrow> written" where
  "put_assign_domain cr tx = written_if (assign_domain_validate cr tx) (wseq
     [put_network (ad_network tx), put_domain_name (ad_name tx), Inr (h32_bytes (ad_domain_id tx)),
      Inr (h32_bytes (ad_owner tx)), Inr (h32_bytes (ad_assignee tx)),
      Inr (put_public_key (ad_public_key tx)), Inr (put_signature (ad_signature tx))])"

definition take_assign_domain :: "crypto \<Rightarrow> assign_domain reader" where
  "take_assign_domain cr = rbind take_network (\<lambda>net. rbind take_domain_name (\<lambda>nm. rbind take_h32 (\<lambda>did.
     rbind take_h32 (\<lambda>own. rbind take_h32 (\<lambda>asg. rbind (take_public_key cr) (\<lambda>pk.
     rbind take_signature (\<lambda>sig.
     read_if (assign_domain_validate cr)
       \<lparr>ad_network = net, ad_name = nm, ad_domain_id = did, ad_owner = own, ad_assignee = asg,
        ad_public_key = pk, ad_signature = sig\<rparr>)))))))"

definition put_renew_domain :: "crypto \<Rightarrow> renew_domain \<Rightarrow> written" where
  "put_renew_domain cr tx = written_if (renew_domain_validate cr tx) (wseq
     [put_network (rn_network tx), Inr (h32_bytes (rn_domain_id tx)), Inr (h32_bytes (rn_owner tx)),
      Inr (put_u64 (rn_valid_until tx)), Inr (put_public_key (rn_public_key tx)),
      Inr (put_signature (rn_signature tx))])"

definition take_renew_domain :: "crypto \<Rightarrow> renew_domain reader" where
  "take_renew_domain cr = rbind take_network (\<lambda>net. rbind take_h32 (\<lambda>did. rbind take_h32 (\<lambda>own.
     rbind take_u64 (\<lambda>vu. rbind (take_public_key cr) (\<lambda>pk.
     rbind take_signature (\<lambda>sig.
     read_if (renew_domain_validate cr)
       \<lparr>rn_network = net, rn_domain_id = did, rn_owner = own, rn_valid_until = vu, rn_public_key = pk,
        rn_signature = sig\<rparr>))))))"

definition put_transfer_domain :: "crypto \<Rightarrow> transfer_domain \<Rightarrow> written" where
  "put_transfer_domain cr tx = written_if (transfer_domain_validate cr tx) (wseq
     [put_network (td_network tx), Inr (h32_bytes (td_domain_id tx)), Inr (h32_bytes (td_owner tx)),
      Inr (h32_bytes (td_new_owner tx)), Inr (put_public_key (td_public_key tx)),
      Inr (put_signature (td_signature tx))])"

definition take_transfer_domain :: "crypto \<Rightarrow> transfer_domain reader" where
  "take_transfer_domain cr = rbind take_network (\<lambda>net. rbind take_h32 (\<lambda>did. rbind take_h32 (\<lambda>own.
     rbind take_h32 (\<lambda>new. rbind (take_public_key cr) (\<lambda>pk.
     rbind take_signature (\<lambda>sig.
     read_if (transfer_domain_validate cr)
       \<lparr>td_network = net, td_domain_id = did, td_owner = own, td_new_owner = new, td_public_key = pk,
        td_signature = sig\<rparr>))))))"

definition put_slash :: "crypto \<Rightarrow> slash_tx \<Rightarrow> written" where
  "put_slash cr tx = written_if (slash_validate cr tx) (wseq
     [put_network (sl_network tx), Inr (put_public_key (sl_offender tx)),
      Inr (put_checkpoint_data (sl_evidence_a tx)), Inr (put_signature (sl_sig_a tx)),
      Inr (put_checkpoint_data (sl_evidence_b tx)), Inr (put_signature (sl_sig_b tx)),
      Inr (put_public_key (sl_public_key tx)), Inr (put_signature (sl_signature tx))])"

definition take_slash :: "crypto \<Rightarrow> slash_tx reader" where
  "take_slash cr = rbind take_network (\<lambda>net. rbind (take_public_key cr) (\<lambda>off.
     rbind take_checkpoint_data (\<lambda>ea. rbind take_signature (\<lambda>sa.
     rbind take_checkpoint_data (\<lambda>eb. rbind take_signature (\<lambda>sb.
     rbind (take_public_key cr) (\<lambda>pk. rbind take_signature (\<lambda>sig.
     read_if (slash_validate cr)
       \<lparr>sl_network = net, sl_offender = off, sl_evidence_a = ea, sl_sig_a = sa, sl_evidence_b = eb,
        sl_sig_b = sb, sl_public_key = pk, sl_signature = sig\<rparr>))))))))"

section \<open>Transactions\<close>

fun put_transaction :: "crypto \<Rightarrow> transaction \<Rightarrow> written" where
  "put_transaction cr (RegisterDomain tx) = wseq [Inr [REGISTER_DOMAIN], Inr [TX_FORMAT_VERSION], put_register_domain cr tx]"
| "put_transaction cr (UpdateDomain tx) = wseq [Inr [UPDATE_DOMAIN], Inr [TX_FORMAT_VERSION], put_update_domain cr tx]"
| "put_transaction cr (RegisterTld tx) = wseq [Inr [REGISTER_TLD], Inr [TX_FORMAT_VERSION], put_register_tld cr tx]"
| "put_transaction cr (TransferTld tx) = wseq [Inr [TRANSFER_TLD], Inr [TX_FORMAT_VERSION], put_transfer_tld cr tx]"
| "put_transaction cr (RevokeTld tx) = wseq [Inr [REVOKE_TLD], Inr [TX_FORMAT_VERSION], put_revoke_tld cr tx]"
| "put_transaction cr (SetTldOpen tx) = wseq [Inr [SET_TLD_OPEN], Inr [TX_FORMAT_VERSION], put_set_tld_open cr tx]"
| "put_transaction cr (AssignDomain tx) = wseq [Inr [ASSIGN_DOMAIN], Inr [TX_FORMAT_VERSION], put_assign_domain cr tx]"
| "put_transaction cr (RenewDomain tx) = wseq [Inr [RENEW_DOMAIN], Inr [TX_FORMAT_VERSION], put_renew_domain cr tx]"
| "put_transaction cr (TransferDomain tx) = wseq [Inr [TRANSFER_DOMAIN], Inr [TX_FORMAT_VERSION], put_transfer_domain cr tx]"
| "put_transaction cr (Slash tx) = wseq [Inr [SLASH], Inr [TX_FORMAT_VERSION], put_slash cr tx]"

definition rmap :: "('a \<Rightarrow> 'b) \<Rightarrow> 'a reader \<Rightarrow> 'b reader" where
  "rmap f p = rbind p (\<lambda>x. rreturn (f x))"

definition take_transaction :: "crypto \<Rightarrow> transaction reader" where
  "take_transaction cr = rbind take_u8 (\<lambda>disc. rbind take_u8 (\<lambda>version.
     if version \<noteq> TX_FORMAT_VERSION then rfail (UnsupportedVersion (ucast version))
     else if disc = REGISTER_DOMAIN then rmap RegisterDomain (take_register_domain cr)
     else if disc = UPDATE_DOMAIN then rmap UpdateDomain (take_update_domain cr)
     else if disc = REGISTER_TLD then rmap RegisterTld (take_register_tld cr)
     else if disc = TRANSFER_TLD then rmap TransferTld (take_transfer_tld cr)
     else if disc = REVOKE_TLD then rmap RevokeTld (take_revoke_tld cr)
     else if disc = SET_TLD_OPEN then rmap SetTldOpen (take_set_tld_open cr)
     else if disc = ASSIGN_DOMAIN then rmap AssignDomain (take_assign_domain cr)
     else if disc = RENEW_DOMAIN then rmap RenewDomain (take_renew_domain cr)
     else if disc = TRANSFER_DOMAIN then rmap TransferDomain (take_transfer_domain cr)
     else if disc = SLASH then rmap Slash (take_slash cr)
     else rfail (UnknownDiscriminant disc)))"

section \<open>The unsigned view\<close>

datatype unsigned_transaction =
    URegisterDomain network_id string hash32 hash32 u64 bytes public_key
  | UUpdateDomain network_id hash32 hash32 u64 hash32 public_key
  | URegisterTld network_id string hash32 hash32 u64 bytes public_key
  | UTransferTld network_id hash32 hash32 hash32 public_key
  | URevokeTld network_id hash32 hash32 public_key
  | USetTldOpen network_id hash32 hash32 bool public_key
  | UAssignDomain network_id string hash32 hash32 hash32 public_key
  | URenewDomain network_id hash32 hash32 u64 public_key
  | UTransferDomain network_id hash32 hash32 hash32 public_key
  | USlash network_id public_key checkpoint_data signature checkpoint_data signature public_key

fun unsigned_from :: "transaction \<Rightarrow> unsigned_transaction" where
  "unsigned_from (RegisterDomain tx) = URegisterDomain (rd_network tx) (rd_name tx) (rd_domain_id tx) (rd_owner tx) (rd_timestamp tx) (rd_proof tx)
     (rd_public_key tx)"
| "unsigned_from (UpdateDomain tx) = UUpdateDomain (ud_network tx) (ud_domain_id tx) (ud_owner tx) (ud_sequence tx) (ud_record_hash tx) (ud_public_key tx)"
| "unsigned_from (RegisterTld tx) = URegisterTld (rt_network tx) (rt_name tx) (rt_tld_id tx) (rt_owner tx) (rt_timestamp tx) (rt_proof tx)
     (rt_public_key tx)"
| "unsigned_from (TransferTld tx) = UTransferTld (tt_network tx) (tt_tld_id tx) (tt_owner tx) (tt_new_owner tx) (tt_public_key tx)"
| "unsigned_from (RevokeTld tx) = URevokeTld (rv_network tx) (rv_tld_id tx) (rv_owner tx) (rv_public_key tx)"
| "unsigned_from (SetTldOpen tx) = USetTldOpen (so_network tx) (so_tld_id tx) (so_owner tx) (so_open tx) (so_public_key tx)"
| "unsigned_from (AssignDomain tx) = UAssignDomain (ad_network tx) (ad_name tx) (ad_domain_id tx) (ad_owner tx) (ad_assignee tx) (ad_public_key tx)"
| "unsigned_from (RenewDomain tx) = URenewDomain (rn_network tx) (rn_domain_id tx) (rn_owner tx) (rn_valid_until tx) (rn_public_key tx)"
| "unsigned_from (TransferDomain tx) = UTransferDomain (td_network tx) (td_domain_id tx) (td_owner tx) (td_new_owner tx) (td_public_key tx)"
| "unsigned_from (Slash tx) = USlash (sl_network tx) (sl_offender tx) (sl_evidence_a tx) (sl_sig_a tx) (sl_evidence_b tx) (sl_sig_b tx)
     (sl_public_key tx)"

fun put_unsigned :: "unsigned_transaction \<Rightarrow> written" where
  "put_unsigned (URegisterDomain net nm did own ts prf pk) = wseq [Inr [REGISTER_DOMAIN], Inr [TX_FORMAT_VERSION],
     put_network net, put_domain_name nm, Inr (h32_bytes did), Inr (h32_bytes own), Inr (put_u64 ts),
     put_proof prf, Inr (put_public_key pk)]"
| "put_unsigned (UUpdateDomain net did own sq rh pk) = wseq [Inr [UPDATE_DOMAIN], Inr [TX_FORMAT_VERSION],
     put_network net, Inr (h32_bytes did), Inr (h32_bytes own), Inr (put_u64 sq), Inr (h32_bytes rh),
     Inr (put_public_key pk)]"
| "put_unsigned (URegisterTld net nm tid own ts prf pk) = wseq [Inr [REGISTER_TLD], Inr [TX_FORMAT_VERSION],
     put_network net, put_tld_name nm, Inr (h32_bytes tid), Inr (h32_bytes own), Inr (put_u64 ts),
     put_proof prf, Inr (put_public_key pk)]"
| "put_unsigned (UTransferTld net tid own new pk) = wseq [Inr [TRANSFER_TLD], Inr [TX_FORMAT_VERSION],
     put_network net, Inr (h32_bytes tid), Inr (h32_bytes own), Inr (h32_bytes new), Inr (put_public_key pk)]"
| "put_unsigned (URevokeTld net tid own pk) = wseq [Inr [REVOKE_TLD], Inr [TX_FORMAT_VERSION],
     put_network net, Inr (h32_bytes tid), Inr (h32_bytes own), Inr (put_public_key pk)]"
| "put_unsigned (USetTldOpen net tid own opn pk) = wseq [Inr [SET_TLD_OPEN], Inr [TX_FORMAT_VERSION],
     put_network net, Inr (h32_bytes tid), Inr (h32_bytes own), Inr (put_bool opn), Inr (put_public_key pk)]"
| "put_unsigned (UAssignDomain net nm did own asg pk) = wseq [Inr [ASSIGN_DOMAIN], Inr [TX_FORMAT_VERSION],
     put_network net, put_domain_name nm, Inr (h32_bytes did), Inr (h32_bytes own), Inr (h32_bytes asg),
     Inr (put_public_key pk)]"
| "put_unsigned (URenewDomain net did own vu pk) = wseq [Inr [RENEW_DOMAIN], Inr [TX_FORMAT_VERSION],
     put_network net, Inr (h32_bytes did), Inr (h32_bytes own), Inr (put_u64 vu), Inr (put_public_key pk)]"
| "put_unsigned (UTransferDomain net did own new pk) = wseq [Inr [TRANSFER_DOMAIN], Inr [TX_FORMAT_VERSION],
     put_network net, Inr (h32_bytes did), Inr (h32_bytes own), Inr (h32_bytes new), Inr (put_public_key pk)]"
| "put_unsigned (USlash net off ea sa eb sb pk) = wseq [Inr [SLASH], Inr [TX_FORMAT_VERSION],
     put_network net, Inr (put_public_key off), Inr (put_checkpoint_data ea), Inr (put_signature sa),
     Inr (put_checkpoint_data eb), Inr (put_signature sb), Inr (put_public_key pk)]"

definition take_unsigned :: "crypto \<Rightarrow> unsigned_transaction reader" where
  "take_unsigned cr = rbind take_u8 (\<lambda>disc. rbind take_u8 (\<lambda>version.
     if version \<noteq> TX_FORMAT_VERSION then rfail (UnsupportedVersion (ucast version))
     else if disc = REGISTER_DOMAIN then rbind take_network (\<lambda>net. rbind take_domain_name (\<lambda>nm. rbind take_h32 (\<lambda>did.
       rbind take_h32 (\<lambda>own. rbind take_u64 (\<lambda>ts. rbind take_proof (\<lambda>prf.
       rbind (take_public_key cr) (\<lambda>pk. rreturn (URegisterDomain net nm did own ts prf pk))))))))
     else if disc = UPDATE_DOMAIN then rbind take_network (\<lambda>net. rbind take_h32 (\<lambda>did. rbind take_h32 (\<lambda>own.
       rbind take_u64 (\<lambda>sq. rbind take_h32 (\<lambda>rh. rbind (take_public_key cr) (\<lambda>pk.
       rreturn (UUpdateDomain net did own sq rh pk)))))))
     else if disc = REGISTER_TLD then rbind take_network (\<lambda>net. rbind take_tld_name (\<lambda>nm. rbind take_h32 (\<lambda>tid.
       rbind take_h32 (\<lambda>own. rbind take_u64 (\<lambda>ts. rbind take_proof (\<lambda>prf.
       rbind (take_public_key cr) (\<lambda>pk. rreturn (URegisterTld net nm tid own ts prf pk))))))))
     else if disc = TRANSFER_TLD then rbind take_network (\<lambda>net. rbind take_h32 (\<lambda>tid. rbind take_h32 (\<lambda>own.
       rbind take_h32 (\<lambda>new. rbind (take_public_key cr) (\<lambda>pk.
       rreturn (UTransferTld net tid own new pk))))))
     else if disc = REVOKE_TLD then rbind take_network (\<lambda>net. rbind take_h32 (\<lambda>tid. rbind take_h32 (\<lambda>own.
       rbind (take_public_key cr) (\<lambda>pk. rreturn (URevokeTld net tid own pk)))))
     else if disc = SET_TLD_OPEN then rbind take_network (\<lambda>net. rbind take_h32 (\<lambda>tid. rbind take_h32 (\<lambda>own.
       rbind take_bool (\<lambda>opn. rbind (take_public_key cr) (\<lambda>pk.
       rreturn (USetTldOpen net tid own opn pk))))))
     else if disc = ASSIGN_DOMAIN then rbind take_network (\<lambda>net. rbind take_domain_name (\<lambda>nm. rbind take_h32 (\<lambda>did.
       rbind take_h32 (\<lambda>own. rbind take_h32 (\<lambda>asg. rbind (take_public_key cr) (\<lambda>pk.
       rreturn (UAssignDomain net nm did own asg pk)))))))
     else if disc = RENEW_DOMAIN then rbind take_network (\<lambda>net. rbind take_h32 (\<lambda>did. rbind take_h32 (\<lambda>own.
       rbind take_u64 (\<lambda>vu. rbind (take_public_key cr) (\<lambda>pk.
       rreturn (URenewDomain net did own vu pk))))))
     else if disc = TRANSFER_DOMAIN then rbind take_network (\<lambda>net. rbind take_h32 (\<lambda>did. rbind take_h32 (\<lambda>own.
       rbind take_h32 (\<lambda>new. rbind (take_public_key cr) (\<lambda>pk.
       rreturn (UTransferDomain net did own new pk))))))
     else if disc = SLASH then rbind take_network (\<lambda>net. rbind (take_public_key cr) (\<lambda>off.
       rbind take_checkpoint_data (\<lambda>ea. rbind take_signature (\<lambda>sa.
       rbind take_checkpoint_data (\<lambda>eb. rbind take_signature (\<lambda>sb.
       rbind (take_public_key cr) (\<lambda>pk. rreturn (USlash net off ea sa eb sb pk))))))))
     else rfail (UnknownDiscriminant disc)))"

definition signing_payload :: "transaction \<Rightarrow> written" where
  "signing_payload tx = wseq [Inr TX_SIG_PREFIX, put_unsigned (unsigned_from tx)]"

section \<open>The codecs meet the contract\<close>

text \<open>The type invariants of the fields: what exists as a value of the Rust types.\<close>

fun unsigned_ok :: "crypto \<Rightarrow> unsigned_transaction \<Rightarrow> bool" where
  "unsigned_ok cr (URegisterDomain net nm did own ts prf pk) \<longleftrightarrow> network_ok net \<and> domain_ok nm \<and> ed_key_ok cr pk"
| "unsigned_ok cr (UUpdateDomain net did own sq rh pk) \<longleftrightarrow> network_ok net \<and> ed_key_ok cr pk"
| "unsigned_ok cr (URegisterTld net nm tid own ts prf pk) \<longleftrightarrow> network_ok net \<and> tld_ok nm \<and> ed_key_ok cr pk"
| "unsigned_ok cr (UTransferTld net tid own new pk) \<longleftrightarrow> network_ok net \<and> ed_key_ok cr pk"
| "unsigned_ok cr (URevokeTld net tid own pk) \<longleftrightarrow> network_ok net \<and> ed_key_ok cr pk"
| "unsigned_ok cr (USetTldOpen net tid own opn pk) \<longleftrightarrow> network_ok net \<and> ed_key_ok cr pk"
| "unsigned_ok cr (UAssignDomain net nm did own asg pk) \<longleftrightarrow> network_ok net \<and> domain_ok nm \<and> ed_key_ok cr pk"
| "unsigned_ok cr (URenewDomain net did own vu pk) \<longleftrightarrow> network_ok net \<and> ed_key_ok cr pk"
| "unsigned_ok cr (UTransferDomain net did own new pk) \<longleftrightarrow> network_ok net \<and> ed_key_ok cr pk"
| "unsigned_ok cr (USlash net off ea sa eb sb pk) \<longleftrightarrow> network_ok net \<and> ed_key_ok cr off \<and> ed_key_ok cr pk"

definition tx_ok :: "crypto \<Rightarrow> transaction \<Rightarrow> bool" where
  "tx_ok cr tx \<longleftrightarrow> unsigned_ok cr (unsigned_from tx)"

lemma written_if_Inr [simp]: "written_if c out = Inr bs \<longleftrightarrow> (\<exists>u. c = Inr u) \<and> out = Inr bs"
  by (auto simp: written_if_def split: sum.splits)

lemma read_if_Inr [simp]: "read_if c x input = Inr (y, rest) \<longleftrightarrow> c x = Inr () \<and> y = x \<and> rest = input"
  by (auto simp: read_if_def split: sum.splits)

lemmas wire_reads = network.rbind_written domain_name.rbind_written tld_name.rbind_written proof_field.rbind_written [OF _ TrueI]
  public_key.rbind_written [OF refl] signature.rbind_written [OF refl TrueI] checkpoint_data.rbind_written [OF refl TrueI]
  u64.rbind_written [OF refl TrueI] bool.rbind_written [OF refl TrueI] h32.rbind_written [OF refl TrueI] u8.rbind_written [OF refl TrueI]

lemmas wire_parts = network.rbind_get domain_name.rbind_get tld_name.rbind_get proof_field.rbind_get public_key.rbind_get
  signature.rbind_get checkpoint_data.rbind_get u64.rbind_get bool.rbind_get h32.rbind_get u8.rbind_get

interpretation register_domain_tx: wire "put_register_domain cr" "take_register_domain cr" "\<lambda>tx. tx_ok cr (RegisterDomain tx)" for cr
  by unfold_locales (auto simp: put_register_domain_def take_register_domain_def tx_ok_def wseq_Cons wire_reads tx_validate_defs verify_evidence_def Let_def
      dest!: wire_parts split: if_splits)

interpretation update_domain_tx: wire "put_update_domain cr" "take_update_domain cr" "\<lambda>tx. tx_ok cr (UpdateDomain tx)" for cr
  by unfold_locales (auto simp: put_update_domain_def take_update_domain_def tx_ok_def wseq_Cons wire_reads tx_validate_defs verify_evidence_def Let_def
      dest!: wire_parts split: if_splits)

interpretation register_tld_tx: wire "put_register_tld cr" "take_register_tld cr" "\<lambda>tx. tx_ok cr (RegisterTld tx)" for cr
  by unfold_locales (auto simp: put_register_tld_def take_register_tld_def tx_ok_def wseq_Cons wire_reads tx_validate_defs verify_evidence_def Let_def
      dest!: wire_parts split: if_splits)

interpretation transfer_tld_tx: wire "put_transfer_tld cr" "take_transfer_tld cr" "\<lambda>tx. tx_ok cr (TransferTld tx)" for cr
  by unfold_locales (auto simp: put_transfer_tld_def take_transfer_tld_def tx_ok_def wseq_Cons wire_reads tx_validate_defs verify_evidence_def Let_def
      dest!: wire_parts split: if_splits)

interpretation revoke_tld_tx: wire "put_revoke_tld cr" "take_revoke_tld cr" "\<lambda>tx. tx_ok cr (RevokeTld tx)" for cr
  by unfold_locales (auto simp: put_revoke_tld_def take_revoke_tld_def tx_ok_def wseq_Cons wire_reads tx_validate_defs verify_evidence_def Let_def
      dest!: wire_parts split: if_splits)

interpretation set_tld_open_tx: wire "put_set_tld_open cr" "take_set_tld_open cr" "\<lambda>tx. tx_ok cr (SetTldOpen tx)" for cr
  by unfold_locales (auto simp: put_set_tld_open_def take_set_tld_open_def tx_ok_def wseq_Cons wire_reads tx_validate_defs verify_evidence_def Let_def
      dest!: wire_parts split: if_splits)

interpretation assign_domain_tx: wire "put_assign_domain cr" "take_assign_domain cr" "\<lambda>tx. tx_ok cr (AssignDomain tx)" for cr
  by unfold_locales (auto simp: put_assign_domain_def take_assign_domain_def tx_ok_def wseq_Cons wire_reads tx_validate_defs verify_evidence_def Let_def
      dest!: wire_parts split: if_splits)

interpretation renew_domain_tx: wire "put_renew_domain cr" "take_renew_domain cr" "\<lambda>tx. tx_ok cr (RenewDomain tx)" for cr
  by unfold_locales (auto simp: put_renew_domain_def take_renew_domain_def tx_ok_def wseq_Cons wire_reads tx_validate_defs verify_evidence_def Let_def
      dest!: wire_parts split: if_splits)

interpretation transfer_domain_tx: wire "put_transfer_domain cr" "take_transfer_domain cr" "\<lambda>tx. tx_ok cr (TransferDomain tx)" for cr
  by unfold_locales (auto simp: put_transfer_domain_def take_transfer_domain_def tx_ok_def wseq_Cons wire_reads tx_validate_defs verify_evidence_def Let_def
      dest!: wire_parts split: if_splits)

interpretation slash_tx: wire "put_slash cr" "take_slash cr" "\<lambda>tx. tx_ok cr (Slash tx)" for cr
  by unfold_locales (auto simp: put_slash_def take_slash_def tx_ok_def wseq_Cons wire_reads tx_validate_defs verify_evidence_def Let_def
      dest!: wire_parts split: if_splits)

lemma rmap_Inr: "rmap f p input = Inr (y, rest) \<longleftrightarrow> (\<exists>x. p input = Inr (x, rest) \<and> y = f x)"
  by (auto simp: rmap_def rbind_def rreturn_def split: sum.splits)

lemma rmap_put: "p input = Inr (x, rest) \<Longrightarrow> rmap f p input = Inr (f x, rest)"
  by (simp add: rmap_def rbind_def rreturn_def)

lemmas tx_types = REGISTER_DOMAIN_def UPDATE_DOMAIN_def REGISTER_TLD_def TRANSFER_TLD_def REVOKE_TLD_def SET_TLD_OPEN_def ASSIGN_DOMAIN_def RENEW_DOMAIN_def TRANSFER_DOMAIN_def SLASH_def TX_FORMAT_VERSION_def

lemmas kind_get_put = register_domain_tx.get_put update_domain_tx.get_put register_tld_tx.get_put transfer_tld_tx.get_put revoke_tld_tx.get_put set_tld_open_tx.get_put assign_domain_tx.get_put renew_domain_tx.get_put transfer_domain_tx.get_put slash_tx.get_put
lemmas kind_put_get = register_domain_tx.put_get update_domain_tx.put_get register_tld_tx.put_get transfer_tld_tx.put_get revoke_tld_tx.put_get set_tld_open_tx.put_get assign_domain_tx.put_get renew_domain_tx.put_get transfer_domain_tx.put_get slash_tx.put_get

interpretation transaction: wire "put_transaction cr" "take_transaction cr" "tx_ok cr" for cr
proof unfold_locales
  fix tx bs rest
  assume "tx_ok cr tx" "put_transaction cr tx = Inr bs"
  then show "take_transaction cr (bs @ rest) = Inr (tx, rest)"
    by (cases tx) (auto simp: take_transaction_def wseq_Cons u8.rbind_written [OF refl TrueI, simplified] tx_types intro!: rmap_put kind_get_put)
next
  fix input tx rest
  assume "take_transaction cr input = Inr (tx, rest)"
  then show "tx_ok cr tx \<and> (\<exists>bs. put_transaction cr tx = Inr bs \<and> input = bs @ rest)"
    by (auto simp: take_transaction_def rmap_Inr wseq_Cons dest!: u8.rbind_get kind_put_get split: if_splits)
qed

interpretation unsigned: wire put_unsigned "take_unsigned cr" "unsigned_ok cr" for cr
proof unfold_locales
  fix tx bs rest
  assume "unsigned_ok cr tx" "put_unsigned tx = Inr bs"
  then show "take_unsigned cr (bs @ rest) = Inr (tx, rest)"
    by (cases tx) (auto simp: take_unsigned_def wseq_Cons wire_reads u8.rbind_written [OF refl TrueI, simplified] tx_types rreturn_apply)
next
  fix input tx rest
  assume "take_unsigned cr input = Inr (tx, rest)"
  then show "unsigned_ok cr tx \<and> (\<exists>bs. put_unsigned tx = Inr bs \<and> input = bs @ rest)"
    by (auto simp: take_unsigned_def wseq_Cons dest!: wire_parts split: if_splits)
qed

end
