(* ===== verification/Scone_Record.thy ===== *)
theory Scone_Record
  imports Scone_Wire "HOL-Library.Multiset"
begin

text \<open>
  DNS records on the wire: the canonical encoding of record sets of
  \<^verbatim>\<open>crates/scone-protocol/src/record.rs\<close> and the commitment of \<^verbatim>\<open>hash.rs\<close>. A record set is an unordered
  collection: its encoding sorts the encoded records and rejects duplicates, and the decoder
  accepts the sorted order only.
\<close>

section \<open>Record data on the wire\<close>

definition DNS_A :: u16 where "DNS_A = 1"
definition DNS_NS :: u16 where "DNS_NS = 2"
definition DNS_CNAME :: u16 where "DNS_CNAME = 5"
definition DNS_MX :: u16 where "DNS_MX = 15"
definition DNS_TXT :: u16 where "DNS_TXT = 16"
definition DNS_AAAA :: u16 where "DNS_AAAA = 28"

definition is_known :: "u16 \<Rightarrow> bool" where
  "is_known code \<longleftrightarrow> code \<in> {DNS_A, DNS_NS, DNS_CNAME, DNS_MX, DNS_TXT, DNS_AAAA}"

definition put_type :: "u16 \<Rightarrow> bytes" where "put_type code = put_u64 (ucast code)"

definition take_type :: "u16 reader" where
  "take_type = rbind take_u64 (\<lambda>code. if unat code < 2 ^ 16 then rreturn (ucast code) else rfail IntegerOutOfRange)"

definition take_ipv4 :: "32 word reader" where
  "take_ipv4 = rbind (take_array 4) (\<lambda>bs. rreturn (from_be_bytes bs))"

definition take_ipv6 :: "128 word reader" where
  "take_ipv6 = rbind (take_array 16) (\<lambda>bs. rreturn (from_be_bytes bs))"

fun put_record_data :: "record_data \<Rightarrow> written" where
  "put_record_data (RA ip) = wseq [Inr (put_type DNS_A), Inr (be_bytes 4 ip)]"
| "put_record_data (RAaaa ip) = wseq [Inr (put_type DNS_AAAA), Inr (be_bytes 16 ip)]"
| "put_record_data (RCname name) = wseq [Inr (put_type DNS_CNAME), put_domain_name name]"
| "put_record_data (RMx preference exchange) =
     wseq [Inr (put_type DNS_MX), Inr (put_u16 preference), put_domain_name exchange]"
| "put_record_data (RTxt text) = wseq [Inr (put_type DNS_TXT), put_bounded (str_bytes text) MAX_TXT_LEN]"
| "put_record_data (RNs name) = wseq [Inr (put_type DNS_NS), put_domain_name name]"
| "put_record_data (RUnknown code data) =
     (if is_known code then Inl (Validation InvalidFormat)
      else wseq [Inr (put_type code), put_bounded data MAX_UNKNOWN_DATA])"

definition take_record_data :: "record_data reader" where
  "take_record_data = rbind take_type (\<lambda>code.
     if code = DNS_A then rbind take_ipv4 (\<lambda>ip. rreturn (RA ip))
     else if code = DNS_AAAA then rbind take_ipv6 (\<lambda>ip. rreturn (RAaaa ip))
     else if code = DNS_CNAME then rbind take_domain_name (\<lambda>name. rreturn (RCname name))
     else if code = DNS_MX then rbind take_u16 (\<lambda>preference. rbind take_domain_name (\<lambda>exchange.
       rreturn (RMx preference exchange)))
     else if code = DNS_TXT then rbind (take_string MAX_TXT_LEN) (\<lambda>text. rreturn (RTxt text))
     else if code = DNS_NS then rbind take_domain_name (\<lambda>name. rreturn (RNs name))
     else rbind (take_bytes MAX_UNKNOWN_DATA) (\<lambda>data. rreturn (RUnknown code data)))"

text \<open>The signature of a record set is opaque and bounded.\<close>

definition put_record_signature :: "bytes \<Rightarrow> written" where
  "put_record_signature sig = put_bounded sig MAX_SIGNATURE_LEN"

definition take_record_signature :: "bytes reader" where
  "take_record_signature = take_bytes MAX_SIGNATURE_LEN"

section \<open>Record sets on the wire\<close>

fun encode_records :: "record_data list \<Rightarrow> protocol_error + bytes list" where
  "encode_records [] = Inr []"
| "encode_records (r # rs) = try_bind (put_record_data r) (\<lambda>e. try_bind (encode_records rs) (\<lambda>es. Inr (e # es)))"

text \<open>\<^verbatim>\<open>encoded.windows(2).any(|w| w[0] == w[1])\<close>\<close>

fun adjacent_eq :: "'a list \<Rightarrow> bool" where
  "adjacent_eq (x # y # zs) \<longleftrightarrow> x = y \<or> adjacent_eq (y # zs)"
| "adjacent_eq _ \<longleftrightarrow> False"

definition put_dns_record :: "dns_record \<Rightarrow> written" where
  "put_dns_record r = written_if (dns_record_validate r)
     (if MAX_RECORDS_PER_SET < length (dr_records r) then Inl LimitExceeded
      else try_bind (encode_records (dr_records r)) (\<lambda>es.
        let encoded = sort es in
        if adjacent_eq encoded then Inl NonCanonical
        else wseq [Inr (h32_bytes (dr_domain_id r)), Inr (put_u64 (dr_sequence r)), Inr (put_u64 (dr_expiration r)),
          Inr (put_u64 (of_nat (length encoded))), Inr (concat encoded)]))"

primrec take_records :: "nat \<Rightarrow> bytes \<Rightarrow> record_data list reader" where
  "take_records 0 previous = rreturn []"
| "take_records (Suc n) previous = rbind take_record_data (\<lambda>r.
     case put_record_data r of Inl e \<Rightarrow> rfail e
     | Inr encoded \<Rightarrow>
         if encoded \<le> previous then rfail NonCanonical
         else rbind (take_records n encoded) (\<lambda>rs. rreturn (r # rs)))"

definition take_dns_record :: "dns_record reader" where
  "take_dns_record = rbind take_h32 (\<lambda>did. rbind take_u64 (\<lambda>sequence. rbind take_u64 (\<lambda>expiration.
     rbind take_u64 (\<lambda>count.
       if of_nat MAX_RECORDS_PER_SET < count then rfail LimitExceeded
       else rbind (take_records (unat count) []) (\<lambda>rs. read_if dns_record_validate
         \<lparr>dr_domain_id = did, dr_sequence = sequence, dr_expiration = expiration, dr_records = rs\<rparr>)))))"

definition put_signed_dns_record :: "signed_dns_record \<Rightarrow> written" where
  "put_signed_dns_record s = wseq [put_dns_record (sr_record s), Inr (h32_bytes (sr_owner s)),
     put_record_signature (sr_signature s)]"

definition take_signed_dns_record :: "signed_dns_record reader" where
  "take_signed_dns_record = rbind take_dns_record (\<lambda>r. rbind take_h32 (\<lambda>own. rbind take_record_signature (\<lambda>sig.
     rreturn \<lparr>sr_record = r, sr_owner = own, sr_signature = sig\<rparr>)))"

text \<open>The commitment; \<open>None\<close> is the panic of \<^verbatim>\<open>expect\<close>.\<close>

definition RECORD_HASH_VERSION :: bytes where "RECORD_HASH_VERSION = str_bytes ''SCONE-RECORD-V1''"

definition record_hash :: "crypto \<Rightarrow> dns_record \<Rightarrow> hash32 option" where
  "record_hash cr r = (case put_dns_record r of Inl e \<Rightarrow> None
     | Inr encoded \<Rightarrow> Some (hash256 cr [RECORD_HASH_VERSION, encoded]))"

section \<open>Record data meets the contract\<close>

fun record_ok :: "record_data \<Rightarrow> bool" where
  "record_ok (RCname name) \<longleftrightarrow> domain_ok name"
| "record_ok (RMx preference exchange) \<longleftrightarrow> domain_ok exchange"
| "record_ok (RTxt text) \<longleftrightarrow> utf8_valid (str_bytes text)"
| "record_ok (RNs name) \<longleftrightarrow> domain_ok name"
| "record_ok _ \<longleftrightarrow> True"

interpretation type_code: wire "\<lambda>c. Inr (put_type c)" take_type "\<lambda>_. True"
  using u16.wire_axioms unfolding put_type_def take_type_def put_u16_def take_u16_def .

interpretation ipv4: wire "\<lambda>ip. Inr (be_bytes 4 ip)" take_ipv4 "\<lambda>_. True"
  unfolding take_ipv4_def by (rule wire_word) simp

interpretation ipv6: wire "\<lambda>ip. Inr (be_bytes 16 ip)" take_ipv6 "\<lambda>_. True"
  unfolding take_ipv6_def by (rule wire_word) simp

interpretation txt_field: wire "\<lambda>s. put_bounded (str_bytes s) MAX_TXT_LEN" "take_string MAX_TXT_LEN" "\<lambda>s. utf8_valid (str_bytes s)"
proof unfold_locales
  fix s bs rest
  assume "utf8_valid (str_bytes s)" "put_bounded (str_bytes s) MAX_TXT_LEN = Inr bs"
  then show "take_string MAX_TXT_LEN (bs @ rest) = Inr (s, rest)"
    using wire.get_put [OF wire_bounded [OF wire_limits(7)]] by (simp add: take_string_def rbind_def rreturn_def)
next
  fix input s rest
  assume "take_string MAX_TXT_LEN input = Inr (s, rest)"
  then show "utf8_valid (str_bytes s) \<and> (\<exists>bs. put_bounded (str_bytes s) MAX_TXT_LEN = Inr bs \<and> input = bs @ rest)"
    by (auto simp: take_string_def dest!: wire.rbind_get [OF wire_bounded [OF wire_limits(7)]] split: if_splits)
qed

interpretation unknown_data: wire "\<lambda>d. put_bounded d MAX_UNKNOWN_DATA" "take_bytes MAX_UNKNOWN_DATA" "\<lambda>_. True"
  by (rule wire_bounded) (rule wire_limits)

interpretation record_signature: wire put_record_signature take_record_signature "\<lambda>_. True"
  unfolding put_record_signature_def [abs_def] take_record_signature_def by (rule wire_bounded) (rule wire_limits)

lemmas record_reads = type_code.rbind_written [OF refl TrueI] ipv4.rbind_written [OF refl TrueI] ipv6.rbind_written [OF refl TrueI]
  txt_field.rbind_written unknown_data.rbind_written [OF _ TrueI] u16.rbind_written [OF refl TrueI] wire_reads
lemmas record_parts = type_code.rbind_get ipv4.rbind_get ipv6.rbind_get txt_field.rbind_get unknown_data.rbind_get u16.rbind_get wire_parts
lemmas dns_types = DNS_A_def DNS_NS_def DNS_CNAME_def DNS_MX_def DNS_TXT_def DNS_AAAA_def

interpretation record_data: wire put_record_data take_record_data record_ok
proof unfold_locales
  fix r bs rest
  assume "record_ok r" "put_record_data r = Inr bs"
  then show "take_record_data (bs @ rest) = Inr (r, rest)"
    by (cases r) (auto simp: take_record_data_def wseq_Cons record_reads dns_types is_known_def rreturn_apply split: if_splits)
next
  fix input r rest
  assume "take_record_data input = Inr (r, rest)"
  then show "record_ok r \<and> (\<exists>bs. put_record_data r = Inr bs \<and> input = bs @ rest)"
    by (auto simp: take_record_data_def wseq_Cons is_known_def dest!: record_parts split: if_splits)
qed

section \<open>Record sets are canonical\<close>

lemma encode_records_iff:
  "encode_records rs = Inr es \<longleftrightarrow> (\<forall>r\<in>set rs. \<exists>e. put_record_data r = Inr e) \<and> es = map (projr \<circ> put_record_data) rs"
  by (induction rs arbitrary: es) auto

lemma adjacent_eq_iff: "sorted xs \<Longrightarrow> \<not> adjacent_eq xs \<longleftrightarrow> sorted_wrt (<) (xs :: 'a::linorder list)"
  by (induction xs rule: adjacent_eq.induct) (auto simp: less_le_trans le_less)

lemma put_u64_not_Nil [simp]: "put_u64 v \<noteq> []"
  by (subst put_u64.simps) (simp add: Let_def)

lemma put_record_not_Nil: "put_record_data r = Inr e \<Longrightarrow> e \<noteq> []"
  by (cases r) (auto simp: wseq_Cons put_type_def split: if_splits)

lemma take_put_records:
  "list_all record_ok rs \<Longrightarrow> encode_records rs = Inr es \<Longrightarrow> sorted_wrt (<) (prev # es) \<Longrightarrow>
     take_records (length rs) prev (concat es @ rest) = Inr (rs, rest)"
proof (induction rs arbitrary: prev es)
  case (Cons r rs)
  then obtain e es' where e: "put_record_data r = Inr e" "encode_records rs = Inr es'" "es = e # es'" by auto
  have "take_records (length rs) e (concat es' @ rest) = Inr (rs, rest)"
    using Cons.IH [OF _ e(2)] Cons.prems e(3) by simp
  then show ?case using Cons.prems e
    by (simp add: record_data.rbind_written [OF e(1)] rbind_def [of "take_records _ _"] rreturn_def not_le)
qed (simp add: rreturn_def)

lemma put_take_records:
  "take_records n prev input = Inr (rs, rest) \<Longrightarrow>
     list_all record_ok rs \<and> length rs = n \<and> (\<exists>es. encode_records rs = Inr es \<and> sorted_wrt (<) (prev # es) \<and> input = concat es @ rest)"
proof (induction n arbitrary: prev input rs)
  case (Suc n)
  then obtain r e input' rs' where r: "record_ok r" "put_record_data r = Inr e" "input = e @ input'" "\<not> e \<le> prev"
    "take_records n e input' = Inr (rs', rest)" "rs = r # rs'"
    by (auto simp: rbind_def [of "take_records _ _"] dest!: record_data.rbind_get split: if_splits sum.splits)
  from Suc.IH [OF r(5)] obtain es where "list_all record_ok rs'" "length rs' = n" "encode_records rs' = Inr es"
    "sorted_wrt (<) (e # es)" "input' = concat es @ rest" by auto
  then show ?case using r by (auto simp: not_le)
qed simp

lemma encoded_not_Nil: "encode_records rs = Inr es \<Longrightarrow> [] \<notin> set es"
  using put_record_not_Nil by (fastforce simp: encode_records_iff)

lemma sorted_from_Nil: "[] \<notin> set es \<Longrightarrow> sorted_wrt (<) ([] # es) \<longleftrightarrow> sorted_wrt (<) (es :: bytes list)"
  by (auto simp: less_list_code) (metis Nil_less_Cons list.exhaust)

lemma length_encode_records: "encode_records rs = Inr es \<Longrightarrow> length es = length rs"
  by (simp add: encode_records_iff)

text \<open>The canonical form: valid fields, encodings strictly ascending.\<close>

definition dns_record_ok :: "dns_record \<Rightarrow> bool" where
  "dns_record_ok r \<longleftrightarrow> list_all record_ok (dr_records r)
     \<and> (case encode_records (dr_records r) of Inl e \<Rightarrow> False | Inr es \<Rightarrow> sorted_wrt (<) es)"

lemma put_dns_record_iff: "put_dns_record r = Inr bs \<longleftrightarrow> dns_record_validate r = Inr () \<and> length (dr_records r) \<le> 256
   \<and> (\<exists>es. encode_records (dr_records r) = Inr es \<and> sorted_wrt (<) (sort es)
     \<and> bs = h32_bytes (dr_domain_id r) @ put_u64 (dr_sequence r) @ put_u64 (dr_expiration r)
         @ put_u64 (of_nat (length es)) @ concat (sort es))"
  by (auto simp: put_dns_record_def MAX_RECORDS_PER_SET_def Let_def wseq_Cons adjacent_eq_iff split: if_splits)

lemma sort_ascending: "sorted_wrt (<) (es :: 'a::linorder list) \<Longrightarrow> sort es = es"
  by (simp add: sort_key_id_if_sorted strict_sorted_iff)

interpretation dns_record: wire put_dns_record take_dns_record dns_record_ok
proof unfold_locales
  fix r bs rest
  assume ok: "dns_record_ok r" and "put_dns_record r = Inr bs"
  then obtain es where es: "dns_record_validate r = Inr ()" "length (dr_records r) \<le> 256" "encode_records (dr_records r) = Inr es"
    "sorted_wrt (<) es" "bs = h32_bytes (dr_domain_id r) @ put_u64 (dr_sequence r) @ put_u64 (dr_expiration r)
         @ put_u64 (of_nat (length es)) @ concat es"
    by (auto simp: put_dns_record_iff dns_record_ok_def sort_ascending)
  have c: "unat (of_nat (length es) :: u64) = length (dr_records r)"
    using es(2) length_encode_records [OF es(3)] unat_of_length [of "length es"] by simp
  have "take_records (length (dr_records r)) [] (concat es @ rest) = Inr (dr_records r, rest)"
    using ok es(3,4) sorted_from_Nil encoded_not_Nil [OF es(3)] by (intro take_put_records) (auto simp: dns_record_ok_def)
  then show "take_dns_record (bs @ rest) = Inr (r, rest)"
    using es(1,2) c unfolding es(5)
    by (simp add: take_dns_record_def h32.rbind_put [OF TrueI refl] u64.rbind_put [OF TrueI refl] MAX_RECORDS_PER_SET_def
        word_less_nat_alt rbind_def [of "take_records _ _"] dns_record_validate_def split: if_splits)
next
  fix input r rest
  assume "take_dns_record input = Inr (r, rest)"
  then obtain count i rs where r: "input = h32_bytes (dr_domain_id r) @ put_u64 (dr_sequence r) @ put_u64 (dr_expiration r) @ put_u64 count @ i"
    "count \<le> 256" "take_records (unat count) [] i = Inr (dr_records r, rest)" "dns_record_validate r = Inr ()"
    by (auto simp: take_dns_record_def MAX_RECORDS_PER_SET_def rbind_def [of "take_records _ _"]
        dest!: h32.rbind_get u64.rbind_get split: if_splits sum.splits)
  from put_take_records [OF r(3)] obtain es where es: "list_all record_ok (dr_records r)" "length (dr_records r) = unat count"
    "encode_records (dr_records r) = Inr es" "sorted_wrt (<) es" "i = concat es @ rest" by auto
  have "length (dr_records r) \<le> 256" using es(2) r(2) by (simp add: word_le_nat_alt)
  then show "dns_record_ok r \<and> (\<exists>bs. put_dns_record r = Inr bs \<and> input = bs @ rest)"
    using es r(1,4) by (simp add: dns_record_ok_def put_dns_record_iff sort_ascending length_encode_records)
qed

interpretation signed_dns_record: wire put_signed_dns_record take_signed_dns_record "\<lambda>s. dns_record_ok (sr_record s)"
  by unfold_locales (auto simp: put_signed_dns_record_def take_signed_dns_record_def wseq_Cons dns_record.rbind_written
      record_signature.rbind_written h32.rbind_written rreturn_apply dest!: dns_record.rbind_get h32.rbind_get record_signature.rbind_get)

section \<open>Properties\<close>

definition same_record_set :: "dns_record \<Rightarrow> dns_record \<Rightarrow> bool" where
  "same_record_set r r' \<longleftrightarrow> dr_domain_id r' = dr_domain_id r \<and> dr_sequence r' = dr_sequence r
     \<and> dr_expiration r' = dr_expiration r \<and> mset (dr_records r') = mset (dr_records r)"

lemma sort_mset: "mset xs = mset ys \<Longrightarrow> sort xs = sort ys"
  by (metis mset_sort properties_for_sort sorted_sort)

lemma map_sort_key: "map f (sort_key f xs) = sort (map f xs)"
  by (rule properties_for_sort [symmetric]) simp_all

text \<open>Every encodable record set has a canonical order.\<close>

lemma canonical_order:
  assumes "put_dns_record r = Inr bs" "list_all record_ok (dr_records r)"
  shows "\<exists>c. same_record_set r c \<and> dns_record_ok c \<and> put_dns_record c = Inr bs"
proof -
  obtain es where es: "dns_record_validate r = Inr ()" "length (dr_records r) \<le> 256" "encode_records (dr_records r) = Inr es"
    "sorted_wrt (<) (sort es)" "bs = h32_bytes (dr_domain_id r) @ put_u64 (dr_sequence r) @ put_u64 (dr_expiration r)
         @ put_u64 (of_nat (length es)) @ concat (sort es)"
    using assms(1) by (auto simp: put_dns_record_iff)
  define rs where "rs = sort_key (projr \<circ> put_record_data) (dr_records r)"
  have rs: "encode_records rs = Inr (sort es)" "mset rs = mset (dr_records r)"
    using es(3) by (auto simp: encode_records_iff rs_def map_sort_key)
  let ?c = "r\<lparr>dr_records := rs\<rparr>"
  have "list_all record_ok rs" using assms(2) rs(2) by (metis list_all_iff set_mset_mset)
  moreover have "length rs = length (dr_records r)" using rs(2) by (rule mset_eq_length)
  moreover have "dns_record_validate ?c = Inr ()" using es(1) rs(2) by (auto simp: dns_record_validate_def split: if_splits)
  ultimately show ?thesis
    using rs es(2,4,5) by (intro exI [of _ ?c]) (simp add: same_record_set_def dns_record_ok_def put_dns_record_iff sort_ascending)
qed

lemma encode_same_set:
  assumes "put_dns_record r = Inr bs" "same_record_set r r'" shows "put_dns_record r' = Inr bs"
proof -
  obtain es where es: "dns_record_validate r = Inr ()" "length (dr_records r) \<le> 256" "encode_records (dr_records r) = Inr es"
    "sorted_wrt (<) (sort es)" "bs = h32_bytes (dr_domain_id r) @ put_u64 (dr_sequence r) @ put_u64 (dr_expiration r)
         @ put_u64 (of_nat (length es)) @ concat (sort es)"
    using assms(1) by (auto simp: put_dns_record_iff)
  have m: "mset (dr_records r') = mset (dr_records r)" using assms(2) by (simp add: same_record_set_def)
  obtain es' where es': "encode_records (dr_records r') = Inr es'" "mset es' = mset es"
    using es(3) m mset_eq_setD [OF m] by (auto simp: encode_records_iff)
  have "dns_record_validate r' = Inr ()" using es(1) m assms(2)
    by (auto simp: dns_record_validate_def same_record_set_def split: if_splits)
  then show ?thesis
    using es(2,4,5) es'(1) sort_mset [OF es'(2)] mset_eq_length [OF es'(2)] mset_eq_length [OF m] assms(2)
    by (simp add: put_dns_record_iff same_record_set_def)
qed

text \<open>C32: The encoding of a record set is canonical: two record sets have the same bytes exactly when they
  agree on domain, sequence and expiration and hold the same records in any order; then they
  have the same commitment.\<close>

theorem record_set_canonical:
  assumes "put_dns_record r = Inr bs" "list_all record_ok (dr_records r)" "list_all record_ok (dr_records r')"
  shows "(put_dns_record r' = Inr bs \<longleftrightarrow> same_record_set r r') \<and> (same_record_set r r' \<longrightarrow> record_hash cr r' = record_hash cr r)"
proof (intro conjI iffI impI)
  assume "put_dns_record r' = Inr bs"
  then obtain c' where c': "same_record_set r' c'" "dns_record_ok c'" "put_dns_record c' = Inr bs"
    using canonical_order assms(3) by blast
  obtain c where c: "same_record_set r c" "dns_record_ok c" "put_dns_record c = Inr bs"
    using canonical_order assms(1,2) by blast
  have "c = c'" using c c' dns_record.put_inject by blast
  then show "same_record_set r r'" using c(1) c'(1) by (auto simp: same_record_set_def)
next
  assume "same_record_set r r'"
  then show "put_dns_record r' = Inr bs" "record_hash cr r' = record_hash cr r"
    using encode_same_set [OF assms(1)] assms(1) by (simp_all add: record_hash_def)
qed

text \<open>An example: an address and a text, in either order.\<close>

definition ex_records :: dns_record where
  "ex_records = \<lparr>dr_domain_id = 7, dr_sequence = 1, dr_expiration = 0, dr_records = [RTxt ''hi'', RA 0x7f000001]\<rparr>"

lemma put_u64_small: "v < 128 \<Longrightarrow> put_u64 v = [ucast v]"
proof -
  assume "v < 128"
  then have "unat (drop_bit 7 v) = 0" unfolding unat_drop_bit_eq by (simp add: drop_bit_eq_div word_less_nat_alt)
  then show ?thesis by (intro put_last) (simp add: unat_eq_zero)
qed

lemma ex_data_encoded:
  "put_record_data (RTxt ''hi'') = Inr [16, 2, 104, 105]" "put_record_data (RA 0x7f000001) = Inr [1, 127, 0, 0, 1]"
proof -
  have "be_bytes 4 (0x7f000001 :: u32) = [127, 0, 0, 1]" "str_bytes ''hi'' = [104, 105]" by code_simp+
  then show "put_record_data (RTxt ''hi'') = Inr [16, 2, 104, 105]" "put_record_data (RA 0x7f000001) = Inr [1, 127, 0, 0, 1]"
    by (simp_all add: wseq_Cons put_type_def put_u64_small put_bounded_def MAX_TXT_LEN_def DNS_TXT_def DNS_A_def)
qed

lemma ex_records_encoded:
  "put_dns_record ex_records = Inr (h32_bytes 7 @ [1, 0, 2, 1, 127, 0, 0, 1, 16, 2, 104, 105])"
  by (simp add: put_dns_record_iff ex_records_def dns_record_validate_def ex_data_encoded put_u64_small del: put_record_data.simps)

theorem record_set_canonical_witness:
  "put_dns_record (ex_records\<lparr>dr_records := rev (dr_records ex_records)\<rparr>)
     = Inr (h32_bytes 7 @ [1, 0, 2, 1, 127, 0, 0, 1, 16, 2, 104, 105])"
  using record_set_canonical [OF ex_records_encoded, of "ex_records\<lparr>dr_records := rev (dr_records ex_records)\<rparr>"]
  by (simp add: same_record_set_def ex_records_def str_bytes_def)

end
