(* ===== verification/Scone_Message.thy ===== *)
theory Scone_Message
  imports Scone_Record
begin

text \<open>
  Blocks (\<^verbatim>\<open>crates/scone-protocol/src/block.rs\<close>) and the peer-to-peer message envelope
  (\<^verbatim>\<open>message.rs\<close>) on the wire, and what the whole format guarantees: decoding accepts exactly the
  encodings of well-formed messages, and the payload a signer signs determines the transaction.
\<close>

section \<open>Blocks\<close>

definition PROTOCOL_VERSION :: u32 where "PROTOCOL_VERSION = 1"

record block_header =
  bh_version :: u32
  bh_height :: u64
  bh_prev_hash :: hash32
  bh_tx_root :: hash32
  bh_timestamp :: u64
  bh_consensus :: bytes

record block =
  blk_header :: block_header
  blk_transactions :: "transaction list"

definition check_version :: "u32 \<Rightarrow> protocol_error + unit" where
  "check_version version =
     (if version = 0 \<or> PROTOCOL_VERSION < version then Inl (UnsupportedVersion (ucast version))
      else if version < PROTOCOL_VERSION then Inl (UnsupportedVersion (ucast version)) else Inr ())"

definition put_header :: "block_header \<Rightarrow> written" where
  "put_header h = try_bind (check_version (bh_version h)) (\<lambda>_. wseq
     [Inr (put_u32 (bh_version h)), Inr (put_u64 (bh_height h)), Inr (h32_bytes (bh_prev_hash h)),
      Inr (h32_bytes (bh_tx_root h)), Inr (put_u64 (bh_timestamp h)), put_bounded (bh_consensus h) MAX_CONSENSUS_LEN])"

definition take_header :: "block_header reader" where
  "take_header = rbind take_u32 (\<lambda>version. case check_version version of Inl e \<Rightarrow> rfail e | Inr _ \<Rightarrow>
     rbind take_u64 (\<lambda>height. rbind take_h32 (\<lambda>prev. rbind take_h32 (\<lambda>root. rbind take_u64 (\<lambda>ts.
     rbind (take_bytes MAX_CONSENSUS_LEN) (\<lambda>consensus. rreturn
       \<lparr>bh_version = version, bh_height = height, bh_prev_hash = prev, bh_tx_root = root, bh_timestamp = ts,
        bh_consensus = consensus\<rparr>))))))"

definition put_block :: "crypto \<Rightarrow> block \<Rightarrow> written" where
  "put_block cr b =
     (if MAX_TXS_PER_BLOCK < length (blk_transactions b) then Inl LimitExceeded
      else wseq ([put_header (blk_header b), Inr (put_u64 (of_nat (length (blk_transactions b))))]
        @ map (put_transaction cr) (blk_transactions b)))"

primrec take_transactions :: "crypto \<Rightarrow> nat \<Rightarrow> transaction list reader" where
  "take_transactions cr 0 = rreturn []"
| "take_transactions cr (Suc n) =
     rbind (take_transaction cr) (\<lambda>tx. rbind (take_transactions cr n) (\<lambda>txs. rreturn (tx # txs)))"

definition take_block :: "crypto \<Rightarrow> block reader" where
  "take_block cr = rbind take_header (\<lambda>h. rbind take_u64 (\<lambda>count.
     if of_nat MAX_TXS_PER_BLOCK < count then rfail LimitExceeded
     else rbind (take_transactions cr (unat count)) (\<lambda>txs. rreturn \<lparr>blk_header = h, blk_transactions = txs\<rparr>)))"

section \<open>Messages\<close>

definition HELLO :: u8 where "HELLO = 0x01"
definition PING :: u8 where "PING = 0x02"
definition PONG :: u8 where "PONG = 0x03"
definition GET_BLOCK :: u8 where "GET_BLOCK = 0x04"
definition GET_BLOCKS :: u8 where "GET_BLOCKS = 0x05"
definition BLOCK :: u8 where "BLOCK = 0x06"
definition TRANSACTION :: u8 where "TRANSACTION = 0x07"
definition GET_RECORD :: u8 where "GET_RECORD = 0x08"
definition RECORD :: u8 where "RECORD = 0x09"
definition CHECKPOINT :: u8 where "CHECKPOINT = 0x0a"
definition GET_CHECKPOINTS :: u8 where "GET_CHECKPOINTS = 0x0b"

datatype message =
    MHello u32
  | MPing
  | MPong
  | MGetBlock hash32
  | MGetBlocks u64 u32
  | MBlock block
  | MTransaction transaction
  | MGetRecord domain_id
  | MRecord signed_dns_record
  | MCheckpoint checkpoint
  | MGetCheckpoints

fun put_message :: "crypto \<Rightarrow> message \<Rightarrow> written" where
  "put_message cr (MHello version) =
     (if version = 0 \<or> PROTOCOL_VERSION < version then Inl (UnsupportedVersion (ucast version))
      else wseq [Inr [HELLO], Inr (put_u64 (ucast version))])"
| "put_message cr MPing = Inr [PING]"
| "put_message cr MPong = Inr [PONG]"
| "put_message cr (MGetBlock h) = wseq [Inr [GET_BLOCK], Inr (h32_bytes h)]"
| "put_message cr (MGetBlocks start_height max_blocks) =
     (if MAX_BLOCKS_PER_REQUEST < unat max_blocks then Inl LimitExceeded
      else wseq [Inr [GET_BLOCKS], Inr (put_u64 start_height), Inr (put_u64 (ucast max_blocks))])"
| "put_message cr (MBlock b) = wseq [Inr [BLOCK], put_block cr b]"
| "put_message cr (MTransaction tx) = wseq [Inr [TRANSACTION], put_transaction cr tx]"
| "put_message cr (MGetRecord did) = wseq [Inr [GET_RECORD], Inr (h32_bytes did)]"
| "put_message cr (MRecord r) = wseq [Inr [RECORD], put_signed_dns_record r]"
| "put_message cr (MCheckpoint c) = wseq [Inr [CHECKPOINT], put_checkpoint c]"
| "put_message cr MGetCheckpoints = Inr [GET_CHECKPOINTS]"

definition take_message :: "crypto \<Rightarrow> message reader" where
  "take_message cr = rbind take_u8 (\<lambda>disc.
     if disc = HELLO then rbind take_u64 (\<lambda>version.
       if version = 0 \<or> ucast PROTOCOL_VERSION < version then rfail (UnsupportedVersion version)
       else rreturn (MHello (ucast version)))
     else if disc = PING then rreturn MPing
     else if disc = PONG then rreturn MPong
     else if disc = GET_BLOCK then rbind take_h32 (\<lambda>h. rreturn (MGetBlock h))
     else if disc = GET_BLOCKS then rbind take_u64 (\<lambda>start_height. rbind take_u64 (\<lambda>max_blocks.
       if of_nat MAX_BLOCKS_PER_REQUEST < max_blocks then rfail LimitExceeded
       else rreturn (MGetBlocks start_height (ucast max_blocks))))
     else if disc = BLOCK then rbind (take_block cr) (\<lambda>b. rreturn (MBlock b))
     else if disc = TRANSACTION then rbind (take_transaction cr) (\<lambda>tx. rreturn (MTransaction tx))
     else if disc = GET_RECORD then rbind take_h32 (\<lambda>did. rreturn (MGetRecord did))
     else if disc = RECORD then rbind take_signed_dns_record (\<lambda>r. rreturn (MRecord r))
     else if disc = CHECKPOINT then rbind (take_checkpoint cr) (\<lambda>c. rreturn (MCheckpoint c))
     else if disc = GET_CHECKPOINTS then rreturn MGetCheckpoints
     else rfail (UnknownDiscriminant disc))"

section \<open>The codecs meet the contract\<close>

definition block_ok :: "crypto \<Rightarrow> block \<Rightarrow> bool" where
  "block_ok cr b \<longleftrightarrow> list_all (tx_ok cr) (blk_transactions b)"

fun message_ok :: "crypto \<Rightarrow> message \<Rightarrow> bool" where
  "message_ok cr (MBlock b) \<longleftrightarrow> block_ok cr b"
| "message_ok cr (MTransaction tx) \<longleftrightarrow> tx_ok cr tx"
| "message_ok cr (MRecord r) \<longleftrightarrow> dns_record_ok (sr_record r)"
| "message_ok cr (MCheckpoint c) \<longleftrightarrow> signers_ok cr (ck_signatures c)"
| "message_ok cr _ \<longleftrightarrow> True"

interpretation consensus_field: wire "\<lambda>d. put_bounded d MAX_CONSENSUS_LEN" "take_bytes MAX_CONSENSUS_LEN" "\<lambda>_. True"
  by (rule wire_bounded) (rule wire_limits)

interpretation header: wire put_header take_header "\<lambda>_. True"
  by unfold_locales (auto simp: put_header_def take_header_def wseq_Cons u32.rbind_written [OF refl TrueI] wire_reads
      consensus_field.rbind_written rreturn_apply dest!: u32.rbind_get consensus_field.rbind_get wire_parts split: sum.splits)

lemma take_put_transactions:
  "list_all (tx_ok cr) txs \<Longrightarrow> wseq (map (put_transaction cr) txs) = Inr bs \<Longrightarrow>
     take_transactions cr (length txs) (bs @ rest) = Inr (txs, rest)"
  by (induction txs arbitrary: bs)
    (auto simp: wseq_Cons transaction.rbind_written rreturn_def rbind_def [of "take_transactions _ _"])

lemma put_take_transactions:
  "take_transactions cr n input = Inr (txs, rest) \<Longrightarrow>
     length txs = n \<and> list_all (tx_ok cr) txs \<and> (\<exists>bs. wseq (map (put_transaction cr) txs) = Inr bs \<and> input = bs @ rest)"
proof (induction n arbitrary: input txs)
  case (Suc n)
  then obtain tx bs r txs' where r: "tx_ok cr tx" "put_transaction cr tx = Inr bs" "input = bs @ r"
    "take_transactions cr n r = Inr (txs', rest)" "txs = tx # txs'"
    by (auto simp: rbind_def [of "take_transactions _ _"] dest!: transaction.rbind_get split: sum.splits)
  from Suc.IH [OF r(4)] show ?case using r by (auto simp: wseq_Cons)
qed simp

interpretation block: wire "put_block cr" "take_block cr" "block_ok cr" for cr
proof unfold_locales
  fix b bs rest
  assume ok: "block_ok cr b" and "put_block cr b = Inr bs"
  then obtain h ts where p: "length (blk_transactions b) \<le> 4096" "put_header (blk_header b) = Inr h"
    "wseq (map (put_transaction cr) (blk_transactions b)) = Inr ts"
    "bs = h @ put_u64 (of_nat (length (blk_transactions b))) @ ts"
    by (auto simp: put_block_def wseq_Cons MAX_TXS_PER_BLOCK_def split: if_splits)
  have c: "unat (of_nat (length (blk_transactions b)) :: u64) = length (blk_transactions b)"
    using p(1) by (intro unat_of_length) simp
  show "take_block cr (bs @ rest) = Inr (b, rest)"
    using take_put_transactions [OF _ p(3), of rest] ok p(1) c unfolding p(4)
    by (simp add: take_block_def block_ok_def header.rbind_written [OF p(2)] u64.rbind_put [OF TrueI refl] MAX_TXS_PER_BLOCK_def
        word_less_nat_alt rbind_def [of "take_transactions _ _"] rreturn_def)
next
  fix input b rest
  assume "take_block cr input = Inr (b, rest)"
  then obtain h hs count r txs where r: "put_header h = Inr hs" "input = hs @ put_u64 count @ r" "count \<le> 4096"
    "take_transactions cr (unat count) r = Inr (txs, rest)" "b = \<lparr>blk_header = h, blk_transactions = txs\<rparr>"
    by (auto simp: take_block_def MAX_TXS_PER_BLOCK_def rbind_def [of "take_transactions _ _"] dest!: header.rbind_get u64.rbind_get
        split: if_splits sum.splits)
  from put_take_transactions [OF r(4)] obtain ts where t: "length txs = unat count" "list_all (tx_ok cr) txs"
    "wseq (map (put_transaction cr) txs) = Inr ts" "r = ts @ rest" by blast
  have "put_block cr b = Inr (hs @ put_u64 count @ ts)"
    using t r(1,3,5) by (simp add: put_block_def MAX_TXS_PER_BLOCK_def wseq_Cons word_le_nat_alt)
  then show "block_ok cr b \<and> (\<exists>bs. put_block cr b = Inr bs \<and> input = bs @ rest)"
    using t r(2,5) by (simp add: block_ok_def)
qed

lemma ucast_version: "(ucast (ucast (v :: u32) :: u64) :: u32) = v" "(ucast v :: u64) = 0 \<longleftrightarrow> v = 0"
  "ucast PROTOCOL_VERSION < (ucast v :: u64) \<longleftrightarrow> PROTOCOL_VERSION < v" "unat (ucast v :: u64) = unat v"
proof -
  show u: "unat (ucast v :: u64) = unat v" for v :: u32
  proof -
    have "unat v < 2 ^ LENGTH(32)" by (rule unsigned_less)
    then have "unat v < 2 ^ 64" by simp
    then show ?thesis by (simp add: unsigned_ucast_eq take_bit_nat_eq_self_iff)
  qed
  show "(ucast (ucast v :: u64) :: u32) = v" by (rule ucast_back(1))
  show "(ucast v :: u64) = 0 \<longleftrightarrow> v = 0" using u [of v] by (metis unat_eq_zero)
  show "ucast PROTOCOL_VERSION < (ucast v :: u64) \<longleftrightarrow> PROTOCOL_VERSION < v" by (simp add: word_less_nat_alt u)
qed

lemma ucast_small_u32: "v \<le> 128 \<Longrightarrow> (ucast (ucast (v :: u64) :: u32) :: u64) = v"
  by (rule ucast_small(1)) (simp add: word_le_nat_alt)

lemma unat_small_u32: "v \<le> 128 \<Longrightarrow> unat (ucast (v :: u64) :: u32) \<le> 128"
  using ucast_small_u32 [of v] ucast_version(4) [of "ucast v"] by (simp add: word_le_nat_alt)

lemma u64_one: "(v :: u64) \<noteq> 0 \<Longrightarrow> v \<le> 1 \<Longrightarrow> v = 1"
  by (metis less_one nat_less_le unat_1 unat_eq_zero word_le_nat_alt word_unat_eq_iff)

lemmas msg_types = HELLO_def PING_def PONG_def GET_BLOCK_def GET_BLOCKS_def BLOCK_def TRANSACTION_def
  GET_RECORD_def RECORD_def CHECKPOINT_def GET_CHECKPOINTS_def

interpretation message: wire "put_message cr" "take_message cr" "message_ok cr" for cr
proof unfold_locales
  fix m bs rest
  assume "message_ok cr m" "put_message cr m = Inr bs"
  then show "take_message cr (bs @ rest) = Inr (m, rest)"
    by (cases m) (auto simp: take_message_def wseq_Cons u8.rbind_written [OF refl TrueI, simplified] wire_reads ucast_version
        msg_types rreturn_apply MAX_BLOCKS_PER_REQUEST_def word_less_nat_alt block.rbind_written transaction.rbind_written
        signed_dns_record.rbind_written checkpoint.rbind_written split: if_splits)
next
  fix input m rest
  assume "take_message cr input = Inr (m, rest)"
  then show "message_ok cr m \<and> (\<exists>bs. put_message cr m = Inr bs \<and> input = bs @ rest)"
    by (auto simp: take_message_def wseq_Cons PROTOCOL_VERSION_def MAX_BLOCKS_PER_REQUEST_def ucast_small_u32
        unat_small_u32 not_less
        dest!: u8.rbind_get u64.rbind_get h32.rbind_get block.rbind_get transaction.rbind_get signed_dns_record.rbind_get
          checkpoint.rbind_get u64_one split: if_splits)
qed

section \<open>Properties of the format\<close>

text \<open>C16: Decoding a message accepts a byte string exactly when it is the encoding of the well-formed message
  it returns: encodings are unique, round trip, and leave no other byte string accepted.\<close>

theorem message_decode_exact:
  "decode_complete (take_message cr) bs = Inr m \<longleftrightarrow> message_ok cr m \<and> put_message cr m = Inr bs"
  by (rule message.decode_complete_iff)

lemma put_transaction_iff:
  "put_transaction cr tx = Inr bs \<longleftrightarrow> tx_validate cr tx = Inr ()
     \<and> (\<exists>u. put_unsigned (unsigned_from tx) = Inr u \<and> bs = u @ s64_bytes (tx_signature tx))"
  by (cases tx) (auto simp: wseq_Cons put_register_domain_def put_update_domain_def put_register_tld_def put_transfer_tld_def
      put_revoke_tld_def put_set_tld_open_def put_assign_domain_def put_renew_domain_def put_transfer_domain_def put_slash_def
      put_signature_def)

text \<open>Everything but the signature is in the unsigned view.\<close>

lemma unsigned_from_inject: "unsigned_from tx = unsigned_from tx' \<Longrightarrow> tx_signature tx = tx_signature tx' \<Longrightarrow> tx = tx'"
  by (cases tx; cases tx') (auto intro: register_domain.equality update_domain.equality register_tld.equality transfer_tld.equality
      revoke_tld.equality set_tld_open.equality assign_domain.equality renew_domain.equality transfer_domain.equality slash_tx.equality)

text \<open>C19: The bytes a signer signs determine every field of the transaction but the signature: two
  transactions of any kinds with one signing payload have the same unsigned view, and are equal
  if their signatures are.\<close>

theorem signing_payload_binds:
  assumes "tx_ok cr tx" "tx_ok cr tx'" "signing_payload tx = Inr payload" "signing_payload tx' = Inr payload"
  shows "unsigned_from tx = unsigned_from tx' \<and> (tx_signature tx = tx_signature tx' \<longrightarrow> tx = tx')"
proof -
  obtain u where "put_unsigned (unsigned_from tx) = Inr u" "put_unsigned (unsigned_from tx') = Inr u"
    using assms(3,4) by (auto simp: signing_payload_def wseq_Cons)
  then have "unsigned_from tx = unsigned_from tx'"
    using assms(1,2) unsigned.put_inject unfolding tx_ok_def by blast
  then show ?thesis using unsigned_from_inject by blast
qed

text \<open>An example transaction, with the key of its owner left open to any signature.\<close>

definition ex_revoke :: "signature \<Rightarrow> transaction" where
  "ex_revoke sig = RevokeTld \<lparr>rv_network = NETWORK_TESTNET, rv_tld_id = 5, rv_owner = 6, rv_public_key = 7, rv_signature = sig\<rparr>"

lemma network_testnet_ok: "network_ok NETWORK_TESTNET" "length (network_bytes NETWORK_TESTNET) = 13"
proof -
  have "network_new ''scone-testnet'' = Inr NETWORK_TESTNET" by code_simp
  then show "network_ok NETWORK_TESTNET" "length (network_bytes NETWORK_TESTNET) = 13"
    using network_of_new network_new_bytes [of "''scone-testnet''" NETWORK_TESTNET] by auto
qed

lemma ex_revoke_payload: "\<exists>p. \<forall>sig. signing_payload (ex_revoke sig) = Inr p"
  by (simp add: signing_payload_def ex_revoke_def wseq.simps put_network_def put_bounded_def network_testnet_ok MAX_NETWORK_ID_LEN_def)

theorem signing_payload_binds_witness:
  "unsigned_from (ex_revoke 1) = unsigned_from (ex_revoke 2) \<and> signing_payload (ex_revoke 1) = signing_payload (ex_revoke 2)"
proof -
  obtain p where p: "\<And>sig. signing_payload (ex_revoke sig) = Inr p" using ex_revoke_payload by blast
  have "tx_ok toy_crypto (ex_revoke sig)" for sig by (simp add: tx_ok_def ex_revoke_def network_testnet_ok)
  then show ?thesis using signing_payload_binds [OF _ _ p [of 1] p [of 2]] p by auto
qed

lemma put_u64_length: "0 < k \<Longrightarrow> drop_bit (7 * k) v = 0 \<Longrightarrow> length (put_u64 v) \<le> k"
proof (induction k arbitrary: v)
  case (Suc k)
  show ?case
  proof (cases "drop_bit 7 v = 0")
    case False
    then have "0 < k" using Suc.prems by (cases k) auto
    then have "length (put_u64 (drop_bit 7 v)) \<le> k" using Suc by (simp add: drop_bit_drop_bit add.commute)
    then show ?thesis using put_more [OF False] by simp
  qed (simp add: put_last)
qed simp

text \<open>Varints take at most ten bytes, and a reader accepts exactly the canonical encoding of the value
  it returns, whatever follows it.\<close>

theorem varint_canonical:
  "length (put_u64 v) \<le> MAX_VARINT_LEN \<and> (take_u64 input = Inr (v, rest) \<longleftrightarrow> input = put_u64 v @ rest)"
proof -
  have "drop_bit (7 * 10) v = 0" by (auto simp: drop_bit_0_iff dest: bit_imp_le_length)
  then have "length (put_u64 v) \<le> 10" by (intro put_u64_length) simp_all
  then show ?thesis using put_take_u64 by (auto simp: MAX_VARINT_LEN_def)
qed

end
