(* ===== verification/Scone_Backend.thy ===== *)
theory Scone_Backend
  imports Scone_Names
begin

text \<open>
  The ordered key-value backend of the chain state, \<^verbatim>\<open>crates/scone-blockchain/src/state_backend.rs\<close>:
  the trait \<^verbatim>\<open>StateBackend\<close> as the locale \<open>ordered_kv\<close> (its determinism contract as laws), the
  reference implementation \<^verbatim>\<open>MemoryBackend\<close> over a finite map, and the paged scan a client of the
  trait performs, proved complete and ordered from the contract alone.
\<close>

type_synonym pkey = hash32

record memory_backend =
  mb_entries :: "(pkey, bytes) fmap"

definition backend_new :: memory_backend where
  "backend_new = \<lparr>mb_entries = fmempty\<rparr>"

definition backend_get :: "memory_backend \<Rightarrow> pkey \<Rightarrow> bytes option" where
  "backend_get b key = fmlookup (mb_entries b) key"

definition backend_put :: "pkey \<Rightarrow> bytes \<Rightarrow> memory_backend \<Rightarrow> memory_backend" where
  "backend_put key val b = b\<lparr>mb_entries := fmupd key val (mb_entries b)\<rparr>"

definition backend_delete :: "pkey \<Rightarrow> memory_backend \<Rightarrow> memory_backend" where
  "backend_delete key b = b\<lparr>mb_entries := fmdrop key (mb_entries b)\<rparr>"

text \<open>The ascending iteration of the ordered map, from a bound on.\<close>

definition map_range :: "pkey option \<Rightarrow> (pkey, bytes) fmap \<Rightarrow> (pkey \<times> bytes) list" where
  "map_range from m =
     map (\<lambda>k. (k, the (fmlookup m k)))
       (filter (\<lambda>k. case from of Some f \<Rightarrow> f \<le> k | None \<Rightarrow> True) (sorted_list_of_fset (fmdom m)))"

fun page_loop :: "nat \<Rightarrow> ('k \<times> 'v) list \<Rightarrow> ('k \<times> 'v) list \<Rightarrow> ('k \<times> 'v) list \<times> 'k option" where
  "page_loop limit page [] = (page, None)"
| "page_loop limit page ((k, v) # rest) =
     (if length page = limit then (page, Some k) else page_loop limit (page @ [(k, v)]) rest)"

definition backend_range :: "memory_backend \<Rightarrow> pkey option \<Rightarrow> nat \<Rightarrow> (pkey \<times> bytes) list \<times> pkey option" where
  "backend_range b from limit = page_loop limit [] (take (limit + 1) (map_range from (mb_entries b)))"

definition backend_len :: "memory_backend \<Rightarrow> nat" where
  "backend_len b = fcard (fmdom (mb_entries b))"

definition backend_is_empty :: "memory_backend \<Rightarrow> bool" where
  "backend_is_empty b \<longleftrightarrow> backend_len b = 0"

definition domain_key :: "domain_id \<Rightarrow> pkey" where "domain_key i = i"
definition tld_key :: "tld_id \<Rightarrow> pkey" where "tld_key i = i"

section \<open>The contract\<close>

text \<open>A page: the first \<open>n\<close> entries from the bound on, and the key of the next one.\<close>

definition page_of :: "('k::linorder \<times> 'v) list \<Rightarrow> 'k option \<Rightarrow> nat \<Rightarrow> ('k \<times> 'v) list \<times> 'k option" where
  "page_of es from n =
     (let xs = filter (\<lambda>e. case from of Some f \<Rightarrow> f \<le> fst e | None \<Rightarrow> True) es
      in (take n xs, if n < length xs then Some (fst (xs ! n)) else None))"

text \<open>The client's scan: pages are requested until no cursor comes back.\<close>

partial_function (option) scan :: "('k option \<Rightarrow> ('k \<times> 'v) list \<times> 'k option) \<Rightarrow> 'k option
     \<Rightarrow> ('k \<times> 'v) list \<Rightarrow> ('k \<times> 'v) list option" where
  "scan page cursor acc =
     (let (xs, nxt) = page cursor in
      case nxt of None \<Rightarrow> Some (acc @ xs) | Some c \<Rightarrow> scan page (Some c) (acc @ xs))"

locale ordered_kv =
  fixes get :: "'b \<Rightarrow> 'k::linorder \<Rightarrow> 'v option"
    and put :: "'k \<Rightarrow> 'v \<Rightarrow> 'b \<Rightarrow> 'b"
    and delete :: "'k \<Rightarrow> 'b \<Rightarrow> 'b"
    and range :: "'b \<Rightarrow> 'k option \<Rightarrow> nat \<Rightarrow> ('k \<times> 'v) list \<times> 'k option"
    and len :: "'b \<Rightarrow> nat"
    and entries :: "'b \<Rightarrow> ('k \<times> 'v) list"
  assumes get_put: "get (put k v b) = (get b)(k \<mapsto> v)"
    and get_delete: "get (delete k b) = (get b)(k := None)"
    and entries_sorted: "sorted_wrt (<) (map fst (entries b))"
    and entries_get: "(k, v) \<in> set (entries b) \<longleftrightarrow> get b k = Some v"
    and range_page: "range b from n = page_of (entries b) from n"
    and len_entries: "len b = length (entries b)"
begin

lemma put_put: "get (put k v (put k w b)) = get (put k v b)"
  by (simp add: get_put)

lemma entries_determined: "get a = get b \<Longrightarrow> entries a = entries b"
proof -
  assume eq: "get a = get b"
  have inj: "inj_on fst (set (entries c))" for c
    by (auto simp: inj_on_def entries_get)
  have "set (entries a) = set (entries b)" using eq by (auto simp: entries_get)
  moreover have "map fst (entries a) = map fst (entries b)"
    using calculation strict_sorted_unique [OF entries_sorted entries_sorted, of a b] by simp
  ultimately show ?thesis using inj_on_map_eq_map [of fst "entries a" "entries b"] inj [of a] by simp
qed

text \<open>The scan returns every entry once, in ascending order, whatever the page size.\<close>

lemma scan_from:
  assumes "0 < n"
  shows "xs = filter (\<lambda>e. case c of Some f \<Rightarrow> f \<le> fst e | None \<Rightarrow> True) (entries b) \<Longrightarrow>
    scan (\<lambda>from. range b from n) c acc = Some (acc @ xs)"
proof (induction "length xs" arbitrary: xs c acc rule: less_induct)
  case less
  note xs = less.prems
  have r: "range b c n = (take n xs, if n < length xs then Some (fst (xs ! n)) else None)"
    by (simp add: range_page page_of_def xs Let_def)
  show ?case
  proof (cases "n < length xs")
    case False
    then show ?thesis using r by (subst scan.simps) simp
  next
    case True
    have srt: "sorted_wrt (<) (map fst xs)"
      unfolding xs using sorted_wrt_filter [of "\<lambda>x y. fst x < fst y" "entries b"] entries_sorted
      by (simp add: sorted_wrt_map)
    define P where "P e = (case c of Some f \<Rightarrow> f \<le> fst e | None \<Rightarrow> True)" for e :: "'k \<times> 'v"
    have xsP: "xs = filter P (entries b)" using xs by (simp add: P_def [abs_def])
    define x0 where "x0 = fst (xs ! n)"
    have "P (xs ! n)" using nth_mem [OF True] xsP by (metis (mono_tags, lifting) mem_Collect_eq set_filter)
    then have imp: "x0 \<le> fst e \<Longrightarrow> P e" for e by (auto simp: P_def x0_def split: option.splits)
    have "filter (\<lambda>e. x0 \<le> fst e) (filter P (entries b)) = filter (\<lambda>e. x0 \<le> fst e) (entries b)"
      unfolding filter_filter using imp by (intro filter_cong) auto
    then have "filter (\<lambda>e. fst (xs ! n) \<le> fst e) (entries b) = filter (\<lambda>e. fst (xs ! n) \<le> fst e) xs"
      unfolding xsP [symmetric] x0_def by simp
    moreover have "filter (\<lambda>e. fst (xs ! n) \<le> fst e) xs = drop n xs"
      using srt True
    proof -
      have "filter (\<lambda>e. fst (xs ! n) \<le> fst e) (take n xs @ drop n xs) = drop n xs"
      proof -
        have "filter (\<lambda>e. fst (xs ! n) \<le> fst e) (take n xs) = []"
          using srt True by (auto simp: filter_empty_conv in_set_conv_nth sorted_wrt_iff_nth_less not_le)
            (metis fst_conv)
        moreover have "filter (\<lambda>e. fst (xs ! n) \<le> fst e) (drop n xs) = drop n xs"
        proof (rule filter_True, intro ballI)
          fix e assume "e \<in> set (drop n xs)"
          then obtain i where "e = xs ! (n + i)" "n + i < length xs" by (auto simp: in_set_conv_nth)
          then show "fst (xs ! n) \<le> fst e"
            using srt by (cases i) (auto simp: sorted_wrt_iff_nth_less intro!: less_imp_le)
        qed
        ultimately show ?thesis unfolding filter_append by (simp only: append_Nil)
      qed
      then show ?thesis by simp
    qed
    ultimately have e: "drop n xs =
        filter (\<lambda>e. case Some (fst (xs ! n)) of Some f \<Rightarrow> f \<le> fst e | None \<Rightarrow> True) (entries b)"
      unfolding option.case by (rule sym [OF trans])
    have "length (drop n xs) < length xs" using True assms by simp
    from less.hyps [OF this e] have "scan (\<lambda>from. range b from n) (Some (fst (xs ! n))) (acc @ take n xs)
        = Some ((acc @ take n xs) @ drop n xs)" .
    then show ?thesis using r True by (subst scan.simps) simp
  qed
qed

lemma scan_all: "0 < n \<Longrightarrow> scan (\<lambda>from. range b from n) None [] = Some (entries b)"
  using scan_from [of n "entries b" None b "[]"] by simp

end

section \<open>The reference backend meets the contract\<close>

definition backend_entries :: "memory_backend \<Rightarrow> (pkey \<times> bytes) list" where
  "backend_entries b = map_range None (mb_entries b)"

lemma page_loop_take:
  "length page \<le> n \<Longrightarrow> page_loop n page xs = (page @ take (n - length page) xs,
     if n - length page < length xs then Some (fst (xs ! (n - length page))) else None)"
proof (induction n page xs rule: page_loop.induct)
  case (2 limit page k v rest)
  show ?case
  proof (cases "length page = limit")
    case False
    then obtain d where d: "limit - length page = Suc d" "limit - Suc (length page) = d"
      using 2 by (metis Suc_diff_Suc le_neq_implies_less)
    then show ?thesis using 2 False by simp
  qed simp
qed simp

lemma page_loop_page: "page_loop n [] (take (n + 1) xs) = (take n xs, if n < length xs then Some (fst (xs ! n)) else None)"
  by (simp add: page_loop_take min_def)

lemma map_fst_map_range: "map fst (map_range None m) = sorted_list_of_fset (fmdom m)"
  by (simp add: map_range_def comp_def)

lemma map_range_filter:
  "map_range from m = filter (\<lambda>e. case from of Some f \<Rightarrow> f \<le> fst e | None \<Rightarrow> True) (map_range None m)"
  unfolding map_range_def filter_map comp_def by (simp cong: option.case_cong)

lemma sorted_list_of_fset_strict: "sorted_wrt (<) (sorted_list_of_fset S)"
  by (simp add: sorted_list_of_fset.rep_eq strict_sorted_iff)

interpretation mem: ordered_kv backend_get backend_put backend_delete backend_range backend_len backend_entries
proof unfold_locales
  fix b k v and "from" :: "pkey option" and n
  show "backend_get (backend_put k v b) = (backend_get b)(k \<mapsto> v)"
    by (auto simp: backend_get_def backend_put_def)
  show "backend_get (backend_delete k b) = (backend_get b)(k := None)"
    by (auto simp: backend_get_def backend_delete_def)
  show "sorted_wrt (<) (map fst (backend_entries b))"
    unfolding backend_entries_def map_fst_map_range by (rule sorted_list_of_fset_strict)
  show "(k, v) \<in> set (backend_entries b) \<longleftrightarrow> backend_get b k = Some v"
    by (auto simp: backend_entries_def map_range_def backend_get_def fmlookup_dom_iff)
  show "backend_range b from n = page_of (backend_entries b) from n"
    unfolding backend_range_def page_loop_page page_of_def backend_entries_def
      map_range_filter [of "from"] Let_def ..
  show "backend_len b = length (backend_entries b)"
    by (simp add: backend_len_def backend_entries_def map_range_def fcard.rep_eq sorted_list_of_fset.rep_eq)
qed

end
