(* ===== verification/Scone_State.thy ===== *)
theory Scone_State
  imports Scone_Errors Scone_Backend Scone_Smt_Spec Scone_Tx Scone_Icann
begin

text \<open>
  The chain state of \<^verbatim>\<open>crates/scone-blockchain/src/state.rs\<close> (with the leaf encodings, the
  eligibility pool and the state roots of \<^verbatim>\<open>finality.rs\<close>): entry encodings, the bounded indexes,
  the application of every transaction kind with its undo journal, garbage collection and
  rollback.

  Conventions. A panic is \<open>None\<close>. An operation that fails with an error has already mutated what
  the code mutates before the failing rule, so \<open>apply_journaled_at\<close> returns the state and the
  journal next to the result. Counters (\<^verbatim>\<open>usize\<close>, and the \<^verbatim>\<open>u64\<close> reference counts, which are
  bounded by the number of entries) are natural numbers; decrementing zero is a panic. The
  unguarded addition \<^verbatim>\<open>now + DOMAIN_TERM_SECS\<close> panics on overflow (as with overflow checks).
\<close>

definition DOMAIN_TERM_SECS :: u64 where "DOMAIN_TERM_SECS = 31536000"
definition DOMAIN_GRACE_SECS :: u64 where "DOMAIN_GRACE_SECS = 2592000"
definition DOMAIN_MAX_HORIZON_SECS :: u64 where "DOMAIN_MAX_HORIZON_SECS = 94608000"

definition checked_add :: "u64 \<Rightarrow> u64 \<Rightarrow> u64 option" where
  "checked_add a b = (if unat a + unat b < 2 ^ 64 then Some (a + b) else None)"

definition saturating_add :: "u64 \<Rightarrow> u64 \<Rightarrow> u64" where
  "saturating_add a b = (if unat a + unat b < 2 ^ 64 then a + b else - 1)"

definition dec :: "nat \<Rightarrow> nat option" where
  "dec n = (if n = 0 then None else Some (n - 1))"

section \<open>Entries\<close>

record domain_state =
  ds_owner :: owner_id
  ds_sequence :: u64
  ds_record_hash :: "hash32 option"
  ds_registered_at :: u64
  ds_valid_until :: u64

record tld_state =
  ts_owner :: owner_id
  ts_open :: bool

definition DOMAIN_ENTRY_LEN :: nat where "DOMAIN_ENTRY_LEN = 32 + 8 + 32 + 8 + 8"
definition TLD_ENTRY_LEN :: nat where "TLD_ENTRY_LEN = 32 + 1"

definition encode_domain_entry :: "domain_state \<Rightarrow> bytes" where
  "encode_domain_entry st = h32_bytes (ds_owner st) @ u64_le (ds_sequence st)
     @ (case ds_record_hash st of Some rh \<Rightarrow> h32_bytes rh | None \<Rightarrow> replicate 32 0)
     @ u64_le (ds_registered_at st) @ u64_le (ds_valid_until st)"

definition decode_domain_entry :: "bytes \<Rightarrow> domain_state option" where
  "decode_domain_entry bs =
     (if length bs \<noteq> DOMAIN_ENTRY_LEN then None
      else let rh = take 32 (drop 40 bs) in
        Some \<lparr>ds_owner = h32_of_bytes (take 32 bs),
              ds_sequence = from_le_bytes (take 8 (drop 32 bs)),
              ds_record_hash = (if list_all (\<lambda>b. b = 0) rh then None else Some (h32_of_bytes rh)),
              ds_registered_at = from_le_bytes (take 8 (drop 72 bs)),
              ds_valid_until = from_le_bytes (take 8 (drop 80 bs))\<rparr>)"

definition encode_tld_entry :: "tld_state \<Rightarrow> bytes" where
  "encode_tld_entry st = h32_bytes (ts_owner st) @ [of_bool (ts_open st)]"

definition decode_tld_entry :: "bytes \<Rightarrow> tld_state option" where
  "decode_tld_entry bs =
     (if length bs \<noteq> TLD_ENTRY_LEN then None
      else Some \<lparr>ts_owner = h32_of_bytes (take 32 bs), ts_open = (bs ! 32 \<noteq> 0)\<rparr>)"

definition claimed_by :: "owner_id \<Rightarrow> tld_state" where
  "claimed_by own = \<lparr>ts_owner = own, ts_open = False\<rparr>"

section \<open>Leaf encodings\<close>

definition domain_leaf_v2 :: "crypto \<Rightarrow> domain_id \<Rightarrow> domain_state \<Rightarrow> hash32" where
  "domain_leaf_v2 cr i st = hash256 cr [str_bytes ''SCONE-LEAF-DOM-V2'' @ h32_bytes i
     @ h32_bytes (ds_owner st) @ u64_be (ds_sequence st) @ u64_be (ds_registered_at st)
     @ u64_be (ds_valid_until st)
     @ (case ds_record_hash st of Some rh \<Rightarrow> h32_bytes rh | None \<Rightarrow> replicate 32 0)]"

definition tld_leaf_v2 :: "crypto \<Rightarrow> tld_id \<Rightarrow> tld_state \<Rightarrow> hash32" where
  "tld_leaf_v2 cr i st = hash256 cr [str_bytes ''SCONE-LEAF-TLD-V2'' @ h32_bytes i
     @ h32_bytes (ts_owner st) @ [of_bool (ts_open st)]]"

section \<open>The state\<close>

record chain_state =
  cs_network :: network_params
  cs_backend :: memory_backend
  domain_count :: nat
  tld_count :: nat
  owner_keys :: "(owner_id, public_key) fmap"
  owner_refcounts :: "(owner_id, nat) fmap"
  expirations :: "(u64, domain_id fset) fmap"
  grace :: "(domain_id, u64 \<times> owner_id) fmap"
  cs_smt :: smt
  banned :: "public_key fset"

datatype undo_entry =
    UndoRegisterDomain domain_id "(u64 \<times> owner_id) option"
  | UndoUpdateDomain domain_id domain_state
  | UndoRegisterTld tld_id
  | UndoMutateTld tld_id tld_state
  | UndoRevokeTld tld_id tld_state
  | UndoRenewDomain domain_id domain_state
  | UndoTransferDomain domain_id domain_state
  | UndoExpireDomain domain_id domain_state
  | UndoLearnOwnerKey owner_id
  | UndoBanAnchor public_key

type_synonym undo_log = "undo_entry list"

definition for_network :: "network_params \<Rightarrow> chain_state" where
  "for_network network = \<lparr>cs_network = network, cs_backend = backend_new, domain_count = 0,
     tld_count = 0, owner_keys = fmempty, owner_refcounts = fmempty, expirations = fmempty,
     grace = fmempty, cs_smt = smt_new, banned = {||}\<rparr>"

definition chain_state_new :: chain_state where "chain_state_new = for_network TESTNET"

definition state_len :: "chain_state \<Rightarrow> nat" where "state_len s = domain_count s"
definition state_is_empty :: "chain_state \<Rightarrow> bool" where "state_is_empty s \<longleftrightarrow> domain_count s = 0"
definition tld_len :: "chain_state \<Rightarrow> nat" where "tld_len s = tld_count s"
definition tld_is_empty :: "chain_state \<Rightarrow> bool" where "tld_is_empty s \<longleftrightarrow> tld_count s = 0"

definition state_domain :: "chain_state \<Rightarrow> domain_id \<Rightarrow> domain_state option" where
  "state_domain s i = Option.bind (backend_get (cs_backend s) (domain_key i)) decode_domain_entry"

definition state_tld :: "chain_state \<Rightarrow> tld_id \<Rightarrow> tld_state option" where
  "state_tld s i = Option.bind (backend_get (cs_backend s) (tld_key i)) decode_tld_entry"

definition is_banned :: "chain_state \<Rightarrow> public_key \<Rightarrow> bool" where
  "is_banned s pk \<longleftrightarrow> pk |\<in>| banned s"

section \<open>Entry, index and tree updates\<close>

definition put_domain_entry :: "domain_id \<Rightarrow> domain_state \<Rightarrow> chain_state \<Rightarrow> chain_state" where
  "put_domain_entry i st s =
     s\<lparr>cs_backend := backend_put (domain_key i) (encode_domain_entry st) (cs_backend s)\<rparr>"

definition remove_domain_entry :: "domain_id \<Rightarrow> chain_state \<Rightarrow> chain_state" where
  "remove_domain_entry i s = s\<lparr>cs_backend := backend_delete (domain_key i) (cs_backend s)\<rparr>"

definition put_tld_entry :: "tld_id \<Rightarrow> tld_state \<Rightarrow> chain_state \<Rightarrow> chain_state" where
  "put_tld_entry i st s =
     s\<lparr>cs_backend := backend_put (tld_key i) (encode_tld_entry st) (cs_backend s)\<rparr>"

definition remove_tld_entry :: "tld_id \<Rightarrow> chain_state \<Rightarrow> chain_state" where
  "remove_tld_entry i s = s\<lparr>cs_backend := backend_delete (tld_key i) (cs_backend s)\<rparr>"

definition refs_acquire :: "owner_id \<Rightarrow> (owner_id, nat) fmap \<Rightarrow> (owner_id, nat) fmap" where
  "refs_acquire own m = fmupd own (case fmlookup m own of None \<Rightarrow> 1 | Some n \<Rightarrow> n + 1) m"

definition refs_release :: "owner_id \<Rightarrow> (owner_id, nat) fmap \<Rightarrow> (owner_id, nat) fmap" where
  "refs_release own m =
     (case fmlookup m own of
        None \<Rightarrow> m
      | Some n \<Rightarrow> let left = n - 1 in if left = 0 then fmdrop own m else fmupd own left m)"

definition owner_acquire :: "owner_id \<Rightarrow> chain_state \<Rightarrow> chain_state" where
  "owner_acquire own s = s\<lparr>owner_refcounts := refs_acquire own (owner_refcounts s)\<rparr>"

definition owner_release :: "owner_id \<Rightarrow> chain_state \<Rightarrow> chain_state" where
  "owner_release own s = s\<lparr>owner_refcounts := refs_release own (owner_refcounts s)\<rparr>"

definition exp_enqueue :: "u64 \<Rightarrow> domain_id \<Rightarrow> (u64, domain_id fset) fmap \<Rightarrow> (u64, domain_id fset) fmap" where
  "exp_enqueue until i m =
     fmupd until (finsert i (case fmlookup m until of None \<Rightarrow> {||} | Some d \<Rightarrow> d)) m"

definition exp_dequeue :: "u64 \<Rightarrow> domain_id \<Rightarrow> (u64, domain_id fset) fmap \<Rightarrow> (u64, domain_id fset) fmap" where
  "exp_dequeue until i m =
     (case fmlookup m until of
        None \<Rightarrow> m
      | Some d \<Rightarrow> let d' = d |-| {|i|} in if d' = {||} then fmdrop until m else fmupd until d' m)"

definition expiration_enqueue :: "u64 \<Rightarrow> domain_id \<Rightarrow> chain_state \<Rightarrow> chain_state" where
  "expiration_enqueue until i s = s\<lparr>expirations := exp_enqueue until i (expirations s)\<rparr>"

definition expiration_dequeue :: "u64 \<Rightarrow> domain_id \<Rightarrow> chain_state \<Rightarrow> chain_state" where
  "expiration_dequeue until i s = s\<lparr>expirations := exp_dequeue until i (expirations s)\<rparr>"

definition with_smt :: "(smt \<Rightarrow> smt option) \<Rightarrow> chain_state \<Rightarrow> chain_state option" where
  "with_smt f s = map_option (\<lambda>t. s\<lparr>cs_smt := t\<rparr>) (f (cs_smt s))"

definition smt_put_domain :: "crypto \<Rightarrow> domain_id \<Rightarrow> domain_state option \<Rightarrow> domain_state
     \<Rightarrow> chain_state \<Rightarrow> chain_state option" where
  "smt_put_domain cr i old new = with_smt (\<lambda>t.
     let key = smt_key i in
     do { t1 \<leftarrow> (case old of Some prior \<Rightarrow> smt_remove cr t key (domain_leaf_v2 cr i prior) | None \<Rightarrow> Some t);
          smt_insert cr t1 key (domain_leaf_v2 cr i new) })"

definition smt_remove_domain :: "crypto \<Rightarrow> domain_id \<Rightarrow> domain_state \<Rightarrow> chain_state \<Rightarrow> chain_state option" where
  "smt_remove_domain cr i st = with_smt (\<lambda>t. smt_remove cr t (smt_key i) (domain_leaf_v2 cr i st))"

definition smt_put_tld :: "crypto \<Rightarrow> tld_id \<Rightarrow> tld_state \<Rightarrow> tld_state \<Rightarrow> chain_state \<Rightarrow> chain_state option" where
  "smt_put_tld cr i old new = with_smt (\<lambda>t.
     let key = smt_key i in
     do { t1 \<leftarrow> smt_remove cr t key (tld_leaf_v2 cr i old);
          smt_insert cr t1 key (tld_leaf_v2 cr i new) })"

definition smt_insert_tld :: "crypto \<Rightarrow> tld_id \<Rightarrow> tld_state \<Rightarrow> chain_state \<Rightarrow> chain_state option" where
  "smt_insert_tld cr i st = with_smt (\<lambda>t. smt_insert cr t (smt_key i) (tld_leaf_v2 cr i st))"

definition smt_remove_tld :: "crypto \<Rightarrow> tld_id \<Rightarrow> tld_state \<Rightarrow> chain_state \<Rightarrow> chain_state option" where
  "smt_remove_tld cr i st = with_smt (\<lambda>t. smt_remove cr t (smt_key i) (tld_leaf_v2 cr i st))"

definition state_root_smt :: "crypto \<Rightarrow> chain_state \<Rightarrow> hash32" where
  "state_root_smt cr s = hash256 cr [str_bytes ''SCONE-STATE-SMT-V1'' @ h32_bytes (smt_root cr (cs_smt s))]"

definition inc_domains :: "chain_state \<Rightarrow> chain_state" where
  "inc_domains s = s\<lparr>domain_count := domain_count s + 1\<rparr>"

definition dec_domains :: "chain_state \<Rightarrow> chain_state option" where
  "dec_domains s = map_option (\<lambda>n. s\<lparr>domain_count := n\<rparr>) (dec (domain_count s))"

definition inc_tlds :: "chain_state \<Rightarrow> chain_state" where
  "inc_tlds s = s\<lparr>tld_count := tld_count s + 1\<rparr>"

definition dec_tlds :: "chain_state \<Rightarrow> chain_state option" where
  "dec_tlds s = map_option (\<lambda>n. s\<lparr>tld_count := n\<rparr>) (dec (tld_count s))"

section \<open>Restoring persisted entries\<close>

definition restore_domain :: "crypto \<Rightarrow> domain_id \<Rightarrow> domain_state \<Rightarrow> chain_state
     \<Rightarrow> (bc_error + chain_state) option" where
  "restore_domain cr i st s =
     (if state_domain s i \<noteq> None then Some (Inl DomainAlreadyRegistered)
      else do { s1 \<leftarrow> smt_put_domain cr i None st s;
                let s2 = put_domain_entry i st s1;
                let s3 = inc_domains s2;
                let s4 = expiration_enqueue (ds_valid_until st) i s3;
                Some (Inr (owner_acquire (ds_owner st) s4)) })"

definition restore_tld :: "crypto \<Rightarrow> tld_id \<Rightarrow> tld_state \<Rightarrow> chain_state
     \<Rightarrow> (bc_error + chain_state) option" where
  "restore_tld cr i st s =
     (if state_tld s i \<noteq> None then Some (Inl TldAlreadyRegistered)
      else do { s1 \<leftarrow> smt_insert_tld cr i st s;
                let s2 = put_tld_entry i st s1;
                let s3 = inc_tlds s2;
                Some (Inr (owner_acquire (ts_owner st) s3)) })"

section \<open>The eligibility pool\<close>

text \<open>The pool is sorted before it is used, so the iteration order of the map is irrelevant.\<close>

definition eligible_validators :: "chain_state \<Rightarrow> u64 \<Rightarrow> public_key list" where
  "eligible_validators s now =
     sort (filter (\<lambda>pk. pk |\<notin>| banned s)
       (List.map_filter (fmlookup (owner_keys s)) (sorted_list_of_fset (fmdom (owner_refcounts s)))))"

section \<open>Applying transactions\<close>

type_synonym applied = "(chain_state \<times> undo_log \<times> (bc_error + unit)) option"

definition fail :: "bc_error \<Rightarrow> chain_state \<Rightarrow> undo_log \<Rightarrow> applied" where
  "fail e s j = Some (s, j, Inl e)"

definition done_with :: "chain_state \<Rightarrow> undo_log \<Rightarrow> applied" where
  "done_with s j = Some (s, j, Inr ())"

text \<open>\<^verbatim>\<open>if let Entry::Vacant(v) = self.owner_keys.entry(owner)\<close>: the first key wins.\<close>

definition learn_owner_key :: "owner_id \<Rightarrow> public_key \<Rightarrow> chain_state \<times> undo_log \<Rightarrow> chain_state \<times> undo_log" where
  "learn_owner_key own pk = (\<lambda>(s, j).
     if fmlookup (owner_keys s) own = None
     then (s\<lparr>owner_keys := fmupd own pk (owner_keys s)\<rparr>, j @ [UndoLearnOwnerKey own])
     else (s, j))"

definition ensure_domain_free :: "chain_state \<Rightarrow> domain_id \<Rightarrow> u64 \<Rightarrow> owner_id \<Rightarrow> bc_error + unit" where
  "ensure_domain_free s i now claimant =
     (if state_domain s i \<noteq> None then Inl DomainAlreadyRegistered
      else case fmlookup (grace s) i of
        Some (expired_at, lapsed_owner) \<Rightarrow>
          if now < saturating_add expired_at DOMAIN_GRACE_SECS \<and> claimant \<noteq> lapsed_owner
          then Inl DomainAlreadyRegistered else Inr ()
      | None \<Rightarrow> Inr ())"

text \<open>The common tail of the two registering transactions.\<close>

definition register_entry :: "crypto \<Rightarrow> domain_id \<Rightarrow> domain_state \<Rightarrow> chain_state \<Rightarrow> undo_log \<Rightarrow> applied" where
  "register_entry cr i st s j =
     (let consumed = fmlookup (grace s) i; s0 = s\<lparr>grace := fmdrop i (grace s)\<rparr> in
      do { s1 \<leftarrow> smt_put_domain cr i None st s0;
           let s2 = put_domain_entry i st s1;
           let s3 = inc_domains s2;
           let s4 = expiration_enqueue (ds_valid_until st) i s3;
           let s5 = owner_acquire (ds_owner st) s4;
           done_with s5 (j @ [UndoRegisterDomain i consumed]) })"

definition apply_register_domain :: "crypto \<Rightarrow> register_domain \<Rightarrow> u64 \<Rightarrow> chain_state \<Rightarrow> undo_log \<Rightarrow> applied" where
  "apply_register_domain cr tx now s j =
     do { t \<leftarrow> domain_tld (rd_name tx);
          case state_tld s (tld_id_from_tld cr t) of
            None \<Rightarrow> fail UnknownTld s j
          | Some tld \<Rightarrow>
              if \<not> ts_open tld then fail TldClosed s j
              else case ensure_domain_free s (rd_domain_id tx) now (rd_owner tx) of
                Inl e \<Rightarrow> fail e s j
              | Inr _ \<Rightarrow>
                  let challenge = DOMAIN_ID_VERSION @ str_bytes (rd_name tx) in
                  case verify_pow cr (np_network_id (cs_network s)) challenge (rd_proof tx)
                         (domain_pow_difficulty (cs_network s)) of
                    Inl e \<Rightarrow> fail (Core e) s j
                  | Inr _ \<Rightarrow>
                      do { valid_until \<leftarrow> checked_add now DOMAIN_TERM_SECS;
                           let (s1, j1) = learn_owner_key (rd_owner tx) (rd_public_key tx) (s, j);
                           register_entry cr (rd_domain_id tx)
                             \<lparr>ds_owner = rd_owner tx, ds_sequence = 0, ds_record_hash = None,
                              ds_registered_at = now, ds_valid_until = valid_until\<rparr> s1 j1 } }"

definition apply_update_domain :: "crypto \<Rightarrow> update_domain \<Rightarrow> chain_state \<Rightarrow> undo_log \<Rightarrow> applied" where
  "apply_update_domain cr tx s j =
     (case state_domain s (ud_domain_id tx) of
        None \<Rightarrow> fail UnknownDomain s j
      | Some state \<Rightarrow>
          if ds_owner state \<noteq> ud_owner tx then fail NotOwner s j
          else let (s1, j1) = learn_owner_key (ud_owner tx) (ud_public_key tx) (s, j) in
            case checked_add (ds_sequence state) 1 of
              None \<Rightarrow> fail (BcInvalidSequence (- 1) (ud_sequence tx)) s1 j1
            | Some expected \<Rightarrow>
                if ud_sequence tx \<noteq> expected then fail (BcInvalidSequence expected (ud_sequence tx)) s1 j1
                else
                  let i = ud_domain_id tx;
                      nxt = state\<lparr>ds_sequence := expected, ds_record_hash := Some (ud_record_hash tx)\<rparr>;
                      j2 = j1 @ [UndoUpdateDomain i state]
                  in do { s2 \<leftarrow> smt_put_domain cr i (Some state) nxt s1;
                          done_with (put_domain_entry i nxt s2) j2 })"

definition apply_register_tld :: "crypto \<Rightarrow> register_tld \<Rightarrow> chain_state \<Rightarrow> undo_log \<Rightarrow> applied" where
  "apply_register_tld cr tx s j =
     (if state_tld s (rt_tld_id tx) \<noteq> None then fail TldAlreadyRegistered s j
      else if is_icann_tld (rt_name tx) then fail (IcannTldReserved (rt_name tx)) s j
      else
        let challenge = TLD_ID_VERSION @ str_bytes (rt_name tx) in
        case verify_pow cr (np_network_id (cs_network s)) challenge (rt_proof tx)
               (tld_pow_difficulty (cs_network s)) of
          Inl e \<Rightarrow> fail (Core e) s j
        | Inr _ \<Rightarrow>
            let (s1, j1) = learn_owner_key (rt_owner tx) (rt_public_key tx) (s, j);
                new_tld = \<lparr>ts_owner = rt_owner tx, ts_open = False\<rparr>
            in do { s2 \<leftarrow> smt_insert_tld cr (rt_tld_id tx) new_tld s1;
                    let s3 = put_tld_entry (rt_tld_id tx) new_tld s2;
                    let s4 = inc_tlds s3;
                    let s5 = owner_acquire (ts_owner new_tld) s4;
                    done_with s5 (j1 @ [UndoRegisterTld (rt_tld_id tx)]) })"

definition apply_transfer_tld :: "crypto \<Rightarrow> transfer_tld \<Rightarrow> chain_state \<Rightarrow> undo_log \<Rightarrow> applied" where
  "apply_transfer_tld cr tx s j =
     (case state_tld s (tt_tld_id tx) of
        None \<Rightarrow> fail UnknownTld s j
      | Some prior \<Rightarrow>
          if ts_owner prior \<noteq> tt_owner tx then fail NotTldOwner s j
          else
            let tld = tt_tld_id tx; nxt = prior\<lparr>ts_owner := tt_new_owner tx\<rparr>;
                j1 = j @ [UndoMutateTld tld prior]
            in do { s1 \<leftarrow> smt_put_tld cr tld prior nxt s;
                    let s2 = put_tld_entry tld nxt s1;
                    let s3 = owner_release (ts_owner prior) s2;
                    done_with (owner_acquire (ts_owner nxt) s3) j1 })"

definition apply_revoke_tld :: "crypto \<Rightarrow> revoke_tld \<Rightarrow> chain_state \<Rightarrow> undo_log \<Rightarrow> applied" where
  "apply_revoke_tld cr tx s j =
     (case state_tld s (rv_tld_id tx) of
        None \<Rightarrow> fail UnknownTld s j
      | Some prior \<Rightarrow>
          if ts_owner prior \<noteq> rv_owner tx then fail NotTldOwner s j
          else do { s1 \<leftarrow> smt_remove_tld cr (rv_tld_id tx) prior s;
                    let s2 = remove_tld_entry (rv_tld_id tx) s1;
                    s3 \<leftarrow> dec_tlds s2;
                    done_with (owner_release (ts_owner prior) s3) (j @ [UndoRevokeTld (rv_tld_id tx) prior]) })"

definition apply_set_tld_open :: "crypto \<Rightarrow> set_tld_open \<Rightarrow> chain_state \<Rightarrow> undo_log \<Rightarrow> applied" where
  "apply_set_tld_open cr tx s j =
     (case state_tld s (so_tld_id tx) of
        None \<Rightarrow> fail UnknownTld s j
      | Some prior \<Rightarrow>
          if ts_owner prior \<noteq> so_owner tx then fail NotTldOwner s j
          else
            let tld = so_tld_id tx; nxt = prior\<lparr>ts_open := so_open tx\<rparr>;
                j1 = j @ [UndoMutateTld tld prior]
            in do { s1 \<leftarrow> smt_put_tld cr tld prior nxt s;
                    done_with (put_tld_entry tld nxt s1) j1 })"

definition apply_assign_domain :: "crypto \<Rightarrow> assign_domain \<Rightarrow> u64 \<Rightarrow> chain_state \<Rightarrow> undo_log \<Rightarrow> applied" where
  "apply_assign_domain cr tx now s j =
     do { t \<leftarrow> domain_tld (ad_name tx);
          case state_tld s (tld_id_from_tld cr t) of
            None \<Rightarrow> fail UnknownTld s j
          | Some tld \<Rightarrow>
              if ts_owner tld \<noteq> ad_owner tx then fail NotTldOwner s j
              else case ensure_domain_free s (ad_domain_id tx) now (ad_assignee tx) of
                Inl e \<Rightarrow> fail e s j
              | Inr _ \<Rightarrow>
                  do { valid_until \<leftarrow> checked_add now DOMAIN_TERM_SECS;
                       register_entry cr (ad_domain_id tx)
                         \<lparr>ds_owner = ad_assignee tx, ds_sequence = 0, ds_record_hash = None,
                          ds_registered_at = now, ds_valid_until = valid_until\<rparr> s j } }"

definition apply_renew_domain :: "crypto \<Rightarrow> renew_domain \<Rightarrow> u64 \<Rightarrow> chain_state \<Rightarrow> undo_log \<Rightarrow> applied" where
  "apply_renew_domain cr tx now s j =
     (case state_domain s (rn_domain_id tx) of
        None \<Rightarrow> fail UnknownDomain s j
      | Some prior \<Rightarrow>
          if ds_owner prior \<noteq> rn_owner tx then fail NotOwner s j
          else if rn_valid_until tx \<le> ds_valid_until prior
            then fail (RenewalNotExtending (ds_valid_until prior) (rn_valid_until tx)) s j
          else
            let mx = saturating_add now DOMAIN_MAX_HORIZON_SECS in
            if mx < rn_valid_until tx then fail (RenewalExceedsTerm mx (rn_valid_until tx)) s j
            else
              let i = rn_domain_id tx; nxt = prior\<lparr>ds_valid_until := rn_valid_until tx\<rparr>;
                  s1 = expiration_dequeue (ds_valid_until prior) i s;
                  s2 = expiration_enqueue (ds_valid_until nxt) i s1;
                  j1 = j @ [UndoRenewDomain i prior]
              in do { s3 \<leftarrow> smt_put_domain cr i (Some prior) nxt s2;
                      done_with (put_domain_entry i nxt s3) j1 })"

definition apply_transfer_domain :: "crypto \<Rightarrow> transfer_domain \<Rightarrow> chain_state \<Rightarrow> undo_log \<Rightarrow> applied" where
  "apply_transfer_domain cr tx s j =
     (case state_domain s (td_domain_id tx) of
        None \<Rightarrow> fail UnknownDomain s j
      | Some prior \<Rightarrow>
          if ds_owner prior \<noteq> td_owner tx then fail NotOwner s j
          else
            let i = td_domain_id tx; nxt = prior\<lparr>ds_owner := td_new_owner tx\<rparr>;
                j1 = j @ [UndoTransferDomain i prior]
            in do { s1 \<leftarrow> smt_put_domain cr i (Some prior) nxt s;
                    let s2 = put_domain_entry i nxt s1;
                    let s3 = owner_release (ds_owner prior) s2;
                    done_with (owner_acquire (ds_owner nxt) s3) j1 })"

definition apply_slash :: "slash_tx \<Rightarrow> u64 \<Rightarrow> chain_state \<Rightarrow> undo_log \<Rightarrow> applied" where
  "apply_slash tx now s j =
     (if sl_offender tx \<notin> set (eligible_validators s now) then fail SlashOffenderNotInPool s j
      else if sl_offender tx |\<in>| banned s then done_with s j
      else done_with (s\<lparr>banned := finsert (sl_offender tx) (banned s)\<rparr>)
             (j @ [UndoBanAnchor (sl_offender tx)]))"

fun apply_kind :: "crypto \<Rightarrow> transaction \<Rightarrow> u64 \<Rightarrow> chain_state \<Rightarrow> undo_log \<Rightarrow> applied" where
  "apply_kind cr (RegisterDomain tx) now s j = apply_register_domain cr tx now s j"
| "apply_kind cr (UpdateDomain tx) now s j = apply_update_domain cr tx s j"
| "apply_kind cr (RegisterTld tx) now s j = apply_register_tld cr tx s j"
| "apply_kind cr (TransferTld tx) now s j = apply_transfer_tld cr tx s j"
| "apply_kind cr (RevokeTld tx) now s j = apply_revoke_tld cr tx s j"
| "apply_kind cr (SetTldOpen tx) now s j = apply_set_tld_open cr tx s j"
| "apply_kind cr (AssignDomain tx) now s j = apply_assign_domain cr tx now s j"
| "apply_kind cr (RenewDomain tx) now s j = apply_renew_domain cr tx now s j"
| "apply_kind cr (TransferDomain tx) now s j = apply_transfer_domain cr tx s j"
| "apply_kind cr (Slash tx) now s j = apply_slash tx now s j"

definition apply_journaled_at :: "crypto \<Rightarrow> transaction \<Rightarrow> u64 \<Rightarrow> chain_state \<Rightarrow> undo_log \<Rightarrow> applied" where
  "apply_journaled_at cr tx now s j =
     (case tx_validate cr tx of
        Inl e \<Rightarrow> fail (Core e) s j
      | Inr _ \<Rightarrow>
          if tx_network tx \<noteq> np_network_id (cs_network s)
          then fail (WrongNetwork (tx_network tx) (np_network_id (cs_network s))) s j
          else apply_kind cr tx now s j)"

section \<open>Garbage collection\<close>

fun gc_ids :: "crypto \<Rightarrow> u64 \<Rightarrow> domain_id list \<Rightarrow> chain_state \<times> undo_log \<times> domain_id list
     \<Rightarrow> (chain_state \<times> undo_log \<times> domain_id list) option" where
  "gc_ids cr now [] acc = Some acc"
| "gc_ids cr now (i # rest) (s, j, expired) =
     (case state_domain s i of
        None \<Rightarrow> gc_ids cr now rest (s, j, expired)
      | Some prior \<Rightarrow>
          if now < ds_valid_until prior
          then gc_ids cr now rest (expiration_enqueue (ds_valid_until prior) i s, j, expired)
          else do { let s1 = remove_domain_entry i s;
                    s2 \<leftarrow> smt_remove_domain cr i prior s1;
                    s3 \<leftarrow> dec_domains s2;
                    let s4 = owner_release (ds_owner prior) s3;
                    let s5 = s4\<lparr>grace := fmupd i (ds_valid_until prior, ds_owner prior) (grace s4)\<rparr>;
                    gc_ids cr now rest (s5, j @ [UndoExpireDomain i prior], expired @ [i]) })"

fun gc_slots :: "crypto \<Rightarrow> u64 \<Rightarrow> u64 list \<Rightarrow> chain_state \<times> undo_log \<times> domain_id list
     \<Rightarrow> (chain_state \<times> undo_log \<times> domain_id list) option" where
  "gc_slots cr now [] acc = Some acc"
| "gc_slots cr now (until # rest) (s, j, expired) =
     (let ids = sorted_list_of_fset (case fmlookup (expirations s) until of None \<Rightarrow> {||} | Some d \<Rightarrow> d);
          s1 = s\<lparr>expirations := fmdrop until (expirations s)\<rparr>
      in do { acc \<leftarrow> gc_ids cr now ids (s1, j, expired);
              gc_slots cr now rest acc })"

definition gc_expired_journaled :: "crypto \<Rightarrow> u64 \<Rightarrow> chain_state \<Rightarrow> undo_log
     \<Rightarrow> (chain_state \<times> undo_log \<times> domain_id list) option" where
  "gc_expired_journaled cr now s j =
     gc_slots cr now (filter (\<lambda>until. until \<le> now) (sorted_list_of_fset (fmdom (expirations s)))) (s, j, [])"

section \<open>Rollback\<close>

fun undo_one :: "crypto \<Rightarrow> undo_entry \<Rightarrow> chain_state \<Rightarrow> chain_state option" where
  "undo_one cr (UndoRegisterDomain i consumed) s =
     do { s' \<leftarrow> (case state_domain s i of
                  None \<Rightarrow> Some s
                | Some st \<Rightarrow> do { s1 \<leftarrow> smt_remove_domain cr i st s;
                                 let s2 = remove_domain_entry i s1;
                                 s3 \<leftarrow> dec_domains s2;
                                 let s4 = expiration_dequeue (ds_valid_until st) i s3;
                                 Some (owner_release (ds_owner st) s4) });
          Some (case consumed of None \<Rightarrow> s' | Some e \<Rightarrow> s'\<lparr>grace := fmupd i e (grace s')\<rparr>) }"
| "undo_one cr (UndoUpdateDomain i prior) s =
     do { s' \<leftarrow> (case state_domain s i of
                  None \<Rightarrow> Some s
                | Some current \<Rightarrow> smt_put_domain cr i (Some current) prior s);
          Some (put_domain_entry i prior s') }"
| "undo_one cr (UndoRegisterTld i) s =
     (case state_tld s i of
        None \<Rightarrow> Some s
      | Some st \<Rightarrow> do { s1 \<leftarrow> smt_remove_tld cr i st s;
                       let s2 = remove_tld_entry i s1;
                       s3 \<leftarrow> dec_tlds s2;
                       Some (owner_release (ts_owner st) s3) })"
| "undo_one cr (UndoMutateTld i prior) s =
     do { s' \<leftarrow> (case state_tld s i of
                  None \<Rightarrow> Some s
                | Some current \<Rightarrow>
                    do { s1 \<leftarrow> smt_put_tld cr i current prior s;
                         let s2 = owner_release (ts_owner current) s1;
                         Some (owner_acquire (ts_owner prior) s2) });
          Some (put_tld_entry i prior s') }"
| "undo_one cr (UndoRevokeTld i prior) s =
     do { s1 \<leftarrow> smt_insert_tld cr i prior s;
          let s2 = put_tld_entry i prior s1;
          let s3 = inc_tlds s2;
          Some (owner_acquire (ts_owner prior) s3) }"
| "undo_one cr (UndoRenewDomain i prior) s =
     do { s' \<leftarrow> (case state_domain s i of
                  None \<Rightarrow> Some s
                | Some current \<Rightarrow>
                    do { s1 \<leftarrow> smt_put_domain cr i (Some current) prior s;
                         Some (expiration_dequeue (ds_valid_until current) i s1) });
          let s2 = expiration_enqueue (ds_valid_until prior) i s';
          Some (put_domain_entry i prior s2) }"
| "undo_one cr (UndoTransferDomain i prior) s =
     do { s' \<leftarrow> (case state_domain s i of
                  None \<Rightarrow> Some s
                | Some current \<Rightarrow>
                    do { s1 \<leftarrow> smt_put_domain cr i (Some current) prior s;
                         Some (owner_release (ds_owner current) s1) });
          let s2 = owner_acquire (ds_owner prior) s';
          Some (put_domain_entry i prior s2) }"
| "undo_one cr (UndoExpireDomain i prior) s =
     do { let s0 = s\<lparr>grace := fmdrop i (grace s)\<rparr>;
          s1 \<leftarrow> smt_put_domain cr i None prior s0;
          let s2 = put_domain_entry i prior s1;
          let s3 = inc_domains s2;
          let s4 = expiration_enqueue (ds_valid_until prior) i s3;
          Some (owner_acquire (ds_owner prior) s4) }"
| "undo_one cr (UndoLearnOwnerKey own) s = Some (s\<lparr>owner_keys := fmdrop own (owner_keys s)\<rparr>)"
| "undo_one cr (UndoBanAnchor pk) s = Some (s\<lparr>banned := banned s |-| {|pk|}\<rparr>)"

fun undo_all :: "crypto \<Rightarrow> undo_entry list \<Rightarrow> chain_state \<Rightarrow> chain_state option" where
  "undo_all cr [] s = Some s"
| "undo_all cr (e # es) s = Option.bind (undo_one cr e s) (undo_all cr es)"

definition rollback :: "crypto \<Rightarrow> undo_log \<Rightarrow> chain_state \<Rightarrow> chain_state option" where
  "rollback cr j s = undo_all cr (rev j) s"

definition state_apply :: "crypto \<Rightarrow> transaction \<Rightarrow> chain_state \<Rightarrow> (chain_state \<times> (bc_error + unit)) option" where
  "state_apply cr tx s =
     do { (s1, j, r) \<leftarrow> apply_journaled_at cr tx 0 s [];
          case r of Inr _ \<Rightarrow> Some (s1, Inr ())
          | Inl e \<Rightarrow> map_option (\<lambda>s2. (s2, Inl e)) (rollback cr j s1) }"

section \<open>Archive root\<close>

fun fold_level :: "crypto \<Rightarrow> hash32 list \<Rightarrow> hash32 list" where
  "fold_level cr [] = []"
| "fold_level cr [x] = [hash256 cr [str_bytes ''SCONE-FOLD-V1'', h32_bytes x, h32_bytes x]]"
| "fold_level cr (x # y # xs) =
     hash256 cr [str_bytes ''SCONE-FOLD-V1'', h32_bytes x, h32_bytes y] # fold_level cr xs"

lemma length_fold_level: "length (fold_level cr xs) = (length xs + 1) div 2"
  by (induction cr xs rule: fold_level.induct) auto

function fold_loop :: "crypto \<Rightarrow> hash32 list \<Rightarrow> hash32 list" where
  "fold_loop cr level = (if 1 < length level then fold_loop cr (fold_level cr level) else level)"
  by pat_completeness auto
termination
  by (relation "measure (\<lambda>(cr, level). length level)") (auto simp: length_fold_level)

declare fold_loop.simps [simp del]

definition fold_hashes :: "crypto \<Rightarrow> hash32 list \<Rightarrow> hash32" where
  "fold_hashes cr leaves = (if leaves = [] then 0 else hd (fold_loop cr leaves))"

definition owner_pool_root :: "crypto \<Rightarrow> chain_state \<Rightarrow> hash32" where
  "owner_pool_root cr s = fold_hashes cr
     (map (\<lambda>own. hash256 cr [str_bytes ''SCONE-LEAF-OWN-V2'' @ h32_bytes own])
       (sorted_list_of_fset (fmdom (owner_refcounts s))))"

definition banned_root :: "crypto \<Rightarrow> chain_state \<Rightarrow> hash32" where
  "banned_root cr s = fold_hashes cr
     (map (\<lambda>pk. hash256 cr [str_bytes ''SCONE-LEAF-BAN-V1'' @ h32_bytes pk])
       (sorted_list_of_fset (banned s)))"

definition entry_leaf :: "crypto \<Rightarrow> pkey \<times> bytes \<Rightarrow> hash32 list" where
  "entry_leaf cr e = (case decode_domain_entry (snd e) of
       Some st \<Rightarrow> [domain_leaf_v2 cr (fst e) st]
     | None \<Rightarrow> (case decode_tld_entry (snd e) of Some st \<Rightarrow> [tld_leaf_v2 cr (fst e) st] | None \<Rightarrow> []))"

definition state_root_v2 :: "crypto \<Rightarrow> chain_state \<Rightarrow> hash32 option" where
  "state_root_v2 cr s =
     do { es \<leftarrow> scan (\<lambda>cursor. backend_range (cs_backend s) cursor 1024) None [];
          Some (hash256 cr [str_bytes ''SCONE-STATE-V2''
            @ h32_bytes (fold_hashes cr (concat (map (entry_leaf cr) es)))
            @ h32_bytes (owner_pool_root cr s) @ h32_bytes (banned_root cr s)]) }"

end
