(* ===== verification/Scone_Block.thy ===== *)
theory Scone_Block
  imports Scone_Message Scone_State
begin

text \<open>
  The parts of a block of \<^verbatim>\<open>crates/scone-blockchain/src\<close>: the block hash (\<^verbatim>\<open>block_hash.rs\<close>), transaction
  identifiers (\<^verbatim>\<open>txid.rs\<close>), the Merkle tree over them (\<^verbatim>\<open>merkle.rs\<close>), the genesis block
  (\<^verbatim>\<open>genesis.rs\<close>), the producer's signature (\<^verbatim>\<open>producer.rs\<close>), the consensus hooks (\<^verbatim>\<open>consensus.rs\<close>), the
  validation of transactions (\<^verbatim>\<open>validate.rs\<close>) and the block builder (\<^verbatim>\<open>builder.rs\<close>).
\<close>

section \<open>Hashes\<close>

definition BLOCK_HASH_VERSION :: bytes where "BLOCK_HASH_VERSION = str_bytes ''SCONE-BLOCK-V1''"

definition block_hash :: "crypto \<Rightarrow> block_header \<Rightarrow> bc_error + hash32" where
  "block_hash cr h = try_bind (protocol_result (put_header h)) (\<lambda>encoded. Inr (hash256 cr [BLOCK_HASH_VERSION, encoded]))"

definition TX_ID_VERSION :: bytes where "TX_ID_VERSION = str_bytes ''SCONE-TX-V1''"

definition transaction_id :: "crypto \<Rightarrow> transaction \<Rightarrow> bc_error + hash32" where
  "transaction_id cr tx = try_bind (protocol_result (put_transaction cr tx))
     (\<lambda>encoded. Inr (hash256 cr [TX_ID_VERSION, encoded]))"

section \<open>The Merkle tree\<close>

definition MERKLE_VERSION :: bytes where "MERKLE_VERSION = str_bytes ''SCONE-MERKLE-V1''"
definition EMPTY_ROOT_LABEL :: bytes where "EMPTY_ROOT_LABEL = str_bytes ''EMPTY''"
definition LEAF_TAG :: u8 where "LEAF_TAG = 0"
definition NODE_TAG :: u8 where "NODE_TAG = 1"

definition merkle_leaf :: "crypto \<Rightarrow> hash32 \<Rightarrow> hash32" where
  "merkle_leaf cr txid = hash256 cr [MERKLE_VERSION, [LEAF_TAG], h32_bytes txid]"

definition merkle_node :: "crypto \<Rightarrow> hash32 \<Rightarrow> hash32 \<Rightarrow> hash32" where
  "merkle_node cr left right = hash256 cr [MERKLE_VERSION, [NODE_TAG], h32_bytes left, h32_bytes right]"

fun merkle_level :: "crypto \<Rightarrow> hash32 list \<Rightarrow> hash32 list" where
  "merkle_level cr [] = []"
| "merkle_level cr [left] = [merkle_node cr left left]"
| "merkle_level cr (left # right # rest) = merkle_node cr left right # merkle_level cr rest"

lemma length_merkle_level: "length (merkle_level cr xs) = (length xs + 1) div 2"
  by (induction cr xs rule: merkle_level.induct) auto

function merkle_loop :: "crypto \<Rightarrow> hash32 list \<Rightarrow> hash32 list" where
  "merkle_loop cr level = (if 1 < length level then merkle_loop cr (merkle_level cr level) else level)"
  by pat_completeness auto
termination
  by (relation "measure (\<lambda>(cr, level). length level)") (auto simp: length_merkle_level)

declare merkle_loop.simps [simp del]

definition merkle_root :: "crypto \<Rightarrow> hash32 list \<Rightarrow> hash32" where
  "merkle_root cr txids =
     (if txids = [] then hash256 cr [MERKLE_VERSION, EMPTY_ROOT_LABEL]
      else hd (merkle_loop cr (map (merkle_leaf cr) txids)))"

fun transaction_ids :: "crypto \<Rightarrow> transaction list \<Rightarrow> bc_error + hash32 list" where
  "transaction_ids cr [] = Inr []"
| "transaction_ids cr (tx # txs) =
     try_bind (transaction_id cr tx) (\<lambda>i. try_bind (transaction_ids cr txs) (\<lambda>is. Inr (i # is)))"

definition tx_root :: "crypto \<Rightarrow> transaction list \<Rightarrow> bc_error + hash32" where
  "tx_root cr txs = try_bind (transaction_ids cr txs) (\<lambda>txids. Inr (merkle_root cr txids))"

section \<open>Genesis\<close>

definition GENESIS_TIMESTAMP :: u64 where "GENESIS_TIMESTAMP = 0"

definition genesis_of :: "crypto \<Rightarrow> network_params \<Rightarrow> block" where
  "genesis_of cr params =
     \<lparr>blk_header = \<lparr>bh_version = PROTOCOL_VERSION, bh_height = 0, bh_prev_hash = 0, bh_tx_root = merkle_root cr [],
        bh_timestamp = GENESIS_TIMESTAMP, bh_consensus = network_bytes (np_network_id params)\<rparr>,
      blk_transactions = []\<rparr>"

text \<open>\<open>None\<close> is the panic of \<^verbatim>\<open>expect\<close>.\<close>

definition expect :: "'e + 'a \<Rightarrow> 'a option" where
  "expect r = (case r of Inl e \<Rightarrow> None | Inr x \<Rightarrow> Some x)"

definition genesis_hash_of :: "crypto \<Rightarrow> network_id \<Rightarrow> hash32 option" where
  "genesis_hash_of cr network =
     (let params = if network = NETWORK_MAINNET then MAINNET else TESTNET in
      expect (block_hash cr (blk_header (genesis_of cr params))))"

definition genesis :: "crypto \<Rightarrow> block" where "genesis cr = genesis_of cr TESTNET"
definition genesis_hash :: "crypto \<Rightarrow> hash32 option" where "genesis_hash cr = genesis_hash_of cr (np_network_id TESTNET)"

section \<open>Producers\<close>

text \<open>
  A signing key is third-party code: its public key and its signing function. What it promises is
  \<open>key_pair\<close>: its signatures verify under its public key.
\<close>

record signing_key =
  sk_public_key :: public_key
  sk_sign :: "bytes \<Rightarrow> signature"

definition key_pair :: "crypto \<Rightarrow> signing_key \<Rightarrow> bool" where
  "key_pair cr sk \<longleftrightarrow> ed_key_ok cr (sk_public_key sk) \<and> (\<forall>m. ed_verify_strict cr (sk_public_key sk) m (sk_sign sk m))"

definition BLOCK_SIGN_TAG :: bytes where "BLOCK_SIGN_TAG = str_bytes ''SCONE-BLOCK-V2''"
definition PRODUCER_PAYLOAD_LEN :: nat where "PRODUCER_PAYLOAD_LEN = length BLOCK_SIGN_TAG + 32 + 64"

record producer_payload =
  pp_producer :: public_key
  pp_signature :: signature

definition encode_producer_payload :: "public_key \<Rightarrow> signature \<Rightarrow> bytes" where
  "encode_producer_payload producer sig = BLOCK_SIGN_TAG @ h32_bytes producer @ s64_bytes sig"

definition decode_producer_payload :: "crypto \<Rightarrow> bytes \<Rightarrow> producer_payload option" where
  "decode_producer_payload cr bs =
     (if length bs \<noteq> PRODUCER_PAYLOAD_LEN then None
      else if take (length BLOCK_SIGN_TAG) bs \<noteq> BLOCK_SIGN_TAG then None
      else let pk = h32_of_bytes (slice (length BLOCK_SIGN_TAG) (length BLOCK_SIGN_TAG + 32) bs);
               sig = s64_of_bytes (drop (length BLOCK_SIGN_TAG + 32) bs) in
        map_option (\<lambda>producer. \<lparr>pp_producer = producer, pp_signature = sig\<rparr>) (public_key_from_bytes cr pk))"

definition producer_signing_hash :: "crypto \<Rightarrow> block_header \<Rightarrow> hash32 option" where
  "producer_signing_hash cr h = expect (block_hash cr (h\<lparr>bh_consensus := []\<rparr>))"

definition sign_block_hash :: "signing_key \<Rightarrow> hash32 \<Rightarrow> signature" where
  "sign_block_hash sk sh = sk_sign sk (BLOCK_SIGN_TAG @ h32_bytes sh)"

definition verify_block_producer :: "crypto \<Rightarrow> producer_payload \<Rightarrow> hash32 \<Rightarrow> bool" where
  "verify_block_producer cr p sh =
     pk_verify cr (pp_producer p) (BLOCK_SIGN_TAG @ h32_bytes sh) (pp_signature p)"

section \<open>Consensus hooks and transaction validation\<close>

record consensus =
  validate_header :: "block_header \<Rightarrow> bc_error + unit"
  validate_tx :: "transaction \<Rightarrow> bc_error + unit"

definition permissive_consensus :: consensus where
  "permissive_consensus = \<lparr>validate_header = (\<lambda>_. Inr ()), validate_tx = (\<lambda>_. Inr ())\<rparr>"

definition owner_from_public_key :: "crypto \<Rightarrow> public_key \<Rightarrow> owner_id" where
  "owner_from_public_key cr pk = owner_from_public_key_ref cr (public_key_ref cr (h32_bytes pk))"

definition validate_transaction :: "crypto \<Rightarrow> transaction \<Rightarrow> bc_error + unit" where
  "validate_transaction cr tx =
     (if tx_owner cr tx \<noteq> owner_from_public_key cr (tx_public_key tx) then Inl OwnerKeyMismatch
      else try_bind (core_result (tx_validate cr tx)) (\<lambda>_.
        try_bind (protocol_result (signing_payload tx)) (\<lambda>payload.
          if \<not> pk_verify cr (tx_public_key tx) payload (tx_signature tx) then Inl BcInvalidSignature else Inr ())))"

section \<open>The builder\<close>

record block_builder =
  bb_prev_hash :: hash32
  bb_height :: u64
  bb_timestamp :: u64
  bb_consensus :: bytes
  bb_producer :: "signing_key option"
  bb_transactions :: "transaction list"

definition builder_after :: "u64 \<Rightarrow> hash32 \<Rightarrow> block_builder option" where
  "builder_after parent_height prev = map_option (\<lambda>height.
     \<lparr>bb_prev_hash = prev, bb_height = height, bb_timestamp = 0, bb_consensus = [], bb_producer = None, bb_transactions = []\<rparr>)
     (checked_add parent_height 1)"

definition with_timestamp :: "u64 \<Rightarrow> block_builder \<Rightarrow> block_builder" where
  "with_timestamp ts b = b\<lparr>bb_timestamp := ts\<rparr>"

definition with_consensus :: "bytes \<Rightarrow> block_builder \<Rightarrow> block_builder" where
  "with_consensus c b = b\<lparr>bb_consensus := c\<rparr>"

definition with_producer :: "signing_key \<Rightarrow> block_builder \<Rightarrow> block_builder" where
  "with_producer sk b = b\<lparr>bb_producer := Some sk\<rparr>"

definition push_tx :: "transaction \<Rightarrow> block_builder \<Rightarrow> bc_error + block_builder" where
  "push_tx tx b =
     (if MAX_TXS_PER_BLOCK \<le> length (bb_transactions b) then Inl (TooManyTransactions (length (bb_transactions b) + 1))
      else Inr (b\<lparr>bb_transactions := bb_transactions b @ [tx]\<rparr>))"

definition builder_len :: "block_builder \<Rightarrow> nat" where "builder_len b = length (bb_transactions b)"
definition builder_is_empty :: "block_builder \<Rightarrow> bool" where "builder_is_empty b \<longleftrightarrow> bb_transactions b = []"

definition build :: "crypto \<Rightarrow> block_builder \<Rightarrow> (bc_error + block) option" where
  "build cr b = (case tx_root cr (bb_transactions b) of Inl e \<Rightarrow> Some (Inl e)
     | Inr root \<Rightarrow>
         let header = \<lparr>bh_version = PROTOCOL_VERSION, bh_height = bb_height b, bh_prev_hash = bb_prev_hash b,
               bh_tx_root = root, bh_timestamp = bb_timestamp b, bh_consensus = bb_consensus b\<rparr> in
         do { header \<leftarrow> (case bb_producer b of None \<Rightarrow> Some header
               | Some sk \<Rightarrow> map_option (\<lambda>sh. header\<lparr>bh_consensus :=
                     encode_producer_payload (sk_public_key sk) (sign_block_hash sk sh)\<rparr>)
                   (producer_signing_hash cr header));
              Some (try_bind (block_hash cr header) (\<lambda>_. Inr \<lparr>blk_header = header, blk_transactions = bb_transactions b\<rparr>)) })"

fun push_txs :: "transaction list \<Rightarrow> block_builder \<Rightarrow> bc_error + block_builder" where
  "push_txs [] b = Inr b"
| "push_txs (tx # txs) b = try_bind (push_tx tx b) (push_txs txs)"

definition build_with :: "crypto \<Rightarrow> transaction list \<Rightarrow> block_builder \<Rightarrow> (bc_error + block) option" where
  "build_with cr txs b = (case push_txs txs b of Inl e \<Rightarrow> Some (Inl e) | Inr b' \<Rightarrow> build cr b')"

section \<open>What the Merkle root commits to\<close>

text \<open>The byte strings hashed on the way to a root.\<close>

definition leaf_input :: "hash32 \<Rightarrow> bytes" where "leaf_input txid = MERKLE_VERSION @ [LEAF_TAG] @ h32_bytes txid"
definition node_input :: "hash32 \<Rightarrow> hash32 \<Rightarrow> bytes" where
  "node_input left right = MERKLE_VERSION @ [NODE_TAG] @ h32_bytes left @ h32_bytes right"

fun level_inputs :: "hash32 list \<Rightarrow> bytes list" where
  "level_inputs [] = []"
| "level_inputs [left] = [node_input left left]"
| "level_inputs (left # right # rest) = node_input left right # level_inputs rest"

function loop_inputs :: "crypto \<Rightarrow> hash32 list \<Rightarrow> bytes list" where
  "loop_inputs cr level = (if 1 < length level then level_inputs level @ loop_inputs cr (merkle_level cr level) else [])"
  by pat_completeness auto
termination
  by (relation "measure (\<lambda>(cr, level). length level)") (auto simp: length_merkle_level)

declare loop_inputs.simps [simp del]

definition merkle_inputs :: "crypto \<Rightarrow> hash32 list \<Rightarrow> bytes list" where
  "merkle_inputs cr txids = map leaf_input txids @ loop_inputs cr (map (merkle_leaf cr) txids)"

lemma merkle_hashes: "merkle_leaf cr i = blake3 cr (leaf_input i)" "merkle_node cr l r = blake3 cr (node_input l r)"
  by (simp_all add: merkle_leaf_def merkle_node_def leaf_input_def node_input_def hash256_def)

lemma merkle_input_inject [simp]: "leaf_input i = leaf_input j \<longleftrightarrow> i = j" "node_input l r = node_input l' r' \<longleftrightarrow> l = l' \<and> r = r'"
  by (auto simp: leaf_input_def node_input_def be_bytes_inject)

lemma merkle_level_inject:
  "length xs = length ys \<Longrightarrow> inj_on (blake3 cr) (set (level_inputs xs) \<union> set (level_inputs ys)) \<Longrightarrow>
     merkle_level cr xs = merkle_level cr ys \<Longrightarrow> xs = ys"
proof (induction xs arbitrary: ys rule: induct_list012)
  case (2 x)
  from 2(1) obtain y where "ys = [y]" by (cases ys) auto
  then show ?case using 2 by (auto simp: merkle_hashes dest: inj_onD)
next
  case (3 x y zs)
  from 3(3) obtain x' y' zs' where ys: "ys = x' # y' # zs'" by (cases ys; cases "tl ys") auto
  have "node_input x y = node_input x' y'"
    by (rule inj_onD [OF 3(4)]) (use 3(5) ys in \<open>simp_all add: merkle_hashes\<close>)
  moreover have "zs = zs'" by (rule 3(1)) (use 3(3-5) ys in \<open>auto elim: inj_on_subset\<close>)
  ultimately show ?case using ys by simp
qed simp

lemma merkle_loop_length: "xs \<noteq> [] \<Longrightarrow> length (merkle_loop cr xs) = 1"
proof (induction cr xs rule: merkle_loop.induct)
  case (1 cr xs)
  have "merkle_level cr xs \<noteq> []" using 1(2) length_merkle_level [of cr xs] by (cases xs) auto
  then show ?case using 1 by (subst merkle_loop.simps) (auto simp: not_less le_Suc_eq)
qed

lemma length_1_hd: "length xs = 1 \<Longrightarrow> xs = [hd xs]"
  by (cases xs) auto

lemma merkle_loop_inject:
  "length xs = length ys \<Longrightarrow> inj_on (blake3 cr) (set (loop_inputs cr xs) \<union> set (loop_inputs cr ys)) \<Longrightarrow>
     merkle_loop cr xs = merkle_loop cr ys \<Longrightarrow> xs = ys"
proof (induction cr xs arbitrary: ys rule: merkle_loop.induct)
  case (1 cr xs)
  show ?case
  proof (cases "1 < length xs")
    case True
    have len: "1 < length ys" using True 1(2) by simp
    have "merkle_level cr xs = merkle_level cr ys"
      by (rule 1(1)) (use True len 1(2-4) in \<open>auto simp: length_merkle_level merkle_loop.simps [of cr xs]
          merkle_loop.simps [of cr ys] loop_inputs.simps [of cr xs] loop_inputs.simps [of cr ys] elim: inj_on_subset\<close>)
    moreover have "inj_on (blake3 cr) (set (level_inputs xs) \<union> set (level_inputs ys))"
      by (rule inj_on_subset [OF 1(3)]) (use True len in \<open>auto simp: loop_inputs.simps [of cr xs] loop_inputs.simps [of cr ys]\<close>)
    ultimately show ?thesis using merkle_level_inject 1(2) by blast
  qed (use 1 in \<open>simp add: merkle_loop.simps [of cr xs] merkle_loop.simps [of cr ys]\<close>)
qed

text \<open>C33: The Merkle root commits to the transactions and their order: two different lists of as many
  transaction identifiers have different roots unless two of the strings hashed on the way
  collide.\<close>

theorem merkle_root_binds:
  assumes "length xs = length ys" "xs \<noteq> ys" "inj_on (blake3 cr) (set (merkle_inputs cr xs) \<union> set (merkle_inputs cr ys))"
  shows "merkle_root cr xs \<noteq> merkle_root cr ys"
proof
  assume eq: "merkle_root cr xs = merkle_root cr ys"
  let ?l = "map (merkle_leaf cr)"
  have ne: "xs \<noteq> []" "ys \<noteq> []" using assms(1,2) by auto
  have "length (merkle_loop cr (?l xs)) = 1" "length (merkle_loop cr (?l ys)) = 1"
    using ne merkle_loop_length [of "?l xs" cr] merkle_loop_length [of "?l ys" cr] by simp_all
  then have "merkle_loop cr (?l xs) = [hd (merkle_loop cr (?l xs))]" "merkle_loop cr (?l ys) = [hd (merkle_loop cr (?l ys))]"
    by (simp_all add: length_1_hd)
  then have "merkle_loop cr (?l xs) = merkle_loop cr (?l ys)"
    using eq ne by (simp add: merkle_root_def)
  moreover have "inj_on (blake3 cr) (set (loop_inputs cr (?l xs)) \<union> set (loop_inputs cr (?l ys)))"
    by (rule inj_on_subset [OF assms(3)]) (auto simp: merkle_inputs_def)
  ultimately have "?l xs = ?l ys" using assms(1) merkle_loop_inject [of "?l xs" "?l ys" cr] by simp
  then have "map (blake3 cr) (map leaf_input xs) = map (blake3 cr) (map leaf_input ys)" by (simp add: comp_def flip: merkle_hashes)
  moreover have "inj_on (blake3 cr) (set (map leaf_input xs) \<union> set (map leaf_input ys))"
    by (rule inj_on_subset [OF assms(3)]) (auto simp: merkle_inputs_def)
  ultimately have "map leaf_input xs = map leaf_input ys" by (metis inj_on_map_eq_map)
  then have "xs = ys" by (simp add: inj_map_eq_map inj_def)
  then show False using assms(2) by simp
qed

text \<open>A hash for examples: a few digests, the rest zero.\<close>

definition merkle_crypto :: crypto where
  "merkle_crypto = toy_crypto\<lparr>blake3 := (\<lambda>bs. if bs = leaf_input 1 then 11 else if bs = leaf_input 2 then 12
     else if bs = node_input 11 12 then 21 else if bs = node_input 12 11 then 22 else 0)\<rparr>"

lemma leaf_not_node [simp]: "leaf_input i \<noteq> node_input l r"
  by (simp add: leaf_input_def node_input_def LEAF_TAG_def NODE_TAG_def)

theorem merkle_root_binds_witness: "merkle_root merkle_crypto [1, 2] \<noteq> merkle_root merkle_crypto [2, 1]"
proof (rule merkle_root_binds)
  show "inj_on (blake3 merkle_crypto) (set (merkle_inputs merkle_crypto [1, 2]) \<union> set (merkle_inputs merkle_crypto [2, 1]))"
    by (simp add: merkle_inputs_def loop_inputs.simps merkle_hashes merkle_crypto_def leaf_not_node [symmetric]) auto
qed simp_all

lemma merkle_level_duplicate: "odd (length xs) \<Longrightarrow> merkle_level cr (xs @ [last xs]) = merkle_level cr xs"
  by (induction xs rule: induct_list012) auto

lemma transaction_ids_append:
  "transaction_ids cr (xs @ ys) = try_bind (transaction_ids cr xs) (\<lambda>is. try_bind (transaction_ids cr ys) (\<lambda>js. Inr (is @ js)))"
proof (induction xs)
  case Nil
  then show ?case by (cases "transaction_ids cr ys") simp_all
next
  case (Cons x xs)
  then show ?case by (cases "transaction_id cr x"; cases "transaction_ids cr xs"; cases "transaction_ids cr ys") simp_all
qed

lemma transaction_ids_last: "transaction_ids cr xs = Inr is \<Longrightarrow> length is = length xs \<and> (xs \<noteq> [] \<longrightarrow> transaction_id cr (last xs) = Inr (last is))"
proof (induction xs arbitrary: "is")
  case (Cons x xs)
  then obtain i js where "transaction_id cr x = Inr i" "transaction_ids cr xs = Inr js" "is = i # js" by auto
  then show ?case using Cons.IH [of js] by (cases xs) auto
qed simp

text \<open>C34: The converse limit of the commitment: because an odd level repeats its last hash, a block whose
  list has an odd length greater than one has the transaction root of the same list with its last
  transaction repeated. The root, and with it the block hash, does not determine the number of
  transactions.\<close>

theorem tx_root_duplicate:
  assumes "odd (length txs)" "1 < length txs" shows "tx_root cr (txs @ [last txs]) = tx_root cr txs"
proof (cases "transaction_ids cr txs")
  case (Inr "is")
  then have "is": "length is = length txs" "transaction_id cr (last txs) = Inr (last is)"
    using transaction_ids_last [OF Inr] assms(2) by auto
  let ?l = "map (merkle_leaf cr)"
  have "?l is \<noteq> []" using assms(2) "is"(1) by auto
  then have "merkle_level cr (?l is @ [merkle_leaf cr (last is)]) = merkle_level cr (?l is)"
    using merkle_level_duplicate [of "?l is" cr] assms(1) "is"(1) by (simp add: last_map)
  then have "merkle_loop cr (?l (is @ [last is])) = merkle_loop cr (?l is)"
    using assms(2) "is"(1) by (simp add: merkle_loop.simps [of cr "?l is"] merkle_loop.simps [of cr "?l is @ _"]) auto
  then show ?thesis using Inr "is" assms(2) by (simp add: tx_root_def transaction_ids_append merkle_root_def) auto
qed (simp add: tx_root_def transaction_ids_append)

text \<open>Three transactions that encode, and the root they share with the list of four.\<close>

definition ex_owned_revoke :: "signature \<Rightarrow> transaction" where
  "ex_owned_revoke sig = RevokeTld (revoke_tld_on merkle_crypto NETWORK_TESTNET 5 7 sig)"

lemma ex_owned_id: "\<exists>i. transaction_id merkle_crypto (ex_owned_revoke sig) = Inr i"
  by (simp add: ex_owned_revoke_def revoke_tld_on_def transaction_id_def put_revoke_tld_def revoke_tld_validate_def check_owner_binding_def
      wseq.simps written_if_def protocol_result_def put_network_def put_bounded_def network_testnet_ok MAX_NETWORK_ID_LEN_def)

theorem tx_root_duplicate_witness:
  "\<exists>r. tx_root merkle_crypto [ex_owned_revoke 1, ex_owned_revoke 2, ex_owned_revoke 3] = Inr r
     \<and> tx_root merkle_crypto [ex_owned_revoke 1, ex_owned_revoke 2, ex_owned_revoke 3, ex_owned_revoke 3] = Inr r"
proof -
  obtain i j k where "transaction_id merkle_crypto (ex_owned_revoke 1) = Inr i" "transaction_id merkle_crypto (ex_owned_revoke 2) = Inr j"
    "transaction_id merkle_crypto (ex_owned_revoke 3) = Inr k" using ex_owned_id by blast
  then have "\<exists>r. tx_root merkle_crypto [ex_owned_revoke 1, ex_owned_revoke 2, ex_owned_revoke 3] = Inr r" by (simp add: tx_root_def)
  then show ?thesis using tx_root_duplicate [of "[ex_owned_revoke 1, ex_owned_revoke 2, ex_owned_revoke 3]" merkle_crypto] by simp
qed

section \<open>Producers and builders\<close>

lemma decode_encode_producer [simp]:
  "ed_key_ok cr pk \<Longrightarrow> decode_producer_payload cr (encode_producer_payload pk sig) = Some \<lparr>pp_producer = pk, pp_signature = sig\<rparr>"
  by (simp add: decode_producer_payload_def encode_producer_payload_def PRODUCER_PAYLOAD_LEN_def Let_def slice_def
      from_be_be_bytes public_key_from_bytes_def)

lemma producer_hash_consensus [simp]: "producer_signing_hash cr (h\<lparr>bh_consensus := c\<rparr>) = producer_signing_hash cr h"
  by (simp add: producer_signing_hash_def)

lemma push_txs_ok:
  "length (bb_transactions b) + length txs \<le> MAX_TXS_PER_BLOCK \<Longrightarrow>
     push_txs txs b = Inr (b\<lparr>bb_transactions := bb_transactions b @ txs\<rparr>)"
  by (induction txs arbitrary: b) (simp_all add: push_tx_def)

end
