(* ===== verification/Scone_Registry.thy ===== *)
theory Scone_Registry
  imports Scone_State
begin

text \<open>
  The abstract registry: what the chain state promises, without encodings, indexes, Merkle tree
  or counters. A state is a finite map from identifiers to entries (a domain or a TLD), the known
  owner keys, the grace windows and the ban list. \<open>spec_apply\<close> is the rule book of the
  transactions on it; \<open>astep\<close> is the step relation of the single reversible changes, labelled by
  the journal entry the code records for them.
\<close>

section \<open>Abstract states\<close>

datatype entry = DomainEntry (the_domain: domain_state) | TldEntry (the_tld: tld_state)

fun entry_owner :: "entry \<Rightarrow> owner_id" where
  "entry_owner (DomainEntry d) = ds_owner d"
| "entry_owner (TldEntry t) = ts_owner t"

record registry =
  rg_network :: network_params
  rg_entries :: "(hash32, entry) fmap"
  rg_keys :: "(owner_id, public_key) fmap"
  rg_grace :: "(domain_id, u64 \<times> owner_id) fmap"
  rg_banned :: "public_key fset"

definition registry_new :: "network_params \<Rightarrow> registry" where
  "registry_new network = \<lparr>rg_network = network, rg_entries = fmempty, rg_keys = fmempty,
     rg_grace = fmempty, rg_banned = {||}\<rparr>"

definition rg_domain :: "registry \<Rightarrow> domain_id \<Rightarrow> domain_state option" where
  "rg_domain a i = (case fmlookup (rg_entries a) i of Some (DomainEntry d) \<Rightarrow> Some d | _ \<Rightarrow> None)"

definition rg_tld :: "registry \<Rightarrow> tld_id \<Rightarrow> tld_state option" where
  "rg_tld a i = (case fmlookup (rg_entries a) i of Some (TldEntry t) \<Rightarrow> Some t | _ \<Rightarrow> None)"

definition set_entry :: "hash32 \<Rightarrow> entry \<Rightarrow> registry \<Rightarrow> registry" where
  "set_entry i e a = a\<lparr>rg_entries := fmupd i e (rg_entries a)\<rparr>"

definition del_entry :: "hash32 \<Rightarrow> registry \<Rightarrow> registry" where
  "del_entry i a = a\<lparr>rg_entries := fmdrop i (rg_entries a)\<rparr>"

text \<open>A record hash of all zero bytes is the encoding of no hash.\<close>

definition norm_domain :: "domain_state \<Rightarrow> domain_state" where
  "norm_domain d = d\<lparr>ds_record_hash := (if ds_record_hash d = Some 0 then None else ds_record_hash d)\<rparr>"

section \<open>The pool\<close>

definition rg_owners :: "registry \<Rightarrow> owner_id set" where
  "rg_owners a = (\<lambda>i. entry_owner (the (fmlookup (rg_entries a) i))) ` fset (fmdom (rg_entries a))"

definition rg_pool :: "registry \<Rightarrow> public_key set" where
  "rg_pool a = (\<lambda>own. the (fmlookup (rg_keys a) own)) `
     Set.filter (\<lambda>own. fmlookup (rg_keys a) own \<noteq> None) (rg_owners a) - fset (rg_banned a)"

lemma rg_owners_eq: "rg_owners a = {entry_owner e | i e. fmlookup (rg_entries a) i = Some e}"
  by (force simp: rg_owners_def fmlookup_dom_iff)

lemma rg_pool_eq: "rg_pool a = {pk. \<exists>own\<in>rg_owners a. fmlookup (rg_keys a) own = Some pk} - fset (rg_banned a)"
  by (force simp: rg_pool_def)

section \<open>The rules\<close>

type_synonym spec_result = "registry \<times> undo_log \<times> (bc_error + unit)"

definition spec_learn :: "owner_id \<Rightarrow> public_key \<Rightarrow> registry \<Rightarrow> registry \<times> undo_log" where
  "spec_learn own pk a =
     (if fmlookup (rg_keys a) own = None
      then (a\<lparr>rg_keys := fmupd own pk (rg_keys a)\<rparr>, [UndoLearnOwnerKey own]) else (a, []))"

definition spec_free :: "registry \<Rightarrow> domain_id \<Rightarrow> u64 \<Rightarrow> owner_id \<Rightarrow> bool" where
  "spec_free a i now claimant \<longleftrightarrow> rg_domain a i = None
     \<and> (case fmlookup (rg_grace a) i of None \<Rightarrow> True
        | Some (t, lapsed) \<Rightarrow> saturating_add t DOMAIN_GRACE_SECS \<le> now \<or> claimant = lapsed)"

definition spec_register :: "domain_id \<Rightarrow> owner_id \<Rightarrow> u64 \<Rightarrow> u64 \<Rightarrow> registry \<Rightarrow> registry" where
  "spec_register i own now until a =
     (set_entry i (DomainEntry \<lparr>ds_owner = own, ds_sequence = 0, ds_record_hash = None,
        ds_registered_at = now, ds_valid_until = until\<rparr>) a)\<lparr>rg_grace := fmdrop i (rg_grace a)\<rparr>"

fun spec_kind :: "crypto \<Rightarrow> transaction \<Rightarrow> u64 \<Rightarrow> registry \<Rightarrow> spec_result option" where
  "spec_kind cr (RegisterDomain tx) now a =
     do { t \<leftarrow> domain_tld (rd_name tx);
          case rg_tld a (tld_id_from_tld cr t) of
            None \<Rightarrow> Some (a, [], Inl UnknownTld)
          | Some tld \<Rightarrow>
              if \<not> ts_open tld then Some (a, [], Inl TldClosed)
              else if \<not> spec_free a (rd_domain_id tx) now (rd_owner tx) then Some (a, [], Inl DomainAlreadyRegistered)
              else case verify_pow cr (np_network_id (rg_network a)) (domain_challenge (rd_name tx)) (rd_proof tx)
                     (domain_pow_difficulty (rg_network a)) of
                Inl e \<Rightarrow> Some (a, [], Inl (Core e))
              | Inr _ \<Rightarrow>
                  do { until \<leftarrow> checked_add now DOMAIN_TERM_SECS;
                       let (a1, es) = spec_learn (rd_owner tx) (rd_public_key tx) a;
                       Some (spec_register (rd_domain_id tx) (rd_owner tx) now until a1,
                         es @ [UndoRegisterDomain (rd_domain_id tx) (fmlookup (rg_grace a) (rd_domain_id tx))], Inr ()) } }"
| "spec_kind cr (UpdateDomain tx) now a =
     (case rg_domain a (ud_domain_id tx) of
        None \<Rightarrow> Some (a, [], Inl UnknownDomain)
      | Some d \<Rightarrow>
          if ds_owner d \<noteq> ud_owner tx then Some (a, [], Inl NotOwner)
          else let (a1, es) = spec_learn (ud_owner tx) (ud_public_key tx) a in
            case checked_add (ds_sequence d) 1 of
              None \<Rightarrow> Some (a1, es, Inl (BcInvalidSequence (- 1) (ud_sequence tx)))
            | Some n \<Rightarrow>
                if ud_sequence tx \<noteq> n then Some (a1, es, Inl (BcInvalidSequence n (ud_sequence tx)))
                else Some (set_entry (ud_domain_id tx) (DomainEntry (norm_domain
                       (d\<lparr>ds_sequence := n, ds_record_hash := Some (ud_record_hash tx)\<rparr>))) a1,
                       es @ [UndoUpdateDomain (ud_domain_id tx) d], Inr ()))"
| "spec_kind cr (RegisterTld tx) now a =
     (if rg_tld a (rt_tld_id tx) \<noteq> None then Some (a, [], Inl TldAlreadyRegistered)
      else if rt_name tx \<in> set ICANN_TLDS then Some (a, [], Inl (IcannTldReserved (rt_name tx)))
      else case verify_pow cr (np_network_id (rg_network a)) (tld_challenge (rt_name tx)) (rt_proof tx)
             (tld_pow_difficulty (rg_network a)) of
        Inl e \<Rightarrow> Some (a, [], Inl (Core e))
      | Inr _ \<Rightarrow>
          let (a1, es) = spec_learn (rt_owner tx) (rt_public_key tx) a in
          Some (set_entry (rt_tld_id tx) (TldEntry (claimed_by (rt_owner tx))) a1,
            es @ [UndoRegisterTld (rt_tld_id tx)], Inr ()))"
| "spec_kind cr (TransferTld tx) now a =
     (case rg_tld a (tt_tld_id tx) of
        None \<Rightarrow> Some (a, [], Inl UnknownTld)
      | Some t \<Rightarrow>
          if ts_owner t \<noteq> tt_owner tx then Some (a, [], Inl NotTldOwner)
          else Some (set_entry (tt_tld_id tx) (TldEntry (t\<lparr>ts_owner := tt_new_owner tx\<rparr>)) a,
                 [UndoMutateTld (tt_tld_id tx) t], Inr ()))"
| "spec_kind cr (RevokeTld tx) now a =
     (case rg_tld a (rv_tld_id tx) of
        None \<Rightarrow> Some (a, [], Inl UnknownTld)
      | Some t \<Rightarrow>
          if ts_owner t \<noteq> rv_owner tx then Some (a, [], Inl NotTldOwner)
          else Some (del_entry (rv_tld_id tx) a, [UndoRevokeTld (rv_tld_id tx) t], Inr ()))"
| "spec_kind cr (SetTldOpen tx) now a =
     (case rg_tld a (so_tld_id tx) of
        None \<Rightarrow> Some (a, [], Inl UnknownTld)
      | Some t \<Rightarrow>
          if ts_owner t \<noteq> so_owner tx then Some (a, [], Inl NotTldOwner)
          else Some (set_entry (so_tld_id tx) (TldEntry (t\<lparr>ts_open := so_open tx\<rparr>)) a,
                 [UndoMutateTld (so_tld_id tx) t], Inr ()))"
| "spec_kind cr (AssignDomain tx) now a =
     do { t \<leftarrow> domain_tld (ad_name tx);
          case rg_tld a (tld_id_from_tld cr t) of
            None \<Rightarrow> Some (a, [], Inl UnknownTld)
          | Some tld \<Rightarrow>
              if ts_owner tld \<noteq> ad_owner tx then Some (a, [], Inl NotTldOwner)
              else if \<not> spec_free a (ad_domain_id tx) now (ad_assignee tx) then Some (a, [], Inl DomainAlreadyRegistered)
              else do { until \<leftarrow> checked_add now DOMAIN_TERM_SECS;
                        Some (spec_register (ad_domain_id tx) (ad_assignee tx) now until a,
                          [UndoRegisterDomain (ad_domain_id tx) (fmlookup (rg_grace a) (ad_domain_id tx))], Inr ()) } }"
| "spec_kind cr (RenewDomain tx) now a =
     (case rg_domain a (rn_domain_id tx) of
        None \<Rightarrow> Some (a, [], Inl UnknownDomain)
      | Some d \<Rightarrow>
          if ds_owner d \<noteq> rn_owner tx then Some (a, [], Inl NotOwner)
          else if rn_valid_until tx \<le> ds_valid_until d
            then Some (a, [], Inl (RenewalNotExtending (ds_valid_until d) (rn_valid_until tx)))
          else if saturating_add now DOMAIN_MAX_HORIZON_SECS < rn_valid_until tx
            then Some (a, [], Inl (RenewalExceedsTerm (saturating_add now DOMAIN_MAX_HORIZON_SECS) (rn_valid_until tx)))
          else Some (set_entry (rn_domain_id tx) (DomainEntry (d\<lparr>ds_valid_until := rn_valid_until tx\<rparr>)) a,
                 [UndoRenewDomain (rn_domain_id tx) d], Inr ()))"
| "spec_kind cr (TransferDomain tx) now a =
     (case rg_domain a (td_domain_id tx) of
        None \<Rightarrow> Some (a, [], Inl UnknownDomain)
      | Some d \<Rightarrow>
          if ds_owner d \<noteq> td_owner tx then Some (a, [], Inl NotOwner)
          else Some (set_entry (td_domain_id tx) (DomainEntry (d\<lparr>ds_owner := td_new_owner tx\<rparr>)) a,
                 [UndoTransferDomain (td_domain_id tx) d], Inr ()))"
| "spec_kind cr (Slash tx) now a =
     (if sl_offender tx \<notin> rg_pool a then Some (a, [], Inl SlashOffenderNotInPool)
      else Some (a\<lparr>rg_banned := finsert (sl_offender tx) (rg_banned a)\<rparr>, [UndoBanAnchor (sl_offender tx)], Inr ()))"

definition spec_apply :: "crypto \<Rightarrow> transaction \<Rightarrow> u64 \<Rightarrow> registry \<Rightarrow> spec_result option" where
  "spec_apply cr tx now a =
     (case tx_validate cr tx of
        Inl e \<Rightarrow> Some (a, [], Inl (Core e))
      | Inr _ \<Rightarrow>
          if tx_network tx \<noteq> np_network_id (rg_network a)
          then Some (a, [], Inl (WrongNetwork (tx_network tx) (np_network_id (rg_network a))))
          else spec_kind cr tx now a)"

section \<open>Reversible steps\<close>

inductive astep :: "registry \<Rightarrow> undo_entry \<Rightarrow> registry \<Rightarrow> bool" where
  Register: "fmlookup (rg_entries a) i = None \<Longrightarrow> norm_domain d = d \<Longrightarrow> g = fmlookup (rg_grace a) i \<Longrightarrow>
    astep a (UndoRegisterDomain i g) ((set_entry i (DomainEntry d) a)\<lparr>rg_grace := fmdrop i (rg_grace a)\<rparr>)"
| Update: "fmlookup (rg_entries a) i = Some (DomainEntry p) \<Longrightarrow> norm_domain d = d \<Longrightarrow>
    ds_owner d = ds_owner p \<Longrightarrow> ds_valid_until d = ds_valid_until p \<Longrightarrow>
    astep a (UndoUpdateDomain i p) (set_entry i (DomainEntry d) a)"
| Claim: "fmlookup (rg_entries a) i = None \<Longrightarrow> astep a (UndoRegisterTld i) (set_entry i (TldEntry t) a)"
| Mutate: "fmlookup (rg_entries a) i = Some (TldEntry p) \<Longrightarrow>
    astep a (UndoMutateTld i p) (set_entry i (TldEntry t) a)"
| Revoke: "fmlookup (rg_entries a) i = Some (TldEntry p) \<Longrightarrow> astep a (UndoRevokeTld i p) (del_entry i a)"
| Renew: "fmlookup (rg_entries a) i = Some (DomainEntry p) \<Longrightarrow> norm_domain d = d \<Longrightarrow>
    ds_owner d = ds_owner p \<Longrightarrow> astep a (UndoRenewDomain i p) (set_entry i (DomainEntry d) a)"
| Transfer: "fmlookup (rg_entries a) i = Some (DomainEntry p) \<Longrightarrow> norm_domain d = d \<Longrightarrow>
    ds_valid_until d = ds_valid_until p \<Longrightarrow> astep a (UndoTransferDomain i p) (set_entry i (DomainEntry d) a)"
| Expire: "fmlookup (rg_entries a) i = Some (DomainEntry p) \<Longrightarrow> fmlookup (rg_grace a) i = None \<Longrightarrow>
    astep a (UndoExpireDomain i p)
      ((del_entry i a)\<lparr>rg_grace := fmupd i (ds_valid_until p, ds_owner p) (rg_grace a)\<rparr>)"
| Learn: "fmlookup (rg_keys a) own = None \<Longrightarrow>
    astep a (UndoLearnOwnerKey own) (a\<lparr>rg_keys := fmupd own pk (rg_keys a)\<rparr>)"
| Ban: "pk |\<notin>| rg_banned a \<Longrightarrow>
    astep a (UndoBanAnchor pk) (a\<lparr>rg_banned := finsert pk (rg_banned a)\<rparr>)"

inductive_cases astep_RegisterE: "astep a (UndoRegisterDomain i g) b"
inductive_cases astep_UpdateE: "astep a (UndoUpdateDomain i p) b"
inductive_cases astep_ClaimE: "astep a (UndoRegisterTld i) b"
inductive_cases astep_MutateE: "astep a (UndoMutateTld i p) b"
inductive_cases astep_RevokeE: "astep a (UndoRevokeTld i p) b"
inductive_cases astep_RenewE: "astep a (UndoRenewDomain i p) b"
inductive_cases astep_TransferE: "astep a (UndoTransferDomain i p) b"
inductive_cases astep_ExpireE: "astep a (UndoExpireDomain i p) b"
inductive_cases astep_LearnE: "astep a (UndoLearnOwnerKey own) b"
inductive_cases astep_BanE: "astep a (UndoBanAnchor pk) b"

text \<open>A journal: steps in order. All states on the way satisfy \<open>P\<close>.\<close>

inductive asteps :: "(registry \<Rightarrow> bool) \<Rightarrow> registry \<Rightarrow> undo_log \<Rightarrow> registry \<Rightarrow> bool" for P where
  Nil: "P a \<Longrightarrow> asteps P a [] a"
| Snoc: "asteps P a es b \<Longrightarrow> astep b e c \<Longrightarrow> P c \<Longrightarrow> asteps P a (es @ [e]) c"

lemma asteps_start: "asteps P a es b \<Longrightarrow> P a"
  by (induction rule: asteps.induct) auto

lemma asteps_end: "asteps P a es b \<Longrightarrow> P b"
  by (induction rule: asteps.induct) auto

lemma asteps_append: "asteps P b fs c \<Longrightarrow> asteps P a es b \<Longrightarrow> asteps P a (es @ fs) c"
proof (induction rule: asteps.induct)
  case (Snoc b fs c e d)
  then show ?case using asteps.Snoc [of P a "es @ fs" c e d] by simp
qed simp

lemma asteps_one: "P a \<Longrightarrow> astep a e b \<Longrightarrow> P b \<Longrightarrow> asteps P a [e] b"
  using asteps.Snoc [OF asteps.Nil, of P a e b] by simp

end
