(* ===== verification/Scone_State_Inv.thy ===== *)
theory Scone_State_Inv
  imports Scone_Registry
begin

text \<open>
  The representation relation between the chain state of \<^verbatim>\<open>state.rs\<close> and the abstract registry:
  the backend holds the encodings of the entries, the counters count them, the owner index holds
  the number of live entries of each owner, the expiration queue holds every live domain under its
  expiry and nothing else, and the sparse Merkle tree is the canonical tree of the entry leaves.
  Each index has one lemma for an entry that appears and one for an entry that disappears; a
  changed entry is both.
\<close>

section \<open>Entry encodings\<close>

lemma list_all_zero: "list_all (\<lambda>b. b = 0) bs \<longleftrightarrow> bs = replicate (length bs) 0"
  by (induction bs) auto

lemma h32_zero: "h32_bytes 0 = replicate 32 0"
  by (simp add: be_bytes_def numeral_eq_Suc)

lemma h32_zero_iff: "h32_bytes h = replicate 32 0 \<longleftrightarrow> h = 0"
  unfolding h32_zero [symmetric] by (subst be_bytes_inject) auto

text \<open>Reading an entry back gives the entry, a zero record hash being no record hash.\<close>

lemma decode_encode_domain: "decode_domain_entry (encode_domain_entry d) = Some (norm_domain d)"
proof -
  have "h32_of_bytes (h32_bytes h) = h" for h by (simp add: from_be_be_bytes)
  moreover have "from_le_bytes (u64_le w) = w" for w :: u64 by (simp add: from_le_le_bytes)
  ultimately show ?thesis
    by (auto simp: decode_domain_entry_def encode_domain_entry_def DOMAIN_ENTRY_LEN_def norm_domain_def
        list_all_zero h32_zero h32_zero_iff split: option.splits)
qed

lemma decode_encode_tld: "decode_tld_entry (encode_tld_entry t) = Some t"
  by (simp add: decode_tld_entry_def encode_tld_entry_def TLD_ENTRY_LEN_def from_be_be_bytes nth_append)

lemma decode_cross [simp]:
  "decode_domain_entry (encode_tld_entry t) = None" "decode_tld_entry (encode_domain_entry d) = None"
  by (auto simp: decode_domain_entry_def encode_tld_entry_def DOMAIN_ENTRY_LEN_def decode_tld_entry_def
      encode_domain_entry_def TLD_ENTRY_LEN_def split: option.splits)

lemma norm_domain_idem [simp]: "norm_domain (norm_domain d) = norm_domain d"
  by (simp add: norm_domain_def)

lemma norm_domain_simps [simp]:
  "ds_owner (norm_domain d) = ds_owner d" "ds_sequence (norm_domain d) = ds_sequence d"
  "ds_registered_at (norm_domain d) = ds_registered_at d" "ds_valid_until (norm_domain d) = ds_valid_until d"
  by (simp_all add: norm_domain_def)

lemma norm_domain_fields [simp]:
  "norm_domain (d\<lparr>ds_valid_until := v\<rparr>) = (norm_domain d)\<lparr>ds_valid_until := v\<rparr>"
  "norm_domain (d\<lparr>ds_owner := own\<rparr>) = (norm_domain d)\<lparr>ds_owner := own\<rparr>"
  by (simp_all add: norm_domain_def)

lemma norm_domain_None [simp]: "ds_record_hash d = None \<Longrightarrow> norm_domain d = d"
  by (simp add: norm_domain_def)

lemma encode_norm: "encode_domain_entry (norm_domain d) = encode_domain_entry d"
  by (auto simp: encode_domain_entry_def norm_domain_def h32_zero split: option.splits)

lemma leaf_norm: "domain_leaf_v2 cr i (norm_domain d) = domain_leaf_v2 cr i d"
  by (auto simp: domain_leaf_v2_def norm_domain_def h32_zero split: option.splits)

fun enc :: "entry \<Rightarrow> bytes" where
  "enc (DomainEntry d) = encode_domain_entry d"
| "enc (TldEntry t) = encode_tld_entry t"

fun leaf :: "crypto \<Rightarrow> hash32 \<Rightarrow> entry \<Rightarrow> hash32" where
  "leaf cr i (DomainEntry d) = domain_leaf_v2 cr i d"
| "leaf cr i (TldEntry t) = tld_leaf_v2 cr i t"

fun normal :: "entry \<Rightarrow> bool" where
  "normal (DomainEntry d) \<longleftrightarrow> norm_domain d = d"
| "normal (TldEntry t) \<longleftrightarrow> True"

type_synonym entries = "(hash32, entry) fmap"

section \<open>Counters\<close>

definition domain_ids :: "entries \<Rightarrow> hash32 set" where
  "domain_ids E = {i. \<exists>d. fmlookup E i = Some (DomainEntry d)}"

definition tld_ids :: "entries \<Rightarrow> hash32 set" where
  "tld_ids E = {i. \<exists>t. fmlookup E i = Some (TldEntry t)}"

lemma finite_ids [simp]: "finite (domain_ids E)" "finite (tld_ids E)"
  by (rule finite_subset [OF _ finite_fset [of "fmdom E"]]; auto simp: domain_ids_def tld_ids_def fmdomI)+

lemma ids_upd [simp]:
  "domain_ids (fmupd i (DomainEntry d) E) = insert i (domain_ids E)"
  "domain_ids (fmupd i (TldEntry t) E) = domain_ids E - {i}"
  "tld_ids (fmupd i (TldEntry t) E) = insert i (tld_ids E)"
  "tld_ids (fmupd i (DomainEntry d) E) = tld_ids E - {i}"
  by (auto simp: domain_ids_def tld_ids_def)

lemma ids_drop [simp]:
  "domain_ids (fmdrop i E) = domain_ids E - {i}" "tld_ids (fmdrop i E) = tld_ids E - {i}"
  by (auto simp: domain_ids_def tld_ids_def)

lemma ids_mem:
  "fmlookup E i = Some (DomainEntry d) \<Longrightarrow> i \<in> domain_ids E \<and> i \<notin> tld_ids E"
  "fmlookup E i = Some (TldEntry t) \<Longrightarrow> i \<in> tld_ids E \<and> i \<notin> domain_ids E"
  "fmlookup E i = None \<Longrightarrow> i \<notin> tld_ids E \<and> i \<notin> domain_ids E"
  by (auto simp: domain_ids_def tld_ids_def)

lemma card_Suc_remove:
  assumes "finite A" "i \<in> A" obtains n where "card A = Suc n" "card (A - {i}) = n"
  using card_Suc_Diff1 [OF assms] by metis

section \<open>The owner index\<close>

definition owned :: "entries \<Rightarrow> owner_id \<Rightarrow> hash32 set" where
  "owned E own = {i. \<exists>e. fmlookup E i = Some e \<and> entry_owner e = own}"

definition refs_ok :: "entries \<Rightarrow> (owner_id, nat) fmap \<Rightarrow> bool" where
  "refs_ok E m \<longleftrightarrow> (\<forall>own. fmlookup m own = (if owned E own = {} then None else Some (card (owned E own))))"

lemma finite_owned [simp]: "finite (owned E own)"
  by (rule finite_subset [OF _ finite_fset [of "fmdom E"]]) (auto simp: owned_def fmdomI)

lemma owned_upd:
  "fmlookup E i = None \<Longrightarrow>
     owned (fmupd i e E) own = (if own = entry_owner e then insert i (owned E own) else owned E own)"
  by (auto simp: owned_def)

lemma owned_drop:
  "fmlookup E i = Some e \<Longrightarrow>
     owned (fmdrop i E) own = (if own = entry_owner e then owned E own - {i} else owned E own)"
  by (auto simp: owned_def)

lemma owned_replace:
  "fmlookup E i = Some e \<Longrightarrow> entry_owner e' = entry_owner e \<Longrightarrow> owned (fmupd i e' E) = owned E"
  by (auto simp: owned_def fun_eq_iff split: if_splits)

lemma refs_acquire_ok:
  assumes "refs_ok E m" "fmlookup E i = None"
  shows "refs_ok (fmupd i e E) (refs_acquire (entry_owner e) m)"
proof -
  have "i \<notin> owned E own" for own using assms(2) by (simp add: owned_def)
  then show ?thesis using assms
    by (auto simp: refs_ok_def refs_acquire_def owned_upd)
qed

lemma refs_release_ok:
  assumes "refs_ok E m" "fmlookup E i = Some e"
  shows "refs_ok (fmdrop i E) (refs_release (entry_owner e) m)"
proof -
  have i: "i \<in> owned E (entry_owner e)" using assms(2) by (auto simp: owned_def)
  have 1: "owned E (entry_owner e) - {i} = {} \<longleftrightarrow> card (owned E (entry_owner e)) - Suc 0 = 0"
    using i by (metis One_nat_def card_Diff_singleton card_0_eq finite_Diff finite_owned)
  show ?thesis using assms i 1
    by (auto simp: refs_ok_def refs_release_def owned_drop Let_def)
qed

lemma refs_replace_ok:
  "refs_ok E m \<Longrightarrow> fmlookup E i = Some e \<Longrightarrow> entry_owner e' = entry_owner e \<Longrightarrow> refs_ok (fmupd i e' E) m"
  by (simp add: refs_ok_def owned_replace)

lemma refs_ok_unique: "refs_ok E m \<Longrightarrow> refs_ok E m' \<Longrightarrow> m = m'"
  by (intro fmap_ext) (simp add: refs_ok_def)

lemma fmupd_fmdrop [simp]: "fmupd i e (fmdrop i E) = fmupd i e E"
  by (intro fmap_ext) simp

section \<open>The expiration queue\<close>

definition slot :: "(u64, domain_id fset) fmap \<Rightarrow> u64 \<Rightarrow> domain_id fset" where
  "slot m u = (case fmlookup m u of None \<Rightarrow> {||} | Some ids \<Rightarrow> ids)"

definition due :: "entries \<Rightarrow> domain_id \<Rightarrow> u64 \<Rightarrow> bool" where
  "due E i u \<longleftrightarrow> (\<exists>d. fmlookup E i = Some (DomainEntry d) \<and> ds_valid_until d = u)"

lemma due_code [code]:
  "due E i u \<longleftrightarrow> (case fmlookup E i of Some (DomainEntry d) \<Rightarrow> ds_valid_until d = u | _ \<Rightarrow> False)"
  by (auto simp: due_def split: option.splits entry.splits)

definition exps_ok :: "entries \<Rightarrow> (u64, domain_id fset) fmap \<Rightarrow> bool" where
  "exps_ok E m \<longleftrightarrow> (\<forall>u i. i |\<in>| slot m u \<longleftrightarrow> due E i u) \<and> (\<forall>u. fmlookup m u \<noteq> Some {||})"

lemma slot_enqueue: "slot (exp_enqueue u i m) v = (if v = u then finsert i (slot m u) else slot m v)"
  by (simp add: slot_def exp_enqueue_def)

lemma slot_dequeue: "slot (exp_dequeue u i m) v = (if v = u then slot m u |-| {|i|} else slot m v)"
  by (auto simp: slot_def exp_dequeue_def Let_def split: option.splits)

lemma slots_nonempty:
  "\<forall>u. fmlookup m u \<noteq> Some {||} \<Longrightarrow> fmlookup (exp_enqueue u i m) v \<noteq> Some {||}"
  "\<forall>u. fmlookup m u \<noteq> Some {||} \<Longrightarrow> fmlookup (exp_dequeue u i m) v \<noteq> Some {||}"
  by (auto simp: exp_enqueue_def exp_dequeue_def Let_def split: option.splits)

lemma due_upd:
  "due (fmupd i (DomainEntry d) E) j u \<longleftrightarrow> (if j = i then ds_valid_until d = u else due E j u)"
  "due (fmupd i (TldEntry t) E) j u \<longleftrightarrow> j \<noteq> i \<and> due E j u"
  "due (fmdrop i E) j u \<longleftrightarrow> j \<noteq> i \<and> due E j u"
  by (auto simp: due_def)

lemma exp_enqueue_ok:
  assumes "exps_ok E m" "fmlookup E i = None"
  shows "exps_ok (fmupd i (DomainEntry d) E) (exp_enqueue (ds_valid_until d) i m)"
proof -
  have "\<not> due E i u" for u using assms(2) by (simp add: due_def)
  then show ?thesis using assms(1) slots_nonempty(1) by (auto simp: exps_ok_def due_upd slot_enqueue)
qed

lemma exp_dequeue_ok:
  assumes "exps_ok E m" "fmlookup E i = Some (DomainEntry d)"
  shows "exps_ok (fmdrop i E) (exp_dequeue (ds_valid_until d) i m)"
proof -
  have "due E i u \<longleftrightarrow> u = ds_valid_until d" for u using assms(2) by (auto simp: due_def)
  then show ?thesis using assms(1) slots_nonempty(2) by (auto simp: exps_ok_def due_upd slot_dequeue)
qed

lemma exps_ok_cong: "(\<And>i u. due E i u \<longleftrightarrow> due E' i u) \<Longrightarrow> exps_ok E m \<Longrightarrow> exps_ok E' m"
  by (simp add: exps_ok_def)

lemma exps_replace_ok:
  "exps_ok E m \<Longrightarrow> fmlookup E i = Some (DomainEntry d) \<Longrightarrow> ds_valid_until d' = ds_valid_until d \<Longrightarrow>
     exps_ok (fmupd i (DomainEntry d') E) m"
  by (erule exps_ok_cong [rotated]) (auto simp: due_def)

lemma exps_tld_ok:
  "exps_ok E m \<Longrightarrow> i \<notin> domain_ids E \<Longrightarrow> exps_ok (fmupd i (TldEntry t) E) m"
  "exps_ok E m \<Longrightarrow> i \<notin> domain_ids E \<Longrightarrow> exps_ok (fmdrop i E) m"
  by (erule exps_ok_cong [rotated], auto simp: due_def domain_ids_def)+

lemma exps_ok_unique:
  assumes "exps_ok E m" "exps_ok E m'" shows "m = m'"
proof (rule fmap_ext)
  fix u
  have "slot m u = slot m' u" using assms by (auto simp: exps_ok_def)
  then show "fmlookup m u = fmlookup m' u" using assms
    by (auto simp: exps_ok_def slot_def split: option.splits)
qed

section \<open>The tree\<close>

definition leaves :: "crypto \<Rightarrow> entries \<Rightarrow> u64 \<Rightarrow> hash32 set" where
  "leaves cr E k = {leaf cr i e | i e. fmlookup E i = Some e \<and> smt_key i = k}"

text \<open>No two live entries share a leaf hash: the entries exhibit no hash collision.\<close>

definition leaves_distinct :: "crypto \<Rightarrow> entries \<Rightarrow> bool" where
  "leaves_distinct cr E \<longleftrightarrow> (\<forall>i j e f. fmlookup E i = Some e \<longrightarrow> fmlookup E j = Some f \<longrightarrow>
     leaf cr i e = leaf cr j f \<longrightarrow> i = j)"

lemma leaves_distinct_code [code]:
  "leaves_distinct cr E \<longleftrightarrow> (\<forall>i\<in>fset (fmdom E). \<forall>j\<in>fset (fmdom E).
     leaf cr i (the (fmlookup E i)) = leaf cr j (the (fmlookup E j)) \<longrightarrow> i = j)"
  by (auto simp: leaves_distinct_def fmlookup_dom_iff)

definition tree_ok :: "crypto \<Rightarrow> entries \<Rightarrow> smt \<Rightarrow> bool" where
  "tree_ok cr E t \<longleftrightarrow> canon cr t \<and> content t = leaves cr E"

lemma leaves_upd:
  "fmlookup E i = None \<Longrightarrow>
     leaves cr (fmupd i e E) = (leaves cr E)(smt_key i := insert (leaf cr i e) (leaves cr E (smt_key i)))"
  by (auto simp: leaves_def fun_eq_iff split: if_splits) (metis option.distinct(1))

lemma leaves_drop:
  assumes "leaves_distinct cr E" "fmlookup E i = Some e"
  shows "leaves cr (fmdrop i E) = (leaves cr E)(smt_key i := leaves cr E (smt_key i) - {leaf cr i e})"
proof -
  have "leaf cr j f \<noteq> leaf cr i e" if "fmlookup E j = Some f" "j \<noteq> i" for j f
    using assms that by (auto simp: leaves_distinct_def)
  then show ?thesis using assms(2) by (auto simp: leaves_def fun_eq_iff)
qed

lemma tree_insert:
  assumes "tree_ok cr E t" "fmlookup E i = None"
  shows "\<exists>t'. smt_insert cr t (smt_key i) (leaf cr i e) = Some t' \<and> tree_ok cr (fmupd i e E) t'"
  using smt.ins_ok [of cr t "smt_key i" "leaf cr i e"] assms by (auto simp: tree_ok_def leaves_upd)

lemma tree_remove:
  assumes "tree_ok cr E t" "fmlookup E i = Some e" "leaves_distinct cr E"
  shows "\<exists>t'. smt_remove cr t (smt_key i) (leaf cr i e) = Some t' \<and> tree_ok cr (fmdrop i E) t'"
  using smt.del_ok [of cr t "smt_key i" "leaf cr i e"] assms by (auto simp: tree_ok_def leaves_drop)

lemma tree_replace:
  assumes "tree_ok cr E t" "fmlookup E i = Some e" "leaves_distinct cr E"
  shows "\<exists>t1 t'. smt_remove cr t (smt_key i) (leaf cr i e) = Some t1
    \<and> smt_insert cr t1 (smt_key i) (leaf cr i e') = Some t' \<and> tree_ok cr (fmupd i e' E) t'"
proof -
  obtain t1 where t1: "smt_remove cr t (smt_key i) (leaf cr i e) = Some t1" "tree_ok cr (fmdrop i E) t1"
    using tree_remove [OF assms] by blast
  show ?thesis using t1 tree_insert [OF t1(2), of i e'] by simp
qed

lemma tree_ok_unique: "tree_ok cr E t \<Longrightarrow> tree_ok cr E t' \<Longrightarrow> smt_eq t t'"
  by (auto simp: tree_ok_def intro: smt.canonical)

section \<open>The representation relation\<close>

lemma fmmap_upd [simp]: "fmmap f (fmupd k v m) = fmupd k (f v) (fmmap f m)"
  by (intro fmap_ext) simp

definition all_normal :: "entries \<Rightarrow> bool" where
  "all_normal E \<longleftrightarrow> (\<forall>i e. fmlookup E i = Some e \<longrightarrow> normal e)"

lemma all_normal_simps [simp]:
  "all_normal E \<Longrightarrow> normal e \<Longrightarrow> all_normal (fmupd i e E)" "all_normal E \<Longrightarrow> all_normal (fmdrop i E)"
  "all_normal fmempty"
  by (auto simp: all_normal_def)

lemma all_normal_lookup: "all_normal E \<Longrightarrow> fmlookup E i = Some e \<Longrightarrow> normal e"
  by (auto simp: all_normal_def)

text \<open>
  \<open>store_ok cr E Q s\<close>: the state \<open>s\<close> stores the entries \<open>E\<close>, its expiration queue holding the
  domains of \<open>Q\<close> (all of \<open>E\<close>, except while garbage collection is emptying a slot).
\<close>

definition store_ok :: "crypto \<Rightarrow> entries \<Rightarrow> entries \<Rightarrow> chain_state \<Rightarrow> bool" where
  "store_ok cr E Q s \<longleftrightarrow> mb_entries (cs_backend s) = fmmap enc E
     \<and> all_normal E
     \<and> domain_count s = card (domain_ids E) \<and> tld_count s = card (tld_ids E)
     \<and> refs_ok E (owner_refcounts s) \<and> exps_ok Q (expirations s) \<and> tree_ok cr E (cs_smt s)"

definition rep :: "crypto \<Rightarrow> chain_state \<Rightarrow> registry \<Rightarrow> bool" where
  "rep cr s a \<longleftrightarrow> cs_network s = rg_network a \<and> owner_keys s = rg_keys a \<and> grace s = rg_grace a
     \<and> banned s = rg_banned a \<and> store_ok cr (rg_entries a) (rg_entries a) s"

lemma rep_simps:
  assumes "rep cr s a"
  shows "cs_network s = rg_network a" "owner_keys s = rg_keys a" "grace s = rg_grace a" "banned s = rg_banned a"
  using assms by (simp_all add: rep_def)

lemma store_domain:
  "store_ok cr E Q s \<Longrightarrow> state_domain s i = (case fmlookup E i of Some (DomainEntry d) \<Rightarrow> Some d | _ \<Rightarrow> None)"
  by (auto simp: state_domain_def store_ok_def backend_get_def domain_key_def decode_encode_domain
      split: option.splits entry.splits) (metis all_normal_lookup normal.simps(1))

lemma store_tld:
  "store_ok cr E Q s \<Longrightarrow> state_tld s i = (case fmlookup E i of Some (TldEntry t) \<Rightarrow> Some t | _ \<Rightarrow> None)"
  by (auto simp: state_tld_def store_ok_def backend_get_def tld_key_def decode_encode_tld
      split: option.splits entry.splits)

lemma rep_domain: "rep cr s a \<Longrightarrow> state_domain s i = rg_domain a i"
  unfolding rep_def rg_domain_def by (blast intro: store_domain)

lemma rep_tld: "rep cr s a \<Longrightarrow> state_tld s i = rg_tld a i"
  unfolding rep_def rg_tld_def by (blast intro: store_tld)

lemma rep_new: "rep cr (for_network network) (registry_new network)"
  by (auto simp: rep_def store_ok_def for_network_def registry_new_def backend_new_def domain_ids_def
      tld_ids_def refs_ok_def owned_def exps_ok_def slot_def due_def tree_ok_def leaves_def
      canon_new smt.cont_emp)

text \<open>The registry determines the state, up to the bookkeeping that \<^verbatim>\<open>PartialEq for Smt\<close> ignores.\<close>

definition state_eq :: "chain_state \<Rightarrow> chain_state \<Rightarrow> bool" where
  "state_eq s s' \<longleftrightarrow> smt_eq (cs_smt s) (cs_smt s') \<and> s\<lparr>cs_smt := smt_new\<rparr> = s'\<lparr>cs_smt := smt_new\<rparr>"

lemma rep_unique:
  assumes "rep cr s a" "rep cr s' a"
  shows "state_eq s s'"
proof -
  have "cs_backend s = cs_backend s'"
    using assms by (intro memory_backend.equality) (simp_all add: rep_def store_ok_def)
  moreover have "owner_refcounts s = owner_refcounts s'" "expirations s = expirations s'"
    "smt_eq (cs_smt s) (cs_smt s')"
    using assms by (auto simp: rep_def store_ok_def intro: refs_ok_unique exps_ok_unique tree_ok_unique)
  ultimately show ?thesis using assms by (simp add: state_eq_def rep_def store_ok_def)
qed

end
