(* ===== verification/Scone_State_Refine.thy ===== *)
theory Scone_State_Refine
  imports Scone_State_Inv
begin

text \<open>
  The chain state refines the registry. Every transaction applied to a state that represents a
  registry does what the rule book of the registry says, with the same result, the same journal
  and the same panics; and undoing a journal goes back to the registry the journal started from.
\<close>

section \<open>The tree updates of the state\<close>

lemmas state_ops = put_domain_entry_def remove_domain_entry_def put_tld_entry_def remove_tld_entry_def
  owner_acquire_def owner_release_def expiration_enqueue_def expiration_dequeue_def
  inc_domains_def dec_domains_def inc_tlds_def dec_tlds_def dec_def domain_key_def tld_key_def
  backend_put_def backend_delete_def

lemma store_tree: "store_ok cr E Q s \<Longrightarrow> tree_ok cr E (cs_smt s)"
  by (simp add: store_ok_def)

lemma smt_put_domain_new:
  assumes "store_ok cr E Q s" "fmlookup E i = None"
  shows "\<exists>t. smt_put_domain cr i None d s = Some (s\<lparr>cs_smt := t\<rparr>) \<and> tree_ok cr (fmupd i (DomainEntry d) E) t"
  using tree_insert [OF store_tree [OF assms(1)] assms(2), of "DomainEntry d"]
  by (auto simp: smt_put_domain_def with_smt_def)

lemma smt_put_domain_old:
  assumes "store_ok cr E Q s" "fmlookup E i = Some (DomainEntry p)" "leaves_distinct cr E"
  shows "\<exists>t. smt_put_domain cr i (Some p) d s = Some (s\<lparr>cs_smt := t\<rparr>)
    \<and> tree_ok cr (fmupd i (DomainEntry (norm_domain d)) E) t"
  using tree_replace [OF store_tree [OF assms(1)] assms(2,3), of "DomainEntry (norm_domain d)"]
  by (auto simp: smt_put_domain_def with_smt_def leaf_norm)

lemma smt_remove_domain_old:
  assumes "store_ok cr E Q s" "fmlookup E i = Some (DomainEntry p)" "leaves_distinct cr E"
  shows "\<exists>t. smt_remove_domain cr i p s = Some (s\<lparr>cs_smt := t\<rparr>) \<and> tree_ok cr (fmdrop i E) t"
  using tree_remove [OF store_tree [OF assms(1)] assms(2,3)]
  by (auto simp: smt_remove_domain_def with_smt_def)

lemma smt_insert_tld_new:
  assumes "store_ok cr E Q s" "fmlookup E i = None"
  shows "\<exists>t'. smt_insert_tld cr i t s = Some (s\<lparr>cs_smt := t'\<rparr>) \<and> tree_ok cr (fmupd i (TldEntry t) E) t'"
  using tree_insert [OF store_tree [OF assms(1)] assms(2), of "TldEntry t"]
  by (auto simp: smt_insert_tld_def with_smt_def)

lemma smt_put_tld_old:
  assumes "store_ok cr E Q s" "fmlookup E i = Some (TldEntry p)" "leaves_distinct cr E"
  shows "\<exists>t'. smt_put_tld cr i p t s = Some (s\<lparr>cs_smt := t'\<rparr>) \<and> tree_ok cr (fmupd i (TldEntry t) E) t'"
  using tree_replace [OF store_tree [OF assms(1)] assms(2,3), of "TldEntry t"]
  by (auto simp: smt_put_tld_def with_smt_def)

lemma smt_remove_tld_old:
  assumes "store_ok cr E Q s" "fmlookup E i = Some (TldEntry p)" "leaves_distinct cr E"
  shows "\<exists>t. smt_remove_tld cr i p s = Some (s\<lparr>cs_smt := t\<rparr>) \<and> tree_ok cr (fmdrop i E) t"
  using tree_remove [OF store_tree [OF assms(1)] assms(2,3)]
  by (auto simp: smt_remove_tld_def with_smt_def)

section \<open>Entries that appear, change and disappear\<close>

lemma add_domain:
  assumes "store_ok cr E E s" "fmlookup E i = None" "norm_domain d = d"
  shows "\<exists>t. smt_put_domain cr i None d s = Some (s\<lparr>cs_smt := t\<rparr>)
    \<and> store_ok cr (fmupd i (DomainEntry d) E) (fmupd i (DomainEntry d) E)
        (owner_acquire (ds_owner d) (expiration_enqueue (ds_valid_until d) i
          (inc_domains (put_domain_entry i d (s\<lparr>cs_smt := t\<rparr>)))))"
proof -
  obtain t where t: "smt_put_domain cr i None d s = Some (s\<lparr>cs_smt := t\<rparr>)"
    "tree_ok cr (fmupd i (DomainEntry d) E) t"
    using smt_put_domain_new [OF assms(1,2)] by blast
  have "i \<notin> domain_ids E" "i \<notin> tld_ids E" using ids_mem(3) [OF assms(2)] by auto
  then have "store_ok cr (fmupd i (DomainEntry d) E) (fmupd i (DomainEntry d) E)
        (owner_acquire (ds_owner d) (expiration_enqueue (ds_valid_until d) i
          (inc_domains (put_domain_entry i d (s\<lparr>cs_smt := t\<rparr>)))))"
    using assms t(2) refs_acquire_ok [of E "owner_refcounts s" i "DomainEntry d"]
      exp_enqueue_ok [of E "expirations s" i d]
    by (simp add: store_ok_def state_ops)
  then show ?thesis using t(1) by blast
qed

lemma drop_domain:
  assumes "store_ok cr E E s" "fmlookup E i = Some (DomainEntry d)" "leaves_distinct cr E"
  shows "\<exists>t n. smt_remove_domain cr i d s = Some (s\<lparr>cs_smt := t\<rparr>) \<and> domain_count s = Suc n
    \<and> store_ok cr (fmdrop i E) (fmdrop i E)
        (owner_release (ds_owner d) (expiration_dequeue (ds_valid_until d) i
          ((remove_domain_entry i (s\<lparr>cs_smt := t\<rparr>))\<lparr>domain_count := n\<rparr>)))"
proof -
  obtain t where t: "smt_remove_domain cr i d s = Some (s\<lparr>cs_smt := t\<rparr>)" "tree_ok cr (fmdrop i E) t"
    using smt_remove_domain_old [OF assms] by blast
  have i: "i \<in> domain_ids E" "i \<notin> tld_ids E" using ids_mem(1) [OF assms(2)] by auto
  obtain n where "card (domain_ids E) = Suc n" "card (domain_ids E - {i}) = n"
    using card_Suc_remove [OF _ i(1)] by auto
  moreover have "refs_ok (fmdrop i E) (refs_release (ds_owner d) (owner_refcounts s))"
    "exps_ok (fmdrop i E) (exp_dequeue (ds_valid_until d) i (expirations s))"
    using assms refs_release_ok [of E "owner_refcounts s" i "DomainEntry d"]
      exp_dequeue_ok [of E "expirations s" i d] by (simp_all add: store_ok_def)
  ultimately show ?thesis using assms t i
    by (intro exI [of _ t] exI [of _ n]) (simp add: store_ok_def state_ops)
qed


lemma add_tld:
  assumes "store_ok cr E E s" "fmlookup E i = None"
  shows "\<exists>u. smt_insert_tld cr i t s = Some (s\<lparr>cs_smt := u\<rparr>)
    \<and> store_ok cr (fmupd i (TldEntry t) E) (fmupd i (TldEntry t) E)
        (owner_acquire (ts_owner t) (inc_tlds (put_tld_entry i t (s\<lparr>cs_smt := u\<rparr>))))"
proof -
  obtain u where u: "smt_insert_tld cr i t s = Some (s\<lparr>cs_smt := u\<rparr>)" "tree_ok cr (fmupd i (TldEntry t) E) u"
    using smt_insert_tld_new [OF assms] by blast
  have "i \<notin> domain_ids E" "i \<notin> tld_ids E" using ids_mem(3) [OF assms(2)] by auto
  then have "store_ok cr (fmupd i (TldEntry t) E) (fmupd i (TldEntry t) E)
        (owner_acquire (ts_owner t) (inc_tlds (put_tld_entry i t (s\<lparr>cs_smt := u\<rparr>))))"
    using assms u(2) refs_acquire_ok [of E "owner_refcounts s" i "TldEntry t"]
      exps_tld_ok(1) [of E "expirations s" i t]
    by (simp add: store_ok_def state_ops)
  then show ?thesis using u(1) by blast
qed

lemma drop_tld:
  assumes "store_ok cr E E s" "fmlookup E i = Some (TldEntry t)" "leaves_distinct cr E"
  shows "\<exists>u n. smt_remove_tld cr i t s = Some (s\<lparr>cs_smt := u\<rparr>) \<and> tld_count s = Suc n
    \<and> store_ok cr (fmdrop i E) (fmdrop i E)
        (owner_release (ts_owner t) ((remove_tld_entry i (s\<lparr>cs_smt := u\<rparr>))\<lparr>tld_count := n\<rparr>))"
proof -
  obtain u where u: "smt_remove_tld cr i t s = Some (s\<lparr>cs_smt := u\<rparr>)" "tree_ok cr (fmdrop i E) u"
    using smt_remove_tld_old [OF assms] by blast
  have i: "i \<in> tld_ids E" "i \<notin> domain_ids E" using ids_mem(2) [OF assms(2)] by auto
  obtain n where "card (tld_ids E) = Suc n" "card (tld_ids E - {i}) = n"
    using card_Suc_remove [OF _ i(1)] by auto
  moreover have "refs_ok (fmdrop i E) (refs_release (ts_owner t) (owner_refcounts s))"
    "exps_ok (fmdrop i E) (expirations s)"
    using assms i refs_release_ok [of E "owner_refcounts s" i "TldEntry t"]
      exps_tld_ok(2) [of E "expirations s" i] by (simp_all add: store_ok_def)
  ultimately show ?thesis using assms u i
    by (intro exI [of _ u] exI [of _ n]) (simp add: store_ok_def state_ops)
qed

text \<open>A changed domain: whichever of the owner and the expiry change is followed by its index.\<close>

lemma change_domain:
  assumes "store_ok cr E E s" "fmlookup E i = Some (DomainEntry p)" "leaves_distinct cr E"
  shows "\<exists>u. smt_put_domain cr i (Some p) d s = Some (s\<lparr>cs_smt := u\<rparr>)
    \<and> store_ok cr (fmupd i (DomainEntry (norm_domain d)) E) (fmupd i (DomainEntry (norm_domain d)) E)
        (s\<lparr>cs_smt := u, cs_backend := backend_put i (encode_domain_entry d) (cs_backend s),
           owner_refcounts := refs_acquire (ds_owner d) (refs_release (ds_owner p) (owner_refcounts s)),
           expirations := exp_enqueue (ds_valid_until d) i (exp_dequeue (ds_valid_until p) i (expirations s))\<rparr>)"
proof -
  define E' where "E' = fmdrop i E"
  obtain u where u: "smt_put_domain cr i (Some p) d s = Some (s\<lparr>cs_smt := u\<rparr>)"
    "tree_ok cr (fmupd i (DomainEntry (norm_domain d)) E) u"
    using smt_put_domain_old [OF assms] by blast
  have i: "i \<in> domain_ids E" "i \<notin> tld_ids E" using ids_mem(1) [OF assms(2)] by auto
  have "refs_ok E' (refs_release (ds_owner p) (owner_refcounts s))"
    "exps_ok E' (exp_dequeue (ds_valid_until p) i (expirations s))"
    using assms refs_release_ok [of E "owner_refcounts s" i "DomainEntry p"]
      exp_dequeue_ok [of E "expirations s" i p] by (simp_all add: store_ok_def E'_def)
  then have "refs_ok (fmupd i (DomainEntry (norm_domain d)) E)
      (refs_acquire (ds_owner d) (refs_release (ds_owner p) (owner_refcounts s)))"
    "exps_ok (fmupd i (DomainEntry (norm_domain d)) E)
      (exp_enqueue (ds_valid_until d) i (exp_dequeue (ds_valid_until p) i (expirations s)))"
    using refs_acquire_ok [of E' _ i "DomainEntry (norm_domain d)"] exp_enqueue_ok [of E' _ i "norm_domain d"]
    by (auto simp: E'_def)
  then show ?thesis using assms(1) u i
    by (intro exI [of _ u]) (simp add: store_ok_def backend_put_def insert_absorb encode_norm)
qed

lemma change_tld:
  assumes "store_ok cr E E s" "fmlookup E i = Some (TldEntry p)" "leaves_distinct cr E"
  shows "\<exists>u. smt_put_tld cr i p t s = Some (s\<lparr>cs_smt := u\<rparr>)
    \<and> store_ok cr (fmupd i (TldEntry t) E) (fmupd i (TldEntry t) E)
        (s\<lparr>cs_smt := u, cs_backend := backend_put i (encode_tld_entry t) (cs_backend s),
           owner_refcounts := refs_acquire (ts_owner t) (refs_release (ts_owner p) (owner_refcounts s))\<rparr>)"
proof -
  define E' where "E' = fmdrop i E"
  obtain u where u: "smt_put_tld cr i p t s = Some (s\<lparr>cs_smt := u\<rparr>)" "tree_ok cr (fmupd i (TldEntry t) E) u"
    using smt_put_tld_old [OF assms] by blast
  have i: "i \<in> tld_ids E" "i \<notin> domain_ids E" using ids_mem(2) [OF assms(2)] by auto
  have "refs_ok E' (refs_release (ts_owner p) (owner_refcounts s))"
    using assms refs_release_ok [of E "owner_refcounts s" i "TldEntry p"] by (simp add: store_ok_def E'_def)
  then have "refs_ok (fmupd i (TldEntry t) E)
      (refs_acquire (ts_owner t) (refs_release (ts_owner p) (owner_refcounts s)))"
    using refs_acquire_ok [of E' _ i "TldEntry t"] by (simp add: E'_def)
  then show ?thesis using assms(1) u i exps_tld_ok(1) [of E "expirations s" i t]
    by (intro exI [of _ u]) (simp add: store_ok_def backend_put_def insert_absorb)
qed

text \<open>Where owner and expiry stay, leaving their index alone has the same effect.\<close>

lemma refs_same:
  assumes "refs_ok E m" "fmlookup E i = Some e"
  shows "refs_acquire (entry_owner e) (refs_release (entry_owner e) m) = m"
proof -
  have "refs_ok (fmupd i e E) (refs_acquire (entry_owner e) (refs_release (entry_owner e) m))"
    using refs_acquire_ok [OF refs_release_ok [OF assms], of i e] by simp
  then show ?thesis using refs_replace_ok [OF assms, of e] by (auto intro: refs_ok_unique)
qed

lemma exps_same:
  assumes "exps_ok E m" "fmlookup E i = Some (DomainEntry d)"
  shows "exp_enqueue (ds_valid_until d) i (exp_dequeue (ds_valid_until d) i m) = m"
proof -
  have "exps_ok (fmupd i (DomainEntry d) E) (exp_enqueue (ds_valid_until d) i (exp_dequeue (ds_valid_until d) i m))"
    using exp_enqueue_ok [OF exp_dequeue_ok [OF assms], of i d] by simp
  then show ?thesis using exps_replace_ok [OF assms, of d] by (auto intro: exps_ok_unique)
qed


lemma store_ok_fields:
  "store_ok cr E Q s' \<longleftrightarrow> store_ok cr E Q s" if "cs_backend s' = cs_backend s" "domain_count s' = domain_count s"
    "tld_count s' = tld_count s" "owner_refcounts s' = owner_refcounts s" "expirations s' = expirations s"
    "cs_smt s' = cs_smt s"
  using that by (simp add: store_ok_def)

lemma change_domain_data:
  assumes "store_ok cr E E s" "fmlookup E i = Some (DomainEntry p)" "leaves_distinct cr E"
    and same: "ds_owner d = ds_owner p" "ds_valid_until d = ds_valid_until p"
  shows "\<exists>u. smt_put_domain cr i (Some p) d s = Some (s\<lparr>cs_smt := u\<rparr>)
    \<and> store_ok cr (fmupd i (DomainEntry (norm_domain d)) E) (fmupd i (DomainEntry (norm_domain d)) E)
        (put_domain_entry i d (s\<lparr>cs_smt := u\<rparr>))"
  using change_domain [OF assms(1-3), of d] refs_same [of E "owner_refcounts s" i "DomainEntry p"]
    exps_same [of E "expirations s" i p] assms(1,2)
  by (simp add: same store_ok_def state_ops)

lemma change_domain_expiry:
  assumes "store_ok cr E E s" "fmlookup E i = Some (DomainEntry p)" "leaves_distinct cr E"
    and same: "ds_owner d = ds_owner p"
  shows "\<exists>u. smt_put_domain cr i (Some p) d s = Some (s\<lparr>cs_smt := u\<rparr>)
    \<and> store_ok cr (fmupd i (DomainEntry (norm_domain d)) E) (fmupd i (DomainEntry (norm_domain d)) E)
        (s\<lparr>cs_smt := u, cs_backend := backend_put i (encode_domain_entry d) (cs_backend s),
           expirations := exp_enqueue (ds_valid_until d) i (exp_dequeue (ds_valid_until p) i (expirations s))\<rparr>)"
  using change_domain [OF assms(1-3), of d] refs_same [of E "owner_refcounts s" i "DomainEntry p"] assms(1,2)
  by (simp add: same store_ok_def)

lemma change_domain_owner:
  assumes "store_ok cr E E s" "fmlookup E i = Some (DomainEntry p)" "leaves_distinct cr E"
    and same: "ds_valid_until d = ds_valid_until p"
  shows "\<exists>u. smt_put_domain cr i (Some p) d s = Some (s\<lparr>cs_smt := u\<rparr>)
    \<and> store_ok cr (fmupd i (DomainEntry (norm_domain d)) E) (fmupd i (DomainEntry (norm_domain d)) E)
        (s\<lparr>cs_smt := u, cs_backend := backend_put i (encode_domain_entry d) (cs_backend s),
           owner_refcounts := refs_acquire (ds_owner d) (refs_release (ds_owner p) (owner_refcounts s))\<rparr>)"
  using change_domain [OF assms(1-3), of d] exps_same [of E "expirations s" i p] assms(1,2)
  by (simp add: same store_ok_def)

lemma change_tld_data:
  assumes "store_ok cr E E s" "fmlookup E i = Some (TldEntry p)" "leaves_distinct cr E"
    and same: "ts_owner t = ts_owner p"
  shows "\<exists>u. smt_put_tld cr i p t s = Some (s\<lparr>cs_smt := u\<rparr>)
    \<and> store_ok cr (fmupd i (TldEntry t) E) (fmupd i (TldEntry t) E) (put_tld_entry i t (s\<lparr>cs_smt := u\<rparr>))"
  using change_tld [OF assms(1-3), of t] refs_same [of E "owner_refcounts s" i "TldEntry p"] assms(1,2)
  by (simp add: same store_ok_def state_ops)

section \<open>Undoing a step\<close>

lemma fmupd_same: "fmlookup E i = Some e \<Longrightarrow> fmupd i e E = E"
  by (intro fmap_ext) auto

lemma fmdrop_fmupd_new [simp]: "fmlookup E i = None \<Longrightarrow> fmdrop i (fmupd i e E) = E"
  by (intro fmap_ext) auto

lemma fmupd_twice [simp]: "fmupd i e (fmupd i f E) = fmupd i e E"
  by (intro fmap_ext) auto

lemma fmdrop_same [simp]: "fmlookup m i = None \<Longrightarrow> fmdrop i m = m"
  by (intro fmap_ext) auto

lemma fmupd_undrop [simp]: "fmlookup m i = Some e \<Longrightarrow> fmupd i e (fmdrop i m) = m"
  by (intro fmap_ext) auto

lemmas registry_ops = set_entry_def del_entry_def rep_def

lemma undo_register:
  assumes "astep a (UndoRegisterDomain i g) b" "leaves_distinct cr (rg_entries b)" "rep cr s b"
  shows "\<exists>s'. undo_one cr (UndoRegisterDomain i g) s = Some s' \<and> rep cr s' a"
proof -
  obtain d where 1: "fmlookup (rg_entries a) i = None" "norm_domain d = d" "g = fmlookup (rg_grace a) i"
    "b = (set_entry i (DomainEntry d) a)\<lparr>rg_grace := fmdrop i (rg_grace a)\<rparr>"
    using assms(1) by (elim astep_RegisterE)
  let ?E = "rg_entries b"
  have E: "?E = fmupd i (DomainEntry d) (rg_entries a)" using 1 by (simp add: registry_ops)
  have st: "store_ok cr ?E ?E s" using assms(3) by (simp add: rep_def)
  obtain t n where t: "smt_remove_domain cr i d s = Some (s\<lparr>cs_smt := t\<rparr>)" "domain_count s = Suc n"
    "store_ok cr (fmdrop i ?E) (fmdrop i ?E) (owner_release (ds_owner d) (expiration_dequeue (ds_valid_until d) i
          ((remove_domain_entry i (s\<lparr>cs_smt := t\<rparr>))\<lparr>domain_count := n\<rparr>)))"
    using drop_domain [OF st _ assms(2), of i d] E by auto
  have "state_domain s i = Some d" using rep_domain [OF assms(3), of i] E by (simp add: rg_domain_def)
  then show ?thesis using t 1 assms(3) E
    by (auto simp: state_ops registry_ops store_ok_def fmupd_same split: option.splits)
qed


lemma undo_update:
  assumes "astep a (UndoUpdateDomain i p) b" "leaves_distinct cr (rg_entries b)" "rep cr s b" "all_normal (rg_entries a)"
  shows "\<exists>s'. undo_one cr (UndoUpdateDomain i p) s = Some s' \<and> rep cr s' a"
proof -
  obtain d where 1: "fmlookup (rg_entries a) i = Some (DomainEntry p)" "ds_owner d = ds_owner p"
    "ds_valid_until d = ds_valid_until p" "b = set_entry i (DomainEntry d) a"
    using assms(1) by (elim astep_UpdateE)
  let ?E = "rg_entries b"
  have E: "?E = fmupd i (DomainEntry d) (rg_entries a)" using 1 by (simp add: registry_ops)
  have st: "store_ok cr ?E ?E s" using assms(3) by (simp add: rep_def)
  have p: "norm_domain p = p" using all_normal_lookup [OF assms(4) 1(1)] by simp
  obtain u where u: "smt_put_domain cr i (Some d) p s = Some (s\<lparr>cs_smt := u\<rparr>)"
    "store_ok cr (rg_entries a) (rg_entries a) (put_domain_entry i p (s\<lparr>cs_smt := u\<rparr>))"
    using change_domain_data [OF st _ assms(2), of i d p] E 1 p by (auto simp: fmupd_same)
  have "state_domain s i = Some d" using rep_domain [OF assms(3), of i] E by (simp add: rg_domain_def)
  then show ?thesis using u 1(4) assms(3) by (simp add: rep_def set_entry_def put_domain_entry_def)
qed

lemma undo_renew:
  assumes "astep a (UndoRenewDomain i p) b" "leaves_distinct cr (rg_entries b)" "rep cr s b" "all_normal (rg_entries a)"
  shows "\<exists>s'. undo_one cr (UndoRenewDomain i p) s = Some s' \<and> rep cr s' a"
proof -
  obtain d where 1: "fmlookup (rg_entries a) i = Some (DomainEntry p)" "ds_owner d = ds_owner p"
    "b = set_entry i (DomainEntry d) a"
    using assms(1) by (elim astep_RenewE)
  let ?E = "rg_entries b"
  have E: "?E = fmupd i (DomainEntry d) (rg_entries a)" using 1 by (simp add: registry_ops)
  have st: "store_ok cr ?E ?E s" using assms(3) by (simp add: rep_def)
  have p: "norm_domain p = p" using all_normal_lookup [OF assms(4) 1(1)] by simp
  obtain u where u: "smt_put_domain cr i (Some d) p s = Some (s\<lparr>cs_smt := u\<rparr>)"
    "store_ok cr (rg_entries a) (rg_entries a)
       (s\<lparr>cs_smt := u, cs_backend := backend_put i (encode_domain_entry p) (cs_backend s),
           expirations := exp_enqueue (ds_valid_until p) i (exp_dequeue (ds_valid_until d) i (expirations s))\<rparr>)"
    using change_domain_expiry [OF st _ assms(2), of i d p] E 1 p by (auto simp: fmupd_same)
  have "state_domain s i = Some d" using rep_domain [OF assms(3), of i] E by (simp add: rg_domain_def)
  then show ?thesis using u 1(3) assms(3)
    by (simp add: rep_def set_entry_def put_domain_entry_def expiration_enqueue_def expiration_dequeue_def
        domain_key_def store_ok_def)
qed

lemma undo_transfer:
  assumes "astep a (UndoTransferDomain i p) b" "leaves_distinct cr (rg_entries b)" "rep cr s b" "all_normal (rg_entries a)"
  shows "\<exists>s'. undo_one cr (UndoTransferDomain i p) s = Some s' \<and> rep cr s' a"
proof -
  obtain d where 1: "fmlookup (rg_entries a) i = Some (DomainEntry p)" "ds_valid_until d = ds_valid_until p"
    "b = set_entry i (DomainEntry d) a"
    using assms(1) by (elim astep_TransferE)
  let ?E = "rg_entries b"
  have E: "?E = fmupd i (DomainEntry d) (rg_entries a)" using 1 by (simp add: registry_ops)
  have st: "store_ok cr ?E ?E s" using assms(3) by (simp add: rep_def)
  have p: "norm_domain p = p" using all_normal_lookup [OF assms(4) 1(1)] by simp
  obtain u where u: "smt_put_domain cr i (Some d) p s = Some (s\<lparr>cs_smt := u\<rparr>)"
    "store_ok cr (rg_entries a) (rg_entries a)
       (s\<lparr>cs_smt := u, cs_backend := backend_put i (encode_domain_entry p) (cs_backend s),
           owner_refcounts := refs_acquire (ds_owner p) (refs_release (ds_owner d) (owner_refcounts s))\<rparr>)"
    using change_domain_owner [OF st _ assms(2), of i d p] E 1 p by (auto simp: fmupd_same)
  have "state_domain s i = Some d" using rep_domain [OF assms(3), of i] E by (simp add: rg_domain_def)
  then show ?thesis using u 1(3) assms(3)
    by (simp add: rep_def set_entry_def put_domain_entry_def owner_acquire_def owner_release_def
        domain_key_def store_ok_def)
qed

lemma undo_claim:
  assumes "astep a (UndoRegisterTld i) b" "leaves_distinct cr (rg_entries b)" "rep cr s b"
  shows "\<exists>s'. undo_one cr (UndoRegisterTld i) s = Some s' \<and> rep cr s' a"
proof -
  obtain t where 1: "fmlookup (rg_entries a) i = None" "b = set_entry i (TldEntry t) a"
    using assms(1) by (elim astep_ClaimE)
  let ?E = "rg_entries b"
  have E: "?E = fmupd i (TldEntry t) (rg_entries a)" using 1 by (simp add: registry_ops)
  have st: "store_ok cr ?E ?E s" using assms(3) by (simp add: rep_def)
  obtain u n where u: "smt_remove_tld cr i t s = Some (s\<lparr>cs_smt := u\<rparr>)" "tld_count s = Suc n"
    "store_ok cr (rg_entries a) (rg_entries a)
       (owner_release (ts_owner t) ((remove_tld_entry i (s\<lparr>cs_smt := u\<rparr>))\<lparr>tld_count := n\<rparr>))"
    using drop_tld [OF st _ assms(2), of i t] E 1 by auto
  have "state_tld s i = Some t" using rep_tld [OF assms(3), of i] E by (simp add: rg_tld_def)
  then show ?thesis using u 1(2) assms(3) by (simp add: rep_def state_ops set_entry_def)
qed

lemma undo_mutate:
  assumes "astep a (UndoMutateTld i p) b" "leaves_distinct cr (rg_entries b)" "rep cr s b"
  shows "\<exists>s'. undo_one cr (UndoMutateTld i p) s = Some s' \<and> rep cr s' a"
proof -
  obtain t where 1: "fmlookup (rg_entries a) i = Some (TldEntry p)" "b = set_entry i (TldEntry t) a"
    using assms(1) by (elim astep_MutateE)
  let ?E = "rg_entries b"
  have E: "?E = fmupd i (TldEntry t) (rg_entries a)" using 1 by (simp add: registry_ops)
  have st: "store_ok cr ?E ?E s" using assms(3) by (simp add: rep_def)
  obtain u where u: "smt_put_tld cr i t p s = Some (s\<lparr>cs_smt := u\<rparr>)"
    "store_ok cr (rg_entries a) (rg_entries a)
       (s\<lparr>cs_smt := u, cs_backend := backend_put i (encode_tld_entry p) (cs_backend s),
           owner_refcounts := refs_acquire (ts_owner p) (refs_release (ts_owner t) (owner_refcounts s))\<rparr>)"
    using change_tld [OF st _ assms(2), of i t p] E 1 by (auto simp: fmupd_same)
  have "state_tld s i = Some t" using rep_tld [OF assms(3), of i] E by (simp add: rg_tld_def)
  then show ?thesis using u 1(2) assms(3)
    by (simp add: rep_def set_entry_def put_tld_entry_def owner_acquire_def owner_release_def
        tld_key_def store_ok_def)
qed

lemma undo_revoke:
  assumes "astep a (UndoRevokeTld i p) b" "rep cr s b"
  shows "\<exists>s'. undo_one cr (UndoRevokeTld i p) s = Some s' \<and> rep cr s' a"
proof -
  have 1: "fmlookup (rg_entries a) i = Some (TldEntry p)" "b = del_entry i a"
    using assms(1) by (auto elim: astep_RevokeE)
  let ?E = "rg_entries b"
  have E: "?E = fmdrop i (rg_entries a)" using 1 by (simp add: registry_ops)
  have st: "store_ok cr ?E ?E s" using assms(2) by (simp add: rep_def)
  obtain u where u: "smt_insert_tld cr i p s = Some (s\<lparr>cs_smt := u\<rparr>)"
    "store_ok cr (rg_entries a) (rg_entries a)
       (owner_acquire (ts_owner p) (inc_tlds (put_tld_entry i p (s\<lparr>cs_smt := u\<rparr>))))"
    using add_tld [OF st, of i p] E 1 by (auto simp: fmupd_same)
  then show ?thesis using u 1(2) assms(2) by (simp add: rep_def state_ops del_entry_def)
qed

lemma undo_expire:
  assumes "astep a (UndoExpireDomain i p) b" "rep cr s b" "all_normal (rg_entries a)"
  shows "\<exists>s'. undo_one cr (UndoExpireDomain i p) s = Some s' \<and> rep cr s' a"
proof -
  have 1: "fmlookup (rg_entries a) i = Some (DomainEntry p)" "fmlookup (rg_grace a) i = None"
    "b = (del_entry i a)\<lparr>rg_grace := fmupd i (ds_valid_until p, ds_owner p) (rg_grace a)\<rparr>"
    using assms(1) by (auto elim: astep_ExpireE)
  let ?E = "rg_entries b" and ?s = "s\<lparr>grace := rg_grace a\<rparr>"
  have E: "?E = fmdrop i (rg_entries a)" using 1 by (simp add: registry_ops)
  have st: "store_ok cr ?E ?E ?s" using assms(2) by (simp add: rep_def store_ok_def)
  have p: "norm_domain p = p" using all_normal_lookup [OF assms(3) 1(1)] by simp
  obtain u where u: "smt_put_domain cr i None p ?s = Some (?s\<lparr>cs_smt := u\<rparr>)"
    "store_ok cr (rg_entries a) (rg_entries a) (owner_acquire (ds_owner p) (expiration_enqueue (ds_valid_until p) i
          (inc_domains (put_domain_entry i p (?s\<lparr>cs_smt := u\<rparr>)))))"
    using add_domain [OF st, of i p] E 1 p by (auto simp: fmupd_same)
  have "fmdrop i (grace s) = rg_grace a" using assms(2) 1 by (simp add: rep_def)
  then show ?thesis using u 1(3) assms(2) by (simp add: rep_def state_ops del_entry_def)
qed

lemma undo_learn:
  assumes "astep a (UndoLearnOwnerKey own) b" "rep cr s b"
  shows "\<exists>s'. undo_one cr (UndoLearnOwnerKey own) s = Some s' \<and> rep cr s' a"
proof -
  obtain pk where "fmlookup (rg_keys a) own = None" "b = a\<lparr>rg_keys := fmupd own pk (rg_keys a)\<rparr>"
    using assms(1) by (elim astep_LearnE)
  then show ?thesis using assms(2) by (simp add: rep_def store_ok_def)
qed

lemma undo_ban:
  assumes "astep a (UndoBanAnchor pk) b" "rep cr s b"
  shows "\<exists>s'. undo_one cr (UndoBanAnchor pk) s = Some s' \<and> rep cr s' a"
proof -
  have b: "pk |\<notin>| rg_banned a" "b = a\<lparr>rg_banned := finsert pk (rg_banned a)\<rparr>"
    using assms(1) by (elim astep_BanE; simp)+
  then have "finsert pk (rg_banned a) |-| {|pk|} = rg_banned a" by auto
  then show ?thesis using assms(2) b(2) by (simp add: rep_def store_ok_def)
qed

definition sound :: "crypto \<Rightarrow> registry \<Rightarrow> bool" where
  "sound cr a \<longleftrightarrow> leaves_distinct cr (rg_entries a) \<and> all_normal (rg_entries a)"

lemma undo_step:
  assumes "astep a e b" "sound cr a" "sound cr b" "rep cr s b"
  shows "\<exists>s'. undo_one cr e s = Some s' \<and> rep cr s' a"
  using assms undo_register undo_update undo_claim undo_mutate undo_revoke undo_renew undo_transfer
    undo_expire undo_learn undo_ban unfolding sound_def by (cases e) metis+

lemma undo_steps:
  "asteps (sound cr) a es b \<Longrightarrow> rep cr s b \<Longrightarrow> \<exists>s'. rollback cr es s = Some s' \<and> rep cr s' a"
proof (induction arbitrary: s rule: asteps.induct)
  case (Snoc a es b e c)
  then obtain s1 where "undo_one cr e s = Some s1" "rep cr s1 b"
    using undo_step [OF Snoc.hyps(2) asteps_end [OF Snoc.hyps(1)] Snoc.hyps(3)] by blast
  then show ?case using Snoc.IH by (simp add: rollback_def)
qed (simp add: rollback_def)

end
