(* ===== verification/Scone_State_Apply.thy ===== *)
theory Scone_State_Apply
  imports Scone_State_Refine
begin

text \<open>
  Applying transactions: the simulation of \<open>spec_apply\<close> by \<open>apply_journaled_at\<close>, and the journal of
  an application as a sequence of reversible steps.
\<close>

section \<open>The pool\<close>

lemma rep_owners:
  assumes "rep cr s a" shows "fset (fmdom (owner_refcounts s)) = rg_owners a"
proof -
  have "own |\<in>| fmdom (owner_refcounts s) \<longleftrightarrow> owned (rg_entries a) own \<noteq> {}" for own
    using assms by (simp add: rep_def store_ok_def refs_ok_def fmlookup_dom_iff)
  then show ?thesis by (auto simp: rg_owners_eq owned_def) blast
qed

lemma set_eligible:
  assumes "rep cr s a" shows "set (eligible_validators s now) = rg_pool a"
proof -
  have "set (sorted_list_of_fset (fmdom (owner_refcounts s))) = rg_owners a"
    using rep_owners [OF assms] by (simp add: sorted_list_of_fset.rep_eq)
  then show ?thesis using assms
    by (force simp: eligible_validators_def rg_pool_eq rep_def List.map_filter_def)
qed

lemma reserved_iff: "is_icann_tld t \<longleftrightarrow> t \<in> set ICANN_TLDS"
  using binary_search_mem [OF ICANN_TLDS_sorted, of t] by (auto simp: is_icann_tld_def split: sum.splits)

section \<open>Learning keys and freeness\<close>

lemma spec_learn_keeps:
  "rg_entries (fst (spec_learn own pk a)) = rg_entries a" "rg_grace (fst (spec_learn own pk a)) = rg_grace a"
  "rg_network (fst (spec_learn own pk a)) = rg_network a" "rg_banned (fst (spec_learn own pk a)) = rg_banned a"
  by (simp_all add: spec_learn_def)

lemma learn_refines:
  assumes "rep cr s a"
  shows "\<exists>s1. learn_owner_key own pk (s, j) = (s1, j @ snd (spec_learn own pk a))
    \<and> rep cr s1 (fst (spec_learn own pk a))"
  using assms by (simp add: learn_owner_key_def spec_learn_def rep_def store_ok_def)

lemma free_refines:
  assumes "rep cr s a"
  shows "ensure_domain_free s i now own = (if spec_free a i now own then Inr () else Inl DomainAlreadyRegistered)"
  using rep_domain [OF assms, of i] rep_simps(3) [OF assms]
  by (auto simp: ensure_domain_free_def spec_free_def not_less split: option.splits)

text \<open>A transaction whose new identifier is already the identifier of an entry of the other kind.\<close>

fun no_clash :: "transaction \<Rightarrow> registry \<Rightarrow> bool" where
  "no_clash (RegisterDomain tx) a \<longleftrightarrow> rg_tld a (rd_domain_id tx) = None"
| "no_clash (AssignDomain tx) a \<longleftrightarrow> rg_tld a (ad_domain_id tx) = None"
| "no_clash (RegisterTld tx) a \<longleftrightarrow> rg_domain a (rt_tld_id tx) = None"
| "no_clash _ a \<longleftrightarrow> True"

lemma lookup_None: "rg_domain a i = None \<Longrightarrow> rg_tld a i = None \<Longrightarrow> fmlookup (rg_entries a) i = None"
  by (auto simp: rg_domain_def rg_tld_def split: option.splits entry.splits)

lemma lookup_domain: "rg_domain a i = Some d \<Longrightarrow> fmlookup (rg_entries a) i = Some (DomainEntry d)"
  by (auto simp: rg_domain_def split: option.splits entry.splits)

lemma lookup_tld: "rg_tld a i = Some t \<Longrightarrow> fmlookup (rg_entries a) i = Some (TldEntry t)"
  by (auto simp: rg_tld_def split: option.splits entry.splits)

lemma register_refines:
  assumes "rep cr s a" "fmlookup (rg_entries a) i = None"
  shows "\<exists>s'. register_entry cr i \<lparr>ds_owner = own, ds_sequence = 0, ds_record_hash = None,
      ds_registered_at = now, ds_valid_until = until\<rparr> s j
      = Some (s', j @ [UndoRegisterDomain i (fmlookup (rg_grace a) i)], Inr ())
    \<and> rep cr s' (spec_register i own now until a)"
proof -
  let ?d = "\<lparr>ds_owner = own, ds_sequence = 0, ds_record_hash = None, ds_registered_at = now, ds_valid_until = until\<rparr>"
  let ?s = "s\<lparr>grace := fmdrop i (grace s)\<rparr>" and ?E = "rg_entries a"
  have st: "store_ok cr ?E ?E ?s" using assms(1) by (simp add: rep_def store_ok_def)
  obtain u where u: "smt_put_domain cr i None ?d ?s = Some (?s\<lparr>cs_smt := u\<rparr>)"
    "store_ok cr (fmupd i (DomainEntry ?d) ?E) (fmupd i (DomainEntry ?d) ?E)
       (owner_acquire own (expiration_enqueue until i (inc_domains (put_domain_entry i ?d (?s\<lparr>cs_smt := u\<rparr>)))))"
    using add_domain [OF st assms(2), of ?d] by auto
  show ?thesis using u assms(1)
    by (simp add: register_entry_def Let_def done_with_def rep_def spec_register_def set_entry_def state_ops)
qed

section \<open>Every kind of transaction\<close>

definition refines :: "crypto \<Rightarrow> spec_result option \<Rightarrow> undo_log \<Rightarrow> applied \<Rightarrow> bool" where
  "refines cr spec j res \<longleftrightarrow> (case spec of
       None \<Rightarrow> res = None
     | Some (a', es, r) \<Rightarrow> (\<exists>s'. res = Some (s', j @ es, r) \<and> rep cr s' a'))"

lemma refines_fail: "rep cr s a \<Longrightarrow> refines cr (Some (a, [], Inl e)) j (fail e s j)"
  by (simp add: refines_def fail_def)

lemma update_refines:
  assumes r: "rep cr s a" and "sound cr a"
  shows "refines cr (spec_kind cr (UpdateDomain tx) now a) j (apply_update_domain cr tx s j)"
proof (cases "rg_domain a (ud_domain_id tx)")
  case None
  then show ?thesis using rep_domain [OF r] refines_fail [OF r] by (simp add: apply_update_domain_def)
next
  case (Some d)
  obtain s1 where s1: "learn_owner_key (ud_owner tx) (ud_public_key tx) (s, j)
      = (s1, j @ snd (spec_learn (ud_owner tx) (ud_public_key tx) a))"
    "rep cr s1 (fst (spec_learn (ud_owner tx) (ud_public_key tx) a))"
    using learn_refines [OF r] by blast
  define a1 es where "a1 = fst (spec_learn (ud_owner tx) (ud_public_key tx) a)"
    and "es = snd (spec_learn (ud_owner tx) (ud_public_key tx) a)"
  have sp: "spec_learn (ud_owner tx) (ud_public_key tx) a = (a1, es)" by (simp add: a1_def es_def)
  have E: "rg_entries a1 = rg_entries a" by (simp add: a1_def spec_learn_keeps)
  have L: "fmlookup (rg_entries a1) (ud_domain_id tx) = Some (DomainEntry d)" using lookup_domain [OF Some] E by simp
  have r1: "rep cr s1 a1" "learn_owner_key (ud_owner tx) (ud_public_key tx) (s, j) = (s1, j @ es)"
    using s1 by (simp_all add: a1_def es_def)
  let ?d = "d\<lparr>ds_sequence := ud_sequence tx, ds_record_hash := Some (ud_record_hash tx)\<rparr>"
  obtain u where " smt_put_domain cr (ud_domain_id tx) (Some d) ?d s1 = Some (s1\<lparr>cs_smt := u\<rparr>)"
      "rep cr (put_domain_entry (ud_domain_id tx) ?d (s1\<lparr>cs_smt := u\<rparr>))
          (set_entry (ud_domain_id tx) (DomainEntry (norm_domain ?d)) a1)"
    using change_domain_data [of cr "rg_entries a1" s1 "ud_domain_id tx" d ?d] r1 L assms(2) E
    by (auto simp: rep_def sound_def set_entry_def put_domain_entry_def)
  then show ?thesis using Some rep_domain [OF r] sp r1 refines_fail [OF r]
    by (auto simp: apply_update_domain_def refines_def fail_def done_with_def Let_def split: option.splits)
qed


lemma register_domain_refines:
  assumes r: "rep cr s a" and c: "no_clash (RegisterDomain tx) a"
  shows "refines cr (spec_kind cr (RegisterDomain tx) now a) j (apply_register_domain cr tx now s j)"
proof -
  define a1 es where "a1 = fst (spec_learn (rd_owner tx) (rd_public_key tx) a)"
    and "es = snd (spec_learn (rd_owner tx) (rd_public_key tx) a)"
  have sp: "spec_learn (rd_owner tx) (rd_public_key tx) a = (a1, es)" by (simp add: a1_def es_def)
  obtain s1 where s1: "learn_owner_key (rd_owner tx) (rd_public_key tx) (s, j) = (s1, j @ es)" "rep cr s1 a1"
    using learn_refines [OF r] a1_def es_def by blast
  have K: "rg_entries a1 = rg_entries a" "rg_grace a1 = rg_grace a" by (simp_all add: a1_def spec_learn_keeps)
  have "\<exists>s'. register_entry cr (rd_domain_id tx) \<lparr>ds_owner = rd_owner tx, ds_sequence = 0, ds_record_hash = None,
      ds_registered_at = now, ds_valid_until = until\<rparr> s1 (j @ es)
      = Some (s', j @ es @ [UndoRegisterDomain (rd_domain_id tx) (fmlookup (rg_grace a) (rd_domain_id tx))], Inr ())
    \<and> rep cr s' (spec_register (rd_domain_id tx) (rd_owner tx) now until a1)"
    if "spec_free a (rd_domain_id tx) now (rd_owner tx)" for until
    using that c lookup_None [of a "rd_domain_id tx"] K
      register_refines [OF s1(2), of "rd_domain_id tx" "rd_owner tx" now until "j @ es"]
    by (simp add: spec_free_def)
  then show ?thesis using rep_tld [OF r] free_refines [OF r] sp s1 rep_simps(1) [OF r] refines_fail [OF r]
    by (auto simp: apply_register_domain_def refines_def fail_def Let_def domain_challenge_def
        split: option.splits sum.splits bind_splits)
qed

lemma assign_domain_refines:
  assumes r: "rep cr s a" and c: "no_clash (AssignDomain tx) a"
  shows "refines cr (spec_kind cr (AssignDomain tx) now a) j (apply_assign_domain cr tx now s j)"
proof -
  have "\<exists>s'. register_entry cr (ad_domain_id tx) \<lparr>ds_owner = ad_assignee tx, ds_sequence = 0, ds_record_hash = None,
      ds_registered_at = now, ds_valid_until = until\<rparr> s j
      = Some (s', j @ [UndoRegisterDomain (ad_domain_id tx) (fmlookup (rg_grace a) (ad_domain_id tx))], Inr ())
    \<and> rep cr s' (spec_register (ad_domain_id tx) (ad_assignee tx) now until a)"
    if "spec_free a (ad_domain_id tx) now (ad_assignee tx)" for until
    using that c lookup_None [of a "ad_domain_id tx"]
      register_refines [OF r, of "ad_domain_id tx" "ad_assignee tx" now until j]
    by (simp add: spec_free_def)
  then show ?thesis using rep_tld [OF r] free_refines [OF r] refines_fail [OF r]
    by (auto simp: apply_assign_domain_def refines_def fail_def Let_def split: option.splits sum.splits bind_splits)
qed

lemma register_tld_refines:
  assumes r: "rep cr s a" and c: "no_clash (RegisterTld tx) a"
  shows "refines cr (spec_kind cr (RegisterTld tx) now a) j (apply_register_tld cr tx s j)"
proof -
  define a1 es where "a1 = fst (spec_learn (rt_owner tx) (rt_public_key tx) a)"
    and "es = snd (spec_learn (rt_owner tx) (rt_public_key tx) a)"
  have sp: "spec_learn (rt_owner tx) (rt_public_key tx) a = (a1, es)" by (simp add: a1_def es_def)
  obtain s1 where s1: "learn_owner_key (rt_owner tx) (rt_public_key tx) (s, j) = (s1, j @ es)" "rep cr s1 a1"
    using learn_refines [OF r] a1_def es_def by blast
  have K: "rg_entries a1 = rg_entries a" by (simp_all add: a1_def spec_learn_keeps)
  let ?t = "\<lparr>ts_owner = rt_owner tx, ts_open = False\<rparr>"
  have "\<exists>u. smt_insert_tld cr (rt_tld_id tx) ?t s1 = Some (s1\<lparr>cs_smt := u\<rparr>)
    \<and> rep cr (owner_acquire (rt_owner tx) (inc_tlds (put_tld_entry (rt_tld_id tx) ?t (s1\<lparr>cs_smt := u\<rparr>))))
        (set_entry (rt_tld_id tx) (TldEntry ?t) a1)"
    if "rg_tld a (rt_tld_id tx) = None"
    using that c lookup_None [of a "rt_tld_id tx"] K s1(2) add_tld [of cr "rg_entries a1" s1 "rt_tld_id tx" ?t]
    by (auto simp: rep_def state_ops set_entry_def)
  then show ?thesis using rep_tld [OF r] sp s1 rep_simps(1) [OF r] refines_fail [OF r]
    by (cases "rg_tld a (rt_tld_id tx)") (auto simp: apply_register_tld_def refines_def fail_def done_with_def Let_def tld_challenge_def claimed_by_def
        reserved_iff split: option.splits sum.splits bind_splits)
qed

lemma tld_owner_refines:
  assumes r: "rep cr s a" and "sound cr a"
  shows "refines cr (spec_kind cr (TransferTld tx) now a) j (apply_transfer_tld cr tx s j)"
proof (cases "rg_tld a (tt_tld_id tx)")
  case None
  then show ?thesis using rep_tld [OF r] refines_fail [OF r] by (simp add: apply_transfer_tld_def)
next
  case (Some t)
  then show ?thesis using rep_tld [OF r] refines_fail [OF r] lookup_tld [OF Some] assms
      change_tld [of cr "rg_entries a" s "tt_tld_id tx" t "t\<lparr>ts_owner := tt_new_owner tx\<rparr>"]
    by (auto simp: apply_transfer_tld_def refines_def fail_def done_with_def Let_def rep_def sound_def
        put_tld_entry_def owner_acquire_def owner_release_def tld_key_def set_entry_def store_ok_def)
qed

lemma revoke_refines:
  assumes r: "rep cr s a" and "sound cr a"
  shows "refines cr (spec_kind cr (RevokeTld tx) now a) j (apply_revoke_tld cr tx s j)"
proof (cases "rg_tld a (rv_tld_id tx)")
  case None
  then show ?thesis using rep_tld [OF r] refines_fail [OF r] by (simp add: apply_revoke_tld_def)
next
  case (Some t)
  then show ?thesis using rep_tld [OF r] refines_fail [OF r] lookup_tld [OF Some] assms
      drop_tld [of cr "rg_entries a" s "rv_tld_id tx" t]
    by (auto simp: apply_revoke_tld_def refines_def fail_def done_with_def Let_def rep_def sound_def
        state_ops del_entry_def)
qed

lemma open_refines:
  assumes r: "rep cr s a" and "sound cr a"
  shows "refines cr (spec_kind cr (SetTldOpen tx) now a) j (apply_set_tld_open cr tx s j)"
proof (cases "rg_tld a (so_tld_id tx)")
  case None
  then show ?thesis using rep_tld [OF r] refines_fail [OF r] by (simp add: apply_set_tld_open_def)
next
  case (Some t)
  then show ?thesis using rep_tld [OF r] refines_fail [OF r] lookup_tld [OF Some] assms
      change_tld_data [of cr "rg_entries a" s "so_tld_id tx" t "t\<lparr>ts_open := so_open tx\<rparr>"]
    by (auto simp: apply_set_tld_open_def refines_def fail_def done_with_def Let_def rep_def sound_def
        put_tld_entry_def set_entry_def)
qed

lemma with_smt_iff: "with_smt f s = Some (s\<lparr>cs_smt := u\<rparr>) \<longleftrightarrow> f (cs_smt s) = Some u"
proof -
  have "t = u" if "s\<lparr>cs_smt := t\<rparr> = s\<lparr>cs_smt := u\<rparr>" for t
    using arg_cong [OF that, of cs_smt] by simp
  then show ?thesis by (auto simp: with_smt_def)
qed

lemma smt_put_domain_frame:
  "cs_smt s' = cs_smt s \<Longrightarrow> smt_put_domain cr i p d s = Some (s\<lparr>cs_smt := u\<rparr>) \<Longrightarrow>
     smt_put_domain cr i p d s' = Some (s'\<lparr>cs_smt := u\<rparr>)"
  by (cases p) (simp_all add: smt_put_domain_def with_smt_iff)

lemma renew_refines:
  assumes r: "rep cr s a" and "sound cr a"
  shows "refines cr (spec_kind cr (RenewDomain tx) now a) j (apply_renew_domain cr tx now s j)"
proof (cases "rg_domain a (rn_domain_id tx)")
  case None
  then show ?thesis using rep_domain [OF r] refines_fail [OF r] by (simp add: apply_renew_domain_def)
next
  case (Some d)
  have d: "norm_domain d = d" using lookup_domain [OF Some] assms(2) all_normal_lookup by (fastforce simp: sound_def)
  let ?i = "rn_domain_id tx" and ?d = "d\<lparr>ds_valid_until := rn_valid_until tx\<rparr>"
  define s2 where "s2 = expiration_enqueue (rn_valid_until tx) ?i (expiration_dequeue (ds_valid_until d) ?i s)"
  obtain u where u: "smt_put_domain cr ?i (Some d) ?d s = Some (s\<lparr>cs_smt := u\<rparr>)"
    "store_ok cr (fmupd ?i (DomainEntry ?d) (rg_entries a)) (fmupd ?i (DomainEntry ?d) (rg_entries a))
        (s\<lparr>cs_smt := u, cs_backend := backend_put ?i (encode_domain_entry ?d) (cs_backend s),
           expirations := exp_enqueue (rn_valid_until tx) ?i (exp_dequeue (ds_valid_until d) ?i (expirations s))\<rparr>)"
    using change_domain_expiry [of cr "rg_entries a" s ?i d ?d] r assms(2) lookup_domain [OF Some] d
    by (auto simp: rep_def sound_def)
  have "smt_put_domain cr ?i (Some d) ?d s2 = Some (s2\<lparr>cs_smt := u\<rparr>)"
    using smt_put_domain_frame [OF _ u(1), of s2] by (simp add: s2_def state_ops)
  moreover have "rep cr (put_domain_entry ?i ?d (s2\<lparr>cs_smt := u\<rparr>)) (set_entry ?i (DomainEntry ?d) a)"
    using u(2) r by (simp add: s2_def rep_def put_domain_entry_def expiration_enqueue_def expiration_dequeue_def
        domain_key_def set_entry_def store_ok_def)
  ultimately show ?thesis using Some rep_domain [OF r] refines_fail [OF r] r
    by (auto simp: apply_renew_domain_def refines_def fail_def done_with_def Let_def s2_def)
qed

lemma transfer_domain_refines:
  assumes r: "rep cr s a" and "sound cr a"
  shows "refines cr (spec_kind cr (TransferDomain tx) now a) j (apply_transfer_domain cr tx s j)"
proof (cases "rg_domain a (td_domain_id tx)")
  case None
  then show ?thesis using rep_domain [OF r] refines_fail [OF r] by (simp add: apply_transfer_domain_def)
next
  case (Some d)
  have d: "norm_domain d = d" using lookup_domain [OF Some] assms(2) all_normal_lookup by (fastforce simp: sound_def)
  then show ?thesis using Some rep_domain [OF r] refines_fail [OF r] lookup_domain [OF Some] assms
      change_domain_owner [of cr "rg_entries a" s "td_domain_id tx" d "d\<lparr>ds_owner := td_new_owner tx\<rparr>"]
    by (auto simp: apply_transfer_domain_def refines_def fail_def done_with_def Let_def rep_def sound_def
        put_domain_entry_def owner_acquire_def owner_release_def domain_key_def set_entry_def store_ok_def)
qed

lemma slash_refines:
  assumes r: "rep cr s a"
  shows "refines cr (spec_kind cr (Slash tx) now a) j (apply_slash tx now s j)"
proof (cases "sl_offender tx \<in> rg_pool a")
  case True
  then have "sl_offender tx |\<notin>| banned s" using r by (simp add: rg_pool_eq rep_def)
  then show ?thesis using True r set_eligible [OF r]
    by (simp add: apply_slash_def refines_def done_with_def rep_def store_ok_def)
qed (use r set_eligible [OF r] in \<open>simp add: apply_slash_def refines_def fail_def\<close>)

lemma kind_refines:
  "rep cr s a \<Longrightarrow> sound cr a \<Longrightarrow> no_clash tx a \<Longrightarrow> refines cr (spec_kind cr tx now a) j (apply_kind cr tx now s j)"
  by (cases tx) (simp_all only: apply_kind.simps register_domain_refines update_refines register_tld_refines
      tld_owner_refines revoke_refines open_refines assign_domain_refines renew_refines transfer_domain_refines slash_refines)

lemma apply_refines:
  assumes "rep cr s a" "sound cr a" "no_clash tx a"
  shows "refines cr (spec_apply cr tx now a) j (apply_journaled_at cr tx now s j)"
  using kind_refines [OF assms, of now j] refines_fail [OF assms(1)] rep_simps(1) [OF assms(1)]
  by (auto simp: apply_journaled_at_def spec_apply_def split: sum.splits)

end
