(* ===== verification/Scone_State_Gc.thy ===== *)
theory Scone_State_Gc
  imports Scone_State_Apply
begin

text \<open>
  Journals are sequences of reversible steps; garbage collection removes exactly the lapsed
  domains, oldest first, and parks them in their grace window.
\<close>

section \<open>Registry invariants\<close>

definition grace_ok :: "registry \<Rightarrow> bool" where
  "grace_ok a \<longleftrightarrow> (\<forall>i d. fmlookup (rg_entries a) i = Some (DomainEntry d) \<longrightarrow> fmlookup (rg_grace a) i = None)"

definition keys_ok :: "crypto \<Rightarrow> registry \<Rightarrow> bool" where
  "keys_ok cr a \<longleftrightarrow> (\<forall>own pk. fmlookup (rg_keys a) own = Some pk \<longrightarrow> owner_of cr pk = own)"

definition registry_inv :: "crypto \<Rightarrow> registry \<Rightarrow> bool" where
  "registry_inv cr a \<longleftrightarrow> all_normal (rg_entries a) \<and> grace_ok a \<and> keys_ok cr a"

lemma sound_fields [simp]:
  "sound cr (a\<lparr>rg_keys := k\<rparr>) \<longleftrightarrow> sound cr a" "sound cr (a\<lparr>rg_banned := ban\<rparr>) \<longleftrightarrow> sound cr a"
  "sound cr (a\<lparr>rg_grace := g\<rparr>) \<longleftrightarrow> sound cr a"
  by (simp_all add: sound_def)

lemma asteps_learn:
  "sound cr a \<Longrightarrow> asteps (sound cr) a (snd (spec_learn own pk a)) (fst (spec_learn own pk a))"
  by (auto simp: spec_learn_def intro!: asteps.Nil asteps_one astep.Learn)

lemma asteps_learn_then:
  assumes "sound cr a" "spec_learn own pk a = (a1, es)" "astep a1 e b" "sound cr b"
  shows "asteps (sound cr) a (es @ [e]) b"
  using asteps.Snoc [of "sound cr" a es a1 e b] asteps_learn [OF assms(1), of own pk] assms by simp

lemma astep_register:
  assumes "rg_tld a i = None" "spec_free a i now own'"
  shows "astep a (UndoRegisterDomain i (fmlookup (rg_grace a) i)) (spec_register i own now until a)"
proof -
  have "fmlookup (rg_entries a) i = None" using assms lookup_None by (simp add: spec_free_def)
  then show ?thesis unfolding spec_register_def by (intro astep.Register) auto
qed

lemma spec_learn_same:
  "spec_learn own pk a = (a1, es) \<Longrightarrow> rg_domain a1 = rg_domain a" "spec_learn own pk a = (a1, es) \<Longrightarrow> rg_tld a1 = rg_tld a"
  "spec_learn own pk a = (a1, es) \<Longrightarrow> rg_grace a1 = rg_grace a" "spec_learn own pk a = (a1, es) \<Longrightarrow> rg_entries a1 = rg_entries a"
  "spec_learn own pk a = (a1, es) \<Longrightarrow> rg_network a1 = rg_network a"
  "spec_learn own pk a = (a1, es) \<Longrightarrow> rg_banned a1 = rg_banned a"
  by (auto simp: spec_learn_def rg_domain_def rg_tld_def fun_eq_iff split: if_splits)

lemma spec_free_learn: "spec_learn own pk a = (a1, es) \<Longrightarrow> spec_free a1 = spec_free a"
  by (simp add: spec_free_def fun_eq_iff spec_learn_same)

text \<open>The journal of an application is the sequence of its steps.\<close>

lemma kind_asteps:
  assumes "spec_kind cr tx now a = Some (a', es, r)" "sound cr a" "sound cr a'" "no_clash tx a"
  shows "asteps (sound cr) a es a'"
proof (cases tx)
  case (RegisterDomain x)
  then show ?thesis using assms astep_register [of "fst (spec_learn (rd_owner x) (rd_public_key x) a)" "rd_domain_id x" now "rd_owner x"]
    by (auto simp: spec_free_learn spec_learn_same split: option.splits if_splits sum.splits bind_splits prod.splits
        intro!: asteps.Nil asteps_learn_then)
next
  case (UpdateDomain x)
  show ?thesis
  proof (cases "rg_domain a (ud_domain_id x)")
    case (Some d)
    obtain a1 fs where l: "spec_learn (ud_owner x) (ud_public_key x) a = (a1, fs)" by (metis surj_pair)
    show ?thesis
      using UpdateDomain assms Some l lookup_domain [OF Some] asteps_learn [OF assms(2), of "ud_owner x" "ud_public_key x"]
      by (auto simp: spec_learn_same split: option.splits if_splits intro!: asteps.Nil asteps_learn_then astep.Update)
  qed (use UpdateDomain assms in \<open>auto intro: asteps.Nil\<close>)
next
  case (RegisterTld x)
  then show ?thesis using assms lookup_None [of a "rt_tld_id x"]
    by (auto simp: spec_learn_same split: option.splits if_splits sum.splits prod.splits
        intro!: asteps.Nil asteps_learn_then astep.Claim)
next
  case (TransferTld x)
  then show ?thesis using assms lookup_tld
    by (auto split: option.splits if_splits intro!: asteps.Nil asteps_one astep.Mutate)
next
  case (RevokeTld x)
  then show ?thesis using assms lookup_tld
    by (auto split: option.splits if_splits intro!: asteps.Nil asteps_one astep.Revoke)
next
  case (SetTldOpen x)
  then show ?thesis using assms lookup_tld
    by (auto split: option.splits if_splits intro!: asteps.Nil asteps_one astep.Mutate)
next
  case (AssignDomain x)
  then show ?thesis using assms astep_register [of a "ad_domain_id x" now "ad_assignee x"]
    by (auto split: option.splits if_splits sum.splits bind_splits intro!: asteps.Nil asteps_one)
next
  case (RenewDomain x)
  then show ?thesis using assms lookup_domain all_normal_lookup
    by (fastforce simp: sound_def split: option.splits if_splits intro!: asteps.Nil asteps_one astep.Renew)
next
  case (TransferDomain x)
  then show ?thesis using assms lookup_domain all_normal_lookup
    by (fastforce simp: sound_def split: option.splits if_splits intro!: asteps.Nil asteps_one astep.Transfer)
next
  case (Slash x)
  then show ?thesis using assms
    by (auto simp: rg_pool_eq split: if_splits intro!: asteps.Nil asteps_one astep.Ban)
qed


section \<open>The rules keep the invariants\<close>

lemma inv_new: "registry_inv cr (registry_new network)"
  by (simp add: registry_inv_def registry_new_def grace_ok_def keys_ok_def)

lemma inv_learn:
  assumes "registry_inv cr a" "owner_of cr pk = own" "spec_learn own pk a = (a1, es)"
  shows "registry_inv cr a1"
proof (cases "fmlookup (rg_keys a) own")
  case None
  then have "fst (spec_learn own pk a) = a\<lparr>rg_keys := fmupd own pk (rg_keys a)\<rparr>" by (simp add: spec_learn_def)
  then have "a1 = a\<lparr>rg_keys := fmupd own pk (rg_keys a)\<rparr>" using assms(3) by (metis fst_conv)
  then show ?thesis using assms(1,2) by (simp add: registry_inv_def grace_ok_def keys_ok_def)
qed (use assms in \<open>simp add: spec_learn_def\<close>)

lemma inv_register: "registry_inv cr a \<Longrightarrow> registry_inv cr (spec_register i own now until a)"
  by (auto simp: registry_inv_def spec_register_def set_entry_def grace_ok_def keys_ok_def)

lemma inv_set_domain:
  "registry_inv cr a \<Longrightarrow> fmlookup (rg_entries a) i = Some (DomainEntry p) \<Longrightarrow> norm_domain d = d \<Longrightarrow>
     registry_inv cr (set_entry i (DomainEntry d) a)"
  by (auto simp: registry_inv_def set_entry_def grace_ok_def keys_ok_def)

lemma inv_set_tld: "registry_inv cr a \<Longrightarrow> registry_inv cr (set_entry i (TldEntry t) a)"
  by (auto simp: registry_inv_def set_entry_def grace_ok_def keys_ok_def)

lemma inv_del: "registry_inv cr a \<Longrightarrow> registry_inv cr (del_entry i a)"
  by (auto simp: registry_inv_def del_entry_def grace_ok_def keys_ok_def)

lemma inv_ban: "registry_inv cr a \<Longrightarrow> registry_inv cr (a\<lparr>rg_banned := b\<rparr>)"
  by (simp add: registry_inv_def grace_ok_def keys_ok_def)

lemma inv_normal: "registry_inv cr a \<Longrightarrow> rg_domain a i = Some d \<Longrightarrow> norm_domain d = d"
  using lookup_domain all_normal_lookup by (fastforce simp: registry_inv_def)

lemmas inv_intros = inv_register inv_set_domain inv_set_tld inv_del inv_ban inv_learn

lemma kind_inv:
  assumes "registry_inv cr a" "spec_kind cr tx now a = Some (a', es, r)" "owner_of cr (tx_public_key tx) = tx_owner cr tx"
  shows "registry_inv cr a'"
proof (cases tx)
  case (UpdateDomain x)
  show ?thesis
  proof (cases "rg_domain a (ud_domain_id x)")
    case (Some d)
    then show ?thesis using assms UpdateDomain lookup_domain [OF Some]
      by (auto simp: spec_learn_same split: if_splits option.splits prod.splits intro!: inv_set_domain intro: inv_learn)
  qed (use assms UpdateDomain in auto)
next
  case (RenewDomain x)
  then show ?thesis using assms lookup_domain inv_normal
    by (fastforce split: if_splits option.splits intro!: inv_set_domain)
next
  case (TransferDomain x)
  then show ?thesis using assms lookup_domain inv_normal
    by (fastforce split: if_splits option.splits intro!: inv_set_domain)
qed (use assms in \<open>auto split: if_splits option.splits sum.splits prod.splits bind_splits
      intro: inv_intros\<close>)

section \<open>Garbage collection\<close>

definition spec_expire :: "domain_id \<Rightarrow> registry \<Rightarrow> registry" where
  "spec_expire i a = (case rg_domain a i of None \<Rightarrow> a
     | Some d \<Rightarrow> (del_entry i a)\<lparr>rg_grace := fmupd i (ds_valid_until d, ds_owner d) (rg_grace a)\<rparr>)"

definition expire_entry :: "registry \<Rightarrow> domain_id \<Rightarrow> undo_entry" where
  "expire_entry a i = UndoExpireDomain i (the (rg_domain a i))"

text \<open>The lapsed domains, by expiry and then by identifier.\<close>

definition due_at :: "registry \<Rightarrow> u64 \<Rightarrow> domain_id list" where
  "due_at a u = sorted_list_of_set {i. due (rg_entries a) i u}"

definition due_slots :: "registry \<Rightarrow> u64 \<Rightarrow> u64 list" where
  "due_slots a now = sorted_list_of_set {u. u \<le> now \<and> (\<exists>i. due (rg_entries a) i u)}"

definition lapsed :: "registry \<Rightarrow> u64 \<Rightarrow> domain_id list" where
  "lapsed a now = concat (map (due_at a) (due_slots a now))"

definition spec_gc :: "u64 \<Rightarrow> registry \<Rightarrow> registry \<times> undo_log \<times> domain_id list" where
  "spec_gc now a = (fold spec_expire (lapsed a now) a, map (expire_entry a) (lapsed a now), lapsed a now)"

lemma expire_entries: "i \<in> domain_ids (rg_entries a) \<Longrightarrow> rg_entries (spec_expire i a) = fmdrop i (rg_entries a)"
  by (auto simp: spec_expire_def del_entry_def rg_domain_def domain_ids_def)

lemma expire_domain: "rg_domain (spec_expire i a) j = (if j = i then None else rg_domain a j)"
  by (auto simp: spec_expire_def rg_domain_def del_entry_def split: option.splits entry.splits)

lemma finite_due [simp]: "finite {i. due E i u}" "finite {u. \<exists>i. due E i u}"
proof -
  show "finite {i. due E i u}"
    by (rule finite_subset [OF _ finite_fset [of "fmdom E"]]) (auto simp: due_def fmdomI)
  have "{u. \<exists>i. due E i u} \<subseteq> (\<lambda>i. ds_valid_until (the_domain (the (fmlookup E i)))) ` fset (fmdom E)"
    by (force simp: due_def fmlookup_dom_iff)
  then show "finite {u. \<exists>i. due E i u}" by (rule finite_subset) simp
qed

lemma due_at_code [code]:
  "due_at a u = sorted_list_of_set (Set.filter (\<lambda>i. due (rg_entries a) i u) (fset (fmdom (rg_entries a))))"
proof -
  have "{i. due (rg_entries a) i u} = Set.filter (\<lambda>i. due (rg_entries a) i u) (fset (fmdom (rg_entries a)))"
    by (auto simp: due_def fmdomI)
  then show ?thesis by (simp add: due_at_def)
qed

lemma due_slots_code [code]:
  "due_slots a now = sorted_list_of_set (Set.filter (\<lambda>u. u \<le> now)
     ((\<lambda>i. case the (fmlookup (rg_entries a) i) of DomainEntry d \<Rightarrow> ds_valid_until d | TldEntry t \<Rightarrow> 0) `
        Set.filter (\<lambda>i. case fmlookup (rg_entries a) i of Some (DomainEntry d) \<Rightarrow> True | _ \<Rightarrow> False)
          (fset (fmdom (rg_entries a)))))" (is "_ = sorted_list_of_set ?S")
proof -
  have "{u. u \<le> now \<and> (\<exists>i. due (rg_entries a) i u)} = ?S"
    by (force simp: due_def fmlookup_dom_iff split: option.splits entry.splits)
  then show ?thesis by (simp add: due_slots_def)
qed

lemma leaves_distinct_drop: "leaves_distinct cr E \<Longrightarrow> leaves_distinct cr (fmdrop i E)"
  by (auto simp: leaves_distinct_def)

lemma sound_expire: "sound cr a \<Longrightarrow> sound cr (spec_expire i a)"
  by (auto simp: sound_def spec_expire_def del_entry_def leaves_distinct_drop split: option.splits)

lemma inv_expire: "registry_inv cr a \<Longrightarrow> registry_inv cr (spec_expire i a)"
  by (auto simp: registry_inv_def spec_expire_def del_entry_def grace_ok_def keys_ok_def split: option.splits)

text \<open>One slot: its identifiers have left the queue and are removed one by one.\<close>

definition rep0 :: "chain_state \<Rightarrow> registry \<Rightarrow> bool" where
  "rep0 s a \<longleftrightarrow> cs_network s = rg_network a \<and> owner_keys s = rg_keys a \<and> grace s = rg_grace a
     \<and> banned s = rg_banned a"

lemma gc_ids_refines:
  assumes "u \<le> now"
  shows "rep0 s a \<Longrightarrow> store_ok cr (rg_entries a) (fmdrop_set (set ids) (rg_entries a)) s \<Longrightarrow> sound cr a \<Longrightarrow>
    distinct ids \<Longrightarrow> \<forall>i\<in>set ids. due (rg_entries a) i u \<Longrightarrow>
    \<exists>s'. gc_ids cr now ids (s, j, xs) = Some (s', j @ map (expire_entry a) ids, xs @ ids)
      \<and> rep cr s' (fold spec_expire ids a)"
proof (induction ids arbitrary: s a j xs)
  case Nil
  then show ?case by (auto simp: rep_def rep0_def)
next
  case (Cons i ids)
  obtain d where d: "fmlookup (rg_entries a) i = Some (DomainEntry d)" "ds_valid_until d = u"
    using Cons.prems(5) by (auto simp: due_def)
  let ?E = "rg_entries a" and ?a = "spec_expire i a"
  have i: "i \<in> domain_ids ?E" "i \<notin> tld_ids ?E" using ids_mem(1) [OF d(1)] by auto
  have E: "rg_entries ?a = fmdrop i ?E" using expire_entries [OF i(1)] .
  obtain n where n: "card (domain_ids ?E) = Suc n" "card (domain_ids ?E - {i}) = n"
    using card_Suc_remove [OF _ i(1)] by auto
  obtain t where t: "smt_remove_domain cr i d s = Some (s\<lparr>cs_smt := t\<rparr>)" "tree_ok cr (fmdrop i ?E) t"
    using smt_remove_domain_old [OF Cons.prems(2) d(1)] Cons.prems(3) by (auto simp: sound_def)
  define s1 where "s1 = remove_domain_entry i s"
  define s5 where "s5 = (owner_release (ds_owner d) (s1\<lparr>cs_smt := t, domain_count := n\<rparr>))
     \<lparr>grace := fmupd i (u, ds_owner d) (grace s)\<rparr>"
  have "smt_remove_domain cr i d s1 = Some (s1\<lparr>cs_smt := t\<rparr>)"
    using t(1) by (simp add: smt_remove_domain_def with_smt_iff s1_def remove_domain_entry_def)
  moreover have "state_domain s i = Some d" using store_domain [OF Cons.prems(2), of i] d(1) by simp
  moreover have "domain_count s1 = Suc n" using Cons.prems(2) n by (simp add: store_ok_def s1_def remove_domain_entry_def)
  ultimately have step: "gc_ids cr now (i # ids) (s, j, xs) = gc_ids cr now ids (s5, j @ [expire_entry a i], xs @ [i])"
    using leD [OF assms] d by (simp add: s5_def s1_def dec_domains_def dec_def owner_release_def remove_domain_entry_def
        expire_entry_def rg_domain_def)
  have Q: "fmdrop_set (set (i # ids)) ?E = fmdrop_set (set ids) (fmdrop i ?E)" by (intro fmap_ext) simp
  have "refs_ok (fmdrop i ?E) (refs_release (ds_owner d) (owner_refcounts s))"
    using refs_release_ok [OF _ d(1), of "owner_refcounts s"] Cons.prems(2) by (simp add: store_ok_def)
  then have "store_ok cr (rg_entries ?a) (fmdrop_set (set ids) (rg_entries ?a)) s5"
    using Cons.prems(2) t(2) n i unfolding E Q by (simp add: store_ok_def s5_def s1_def state_ops)
  moreover have "rep0 s5 ?a"
    using Cons.prems(1) d by (simp add: rep0_def s5_def s1_def state_ops spec_expire_def rg_domain_def del_entry_def)
  moreover have "\<forall>k\<in>set ids. due (rg_entries ?a) k u" using Cons.prems(4,5) by (auto simp: E due_upd)
  ultimately obtain s' where "gc_ids cr now ids (s5, j @ [expire_entry a i], xs @ [i])
      = Some (s', (j @ [expire_entry a i]) @ map (expire_entry ?a) ids, (xs @ [i]) @ ids)" "rep cr s' (fold spec_expire ids ?a)"
    using Cons.IH [of s5 ?a "j @ [expire_entry a i]" "xs @ [i]"] sound_expire Cons.prems(3,4) by auto
  moreover have "map (expire_entry ?a) ids = map (expire_entry a) ids"
    using Cons.prems(4) by (auto simp: expire_entry_def expire_domain)
  ultimately show ?case using step by simp
qed


lemma fold_expire_fields:
  "rg_domain (fold spec_expire ids a) j = (if j \<in> set ids then None else rg_domain a j)"
  by (induction ids arbitrary: a) (auto simp: expire_domain)

lemma expire_tld: "rg_tld (spec_expire i a) j = rg_tld a j"
  by (auto simp: spec_expire_def rg_tld_def rg_domain_def del_entry_def split: option.splits entry.splits)

lemma fold_expire_tld: "rg_tld (fold spec_expire ids a) j = rg_tld a j"
  by (induction ids arbitrary: a) (auto simp: expire_tld)

lemma fold_expire_grace:
  "distinct ids \<Longrightarrow> \<forall>i\<in>set ids. rg_domain a i \<noteq> None \<Longrightarrow>
     fmlookup (rg_grace (fold spec_expire ids a)) j
       = (if j \<in> set ids then map_option (\<lambda>d. (ds_valid_until d, ds_owner d)) (rg_domain a j) else fmlookup (rg_grace a) j)"
proof (induction ids arbitrary: a)
  case (Cons i ids)
  then have "\<forall>k\<in>set ids. rg_domain (spec_expire i a) k \<noteq> None" by (auto simp: expire_domain)
  moreover have "fmlookup (rg_grace (spec_expire i a)) j
      = (if j = i then map_option (\<lambda>d. (ds_valid_until d, ds_owner d)) (rg_domain a j) else fmlookup (rg_grace a) j)"
    using Cons.prems(2) by (auto simp: spec_expire_def del_entry_def)
  ultimately show ?case using Cons by (auto simp: expire_domain)
qed simp

lemma due_iff: "due (rg_entries a) i u \<longleftrightarrow> (\<exists>d. rg_domain a i = Some d \<and> ds_valid_until d = u)"
  by (auto simp: due_def rg_domain_def split: option.splits entry.splits)

lemma sound_fold: "sound cr a \<Longrightarrow> sound cr (fold spec_expire ids a)"
  by (induction ids arbitrary: a) (auto simp: sound_expire)

lemma inv_fold: "registry_inv cr a \<Longrightarrow> registry_inv cr (fold spec_expire ids a)"
  by (induction ids arbitrary: a) (auto simp: inv_expire)

lemma gc_slot_refines:
  assumes r: "rep cr s a" and "sound cr a" "u \<le> now" "fmlookup (expirations s) u \<noteq> None"
  shows "\<exists>s'. gc_slots cr now (u # us) (s, j, xs)
      = gc_slots cr now us (s', j @ map (expire_entry a) (due_at a u), xs @ due_at a u)
    \<and> rep cr s' (fold spec_expire (due_at a u) a)"
proof -
  let ?E = "rg_entries a"
  have ex: "exps_ok ?E (expirations s)" and st: "store_ok cr ?E ?E s" using r by (auto simp: rep_def store_ok_def)
  have "fset (slot (expirations s) u) = {i. due ?E i u}" using ex by (auto simp: exps_ok_def)
  then have ids: "sorted_list_of_fset (slot (expirations s) u) = due_at a u"
    by (simp add: sorted_list_of_fset.rep_eq due_at_def)
  define s1 where "s1 = s\<lparr>expirations := fmdrop u (expirations s)\<rparr>"
  have "due (fmdrop_set (set (due_at a u)) ?E) i v \<longleftrightarrow> v \<noteq> u \<and> due ?E i v" for i v
    by (auto simp: due_at_def due_def)
  moreover have "slot (fmdrop u (expirations s)) v = (if v = u then {||} else slot (expirations s) v)" for v
    by (simp add: slot_def)
  ultimately have "exps_ok (fmdrop_set (set (due_at a u)) ?E) (fmdrop u (expirations s))"
    using ex by (auto simp: exps_ok_def)
  then have "store_ok cr ?E (fmdrop_set (set (due_at a u)) ?E) s1" using st by (simp add: store_ok_def s1_def)
  moreover have "rep0 s1 a" using r by (simp add: rep0_def rep_def s1_def)
  moreover have "distinct (due_at a u)" "\<forall>i\<in>set (due_at a u). due ?E i u" by (simp_all add: due_at_def)
  ultimately obtain s' where "gc_ids cr now (due_at a u) (s1, j, xs)
      = Some (s', j @ map (expire_entry a) (due_at a u), xs @ due_at a u)" "rep cr s' (fold spec_expire (due_at a u) a)"
    using gc_ids_refines [OF assms(3), of s1 a cr "due_at a u" j xs] assms(2) by blast
  then show ?thesis using ids by (intro exI [of _ s']) (simp add: Let_def s1_def slot_def)
qed

lemma gc_slots_refines:
  assumes "\<forall>u\<in>set us. u \<le> now" "distinct us" "\<forall>u\<in>set us. \<exists>i. due (rg_entries a) i u"
    "rep cr s a" "sound cr a"
  shows "\<exists>s'. gc_slots cr now us (s, j, xs)
      = Some (s', j @ map (expire_entry a) (concat (map (due_at a) us)), xs @ concat (map (due_at a) us))
    \<and> rep cr s' (fold spec_expire (concat (map (due_at a) us)) a)"
  using assms
proof (induction us arbitrary: s a j xs)
  case (Cons u us)
  let ?a = "fold spec_expire (due_at a u) a"
  have ex: "exps_ok (rg_entries a) (expirations s)" using Cons.prems(4) by (simp add: rep_def store_ok_def)
  have "slot (expirations s) u \<noteq> {||}" using ex Cons.prems(3) by (auto simp: exps_ok_def)
  then have "fmlookup (expirations s) u \<noteq> None" by (auto simp: slot_def)
  then obtain s1 where s1: "gc_slots cr now (u # us) (s, j, xs)
      = gc_slots cr now us (s1, j @ map (expire_entry a) (due_at a u), xs @ due_at a u)" "rep cr s1 ?a"
    using gc_slot_refines [OF Cons.prems(4,5), of u now us j xs] Cons.prems(1) by auto
  have keep: "due (rg_entries ?a) i v \<longleftrightarrow> due (rg_entries a) i v" if "v \<noteq> u" for i v
    using that by (auto simp: due_iff fold_expire_fields due_at_def)
  have dom: "rg_domain ?a i = rg_domain a i" if "i \<in> set (due_at a v)" "v \<in> set us" for i v
    using that Cons.prems(2) by (auto simp: fold_expire_fields due_at_def due_iff)
  have at: "due_at ?a v = due_at a v" if "v \<noteq> u" for v using keep [OF that] by (simp add: due_at_def)
  then have ats: "map (due_at ?a) us = map (due_at a) us" using Cons.prems(2) by (metis (no_types, lifting) distinct.simps(2) map_eq_conv)
  have eqs: "map (expire_entry ?a) (concat (map (due_at a) us)) = map (expire_entry a) (concat (map (due_at a) us))"
    using dom by (auto simp: expire_entry_def)
  have "\<forall>v\<in>set us. \<exists>i. due (rg_entries ?a) i v" using Cons.prems(2,3) keep by (metis distinct.simps(2) list.set_intros(2))
  then obtain s' where "gc_slots cr now us (s1, j @ map (expire_entry a) (due_at a u), xs @ due_at a u)
      = Some (s', (j @ map (expire_entry a) (due_at a u)) @ map (expire_entry ?a) (concat (map (due_at ?a) us)),
          (xs @ due_at a u) @ concat (map (due_at ?a) us))"
    "rep cr s' (fold spec_expire (concat (map (due_at ?a) us)) ?a)"
    using Cons.IH [of ?a s1 "j @ map (expire_entry a) (due_at a u)" "xs @ due_at a u"] s1(2) Cons.prems(1,2)
      sound_fold [OF Cons.prems(5)] by auto
  then show ?case unfolding s1(1) ats eqs by simp
qed simp

lemma gc_refines:
  assumes "rep cr s a" "sound cr a"
  shows "\<exists>s'. gc_expired_journaled cr now s j
      = Some (s', j @ fst (snd (spec_gc now a)), snd (snd (spec_gc now a))) \<and> rep cr s' (fst (spec_gc now a))"
proof -
  have fin: "finite {u. u \<le> now \<and> (\<exists>i. due (rg_entries a) i u)}"
    by (rule finite_subset [OF _ finite_due(2)]) auto
  have ex: "exps_ok (rg_entries a) (expirations s)" using assms by (simp add: rep_def store_ok_def)
  have "u |\<in>| fmdom (expirations s) \<longleftrightarrow> slot (expirations s) u \<noteq> {||}" for u
    using ex by (auto simp: exps_ok_def slot_def fmlookup_dom_iff split: option.splits)
  also have "slot (expirations s) u \<noteq> {||} \<longleftrightarrow> (\<exists>i. due (rg_entries a) i u)" for u
    using ex by (auto simp: exps_ok_def)
  finally have "fset (fmdom (expirations s)) = {u. \<exists>i. due (rg_entries a) i u}" by auto
  then have us: "filter (\<lambda>u. u \<le> now) (sorted_list_of_fset (fmdom (expirations s))) = due_slots a now"
    using fin by (intro strict_sorted_unique) (auto simp: sorted_list_of_fset.rep_eq due_slots_def sorted_wrt_filter)
  have "\<forall>u\<in>set (due_slots a now). u \<le> now" "distinct (due_slots a now)"
    "\<forall>u\<in>set (due_slots a now). \<exists>i. due (rg_entries a) i u"
    using fin by (simp_all add: due_slots_def)
  from gc_slots_refines [OF this assms, of j "[]"] show ?thesis
    unfolding gc_expired_journaled_def us spec_gc_def lapsed_def fst_conv snd_conv append_Nil .
qed

end
