(* ===== verification/Scone_State_Run.thy ===== *)
theory Scone_State_Run
  imports Scone_State_Gc
begin

text \<open>
  The chain state as a component: the registry a state stands for, the invariant of its states,
  and the guarantees of its operations, for one operation and for whole histories.
\<close>

section \<open>The registry of a state\<close>

definition dec_entry :: "bytes \<Rightarrow> entry" where
  "dec_entry bs = (case decode_domain_entry bs of Some d \<Rightarrow> DomainEntry d
     | None \<Rightarrow> TldEntry (the (decode_tld_entry bs)))"

definition abs_state :: "chain_state \<Rightarrow> registry" where
  "abs_state s = \<lparr>rg_network = cs_network s, rg_entries = fmmap dec_entry (mb_entries (cs_backend s)),
     rg_keys = owner_keys s, rg_grace = grace s, rg_banned = banned s\<rparr>"

definition valid_state :: "crypto \<Rightarrow> chain_state \<Rightarrow> bool" where
  "valid_state cr s \<longleftrightarrow> rep cr s (abs_state s) \<and> sound cr (abs_state s) \<and> registry_inv cr (abs_state s)"

lemma dec_enc: "normal e \<Longrightarrow> dec_entry (enc e) = e"
  by (cases e) (simp_all add: dec_entry_def decode_encode_domain decode_encode_tld)

lemma rep_abs: "rep cr s a \<Longrightarrow> abs_state s = a"
proof -
  assume r: "rep cr s a"
  have "fmmap dec_entry (fmmap enc (rg_entries a)) = rg_entries a"
  proof (rule fmap_ext)
    fix i
    show "fmlookup (fmmap dec_entry (fmmap enc (rg_entries a))) i = fmlookup (rg_entries a) i"
      using r dec_enc all_normal_lookup
      by (cases "fmlookup (rg_entries a) i") (auto simp: rep_def store_ok_def)
  qed
  then show ?thesis using r by (simp add: abs_state_def rep_def store_ok_def)
qed

lemma valid_stateI: "rep cr s a \<Longrightarrow> sound cr a \<Longrightarrow> registry_inv cr a \<Longrightarrow> valid_state cr s"
  using rep_abs by (simp add: valid_state_def)

lemma valid_new: "valid_state cr (for_network network)"
  by (rule valid_stateI [OF rep_new]) (auto simp: inv_new, simp add: sound_def registry_new_def leaves_distinct_def)

lemma spec_inv:
  "registry_inv cr a \<Longrightarrow> spec_apply cr tx now a = Some (a', es, r) \<Longrightarrow> registry_inv cr a'"
  using kind_inv tx_validate_iff [of cr tx] by (auto simp: spec_apply_def split: sum.splits if_splits)

lemma spec_asteps:
  "spec_apply cr tx now a = Some (a', es, r) \<Longrightarrow> sound cr a \<Longrightarrow> sound cr a' \<Longrightarrow> no_clash tx a \<Longrightarrow>
     asteps (sound cr) a es a'"
  using kind_asteps by (auto simp: spec_apply_def split: sum.splits if_splits intro: asteps.Nil)

lemma gc_asteps_ids:
  "sound cr a \<Longrightarrow> registry_inv cr a \<Longrightarrow> distinct ids \<Longrightarrow> \<forall>i\<in>set ids. rg_domain a i \<noteq> None \<Longrightarrow>
     asteps (sound cr) a (map (expire_entry a) ids) (fold spec_expire ids a)"
proof (induction ids arbitrary: a)
  case Nil
  then show ?case by (simp add: asteps.Nil)
next
  case (Cons i ids)
  then obtain d where d: "rg_domain a i = Some d" by auto
  have g: "fmlookup (rg_grace a) i = None"
    using Cons.prems(2) lookup_domain [OF d] by (auto simp: registry_inv_def grace_ok_def)
  let ?a = "spec_expire i a"
  have "astep a (expire_entry a i) ?a"
    using astep.Expire [OF lookup_domain [OF d] g] d by (simp add: expire_entry_def spec_expire_def)
  then have 1: "asteps (sound cr) a [expire_entry a i] ?a"
    using Cons.prems(1) sound_expire by (intro asteps_one) auto
  have eqs: "map (expire_entry ?a) ids = map (expire_entry a) ids" and "\<forall>k\<in>set ids. rg_domain ?a k \<noteq> None"
    using Cons.prems(3,4) by (auto simp: expire_entry_def expire_domain)
  then have "asteps (sound cr) ?a (map (expire_entry ?a) ids) (fold spec_expire ids ?a)"
    using Cons.IH [OF sound_expire [OF Cons.prems(1)] inv_expire [OF Cons.prems(2)], of i] Cons.prems(3) by simp
  from asteps_append [OF this [unfolded eqs] 1] show ?case by simp
qed

lemma set_lapsed: "set (lapsed a now) = {i. \<exists>d. rg_domain a i = Some d \<and> ds_valid_until d \<le> now}"
proof -
  have "finite {u. u \<le> now \<and> (\<exists>i. due (rg_entries a) i u)}"
    by (rule finite_subset [OF _ finite_due(2)]) auto
  then show ?thesis by (auto simp: lapsed_def due_slots_def due_at_def due_iff)
qed

lemma distinct_lapsed: "distinct (lapsed a now)"
proof -
  have "distinct (concat (map (due_at a) us))" if "distinct us" for us
    using that by (induction us) (auto simp: due_at_def due_iff)
  then show ?thesis by (simp add: lapsed_def due_slots_def)
qed

lemma gc_asteps:
  "sound cr a \<Longrightarrow> registry_inv cr a \<Longrightarrow> asteps (sound cr) a (map (expire_entry a) (lapsed a now)) (fold spec_expire (lapsed a now) a)"
  by (rule gc_asteps_ids) (auto simp: distinct_lapsed set_lapsed)

section \<open>One operation\<close>

text \<open>
  The operation meets no hash collision: a new identifier is not the identifier of an entry of the
  other kind, and no two entries of the resulting registry share a leaf hash.
\<close>

definition no_collision :: "crypto \<Rightarrow> transaction \<Rightarrow> u64 \<Rightarrow> registry \<Rightarrow> bool" where
  "no_collision cr tx now a \<longleftrightarrow> no_clash tx a
     \<and> (case spec_apply cr tx now a of None \<Rightarrow> True | Some (a', _) \<Rightarrow> leaves_distinct cr (rg_entries a'))"

lemma apply_ok:
  assumes "rep cr s a" "sound cr a" "registry_inv cr a" "no_collision cr tx now a"
    and sp: "spec_apply cr tx now a = Some (a', es, r)"
  shows "\<exists>s'. apply_journaled_at cr tx now s j = Some (s', j @ es, r) \<and> rep cr s' a' \<and> sound cr a'
    \<and> registry_inv cr a' \<and> asteps (sound cr) a es a'"
proof -
  have c: "no_clash tx a" "leaves_distinct cr (rg_entries a')" using assms(4) sp by (simp_all add: no_collision_def)
  have i: "registry_inv cr a'" using spec_inv [OF assms(3) sp] .
  then have s: "sound cr a'" using c(2) by (simp add: sound_def registry_inv_def)
  show ?thesis using apply_refines [OF assms(1,2) c(1), of now j] sp i s spec_asteps [OF sp assms(2) s c(1)]
    by (auto simp: refines_def)
qed

lemma gc_ok:
  assumes "rep cr s a" "sound cr a" "registry_inv cr a" and sp: "spec_gc now a = (a', es, ids)"
  shows "\<exists>s'. gc_expired_journaled cr now s j = Some (s', j @ es, ids) \<and> rep cr s' a' \<and> sound cr a'
    \<and> registry_inv cr a' \<and> asteps (sound cr) a es a'"
  using gc_refines [OF assms(1,2), of now j] sp sound_fold [OF assms(2)] inv_fold [OF assms(3)]
    gc_asteps [OF assms(2,3)] by (auto simp: spec_gc_def)

lemma undo_exact:
  assumes "asteps (sound cr) a es b" "rep cr s a" "rep cr s' b"
  shows "\<exists>s0. rollback cr es s' = Some s0 \<and> state_eq s0 s"
  using undo_steps [OF assms(1,3)] rep_unique assms(2) by blast


section \<open>Histories\<close>

datatype event = Apply transaction u64 | Collect u64

datatype outcome = Applied "bc_error + unit" | Collected "domain_id list"

fun run_event :: "crypto \<Rightarrow> event \<Rightarrow> chain_state \<times> undo_log \<Rightarrow> (outcome \<times> chain_state \<times> undo_log) option" where
  "run_event cr (Apply tx now) (s, j) = map_option (\<lambda>(s', j', r). (Applied r, s', j')) (apply_journaled_at cr tx now s j)"
| "run_event cr (Collect now) (s, j) = map_option (\<lambda>(s', j', ids). (Collected ids, s', j')) (gc_expired_journaled cr now s j)"

fun run_events :: "crypto \<Rightarrow> event list \<Rightarrow> chain_state \<times> undo_log \<Rightarrow> (outcome list \<times> chain_state \<times> undo_log) option" where
  "run_events cr [] x = Some ([], x)"
| "run_events cr (ev # evs) x = do { (r, x1) \<leftarrow> run_event cr ev x; (rs, x2) \<leftarrow> run_events cr evs x1; Some (r # rs, x2) }"

fun spec_event :: "crypto \<Rightarrow> event \<Rightarrow> registry \<Rightarrow> (outcome \<times> registry \<times> undo_log) option" where
  "spec_event cr (Apply tx now) a = map_option (\<lambda>(a', es, r). (Applied r, a', es)) (spec_apply cr tx now a)"
| "spec_event cr (Collect now) a = (case spec_gc now a of (a', es, ids) \<Rightarrow> Some (Collected ids, a', es))"

fun spec_events :: "crypto \<Rightarrow> event list \<Rightarrow> registry \<Rightarrow> (outcome list \<times> registry \<times> undo_log) option" where
  "spec_events cr [] a = Some ([], a, [])"
| "spec_events cr (ev # evs) a =
     do { (r, a1, es) \<leftarrow> spec_event cr ev a; (rs, a2, fs) \<leftarrow> spec_events cr evs a1; Some (r # rs, a2, es @ fs) }"

fun event_free :: "crypto \<Rightarrow> event \<Rightarrow> registry \<Rightarrow> bool" where
  "event_free cr (Apply tx now) a \<longleftrightarrow> no_collision cr tx now a"
| "event_free cr (Collect now) a \<longleftrightarrow> True"

text \<open>No step of the history meets a hash collision.\<close>

fun collision_free :: "crypto \<Rightarrow> event list \<Rightarrow> registry \<Rightarrow> bool" where
  "collision_free cr [] a \<longleftrightarrow> True"
| "collision_free cr (ev # evs) a \<longleftrightarrow> event_free cr ev a
     \<and> (case spec_event cr ev a of None \<Rightarrow> True | Some (_, a1, _) \<Rightarrow> collision_free cr evs a1)"

lemma event_ok:
  assumes "rep cr s a" "sound cr a" "registry_inv cr a" "event_free cr ev a" "spec_event cr ev a = Some (r, a', es)"
  shows "\<exists>s'. run_event cr ev (s, j) = Some (r, s', j @ es) \<and> rep cr s' a' \<and> sound cr a'
    \<and> registry_inv cr a' \<and> asteps (sound cr) a es a'"
proof (cases ev)
  case (Apply tx now)
  then show ?thesis using assms apply_ok [OF assms(1-3), of tx now a' es _ j] by auto
next
  case (Collect now)
  then show ?thesis using assms gc_ok [OF assms(1-3), of now a' es _ j] by (auto split: prod.splits)
qed

lemma event_none:
  assumes "rep cr s a" "sound cr a" "event_free cr ev a" "spec_event cr ev a = None"
  shows "run_event cr ev (s, j) = None"
proof (cases ev)
  case (Apply tx now)
  then show ?thesis using assms apply_refines [OF assms(1,2), of tx now j] by (simp add: no_collision_def refines_def)
qed (use assms in \<open>simp add: spec_gc_def\<close>)

lemma events_ok:
  "rep cr s a \<Longrightarrow> sound cr a \<Longrightarrow> registry_inv cr a \<Longrightarrow> collision_free cr evs a \<Longrightarrow>
     spec_events cr evs a = Some (rs, a', es) \<Longrightarrow>
     \<exists>s'. run_events cr evs (s, j) = Some (rs, s', j @ es) \<and> rep cr s' a' \<and> sound cr a'
       \<and> registry_inv cr a' \<and> asteps (sound cr) a es a'"
proof (induction evs arbitrary: s a j rs es)
  case Nil
  then show ?case by (auto intro: asteps.Nil)
next
  case (Cons ev evs)
  obtain r a1 es1 rs2 fs where 1: "spec_event cr ev a = Some (r, a1, es1)" "spec_events cr evs a1 = Some (rs2, a', fs)"
    "rs = r # rs2" "es = es1 @ fs"
    using Cons.prems(5) by (auto split: bind_splits prod.splits)
  obtain s1 where s1: "run_event cr ev (s, j) = Some (r, s1, j @ es1)" "rep cr s1 a1" "sound cr a1"
    "registry_inv cr a1" "asteps (sound cr) a es1 a1"
    using event_ok [OF Cons.prems(1-3) _ 1(1), of j] Cons.prems(4) by auto
  obtain s2 where "run_events cr evs (s1, j @ es1) = Some (rs2, s2, (j @ es1) @ fs)" "rep cr s2 a'" "sound cr a'"
    "registry_inv cr a'" "asteps (sound cr) a1 fs a'"
    using Cons.IH [OF s1(2-4) _ 1(2), of "j @ es1"] Cons.prems(4) 1(1) by auto
  then show ?case using s1 1 asteps_append by auto
qed

lemma events_none:
  "rep cr s a \<Longrightarrow> sound cr a \<Longrightarrow> registry_inv cr a \<Longrightarrow> collision_free cr evs a \<Longrightarrow>
     spec_events cr evs a = None \<Longrightarrow> run_events cr evs (s, j) = None"
proof (induction evs arbitrary: s a j)
  case (Cons ev evs)
  show ?case
  proof (cases "spec_event cr ev a")
    case None
    then show ?thesis using event_none [OF Cons.prems(1,2) _ None, of j] Cons.prems(4) by simp
  next
    case (Some x)
    obtain r a1 es where x: "x = (r, a1, es)" by (metis prod_cases3)
    obtain s1 where s1: "run_event cr ev (s, j) = Some (r, s1, j @ es)" "rep cr s1 a1" "sound cr a1" "registry_inv cr a1"
      using event_ok [OF Cons.prems(1-3), of ev r a1 es j] Cons.prems(4) Some x by auto
    then show ?thesis using Cons.IH [OF s1(2-4), of "j @ es"] Cons.prems(4,5) Some x
      by (auto split: bind_splits)
  qed
qed simp

end
