(* ===== verification/Scone_State_Props.thy ===== *)
theory Scone_State_Props
  imports Scone_State_Run
begin

text \<open>
  What the chain state guarantees, over its own operations: refinement of the rule book, exact
  rollback, exact garbage collection, authority over entries, the eligibility pool and the
  committed root. The example state at the end is reached by real transactions under a concrete
  hash function.
\<close>

section \<open>Authority\<close>

lemma learn_entries: "spec_learn own pk a = (a1, es) \<Longrightarrow> rg_domain a1 = rg_domain a \<and> rg_tld a1 = rg_tld a"
  by (simp add: spec_learn_same)

lemma rg_domain_set [simp]:
  "rg_domain (set_entry i (DomainEntry d) a) k = (if k = i then Some d else rg_domain a k)"
  "rg_domain (set_entry i (TldEntry t) a) k = (if k = i then None else rg_domain a k)"
  "rg_domain (del_entry i a) k = (if k = i then None else rg_domain a k)"
  "rg_domain (a\<lparr>rg_grace := g\<rparr>) k = rg_domain a k" "rg_domain (a\<lparr>rg_banned := b\<rparr>) k = rg_domain a k"
  by (auto simp: rg_domain_def set_entry_def del_entry_def)

lemma rg_tld_set [simp]:
  "rg_tld (set_entry i (TldEntry t) a) k = (if k = i then Some t else rg_tld a k)"
  "rg_tld (set_entry i (DomainEntry d) a) k = (if k = i then None else rg_tld a k)"
  "rg_tld (del_entry i a) k = (if k = i then None else rg_tld a k)"
  "rg_tld (a\<lparr>rg_grace := g\<rparr>) k = rg_tld a k" "rg_tld (a\<lparr>rg_banned := b\<rparr>) k = rg_tld a k"
  by (auto simp: rg_tld_def set_entry_def del_entry_def)

lemma domain_not_tld: "rg_domain a i = Some d \<Longrightarrow> rg_tld a i = None"
  by (auto simp: rg_domain_def rg_tld_def split: option.splits entry.splits)

lemma domain_authority:
  assumes "spec_kind cr tx now a = Some (a', es, r)" "no_clash tx a" "rg_domain a i = Some d" "rg_domain a' i \<noteq> Some d"
  shows "r = Inr () \<and> tx_owner cr tx = ds_owner d"
proof (cases tx)
  case (RegisterDomain x)
  then show ?thesis using assms
    by (auto simp: spec_register_def spec_free_def dest!: learn_entries
        split: option.splits if_splits sum.splits bind_splits prod.splits)
next
  case (UpdateDomain x)
  then show ?thesis using assms
    by (auto dest!: learn_entries split: option.splits if_splits prod.splits)
next
  case (RegisterTld x)
  then show ?thesis using assms
    by (auto dest!: learn_entries split: option.splits if_splits sum.splits prod.splits)
next
  case (AssignDomain x)
  then show ?thesis using assms
    by (auto simp: spec_register_def spec_free_def split: option.splits if_splits sum.splits bind_splits prod.splits)
qed (use assms domain_not_tld in \<open>auto split: option.splits if_splits\<close>)

lemma tld_authority:
  assumes "spec_kind cr tx now a = Some (a', es, r)" "no_clash tx a" "rg_tld a i = Some t" "rg_tld a' i \<noteq> Some t"
  shows "r = Inr () \<and> tx_owner cr tx = ts_owner t"
proof (cases tx)
  case (RegisterDomain x)
  then show ?thesis using assms
    by (auto simp: spec_register_def spec_free_def dest!: learn_entries
        split: option.splits if_splits sum.splits bind_splits prod.splits)
next
  case (UpdateDomain x)
  then show ?thesis using assms domain_not_tld
    by (auto dest!: learn_entries split: option.splits if_splits prod.splits)
next
  case (RegisterTld x)
  then show ?thesis using assms
    by (auto dest!: learn_entries split: option.splits if_splits sum.splits prod.splits)
next
  case (AssignDomain x)
  then show ?thesis using assms
    by (auto simp: spec_register_def spec_free_def split: option.splits if_splits sum.splits bind_splits prod.splits)
next
  case (RenewDomain x)
  then show ?thesis using assms domain_not_tld by (fastforce split: option.splits if_splits)
next
  case (TransferDomain x)
  then show ?thesis using assms domain_not_tld by (fastforce split: option.splits if_splits)
qed (use assms in \<open>auto split: option.splits if_splits\<close>)


lemma rg_domain_iff: "rg_domain a i = Some d \<longleftrightarrow> fmlookup (rg_entries a) i = Some (DomainEntry d)"
  by (auto simp: rg_domain_def split: option.splits entry.splits)

lemma rg_tld_iff: "rg_tld a i = Some t \<longleftrightarrow> fmlookup (rg_entries a) i = Some (TldEntry t)"
  by (auto simp: rg_tld_def split: option.splits entry.splits)

lemma leaves_split:
  "leaves cr (rg_entries a) = (\<lambda>k. {domain_leaf_v2 cr i d | i d. rg_domain a i = Some d \<and> smt_key i = k}
     \<union> {tld_leaf_v2 cr i t | i t. rg_tld a i = Some t \<and> smt_key i = k})" (is "_ = ?r")
proof (intro ext set_eqI iffI)
  fix k x
  assume "x \<in> leaves cr (rg_entries a) k"
  then obtain i e where x: "x = leaf cr i e" "fmlookup (rg_entries a) i = Some e" "smt_key i = k"
    by (auto simp: leaves_def)
  then show "x \<in> ?r k" by (cases e) (auto simp: rg_domain_iff rg_tld_iff)
next
  fix k x
  assume "x \<in> ?r k"
  then show "x \<in> leaves cr (rg_entries a) k"
    unfolding rg_domain_iff rg_tld_iff leaves_def using leaf.simps by (elim UnE CollectE exE conjE) (metis (mono_tags, lifting) CollectI)+
qed

lemma owners_split:
  "own \<in> rg_owners a \<longleftrightarrow> (\<exists>i. (\<exists>d. rg_domain a i = Some d \<and> ds_owner d = own) \<or> (\<exists>t. rg_tld a i = Some t \<and> ts_owner t = own))"
proof
  assume "own \<in> rg_owners a"
  then obtain i e where e: "own = entry_owner e" "fmlookup (rg_entries a) i = Some e" by (auto simp: rg_owners_eq)
  then show "\<exists>i. (\<exists>d. rg_domain a i = Some d \<and> ds_owner d = own) \<or> (\<exists>t. rg_tld a i = Some t \<and> ts_owner t = own)"
    by (cases e) (auto simp: rg_domain_iff rg_tld_iff)
qed (force simp: rg_owners_eq rg_domain_iff rg_tld_iff)

lemma valid_ban:
  assumes "valid_state cr s" shows "valid_state cr (s\<lparr>banned := b\<rparr>)"
proof (rule valid_stateI)
  show "rep cr (s\<lparr>banned := b\<rparr>) ((abs_state s)\<lparr>rg_banned := b\<rparr>)"
    using assms by (simp add: valid_state_def rep_def store_ok_def)
qed (use assms in \<open>simp_all add: valid_state_def inv_ban\<close>)

section \<open>An example history\<close>

text \<open>A hash that counts bytes, a TLD that is claimed and opened, and a domain below it.\<close>

definition len_crypto :: crypto where
  "len_crypto = toy_crypto\<lparr>blake3 := (\<lambda>bs. of_nat (length bs))\<rparr>"

definition ex_register_tld :: transaction where
  "ex_register_tld = RegisterTld (register_tld_on len_crypto NETWORK_TESTNET ''zz'' 0
     (encode_proof \<lparr>cp_nonce = 0, cp_difficulty = 8\<rparr>) 7 1)"

definition ex_open_tld :: transaction where
  "ex_open_tld = SetTldOpen (set_tld_open_on len_crypto NETWORK_TESTNET 14 True 7 1)"

definition ex_register_domain :: transaction where
  "ex_register_domain = RegisterDomain (register_domain_on len_crypto NETWORK_TESTNET ''me.zz'' 0
     (encode_proof \<lparr>cp_nonce = 0, cp_difficulty = 4\<rparr>) 7 1)"

definition ex_events :: "event list" where
  "ex_events = [Apply ex_register_tld 10, Apply ex_open_tld 20, Apply ex_register_domain 30]"

definition ex_domain :: domain_state where
  "ex_domain = \<lparr>ds_owner = 46, ds_sequence = 0, ds_record_hash = None, ds_registered_at = 30, ds_valid_until = 31536030\<rparr>"

definition ex_registry :: "entries \<Rightarrow> registry" where
  "ex_registry E = \<lparr>rg_network = TESTNET, rg_entries = E, rg_keys = fmupd 46 7 fmempty, rg_grace = fmempty, rg_banned = {||}\<rparr>"

abbreviation ex_entries1 :: entries where
  "ex_entries1 \<equiv> fmupd 14 (TldEntry \<lparr>ts_owner = 46, ts_open = False\<rparr>) fmempty"
abbreviation ex_entries2 :: entries where
  "ex_entries2 \<equiv> fmupd 14 (TldEntry \<lparr>ts_owner = 46, ts_open = True\<rparr>) fmempty"
abbreviation ex_entries3 :: entries where
  "ex_entries3 \<equiv> fmupd 20 (DomainEntry ex_domain) ex_entries2"

lemma le_last_sorted: "sorted_wrt (<) xs \<Longrightarrow> x \<in> set xs \<Longrightarrow> x \<le> last (xs :: string list)"
  by (induction xs) (auto intro: less_imp_le)

lemma zz_not_reserved: "''zz'' \<notin> set ICANN_TLDS"
proof
  assume "''zz'' \<in> set ICANN_TLDS"
  then have "''zz'' \<le> last ICANN_TLDS" by (rule le_last_sorted [OF ICANN_TLDS_sorted])
  moreover have "last ICANN_TLDS = last ICANN_TLDS_10" using ICANN_parts_nonempty by (simp add: ICANN_TLDS_def)
  moreover have "last ICANN_TLDS_10 < ''zz''" by code_simp
  ultimately show False by simp
qed

lemma ex_ids:
  "tld_id_from_tld len_crypto ''zz'' = 14" "domain_id_from_name len_crypto ''me.zz'' = 20" "owner_of len_crypto 7 = 46"
  by code_simp+

lemma ex_pow:
  "verify_pow len_crypto NETWORK_TESTNET (tld_challenge ''zz'') (encode_proof \<lparr>cp_nonce = 0, cp_difficulty = 8\<rparr>) 8
     = Inr \<lparr>cp_nonce = 0, cp_difficulty = 8\<rparr>"
  "verify_pow len_crypto NETWORK_TESTNET (domain_challenge ''me.zz'') (encode_proof \<lparr>cp_nonce = 0, cp_difficulty = 4\<rparr>) 4
     = Inr \<lparr>cp_nonce = 0, cp_difficulty = 4\<rparr>"
  by code_simp+

lemma ex_valid:
  "tx_validate len_crypto ex_register_tld = Inr ()" "tx_validate len_crypto ex_open_tld = Inr ()"
  "tx_validate len_crypto ex_register_domain = Inr ()"
  by code_simp+

lemma ex_spec1: "spec_apply len_crypto ex_register_tld 10 (registry_new TESTNET)
    = Some (ex_registry ex_entries1, [UndoLearnOwnerKey 46, UndoRegisterTld 14], Inr ())"
  by (simp add: spec_apply_def ex_valid)
    (simp add: ex_register_tld_def register_tld_on_def zz_not_reserved registry_new_def rg_tld_def TESTNET_def
      ex_pow ex_ids spec_learn_def ex_registry_def set_entry_def claimed_by_def)

lemma ex_spec2: "spec_apply len_crypto ex_open_tld 20 (ex_registry ex_entries1)
    = Some (ex_registry ex_entries2, [UndoMutateTld 14 \<lparr>ts_owner = 46, ts_open = False\<rparr>], Inr ())"
  by (simp add: spec_apply_def ex_valid)
    (simp add: ex_open_tld_def set_tld_open_on_def rg_tld_def TESTNET_def ex_ids ex_registry_def set_entry_def)

lemma ex_spec3: "spec_apply len_crypto ex_register_domain 30 (ex_registry ex_entries2)
    = Some (ex_registry ex_entries3, [UndoRegisterDomain 20 None], Inr ())"
proof -
  have "domain_tld ''me.zz'' = Some ''zz''" by code_simp
  moreover have "checked_add 30 DOMAIN_TERM_SECS = Some 31536030" by (simp add: checked_add_def DOMAIN_TERM_SECS_def)
  ultimately show ?thesis
    by (simp add: spec_apply_def ex_valid)
      (simp add: ex_register_domain_def register_domain_on_def rg_tld_def rg_domain_def TESTNET_def ex_ids ex_pow
        ex_registry_def set_entry_def spec_free_def spec_learn_def spec_register_def ex_domain_def)
qed

lemma ex_distinct: "leaves_distinct len_crypto ex_entries1" "leaves_distinct len_crypto ex_entries2"
  "leaves_distinct len_crypto ex_entries3"
  by code_simp+

lemma ex_free: "collision_free len_crypto ex_events (registry_new TESTNET)"
  using ex_spec1 ex_spec2 ex_spec3 ex_distinct
  by (simp add: ex_events_def no_collision_def)
    (simp add: ex_register_tld_def ex_open_tld_def ex_register_domain_def rg_domain_def rg_tld_def registry_new_def
      ex_registry_def register_tld_on_def register_domain_on_def set_tld_open_on_def ex_ids)

lemma ex_history:
  "spec_events len_crypto ex_events (registry_new TESTNET) = Some ([Applied (Inr ()), Applied (Inr ()), Applied (Inr ())],
     ex_registry ex_entries3, [UndoLearnOwnerKey 46, UndoRegisterTld 14,
       UndoMutateTld 14 \<lparr>ts_owner = 46, ts_open = False\<rparr>, UndoRegisterDomain 20 None])"
  by (simp add: ex_events_def ex_spec1 ex_spec2 ex_spec3)


section \<open>The component's guarantees\<close>

lemma ex_state:
  obtains s where "valid_state len_crypto s" "abs_state s = ex_registry ex_entries3"
    "run_events len_crypto ex_events (for_network TESTNET, []) = Some ([Applied (Inr ()), Applied (Inr ()), Applied (Inr ())], s,
       [UndoLearnOwnerKey 46, UndoRegisterTld 14, UndoMutateTld 14 \<lparr>ts_owner = 46, ts_open = False\<rparr>, UndoRegisterDomain 20 None])"
proof -
  obtain s where s: "run_events len_crypto ex_events (for_network TESTNET, []) = Some ([Applied (Inr ()), Applied (Inr ()), Applied (Inr ())], s,
       [UndoLearnOwnerKey 46, UndoRegisterTld 14, UndoMutateTld 14 \<lparr>ts_owner = 46, ts_open = False\<rparr>, UndoRegisterDomain 20 None])"
    "rep len_crypto s (ex_registry ex_entries3)" "sound len_crypto (ex_registry ex_entries3)" "registry_inv len_crypto (ex_registry ex_entries3)"
    using events_ok [OF rep_new _ inv_new ex_free ex_history, of "[]"]
    by (auto simp: sound_def registry_new_def leaves_distinct_def)
  then show thesis using that [OF valid_stateI rep_abs] by blast
qed






text \<open>C13: garbage collection is exact. On a valid state it removes precisely the domains whose validity
  has run out, each once, reports them, parks each with its expiry and last owner in the grace
  window, touches no other domain and no TLD, keeps the state valid, and can be undone.\<close>

theorem gc_expired_exact:
  assumes "valid_state cr s"
  shows "\<exists>s' s0 es ids. gc_expired_journaled cr now s j = Some (s', j @ es, ids) \<and> valid_state cr s'
    \<and> distinct ids \<and> set ids = {i. \<exists>d. state_domain s i = Some d \<and> ds_valid_until d \<le> now}
    \<and> state_domain s' = (\<lambda>i. if i \<in> set ids then None else state_domain s i) \<and> state_tld s' = state_tld s
    \<and> fmlookup (grace s') = (\<lambda>i. if i \<in> set ids
        then map_option (\<lambda>d. (ds_valid_until d, ds_owner d)) (state_domain s i) else fmlookup (grace s) i)
    \<and> rollback cr es s' = Some s0 \<and> state_eq s0 s"
proof -
  let ?a = "abs_state s" and ?ids = "lapsed (abs_state s) now"
  have v: "rep cr s ?a" "sound cr ?a" "registry_inv cr ?a" using assms by (auto simp: valid_state_def)
  obtain s' where s': "gc_expired_journaled cr now s j = Some (s', j @ map (expire_entry ?a) ?ids, ?ids)"
    "rep cr s' (fold spec_expire ?ids ?a)" "sound cr (fold spec_expire ?ids ?a)"
    "registry_inv cr (fold spec_expire ?ids ?a)" "asteps (sound cr) ?a (map (expire_entry ?a) ?ids) (fold spec_expire ?ids ?a)"
    using gc_ok [OF v, of now _ _ _ j] by (auto simp: spec_gc_def)
  have live: "\<forall>i\<in>set ?ids. rg_domain ?a i \<noteq> None" by (auto simp: set_lapsed)
  have "state_domain s' i = (if i \<in> set ?ids then None else state_domain s i)" for i
    using rep_domain [OF s'(2)] rep_domain [OF v(1)] by (simp add: fold_expire_fields)
  moreover have "state_tld s' i = state_tld s i" for i
    using rep_tld [OF s'(2)] rep_tld [OF v(1)] by (simp add: fold_expire_tld)
  moreover have "fmlookup (grace s') i = (if i \<in> set ?ids
        then map_option (\<lambda>d. (ds_valid_until d, ds_owner d)) (state_domain s i) else fmlookup (grace s) i)" for i
    using rep_simps(3) [OF s'(2)] rep_simps(3) [OF v(1)] rep_domain [OF v(1)]
    by (simp add: fold_expire_grace [OF distinct_lapsed live])
  moreover have "set ?ids = {i. \<exists>d. state_domain s i = Some d \<and> ds_valid_until d \<le> now}"
    using rep_domain [OF v(1)] by (simp add: set_lapsed)
  moreover obtain s0 where "rollback cr (map (expire_entry ?a) ?ids) s' = Some s0" "state_eq s0 s"
    using undo_exact [OF s'(5) v(1) s'(2)] by blast
  ultimately show ?thesis using s'(1) valid_stateI [OF s'(2-4)] distinct_lapsed
    by (intro exI [of _ s'] exI [of _ s0] exI [of _ "map (expire_entry ?a) ?ids"] exI [of _ ?ids]) (simp add: fun_eq_iff)
qed

theorem gc_expired_exact_witness:
  "\<exists>s s' j ids. valid_state len_crypto s \<and> gc_expired_journaled len_crypto 31536030 s [] = Some (s', j, ids) \<and> 20 \<in> set ids"
proof -
  obtain s where s: "valid_state len_crypto s" "abs_state s = ex_registry ex_entries3" by (rule ex_state)
  have "state_domain s 20 = Some ex_domain"
    using s rep_domain [of len_crypto s "abs_state s" 20] by (simp add: valid_state_def ex_registry_def rg_domain_def)
  moreover have "ds_valid_until ex_domain \<le> 31536030" by (simp add: ex_domain_def)
  ultimately show ?thesis using gc_expired_exact [OF s(1), of 31536030 "[]"] s(1) by fastforce
qed

text \<open>C6: only the owner changes an entry. If applying a transaction changes a live domain or TLD in any
  way, or removes it, then the transaction was accepted and the key it carries is the key of that
  entry's owner.\<close>

theorem owner_authority:
  assumes "valid_state cr s" "no_collision cr tx now (abs_state s)"
    "apply_journaled_at cr tx now s j = Some (s', j', r)"
    "state_domain s i = Some d \<and> state_domain s' i \<noteq> Some d \<and> own = ds_owner d
     \<or> state_tld s i = Some t \<and> state_tld s' i \<noteq> Some t \<and> own = ts_owner t"
  shows "r = Inr () \<and> owner_of cr (tx_public_key tx) = own"
proof -
  let ?a = "abs_state s"
  have v: "rep cr s ?a" "sound cr ?a" "registry_inv cr ?a" using assms(1) by (auto simp: valid_state_def)
  have c: "no_clash tx ?a" using assms(2) by (simp add: no_collision_def)
  obtain a' es r' where sp: "spec_apply cr tx now ?a = Some (a', es, r')"
    using apply_refines [OF v(1,2) c, of now j] assms(3) by (auto simp: refines_def split: option.splits)
  have a': "rep cr s' a'" "r' = r" using apply_ok [OF v assms(2) sp, of j] assms(3) by auto
  have "rg_domain ?a i = Some d \<and> rg_domain a' i \<noteq> Some d \<and> own = ds_owner d
     \<or> rg_tld ?a i = Some t \<and> rg_tld a' i \<noteq> Some t \<and> own = ts_owner t"
    using assms(4) rep_domain [OF v(1)] rep_tld [OF v(1)] rep_domain [OF a'(1)] rep_tld [OF a'(1)] by simp
  then show ?thesis
    using sp a'(2) c domain_authority tld_authority tx_validate_iff [of cr tx]
    by (auto simp: spec_apply_def split: sum.splits if_splits)
qed

theorem owner_authority_witness:
  "\<exists>s s' j'. apply_journaled_at len_crypto ex_open_tld 20 s [] = Some (s', j', Inr ()) \<and> owner_of len_crypto 7 = 46"
proof -
  let ?a = "ex_registry ex_entries1"
  obtain s where s: "rep len_crypto s ?a" "sound len_crypto ?a" "registry_inv len_crypto ?a"
    using apply_ok [OF rep_new _ inv_new _ ex_spec1, of "[]"] ex_free
    by (auto simp: ex_events_def sound_def registry_new_def leaves_distinct_def)
  have c: "no_collision len_crypto ex_open_tld 20 ?a" using ex_free by (simp add: ex_events_def ex_spec1)
  obtain s' j' where s': "apply_journaled_at len_crypto ex_open_tld 20 s [] = Some (s', j', Inr ())" "rep len_crypto s' (ex_registry ex_entries2)"
    using apply_ok [OF s c ex_spec2, of "[]"] by auto
  have v: "valid_state len_crypto s" "no_collision len_crypto ex_open_tld 20 (abs_state s)"
    using valid_stateI [OF s] rep_abs [OF s(1)] c by simp_all
  have "state_tld s 14 = Some \<lparr>ts_owner = 46, ts_open = False\<rparr>" "state_tld s' 14 = Some \<lparr>ts_owner = 46, ts_open = True\<rparr>"
    using rep_tld [OF s(1)] rep_tld [OF s'(2)] by (simp_all add: ex_registry_def rg_tld_def)
  then have "owner_of len_crypto (tx_public_key ex_open_tld) = 46"
    using owner_authority [OF v s'(1), of 14 _ 46 "\<lparr>ts_owner = 46, ts_open = False\<rparr>"] by simp
  then show ?thesis using s'(1) by (auto simp: ex_open_tld_def set_tld_open_on_def)
qed


text \<open>C22: the eligibility pool is exact. On a valid state the validator list is strictly sorted (so free of
  duplicates) and holds exactly the unbanned keys that are the known key of an owner of at least one
  domain or TLD of the registry. The time is not looked at: a domain that has lapsed counts until
  garbage collection removes it.\<close>

theorem eligible_validators_exact:
  assumes "valid_state cr s"
  shows "sorted_wrt (<) (eligible_validators s now)
    \<and> set (eligible_validators s now) = {pk. fmlookup (owner_keys s) (owner_of cr pk) = Some pk \<and> \<not> is_banned s pk
        \<and> (\<exists>i. (\<exists>d. state_domain s i = Some d \<and> ds_owner d = owner_of cr pk)
             \<or> (\<exists>t. state_tld s i = Some t \<and> ts_owner t = owner_of cr pk))}"
proof
  let ?a = "abs_state s"
  have v: "rep cr s ?a" "keys_ok cr ?a" using assms by (auto simp: valid_state_def registry_inv_def)
  have K: "owner_of cr pk = own" if "fmlookup (owner_keys s) own = Some pk" for own pk
    using v(2) that by (simp add: keys_ok_def abs_state_def)
  let ?os = "sorted_list_of_fset (fmdom (owner_refcounts s))"
  have "distinct (List.map_filter (fmlookup (owner_keys s)) os)" if "distinct os" for os
    using that by (auto simp: List.map_filter_def distinct_map inj_on_def dest: K) (metis K)
  then have "distinct (List.map_filter (fmlookup (owner_keys s)) ?os)" by (simp add: sorted_list_of_fset.rep_eq)
  then show "sorted_wrt (<) (eligible_validators s now)"
    by (simp add: eligible_validators_def strict_sorted_iff)
  have O: "own \<in> rg_owners ?a \<longleftrightarrow> (\<exists>i. (\<exists>d. state_domain s i = Some d \<and> ds_owner d = own) \<or> (\<exists>t. state_tld s i = Some t \<and> ts_owner t = own))" for own
    unfolding owners_split rep_domain [OF v(1)] rep_tld [OF v(1)] ..
  have pool: "pk \<in> rg_pool ?a \<longleftrightarrow> (\<exists>own\<in>rg_owners ?a. fmlookup (owner_keys s) own = Some pk) \<and> \<not> is_banned s pk" for pk
    using rep_simps(2,4) [OF v(1)] by (simp add: rg_pool_eq is_banned_def)
  have "(\<exists>own\<in>rg_owners ?a. fmlookup (owner_keys s) own = Some pk)
      \<longleftrightarrow> fmlookup (owner_keys s) (owner_of cr pk) = Some pk \<and> owner_of cr pk \<in> rg_owners ?a" for pk
    using K [of _ pk] by metis
  then have "pk \<in> rg_pool ?a \<longleftrightarrow> fmlookup (owner_keys s) (owner_of cr pk) = Some pk \<and> \<not> is_banned s pk
      \<and> owner_of cr pk \<in> rg_owners ?a" for pk
    unfolding pool by metis
  then show "set (eligible_validators s now) = {pk. fmlookup (owner_keys s) (owner_of cr pk) = Some pk \<and> \<not> is_banned s pk
        \<and> (\<exists>i. (\<exists>d. state_domain s i = Some d \<and> ds_owner d = owner_of cr pk)
             \<or> (\<exists>t. state_tld s i = Some t \<and> ts_owner t = owner_of cr pk))}"
    unfolding set_eligible [OF v(1)] O by blast
qed

theorem eligible_validators_exact_witness:
  "\<exists>s. valid_state len_crypto s \<and> 7 \<in> set (eligible_validators s 0)"
proof -
  obtain s where s: "valid_state len_crypto s" "abs_state s = ex_registry ex_entries3" by (rule ex_state)
  have "state_domain s 20 = Some ex_domain"
    using s rep_domain [of len_crypto s "abs_state s" 20] by (simp add: valid_state_def ex_registry_def rg_domain_def)
  moreover have "owner_keys s = fmupd 46 7 fmempty" "banned s = {||}"
    using arg_cong [OF s(2), of rg_keys] arg_cong [OF s(2), of rg_banned] by (simp_all add: ex_registry_def abs_state_def)
  moreover have "ds_owner ex_domain = 46" by (simp add: ex_domain_def)
  ultimately have "fmlookup (owner_keys s) (owner_of len_crypto 7) = Some 7 \<and> \<not> is_banned s 7
      \<and> (\<exists>i d. state_domain s i = Some d \<and> ds_owner d = owner_of len_crypto 7)"
    using ex_ids(3) by (auto simp: is_banned_def)
  then have "7 \<in> set (eligible_validators s 0)" using conjunct2 [OF eligible_validators_exact [OF s(1), of 0]] by blast
  then show ?thesis using s(1) by blast
qed

text \<open>C23: the committed root. On a valid state the incrementally maintained root is the root of the full
  tree over the leaves of the live entries; states with the same domains and TLDs have the same
  root, whatever their history, their known keys, grace windows and ban lists.\<close>

theorem state_root_function:
  assumes "valid_state cr s" "valid_state cr s'"
    "state_domain s' = state_domain s" "state_tld s' = state_tld s"
  shows "state_root_smt cr s' = state_root_smt cr s
    \<and> smt_root cr (cs_smt s) = ref_root cr (\<lambda>k. {domain_leaf_v2 cr i d | i d. state_domain s i = Some d \<and> smt_key i = k}
        \<union> {tld_leaf_v2 cr i t | i t. state_tld s i = Some t \<and> smt_key i = k})"
proof -
  have root: "smt_root cr (cs_smt x) = ref_root cr (\<lambda>k. {domain_leaf_v2 cr i d | i d. state_domain x i = Some d \<and> smt_key i = k}
        \<union> {tld_leaf_v2 cr i t | i t. state_tld x i = Some t \<and> smt_key i = k})" if "valid_state cr x" for x
  proof -
    have r: "rep cr x (abs_state x)" using that by (simp add: valid_state_def)
    then have "tree_ok cr (rg_entries (abs_state x)) (cs_smt x)" by (simp add: rep_def store_ok_def)
    then have "smt_root cr (cs_smt x) = ref_root cr (leaves cr (rg_entries (abs_state x)))"
      using smt.root_cont by (auto simp: tree_ok_def)
    then show ?thesis unfolding leaves_split rep_domain [OF r] rep_tld [OF r] .
  qed
  show ?thesis using root [OF assms(1)] root [OF assms(2)] assms(3,4) by (simp add: state_root_smt_def)
qed

theorem state_root_function_witness:
  "\<exists>s s'. valid_state len_crypto s \<and> banned s' \<noteq> banned s \<and> state_root_smt len_crypto s' = state_root_smt len_crypto s"
proof -
  obtain s where s: "valid_state len_crypto s" "abs_state s = ex_registry ex_entries3" by (rule ex_state)
  define s' where "s' = s\<lparr>banned := {|7|}\<rparr>"
  have b: "banned s = {||}" using arg_cong [OF s(2), of rg_banned] by (simp add: ex_registry_def abs_state_def)
  have v: "valid_state len_crypto s'" unfolding s'_def by (rule valid_ban [OF s(1)])
  have e: "state_domain s' = state_domain s" "state_tld s' = state_tld s"
    by (simp_all add: s'_def state_domain_def state_tld_def fun_eq_iff)
  have "banned s' \<noteq> banned s" by (simp add: s'_def b)
  then show ?thesis using conjunct1 [OF state_root_function [OF s(1) v e]] s(1) by blast
qed

text \<open>C24: a failed \<^verbatim>\<open>apply\<close> changes nothing: whatever rule rejects the transaction, and however much had
  been journaled by then, the returned state equals the old one.\<close>

theorem state_apply_atomic:
  assumes "valid_state cr s" "no_collision cr tx 0 (abs_state s)" "state_apply cr tx s = Some (s', Inl e)"
  shows "state_eq s' s"
proof -
  let ?a = "abs_state s"
  have v: "rep cr s ?a" "sound cr ?a" "registry_inv cr ?a" using assms(1) by (auto simp: valid_state_def)
  obtain s1 j where r: "apply_journaled_at cr tx 0 s [] = Some (s1, j, Inl e)" "rollback cr j s1 = Some s'"
    using assms(3) by (auto simp: state_apply_def split: bind_splits sum.splits)
  obtain a' es r' where sp: "spec_apply cr tx 0 ?a = Some (a', es, r')"
    using apply_refines [OF v(1,2), of tx 0 "[]"] assms(2) r(1) by (auto simp: refines_def no_collision_def split: option.splits)
  have "rep cr s1 a'" "es = j" "asteps (sound cr) ?a es a'" using apply_ok [OF v assms(2) sp, of "[]"] r(1) by auto
  then show ?thesis using undo_exact [OF _ v(1), of es a' s1] r(2) by auto
qed


text \<open>An update with a wrong sequence number by a key that is not yet known: the key is learned, then
  the transaction is rejected.\<close>

definition ex_bad_update :: transaction where
  "ex_bad_update = UpdateDomain (update_domain_on len_crypto NETWORK_TESTNET 20 5 3 7 1)"

definition ex_keyless :: registry where
  "ex_keyless = (ex_registry ex_entries3)\<lparr>rg_keys := fmempty\<rparr>"

lemma ex_spec4: "spec_apply len_crypto ex_bad_update 0 ex_keyless
    = Some (ex_registry ex_entries3, [UndoLearnOwnerKey 46], Inl (BcInvalidSequence 1 5))"
proof -
  have "tx_validate len_crypto ex_bad_update = Inr ()" by code_simp
  then show ?thesis
    by (simp add: spec_apply_def)
      (simp add: ex_bad_update_def update_domain_on_def rg_domain_def TESTNET_def ex_ids ex_keyless_def ex_registry_def
        ex_domain_def spec_learn_def checked_add_def)
qed

theorem state_apply_atomic_witness:
  "\<exists>s s' e. state_apply len_crypto ex_bad_update s = Some (s', Inl e) \<and> state_eq s' s"
proof -
  obtain s1 where s1: "valid_state len_crypto s1" "abs_state s1 = ex_registry ex_entries3" by (rule ex_state)
  define s where "s = s1\<lparr>owner_keys := fmempty\<rparr>"
  have r: "rep len_crypto s ex_keyless"
    using s1 by (simp add: valid_state_def s_def ex_keyless_def rep_def store_ok_def)
  have i: "sound len_crypto ex_keyless" "registry_inv len_crypto ex_keyless"
    using s1 by (simp_all add: valid_state_def ex_keyless_def registry_inv_def grace_ok_def keys_ok_def)
  have v: "valid_state len_crypto s" "abs_state s = ex_keyless" using valid_stateI [OF r i] rep_abs [OF r] by simp_all
  have c: "no_collision len_crypto ex_bad_update 0 ex_keyless"
    using ex_spec4 ex_distinct(3) by (simp add: no_collision_def ex_registry_def) (simp add: ex_bad_update_def)
  obtain s2 where s2: "apply_journaled_at len_crypto ex_bad_update 0 s [] = Some (s2, [UndoLearnOwnerKey 46], Inl (BcInvalidSequence 1 5))"
    using apply_ok [OF r i c ex_spec4, of "[]"] by auto
  then have "\<exists>s'. state_apply len_crypto ex_bad_update s = Some (s', Inl (BcInvalidSequence 1 5))"
    by (simp add: state_apply_def rollback_def)
  then obtain s' where "state_apply len_crypto ex_bad_update s = Some (s', Inl (BcInvalidSequence 1 5))" by blast
  with state_apply_atomic [OF v(1) _ this] c v(2) show ?thesis by auto
qed

section \<open>The archive root\<close>

lemma entries_map: "backend_entries b = map (\<lambda>k. (k, the (fmlookup (mb_entries b) k))) (sorted_list_of_fset (fmdom (mb_entries b)))"
  by (simp add: backend_entries_def map_range_def)

lemma entry_leaf_enc: "normal e \<Longrightarrow> entry_leaf cr (i, enc e) = [leaf cr i e]"
  by (cases e) (simp_all add: entry_leaf_def decode_encode_domain decode_encode_tld)

text \<open>C25: the archive root is total and canonical. The paged scan of the backend ends, and on a valid state
  the root commits to one fold of the leaves of all entries, domains and TLDs together in ascending
  order of their identifiers, and to the folds of the owner pool and of the ban list. There are no
  separate roots of the domains and of the TLDs.\<close>

theorem state_root_v2_exact:
  assumes "valid_state cr s"
  shows "state_root_v2 cr s = Some (hash256 cr [str_bytes ''SCONE-STATE-V2''
    @ h32_bytes (fold_hashes cr (map (\<lambda>i. case state_domain s i of Some d \<Rightarrow> domain_leaf_v2 cr i d
        | None \<Rightarrow> tld_leaf_v2 cr i (the (state_tld s i))) (sorted_list_of_fset (fmdom (mb_entries (cs_backend s))))))
    @ h32_bytes (owner_pool_root cr s) @ h32_bytes (banned_root cr s)])"
proof -
  let ?E = "rg_entries (abs_state s)"
  have r: "rep cr s (abs_state s)" using assms by (simp add: valid_state_def)
  then have E: "mb_entries (cs_backend s) = fmmap enc ?E" "all_normal ?E" by (auto simp: rep_def store_ok_def)
  have leaf: "entry_leaf cr (i, the (fmlookup (mb_entries (cs_backend s)) i)) = [case state_domain s i of Some d \<Rightarrow> domain_leaf_v2 cr i d
        | None \<Rightarrow> tld_leaf_v2 cr i (the (state_tld s i))]" if i: "i |\<in>| fmdom (mb_entries (cs_backend s))" for i
  proof -
    obtain e where e: "fmlookup ?E i = Some e" using i by (auto simp: E fmlookup_dom_iff)
    then show ?thesis
      using entry_leaf_enc [OF all_normal_lookup [OF E(2) e], of cr i] rep_domain [OF r, of i] rep_tld [OF r, of i]
      by (cases e) (auto simp: E rg_domain_def rg_tld_def)
  qed
  have "concat (map (entry_leaf cr) (backend_entries (cs_backend s))) = map (\<lambda>i. case state_domain s i of Some d \<Rightarrow> domain_leaf_v2 cr i d
        | None \<Rightarrow> tld_leaf_v2 cr i (the (state_tld s i))) (sorted_list_of_fset (fmdom (mb_entries (cs_backend s))))"
  proof -
    have "concat (map (\<lambda>i. entry_leaf cr (i, the (fmlookup (mb_entries (cs_backend s)) i))) is) = map (\<lambda>i. case state_domain s i of
        Some d \<Rightarrow> domain_leaf_v2 cr i d | None \<Rightarrow> tld_leaf_v2 cr i (the (state_tld s i))) is"
      if "set is \<subseteq> fset (fmdom (mb_entries (cs_backend s)))" for "is"
      using that leaf by (induction "is") auto
    then show ?thesis by (simp add: entries_map comp_def sorted_list_of_fset.rep_eq)
  qed
  then show ?thesis by (simp add: state_root_v2_def mem.scan_all)
qed

text \<open>A state with a TLD and a domain.\<close>

theorem state_root_v2_exact_witness:
  "\<exists>s. valid_state len_crypto s \<and> state_root_v2 len_crypto s = Some (hash256 len_crypto [str_bytes ''SCONE-STATE-V2''
    @ h32_bytes (fold_hashes len_crypto [tld_leaf_v2 len_crypto 14 \<lparr>ts_owner = 46, ts_open = True\<rparr>, domain_leaf_v2 len_crypto 20 ex_domain])
    @ h32_bytes (owner_pool_root len_crypto s) @ h32_bytes (banned_root len_crypto s)])"
proof -
  obtain s where s: "valid_state len_crypto s" "abs_state s = ex_registry ex_entries3" by (rule ex_state)
  have r: "rep len_crypto s (abs_state s)" using s(1) by (simp add: valid_state_def)
  then have "mb_entries (cs_backend s) = fmmap enc (rg_entries (abs_state s))" by (simp add: rep_def store_ok_def)
  then have ids: "sorted_list_of_fset (fmdom (mb_entries (cs_backend s))) = [14, 20]"
    by (simp add: s(2) ex_registry_def sorted_list_of_fset.rep_eq)
  have e: "state_domain s 20 = Some ex_domain" "state_domain s 14 = None" "state_tld s 14 = Some \<lparr>ts_owner = 46, ts_open = True\<rparr>"
    using rep_domain [OF r] rep_tld [OF r] by (simp_all add: s(2) ex_registry_def rg_domain_def rg_tld_def)
  show ?thesis using state_root_v2_exact [OF s(1)] s(1) by (auto simp: ids e)
qed


section \<open>Restoring persisted entries\<close>

fun restore_entry :: "crypto \<Rightarrow> hash32 \<times> entry \<Rightarrow> chain_state \<Rightarrow> (bc_error + chain_state) option" where
  "restore_entry cr (i, DomainEntry d) s = restore_domain cr i d s"
| "restore_entry cr (i, TldEntry t) s = restore_tld cr i t s"

fun restore_entries :: "crypto \<Rightarrow> (hash32 \<times> entry) list \<Rightarrow> chain_state \<Rightarrow> (bc_error + chain_state) option" where
  "restore_entries cr [] s = Some (Inr s)"
| "restore_entries cr (x # xs) s =
     do { r \<leftarrow> restore_entry cr x s; case r of Inl e \<Rightarrow> Some (Inl e) | Inr s1 \<Rightarrow> restore_entries cr xs s1 }"

lemma restore_entry_ok:
  assumes st: "store_ok cr E E s" and "fmlookup E i = None" "normal e"
  shows "\<exists>s'. restore_entry cr (i, e) s = Some (Inr s') \<and> store_ok cr (fmupd i e E) (fmupd i e E) s'"
proof (cases e)
  case (DomainEntry d)
  then show ?thesis using add_domain [OF st assms(2), of d] assms(2,3) store_domain [OF st, of i]
    by (auto simp: restore_domain_def)
next
  case (TldEntry t)
  then show ?thesis using add_tld [OF st assms(2), of t] assms(2) store_tld [OF st, of i]
    by (auto simp: restore_tld_def)
qed

lemma restore_entries_ok:
  "store_ok cr E E s \<Longrightarrow> distinct (map fst xs) \<Longrightarrow> \<forall>(i, e)\<in>set xs. fmlookup E i = None \<and> normal e \<Longrightarrow>
     \<exists>s' E'. restore_entries cr xs s = Some (Inr s') \<and> store_ok cr E' E' s'
       \<and> (\<forall>i. fmlookup E' i = (case map_of xs i of Some e \<Rightarrow> Some e | None \<Rightarrow> fmlookup E i))"
proof (induction xs arbitrary: s E)
  case (Cons x xs)
  obtain i e where x: "x = (i, e)" by (cases x)
  obtain s1 where s1: "restore_entry cr x s = Some (Inr s1)" "store_ok cr (fmupd i e E) (fmupd i e E) s1"
    using restore_entry_ok [OF Cons.prems(1), of i e] Cons.prems(3) x by auto
  have "\<forall>(k, f)\<in>set xs. fmlookup (fmupd i e E) k = None \<and> normal f" using Cons.prems(2,3) x by force
  then obtain s' E' where "restore_entries cr xs s1 = Some (Inr s')" "store_ok cr E' E' s'"
    "\<forall>k. fmlookup E' k = (case map_of xs k of Some f \<Rightarrow> Some f | None \<Rightarrow> fmlookup (fmupd i e E) k)"
    using Cons.IH [OF s1(2)] Cons.prems(2) by auto
  moreover have "map_of xs i = None" using Cons.prems(2) x by (auto simp: map_of_eq_None_iff)
  ultimately show ?case using s1(1) x
    by (intro exI [of _ s'] exI [of _ E']) (auto split: option.splits)
qed auto

text \<open>a restart rebuilds the state. Restoring the entries of a valid state, each once and in any order,
  into an empty state succeeds and rebuilds the same backend, counters, owner index, expiration
  queue and tree, hence the same root.\<close>

theorem restore_entries_exact:
  assumes "valid_state cr s" "distinct (map fst xs)" "map_of xs = fmlookup (rg_entries (abs_state s))"
  shows "\<exists>s'. restore_entries cr xs (for_network network) = Some (Inr s') \<and> cs_backend s' = cs_backend s
    \<and> domain_count s' = domain_count s \<and> tld_count s' = tld_count s \<and> owner_refcounts s' = owner_refcounts s
    \<and> expirations s' = expirations s \<and> smt_eq (cs_smt s') (cs_smt s) \<and> state_root_smt cr s' = state_root_smt cr s"
proof -
  let ?E = "rg_entries (abs_state s)"
  have st: "store_ok cr ?E ?E s" and n: "all_normal ?E" using assms(1) by (auto simp: valid_state_def rep_def store_ok_def)
  have new: "store_ok cr fmempty fmempty (for_network network)"
    using rep_new [of cr network] by (simp add: rep_def registry_new_def)
  have "\<forall>(i, e)\<in>set xs. fmlookup (fmempty :: entries) i = None \<and> normal e"
    using assms(2,3) all_normal_lookup [OF n] by (auto dest: map_of_is_SomeI)
  then obtain s' E' where s': "restore_entries cr xs (for_network network) = Some (Inr s')" "store_ok cr E' E' s'"
    "\<forall>i. fmlookup E' i = (case map_of xs i of Some e \<Rightarrow> Some e | None \<Rightarrow> fmlookup fmempty i)"
    using restore_entries_ok [OF new assms(2)] by blast
  have "E' = ?E" using s'(3) assms(3) by (intro fmap_ext) (auto split: option.splits)
  then have st': "store_ok cr ?E ?E s'" using s'(2) by simp
  have "cs_backend s' = cs_backend s" using st st' by (intro memory_backend.equality) (simp_all add: store_ok_def)
  moreover have "owner_refcounts s' = owner_refcounts s" "expirations s' = expirations s" "smt_eq (cs_smt s') (cs_smt s)"
    using st st' by (auto simp: store_ok_def intro: refs_ok_unique exps_ok_unique tree_ok_unique)
  moreover have "smt_root cr (cs_smt s') = smt_root cr (cs_smt s)"
    using st st' smt.root_cont by (metis store_tree tree_ok_def)
  ultimately show ?thesis using s'(1) st st' by (simp add: store_ok_def state_root_smt_def)
qed

theorem restore_entries_exact_witness:
  "\<exists>s s'. valid_state len_crypto s \<and> restore_entries len_crypto [(20, DomainEntry ex_domain), (14, TldEntry \<lparr>ts_owner = 46, ts_open = True\<rparr>)]
     (for_network TESTNET) = Some (Inr s') \<and> state_root_smt len_crypto s' = state_root_smt len_crypto s"
proof -
  obtain s where s: "valid_state len_crypto s" "abs_state s = ex_registry ex_entries3" by (rule ex_state)
  have "map_of [(20, DomainEntry ex_domain), (14, TldEntry \<lparr>ts_owner = 46, ts_open = True\<rparr>)] = fmlookup (rg_entries (abs_state s))"
    by (auto simp: s(2) ex_registry_def)
  then show ?thesis using restore_entries_exact [OF s(1), of "[(20, DomainEntry ex_domain), (14, TldEntry \<lparr>ts_owner = 46, ts_open = True\<rparr>)]" TESTNET] s(1)
    by auto
qed

end
