(* ===== verification/Scone_Chain.thy ===== *)
theory Scone_Chain
  imports Scone_Block Scone_State_Props
begin

text \<open>
  The canonical chain of \<^verbatim>\<open>crates/scone-blockchain/src/chain.rs\<close> with finality (\<^verbatim>\<open>finality.rs\<close>) and fork
  choice (\<^verbatim>\<open>fork_choice.rs\<close>). A chain is a record; an operation returns the new chain with its
  result, and \<open>None\<close> where the code panics: an \<^verbatim>\<open>expect\<close>, an index out of range, an arithmetic
  overflow.
\<close>

definition REPLAY_WINDOW_BLOCKS :: u64 where "REPLAY_WINDOW_BLOCKS = 256"
definition RAM_WINDOW_BLOCKS :: u64 where "RAM_WINDOW_BLOCKS = 512"
definition CHECKPOINT_KEEP :: nat where "CHECKPOINT_KEEP = 64"

definition saturating_sub :: "u64 \<Rightarrow> u64 \<Rightarrow> u64" where
  "saturating_sub a b = (if b \<le> a then a - b else 0)"

definition checked_sub :: "u64 \<Rightarrow> u64 \<Rightarrow> u64 option" where
  "checked_sub a b = (if b \<le> a then Some (a - b) else None)"

definition checked_mul :: "u64 \<Rightarrow> u64 \<Rightarrow> u64 option" where
  "checked_mul a b = (if unat a * unat b < 2 ^ 64 then Some (a * b) else None)"

record finalized_base =
  fb_checkpoint :: checkpoint
  fb_pool :: "public_key list"
  fb_block_ts :: u64
  fb_seed :: hash32

record blockchain =
  bc_base_height :: u64
  bc_canonical :: "block list"
  bc_known_hashes :: "(u64, hash32) fmap"
  bc_tip :: hash32
  bc_network :: network_params
  bc_state :: chain_state
  bc_consensus :: consensus
  bc_included :: "(hash32, u64) fmap"
  bc_checkpoints :: "checkpoint list"
  bc_finalized :: "finalized_base option"

record applied_block =
  ab_hash :: hash32
  ab_gc_removed_domains :: "domain_id list"

type_synonym 'a chain_result = "(blockchain \<times> (bc_error + 'a)) option"

section \<open>Construction and lookup\<close>

definition with_consensus_for_network :: "crypto \<Rightarrow> consensus \<Rightarrow> network_params \<Rightarrow> blockchain option" where
  "with_consensus_for_network cr consensus network = map_option (\<lambda>hash.
     \<lparr>bc_base_height = 0, bc_canonical = [genesis_of cr network], bc_known_hashes = fmupd 0 hash fmempty, bc_tip = hash,
      bc_network = network, bc_state = for_network network, bc_consensus = consensus, bc_included = fmempty,
      bc_checkpoints = [], bc_finalized = None\<rparr>)
     (expect (block_hash cr (blk_header (genesis_of cr network))))"

definition chain_for_network :: "crypto \<Rightarrow> network_params \<Rightarrow> blockchain option" where
  "chain_for_network cr network = with_consensus_for_network cr permissive_consensus network"

definition chain_new :: "crypto \<Rightarrow> blockchain option" where
  "chain_new cr = with_consensus_for_network cr permissive_consensus TESTNET"

definition restore :: "crypto \<Rightarrow> u64 \<Rightarrow> hash32 \<Rightarrow> block \<Rightarrow> chain_state \<Rightarrow> blockchain option" where
  "restore cr tip_height tip tip_block state =
     (if bh_height (blk_header tip_block) \<noteq> tip_height then None
      else let network = cs_network state; genesis_block = genesis_of cr network in
        map_option (\<lambda>genesis_h.
          \<lparr>bc_base_height = tip_height, bc_canonical = [genesis_block, tip_block],
           bc_known_hashes = fmupd tip_height tip (fmupd 0 genesis_h fmempty), bc_tip = tip, bc_network = network,
           bc_state = state, bc_consensus = permissive_consensus, bc_included = fmempty, bc_checkpoints = [], bc_finalized = None\<rparr>)
          (expect (block_hash cr (blk_header genesis_block))))"

definition chain_genesis :: "blockchain \<Rightarrow> block option" where
  "chain_genesis c = (case bc_canonical c of [] \<Rightarrow> None | g # _ \<Rightarrow> Some g)"

definition chain_tip :: "blockchain \<Rightarrow> block option" where
  "chain_tip c = (if bc_canonical c = [] then None else Some (last (bc_canonical c)))"

definition tip_hash :: "blockchain \<Rightarrow> hash32" where "tip_hash c = bc_tip c"

definition chain_height :: "blockchain \<Rightarrow> u64 option" where
  "chain_height c = map_option (\<lambda>b. bh_height (blk_header b)) (chain_tip c)"

definition chain_block :: "blockchain \<Rightarrow> u64 \<Rightarrow> block option" where
  "chain_block c height =
     (let found = (\<lambda>i. if i < length (bc_canonical c) \<and> bh_height (blk_header (bc_canonical c ! i)) = height
                      then Some (bc_canonical c ! i) else None) in
      if height = 0 then found 0
      else do { offset \<leftarrow> checked_sub height (bc_base_height c);
                found (if bc_base_height c = 0 then unat offset else unat offset + 1) })"

definition block_result :: "blockchain \<Rightarrow> u64 \<Rightarrow> bc_error + block" where
  "block_result c height = (case chain_block c height of None \<Rightarrow> Inl (BlockPruned height) | Some b \<Rightarrow> Inr b)"

definition is_tx_included :: "blockchain \<Rightarrow> hash32 \<Rightarrow> bool" where
  "is_tx_included c i \<longleftrightarrow> i |\<in>| fmdom (bc_included c)"

definition rebuild_replay_index :: "(hash32 \<times> u64) list \<Rightarrow> blockchain \<Rightarrow> blockchain option" where
  "rebuild_replay_index entries c = map_option (\<lambda>tip.
     let cutoff = saturating_sub tip REPLAY_WINDOW_BLOCKS in
     c\<lparr>bc_included := fold (\<lambda>(i, height) m. if tip < height \<or> height \<le> cutoff then m else fmupd i height m) entries (bc_included c)\<rparr>)
     (chain_height c)"

definition replay_index_len :: "blockchain \<Rightarrow> nat" where "replay_index_len c = size (fmdom (bc_included c))"

definition block_hash_at :: "blockchain \<Rightarrow> u64 \<Rightarrow> hash32 option" where
  "block_hash_at c height = fmlookup (bc_known_hashes c) height"

definition finality_floor :: "blockchain \<Rightarrow> u64 option" where
  "finality_floor c = (if bc_checkpoints c = [] then None else Some (cd_height (ck_data (last (bc_checkpoints c)))))"

definition classify_parent_miss :: "blockchain \<Rightarrow> u64 \<Rightarrow> bc_error" where
  "classify_parent_miss c child_height =
     (let parent_height = saturating_sub child_height 1 in
      if 1 \<le> parent_height \<and> parent_height < bc_base_height c then BlockPruned parent_height else UnknownParent)"

definition known_parent :: "blockchain \<Rightarrow> hash32 \<Rightarrow> bool" where
  "known_parent c prev \<longleftrightarrow> prev |\<in>| fmran (bc_known_hashes c)"

section \<open>Committees and producers\<close>

definition bootstrap_seed :: "crypto \<Rightarrow> blockchain \<Rightarrow> hash32 option" where
  "bootstrap_seed cr c = do { g \<leftarrow> chain_genesis c; h \<leftarrow> expect (block_hash cr (blk_header g)); Some (next_seed cr h) }"

definition committee :: "crypto \<Rightarrow> blockchain \<Rightarrow> u32 \<Rightarrow> public_key list option" where
  "committee cr c recovery =
     (let size = committee_size (np_consensus (bc_network c)) in
      case bc_finalized c of
        None \<Rightarrow>
          if recovery \<noteq> 0 then Some []
          else do { tip \<leftarrow> chain_tip c; seed \<leftarrow> bootstrap_seed cr c;
                    Some (select_committee cr seed (eligible_validators (bc_state c) (bh_timestamp (blk_header tip))) size) }
      | Some base \<Rightarrow>
          let seed = if recovery = 0 then fb_seed base else recovery_seed cr (fb_seed base) recovery in
          Some (select_committee cr seed (fb_pool base) size))"

text \<open>The recovery draws \<open>k = 1..=recovery_max_epochs\<close> whose delay is reached.\<close>

fun recovery_draws :: "crypto \<Rightarrow> consensus_params \<Rightarrow> finalized_base \<Rightarrow> u64 \<Rightarrow> u32 list \<Rightarrow> public_key fset \<Rightarrow> public_key fset option" where
  "recovery_draws cr params base elapsed [] acc = Some acc"
| "recovery_draws cr params base elapsed (k # ks) acc =
     do { need \<leftarrow> checked_mul (ucast k) (epoch_secs params);
          recovery_draws cr params base elapsed ks
            (if need \<le> elapsed
             then acc |\<union>| fset_of_list (select_committee cr (recovery_seed cr (fb_seed base) k) (fb_pool base) (committee_size params))
             else acc) }"

definition allowed_producers :: "crypto \<Rightarrow> blockchain \<Rightarrow> u64 \<Rightarrow> public_key fset option" where
  "allowed_producers cr c block_ts =
     (let params = np_consensus (bc_network c) in
      case bc_finalized c of
        None \<Rightarrow>
          (let pool = eligible_validators (bc_state c) block_ts in
           if pool = [] then Some {||}
           else map_option (\<lambda>seed. fset_of_list (select_committee cr seed pool (committee_size params))) (bootstrap_seed cr c))
      | Some base \<Rightarrow>
          recovery_draws cr params base (saturating_sub block_ts (fb_block_ts base))
            (map of_nat [1..<unat (recovery_max_epochs params) + 1])
            (fset_of_list (select_committee cr (fb_seed base) (fb_pool base) (committee_size params))))"

section \<open>Appending a block\<close>

definition check_parent :: "block_header \<Rightarrow> blockchain \<Rightarrow> (bc_error + unit) option" where
  "check_parent header c =
     (if bh_prev_hash header \<noteq> bc_tip c then
        Some (Inl (if known_parent c (bh_prev_hash header) then ParentNotTip else classify_parent_miss c (bh_height header)))
      else do { h \<leftarrow> chain_height c;
        Some (case checked_add h 1 of
            None \<Rightarrow> Inl (InvalidHeight (- 1) (bh_height header))
          | Some expected \<Rightarrow>
              if bh_height header \<noteq> expected then Inl (InvalidHeight expected (bh_height header)) else Inr ()) })"

definition tx_replayed :: "crypto \<Rightarrow> blockchain \<Rightarrow> transaction \<Rightarrow> bool" where
  "tx_replayed cr c tx \<longleftrightarrow> (case transaction_id cr tx of Inl _ \<Rightarrow> False | Inr i \<Rightarrow> is_tx_included c i)"

definition check_producer :: "crypto \<Rightarrow> block_header \<Rightarrow> blockchain \<Rightarrow> (bc_error + unit) option" where
  "check_producer cr header c =
     (if bh_height header = 0 then Some (Inr ())
      else case decode_producer_payload cr (bh_consensus header) of
        None \<Rightarrow> Some (Inl InvalidProducer)
      | Some payload \<Rightarrow>
          case producer_signing_hash cr header of
            None \<Rightarrow> Some (Inl InvalidProducer)
          | Some sh \<Rightarrow>
              if \<not> verify_block_producer cr payload sh then Some (Inl InvalidProducer)
              else map_option (\<lambda>allowed.
                  if allowed \<noteq> {||} \<and> pp_producer payload |\<notin>| allowed then Inl InvalidProducer else Inr ())
                (allowed_producers cr c (bh_timestamp header)))"

text \<open>Everything that is checked before the state is touched; the hash of the block.\<close>

definition check_block :: "crypto \<Rightarrow> block \<Rightarrow> blockchain \<Rightarrow> (bc_error + hash32) option" where
  "check_block cr block c = (let header = blk_header block; txs = blk_transactions block in
     do { parent \<leftarrow> check_parent header c;
          case parent of Inl e \<Rightarrow> Some (Inl e)
          | Inr _ \<Rightarrow>
              if bh_version header \<noteq> PROTOCOL_VERSION then Some (Inl (InvalidVersion (bh_version header)))
              else if MAX_TXS_PER_BLOCK < length txs then Some (Inl (TooManyTransactions (length txs)))
              else case tx_root cr txs of Inl e \<Rightarrow> Some (Inl e)
              | Inr root \<Rightarrow>
                  if root \<noteq> bh_tx_root header then Some (Inl MerkleMismatch)
                  else if \<exists>tx\<in>set txs. tx_replayed cr c tx then Some (Inl TxReplay)
                  else case block_hash cr header of Inl e \<Rightarrow> Some (Inl e)
                  | Inr hash \<Rightarrow>
                      case validate_header (bc_consensus c) header of Inl e \<Rightarrow> Some (Inl e)
                      | Inr _ \<Rightarrow> map_option (\<lambda>r. try_bind r (\<lambda>_. Inr hash)) (check_producer cr header c) })"

text \<open>The transactions in order; the first error stops.\<close>

fun apply_txs :: "crypto \<Rightarrow> consensus \<Rightarrow> u64 \<Rightarrow> transaction list \<Rightarrow> chain_state \<Rightarrow> undo_log \<Rightarrow> applied" where
  "apply_txs cr cons now [] s j = done_with s j"
| "apply_txs cr cons now (tx # txs) s j =
     (case validate_transaction cr tx of Inl e \<Rightarrow> fail e s j
      | Inr _ \<Rightarrow>
          case validate_tx cons tx of Inl e \<Rightarrow> fail e s j
          | Inr _ \<Rightarrow>
              do { (s1, j1, r) \<leftarrow> apply_journaled_at cr tx now s j;
                   case r of Inl e \<Rightarrow> fail e s1 j1 | Inr _ \<Rightarrow> apply_txs cr cons now txs s1 j1 })"

definition evict_below_window :: "blockchain \<Rightarrow> blockchain option" where
  "evict_below_window c =
     (case finality_floor c of None \<Rightarrow> Some c
      | Some flr \<Rightarrow>
          do { tip_height \<leftarrow> chain_height c;
               let window_start = saturating_sub tip_height (RAM_WINDOW_BLOCKS - 1);
               let new_base = min window_start flr;
               if new_base \<le> bc_base_height c then Some c
               else
                 let n = (if bc_base_height c = 0 then unat (new_base - 1) else unat (new_base - bc_base_height c)) in
                 if length (bc_canonical c) \<le> n then None
                 else Some (c\<lparr>bc_canonical := take 1 (bc_canonical c) @ drop (1 + n) (bc_canonical c),
                       bc_known_hashes := fmfilter (\<lambda>h. \<not> (max (bc_base_height c) 1 \<le> h \<and> h < new_base)) (bc_known_hashes c),
                       bc_base_height := new_base\<rparr>) })"

definition record_included :: "crypto \<Rightarrow> block \<Rightarrow> blockchain \<Rightarrow> blockchain" where
  "record_included cr block c =
     (let height = bh_height (blk_header block);
          recorded = fold (\<lambda>tx m. case transaction_id cr tx of Inl _ \<Rightarrow> m | Inr i \<Rightarrow> fmupd i height m)
            (blk_transactions block) (bc_included c);
          cutoff = saturating_sub height REPLAY_WINDOW_BLOCKS in
      c\<lparr>bc_included := if REPLAY_WINDOW_BLOCKS < height
         then fmfilter (\<lambda>i. case fmlookup recorded i of None \<Rightarrow> False | Some h \<Rightarrow> cutoff < h) recorded else recorded\<rparr>)"

definition push_block_with_gc :: "crypto \<Rightarrow> block \<Rightarrow> blockchain \<Rightarrow> applied_block chain_result" where
  "push_block_with_gc cr block c =
     do { checked \<leftarrow> check_block cr block c;
          case checked of Inl e \<Rightarrow> Some (c, Inl e)
          | Inr hash \<Rightarrow>
              do { tip \<leftarrow> chain_tip c;
                   let parent_time = bh_timestamp (blk_header tip);
                   (s1, j1, gc_removed) \<leftarrow> gc_expired_journaled cr parent_time (bc_state c) [];
                   (s2, j2, r) \<leftarrow> apply_txs cr (bc_consensus c) parent_time (blk_transactions block) s1 j1;
                   case r of
                     Inl e \<Rightarrow> map_option (\<lambda>s. (c\<lparr>bc_state := s\<rparr>, Inl e)) (rollback cr j2 s2)
                   | Inr _ \<Rightarrow>
                       do { c1 \<leftarrow> evict_below_window (c\<lparr>bc_state := s2,
                              bc_known_hashes := fmupd (bh_height (blk_header block)) hash (bc_known_hashes c),
                              bc_canonical := bc_canonical c @ [block], bc_tip := hash\<rparr>);
                            Some (record_included cr block c1, Inr \<lparr>ab_hash = hash, ab_gc_removed_domains = gc_removed\<rparr>) } } }"

definition push_block :: "crypto \<Rightarrow> block \<Rightarrow> blockchain \<Rightarrow> hash32 chain_result" where
  "push_block cr block c = map_option (\<lambda>(c', r). (c', try_bind r (\<lambda>a. Inr (ab_hash a)))) (push_block_with_gc cr block c)"

section \<open>Checkpoints\<close>

definition last_checkpoint :: "blockchain \<Rightarrow> checkpoint option" where
  "last_checkpoint c = (if bc_checkpoints c = [] then None else Some (last (bc_checkpoints c)))"

definition chain_checkpoint_data :: "crypto \<Rightarrow> blockchain \<Rightarrow> u32 \<Rightarrow> (bc_error + checkpoint_data) option" where
  "chain_checkpoint_data cr c recovery =
     do { tip \<leftarrow> chain_tip c;
          (epoch, prev) \<leftarrow> (case last_checkpoint c of None \<Rightarrow> Some (0, 0)
             | Some cp \<Rightarrow> map_option (\<lambda>e. (e, checkpoint_hash cr cp)) (checked_add (cd_epoch (ck_data cp)) 1));
          Some (try_bind (block_hash cr (blk_header tip)) (\<lambda>hash. Inr
            \<lparr>cd_epoch = epoch, cd_height = bh_height (blk_header tip), cd_block_hash = hash, cd_prev_checkpoint_hash = prev,
             cd_state_root = state_root_smt cr (bc_state c), cd_recovery = recovery\<rparr>)) }"

definition tip_ts_since_last_checkpoint :: "blockchain \<Rightarrow> u64 option" where
  "tip_ts_since_last_checkpoint c =
     (case last_checkpoint c of None \<Rightarrow> Some 0
      | Some lst \<Rightarrow>
          let cp_ts = (case chain_block c (cd_height (ck_data lst)) of None \<Rightarrow> 0 | Some b \<Rightarrow> bh_timestamp (blk_header b)) in
          map_option (\<lambda>tip. saturating_sub (bh_timestamp (blk_header tip)) cp_ts) (chain_tip c))"

definition check_checkpoint_data :: "crypto \<Rightarrow> blockchain \<Rightarrow> checkpoint_data \<Rightarrow> (bc_error + unit) option" where
  "check_checkpoint_data cr c d =
     do { height \<leftarrow> chain_height c;
          if cd_height d = 0 \<or> height < cd_height d then Some (Inl BcConsensus)
          else case last_checkpoint c of
            None \<Rightarrow> Some (if cd_epoch d \<noteq> 0 \<or> cd_prev_checkpoint_hash d \<noteq> 0 then Inl BcConsensus else Inr ())
          | Some lst \<Rightarrow>
              do { next_epoch \<leftarrow> checked_add (cd_epoch (ck_data lst)) 1;
                   if cd_epoch d \<noteq> next_epoch then Some (Inl BcConsensus)
                   else if cd_prev_checkpoint_hash d \<noteq> checkpoint_hash cr lst then Some (Inl BcConsensus)
                   else if cd_height d \<le> cd_height (ck_data lst) then Some (Inl BcConsensus)
                   else if recovery_max_epochs (np_consensus (bc_network c)) < cd_recovery d then Some (Inl BcConsensus)
                   else if cd_recovery d = 0 then Some (Inr ())
                   else do { elapsed \<leftarrow> tip_ts_since_last_checkpoint c;
                             need \<leftarrow> checked_mul (ucast (cd_recovery d)) (epoch_secs (np_consensus (bc_network c)));
                             Some (if elapsed < need then Inl BcConsensus else Inr ()) } } }"

definition propose_checkpoint :: "crypto \<Rightarrow> blockchain \<Rightarrow> checkpoint_data option option" where
  "propose_checkpoint cr c =
     (let last_height = (case last_checkpoint c of None \<Rightarrow> 0 | Some cp \<Rightarrow> cd_height (ck_data cp));
          min_blocks = epoch_min_blocks (np_consensus (bc_network c)) in
      do { height \<leftarrow> chain_height c;
           if height \<le> last_height \<or> height - last_height < min_blocks then Some None
           else map_option (\<lambda>r. case r of Inl _ \<Rightarrow> None | Inr d \<Rightarrow> Some d) (chain_checkpoint_data cr c 0) })"

definition accept_checkpoint :: "crypto \<Rightarrow> checkpoint \<Rightarrow> blockchain \<Rightarrow> bool chain_result" where
  "accept_checkpoint cr cp c =
     do { checked \<leftarrow> check_checkpoint_data cr c (ck_data cp);
          case checked of Inl e \<Rightarrow> Some (c, Inl e)
          | Inr _ \<Rightarrow>
              do { com \<leftarrow> committee cr c (cd_recovery (ck_data cp));
                   height \<leftarrow> chain_height c;
                   if length com < MIN_FINALITY_COMMITTEE_SIZE then Some (c, Inl BcConsensus)
                   else if \<not> verify_quorum cr cp com (quorum_for (length com)) then Some (c, Inl BcConsensus)
                   else if cd_height (ck_data cp) = height \<and> cd_state_root (ck_data cp) \<noteq> state_root_smt cr (bc_state c)
                   then Some (c, Inl BcConsensus)
                   else if (case last_checkpoint c of None \<Rightarrow> False | Some lst \<Rightarrow> checkpoint_hash cr lst = checkpoint_hash cr cp)
                   then Some (c, Inr False)
                   else
                     let block_ts = (case chain_block c (cd_height (ck_data cp)) of None \<Rightarrow> 0 | Some b \<Rightarrow> bh_timestamp (blk_header b));
                         cps = bc_checkpoints c @ [cp] in
                     Some (c\<lparr>bc_finalized := Some \<lparr>fb_checkpoint = cp, fb_pool = eligible_validators (bc_state c) block_ts,
                               fb_block_ts = block_ts, fb_seed = next_seed cr (checkpoint_hash cr cp)\<rparr>,
                             bc_checkpoints := drop (length cps - CHECKPOINT_KEEP) cps\<rparr>, Inr True) } }"

section \<open>Fork choice\<close>

fun push_all :: "crypto \<Rightarrow> block list \<Rightarrow> blockchain \<times> applied_block \<times> domain_id list
    \<Rightarrow> (bc_error + blockchain \<times> applied_block \<times> domain_id list) option" where
  "push_all cr [] x = Some (Inr x)"
| "push_all cr (b # bs) (c, lst, gc) =
     do { (c', r) \<leftarrow> push_block_with_gc cr b c;
          case r of Inl e \<Rightarrow> Some (Inl e)
          | Inr applied \<Rightarrow> push_all cr bs (c', applied, gc @ ab_gc_removed_domains applied) }"

fun collect_prefix :: "blockchain \<Rightarrow> u64 list \<Rightarrow> bc_error + block list" where
  "collect_prefix c [] = Inr []"
| "collect_prefix c (h # hs) = try_bind (block_result c h) (\<lambda>b. try_bind (collect_prefix c hs) (\<lambda>bs. Inr (b # bs)))"

text \<open>The fields replaced by \<^verbatim>\<open>swap_with\<close>; the replay index is not one of them.\<close>

definition swap_with :: "blockchain \<Rightarrow> blockchain \<Rightarrow> blockchain" where
  "swap_with other c = c\<lparr>bc_base_height := bc_base_height other, bc_canonical := bc_canonical other,
     bc_known_hashes := bc_known_hashes other, bc_tip := bc_tip other, bc_state := bc_state other,
     bc_checkpoints := bc_checkpoints other, bc_finalized := bc_finalized other\<rparr>"

definition reorg_to_height :: "crypto \<Rightarrow> u64 \<Rightarrow> block list \<Rightarrow> blockchain \<Rightarrow> applied_block chain_result" where
  "reorg_to_height cr height extension c =
     (case collect_prefix c (map of_nat [0..<unat height + 1]) of Inl e \<Rightarrow> Some (c, Inl e)
      | Inr prefix \<Rightarrow>
          do { fresh0 \<leftarrow> with_consensus_for_network cr permissive_consensus (bc_network c);
               let fresh1 = fresh0\<lparr>bc_checkpoints := bc_checkpoints c, bc_finalized := bc_finalized c\<rparr>;
               replayed \<leftarrow> push_all cr (tl prefix) (fresh1, \<lparr>ab_hash = 0, ab_gc_removed_domains = []\<rparr>, []);
               case replayed of Inl e \<Rightarrow> Some (c, Inl e)
               | Inr (fresh2, _, _) \<Rightarrow>
                   do { extended \<leftarrow> push_all cr extension (fresh2, \<lparr>ab_hash = tip_hash fresh2, ab_gc_removed_domains = []\<rparr>, []);
                        case extended of Inl e \<Rightarrow> Some (c, Inl e)
                        | Inr (fresh3, lst, all_gc) \<Rightarrow>
                            Some (swap_with fresh3 c, Inr (lst\<lparr>ab_gc_removed_domains := all_gc\<rparr>)) } })"

definition try_attach :: "crypto \<Rightarrow> block \<Rightarrow> blockchain \<Rightarrow> applied_block chain_result" where
  "try_attach cr block c = (let header = blk_header block in
     if bh_prev_hash header = bc_tip c then push_block_with_gc cr block c
     else if \<not> known_parent c (bh_prev_hash header) then Some (c, Inl (classify_parent_miss c (bh_height header)))
     else do { tip_height \<leftarrow> chain_height c;
               if bh_height header \<noteq> tip_height then Some (c, Inl ParentNotTip)
               else case block_hash cr header of Inl e \<Rightarrow> Some (c, Inl e)
               | Inr hash \<Rightarrow>
                   if tip_hash c \<le> hash then Some (c, Inl ParentNotTip)
                   else do { ancestor_height \<leftarrow> checked_sub (bh_height header) 1;
                             reorg_to_height cr ancestor_height [block] c } })"

fun check_branch :: "crypto \<Rightarrow> block list \<Rightarrow> bc_error + unit" where
  "check_branch cr (a # b # bs) = try_bind (block_hash cr (blk_header a)) (\<lambda>h.
     if bh_prev_hash (blk_header b) \<noteq> h then Inl BcConsensus else check_branch cr (b # bs))"
| "check_branch cr _ = Inr ()"

definition on_branch :: "crypto \<Rightarrow> u64 \<Rightarrow> block \<Rightarrow> block list \<Rightarrow> checkpoint \<Rightarrow> bool" where
  "on_branch cr base_height base blocks cp \<longleftrightarrow>
     (let h = cd_height (ck_data cp) in
      if h < base_height then True
      else let candidate = (if h = base_height then Some base
                 else let off = unat (h - base_height - 1) in if off < length blocks then Some (blocks ! off) else None) in
        case candidate of None \<Rightarrow> False
        | Some b \<Rightarrow> block_hash cr (blk_header b) = Inr (cd_block_hash (ck_data cp)))"

definition adopt_branch :: "crypto \<Rightarrow> block list \<Rightarrow> blockchain \<Rightarrow> bool chain_result" where
  "adopt_branch cr blocks c = (case blocks of [] \<Rightarrow> Some (c, Inr False)
     | first # _ \<Rightarrow>
         case check_branch cr blocks of Inl e \<Rightarrow> Some (c, Inl e)
         | Inr _ \<Rightarrow>
             do { base_height \<leftarrow> checked_sub (bh_height (blk_header first)) 1;
                  case chain_block c base_height of None \<Rightarrow> Some (c, Inl (BlockPruned base_height))
                  | Some base \<Rightarrow>
                      case block_hash cr (blk_header base) of Inl e \<Rightarrow> Some (c, Inl e)
                      | Inr base_hash \<Rightarrow>
                          if bh_prev_hash (blk_header first) \<noteq> base_hash then Some (c, Inl UnknownParent)
                          else if \<not> list_all (on_branch cr base_height base blocks) (bc_checkpoints c) then Some (c, Inl BcConsensus)
                          else do { candidate_height \<leftarrow> checked_add base_height (of_nat (length blocks));
                                    our_height \<leftarrow> chain_height c;
                                    case block_hash cr (blk_header (last blocks)) of Inl e \<Rightarrow> Some (c, Inl e)
                                    | Inr candidate_tip \<Rightarrow>
                                        if our_height < candidate_height \<or> candidate_height = our_height \<and> candidate_tip < tip_hash c
                                        then map_option (\<lambda>(c', r). (c', try_bind r (\<lambda>_. Inr True)))
                                          (reorg_to_height cr base_height blocks c)
                                        else Some (c, Inr False) } })"

end
