(* ===== verification/Scone_Ledger.thy ===== *)
theory Scone_Ledger
  imports Scone_Chain
begin

text \<open>
  The abstract view of the chain: a ledger is the list of all accepted blocks from genesis on, and
  the registry is what the rules make of it. The chain keeps a window of the ledger, an index of
  hashes and a state; the relation \<open>chain_rep\<close> says that these are the window, the hashes and the
  registry of a ledger.
\<close>

section \<open>The rules for a block\<close>

fun spec_txs :: "crypto \<Rightarrow> consensus \<Rightarrow> u64 \<Rightarrow> transaction list \<Rightarrow> registry \<Rightarrow> (registry \<times> undo_log \<times> (bc_error + unit)) option" where
  "spec_txs cr cons now [] a = Some (a, [], Inr ())"
| "spec_txs cr cons now (tx # txs) a =
     (case validate_transaction cr tx of Inl e \<Rightarrow> Some (a, [], Inl e)
      | Inr _ \<Rightarrow>
          case validate_tx cons tx of Inl e \<Rightarrow> Some (a, [], Inl e)
          | Inr _ \<Rightarrow>
              case spec_apply cr tx now a of None \<Rightarrow> None
              | Some (a1, es, Inl e) \<Rightarrow> Some (a1, es, Inl e)
              | Some (a1, es, Inr _) \<Rightarrow> map_option (\<lambda>(a2, fs, r). (a2, es @ fs, r)) (spec_txs cr cons now txs a1))"

definition spec_block :: "crypto \<Rightarrow> consensus \<Rightarrow> u64 \<Rightarrow> transaction list \<Rightarrow> registry
    \<Rightarrow> (registry \<times> undo_log \<times> (bc_error + unit) \<times> domain_id list) option" where
  "spec_block cr cons now txs a = (case spec_gc now a of (a1, es, ids) \<Rightarrow>
     map_option (\<lambda>(a2, fs, r). (a2, es @ fs, r, ids)) (spec_txs cr cons now txs a1))"

text \<open>No transaction of the block meets a hash collision.\<close>

fun txs_free :: "crypto \<Rightarrow> consensus \<Rightarrow> u64 \<Rightarrow> transaction list \<Rightarrow> registry \<Rightarrow> bool" where
  "txs_free cr cons now [] a \<longleftrightarrow> True"
| "txs_free cr cons now (tx # txs) a \<longleftrightarrow> no_collision cr tx now a
     \<and> (case spec_apply cr tx now a of Some (a1, _, Inr _) \<Rightarrow> txs_free cr cons now txs a1 | _ \<Rightarrow> True)"

definition block_free :: "crypto \<Rightarrow> consensus \<Rightarrow> u64 \<Rightarrow> transaction list \<Rightarrow> registry \<Rightarrow> bool" where
  "block_free cr cons now txs a \<longleftrightarrow> (case spec_gc now a of (a1, _, _) \<Rightarrow> txs_free cr cons now txs a1)"

lemma txs_ok:
  "rep cr s a \<Longrightarrow> sound cr a \<Longrightarrow> registry_inv cr a \<Longrightarrow> txs_free cr cons now txs a \<Longrightarrow>
     case spec_txs cr cons now txs a of None \<Rightarrow> apply_txs cr cons now txs s j = None
     | Some (a', es, r) \<Rightarrow> \<exists>s'. apply_txs cr cons now txs s j = Some (s', j @ es, r) \<and> rep cr s' a' \<and> sound cr a'
         \<and> registry_inv cr a' \<and> asteps (sound cr) a es a'"
proof (induction txs arbitrary: s a j)
  case Nil
  then show ?case by (simp add: done_with_def asteps.Nil)
next
  case (Cons tx txs)
  show ?case
  proof (cases "\<exists>u v. validate_transaction cr tx = Inr u \<and> validate_tx cons tx = Inr v")
    case False
    then show ?thesis using Cons.prems by (auto simp: fail_def asteps.Nil split: sum.splits)
  next
    case True
    show ?thesis
    proof (cases "spec_apply cr tx now a")
      case None
      then have "apply_journaled_at cr tx now s j = None"
        using Cons.prems apply_refines [of cr s a tx now j] by (simp add: no_collision_def refines_def)
      then show ?thesis using True None by auto
    next
      case (Some x)
      obtain a1 es r where x: "x = (a1, es, r)" by (metis prod_cases3)
      obtain s1 where s1: "apply_journaled_at cr tx now s j = Some (s1, j @ es, r)" "rep cr s1 a1" "sound cr a1"
        "registry_inv cr a1" "asteps (sound cr) a es a1"
        using apply_ok [OF Cons.prems(1-3), of tx now a1 es r j] Cons.prems(4) Some x by auto
      show ?thesis
      proof (cases r)
        case (Inl e)
        then show ?thesis using True Some x s1 by (auto simp: fail_def)
      next
        case (Inr u)
        have "txs_free cr cons now txs a1" using Cons.prems(4) Some x Inr by simp
        from Cons.IH [OF s1(2-4) this, of "j @ es"] show ?thesis
          using True Some x s1 Inr asteps_append [OF _ s1(5)]
          by (auto split: option.splits prod.splits)
      qed
    qed
  qed
qed

lemma block_ok:
  assumes "rep cr s a" "sound cr a" "registry_inv cr a" "block_free cr cons now txs a"
  shows "case spec_block cr cons now txs a of
      None \<Rightarrow> \<exists>s1 j1 ids. gc_expired_journaled cr now s [] = Some (s1, j1, ids) \<and> apply_txs cr cons now txs s1 j1 = None
    | Some (a', es, r, ids) \<Rightarrow> \<exists>s1 j1 s'. gc_expired_journaled cr now s [] = Some (s1, j1, ids)
        \<and> apply_txs cr cons now txs s1 j1 = Some (s', es, r) \<and> rep cr s' a' \<and> sound cr a' \<and> registry_inv cr a'
        \<and> asteps (sound cr) a es a'"
proof -
  obtain a1 es ids where g: "spec_gc now a = (a1, es, ids)" by (metis prod_cases3)
  obtain s1 where s1: "gc_expired_journaled cr now s [] = Some (s1, es, ids)" "rep cr s1 a1" "sound cr a1" "registry_inv cr a1"
    "asteps (sound cr) a es a1"
    using gc_ok [OF assms(1-3) g, of "[]"] by auto
  have "txs_free cr cons now txs a1" using assms(4) g by (simp add: block_free_def)
  from txs_ok [OF s1(2-4) this, of es] show ?thesis
    using s1 g asteps_append [OF _ s1(5)] by (auto simp: spec_block_def split: option.splits)
qed

section \<open>Ledgers\<close>

abbreviation height_of :: "block \<Rightarrow> u64" where "height_of b \<equiv> bh_height (blk_header b)"
abbreviation prev_of :: "block \<Rightarrow> hash32" where "prev_of b \<equiv> bh_prev_hash (blk_header b)"
abbreviation time_of :: "block \<Rightarrow> u64" where "time_of b \<equiv> bh_timestamp (blk_header b)"
abbreviation hash_of :: "crypto \<Rightarrow> block \<Rightarrow> bc_error + hash32" where "hash_of cr b \<equiv> block_hash cr (blk_header b)"

fun spec_blocks :: "crypto \<Rightarrow> consensus \<Rightarrow> u64 \<Rightarrow> block list \<Rightarrow> registry \<Rightarrow> registry option" where
  "spec_blocks cr cons now [] a = Some a"
| "spec_blocks cr cons now (b # bs) a =
     (case spec_block cr cons now (blk_transactions b) a of
        Some (a', _, Inr _, _) \<Rightarrow> spec_blocks cr cons (time_of b) bs a' | _ \<Rightarrow> None)"

definition spec_ledger :: "crypto \<Rightarrow> consensus \<Rightarrow> network_params \<Rightarrow> block list \<Rightarrow> registry option" where
  "spec_ledger cr cons network hist = spec_blocks cr cons (time_of (hd hist)) (tl hist) (registry_new network)"

text \<open>Heights count from zero and every block names the hash of the block before.\<close>

definition linked :: "crypto \<Rightarrow> block list \<Rightarrow> bool" where
  "linked cr hist \<longleftrightarrow> length hist \<le> 2 ^ 64 \<and> (\<forall>i<length hist. height_of (hist ! i) = of_nat i)
     \<and> (\<forall>i. Suc i < length hist \<longrightarrow> hash_of cr (hist ! i) = Inr (prev_of (hist ! Suc i)))"

text \<open>The chain holds genesis, the blocks from the base height on, and their hashes.\<close>

definition in_window :: "blockchain \<Rightarrow> block list \<Rightarrow> u64 \<Rightarrow> bool" where
  "in_window c hist h \<longleftrightarrow> unat h < length hist \<and> (h = 0 \<or> bc_base_height c \<le> h)"

definition window_rep :: "crypto \<Rightarrow> block list \<Rightarrow> blockchain \<Rightarrow> bool" where
  "window_rep cr hist c \<longleftrightarrow> linked cr hist \<and> hist \<noteq> [] \<and> hd hist = genesis_of cr (bc_network c)
     \<and> unat (bc_base_height c) < length hist
     \<and> bc_canonical c = take 1 hist @ drop (max 1 (unat (bc_base_height c))) hist
     \<and> (\<forall>h. in_window c hist h \<longrightarrow> map_option Inr (fmlookup (bc_known_hashes c) h) = Some (hash_of cr (hist ! unat h)))
     \<and> (\<forall>h. \<not> in_window c hist h \<longrightarrow> fmlookup (bc_known_hashes c) h = None)
     \<and> hash_of cr (last hist) = Inr (bc_tip c)"

definition chain_rep :: "crypto \<Rightarrow> block list \<Rightarrow> blockchain \<Rightarrow> bool" where
  "chain_rep cr hist c \<longleftrightarrow> window_rep cr hist c \<and> valid_state cr (bc_state c)
     \<and> spec_ledger cr (bc_consensus c) (bc_network c) hist = Some (abs_state (bc_state c))"

lemma spec_blocks_append: "spec_blocks cr cons now (bs @ cs) a =
    Option.bind (spec_blocks cr cons now bs a) (spec_blocks cr cons (if bs = [] then now else time_of (last bs)) cs)"
  by (induction bs arbitrary: now a) (auto split: option.splits sum.splits prod.splits)

lemma unat_of_nat_u64: "i < 2 ^ 64 \<Longrightarrow> unat (of_nat i :: u64) = i"
  by (simp add: unat_of_nat)

lemma window_canonical:
  assumes "window_rep cr hist c" shows "chain_tip c = Some (last hist)" "chain_genesis c = Some (hd hist)"
    "chain_height c = Some (of_nat (length hist - 1))"
proof -
  let ?b = "max 1 (unat (bc_base_height c))"
  have w: "linked cr hist" "hist \<noteq> []" "unat (bc_base_height c) < length hist" "bc_canonical c = take 1 hist @ drop ?b hist"
    using assms by (auto simp: window_rep_def)
  have c: "bc_canonical c \<noteq> []" "hd (bc_canonical c) = hd hist" using w(2,4) by (cases hist; simp)+
  have "last (bc_canonical c) = last hist"
  proof (cases "?b < length hist")
    case False
    then have "length hist = 1" using w(2,3) by (cases hist) auto
    then show ?thesis using w(2,4) False by (cases hist) auto
  next
    case True
    then have "drop ?b hist \<noteq> []" "last (drop ?b hist) = last hist" by (simp_all only: drop_eq_Nil not_le last_drop)
    then show ?thesis unfolding w(4) by (simp only: last_append if_False)
  qed
  then show t: "chain_tip c = Some (last hist)" using c by (simp add: chain_tip_def)
  show "chain_genesis c = Some (hd hist)" using c by (auto simp: chain_genesis_def split: list.splits)
  have "height_of (last hist) = of_nat (length hist - 1)"
    using w(1,2) by (simp add: linked_def last_conv_nth)
  then show "chain_height c = Some (of_nat (length hist - 1))" using t by (simp add: chain_height_def)
qed

lemma window_block:
  assumes "window_rep cr hist c" shows "chain_block c h = (if in_window c hist h then Some (hist ! unat h) else None)"
proof -
  have w: "linked cr hist" "hist \<noteq> []" "unat (bc_base_height c) < length hist"
    "bc_canonical c = take 1 hist @ drop (max 1 (unat (bc_base_height c))) hist"
    using assms by (auto simp: window_rep_def)
  have hh: "height_of (hist ! i) = of_nat i" "i < 2 ^ 64" if "i < length hist" for i using w(1) that by (auto simp: linked_def)
  have len: "length (bc_canonical c) = 1 + (length hist - max 1 (unat (bc_base_height c)))" using w by (cases hist) auto
  show ?thesis
  proof (cases "h = 0")
    case True
    then show ?thesis using w hh(1) [of 0] len by (cases hist) (auto simp: chain_block_def in_window_def)
  next
    case h0: False
    then have hp: "0 < unat h" by (simp add: unat_gt_0)
    show ?thesis
    proof (cases "bc_base_height c \<le> h")
      case False
      then show ?thesis using h0 by (simp add: chain_block_def checked_sub_def in_window_def)
    next
      case True
      let ?off = "unat (h - bc_base_height c)"
      let ?i = "if bc_base_height c = 0 then ?off else ?off + 1"
      have off: "?off = unat h - unat (bc_base_height c)" using True by (simp add: unat_sub)
      have i: "?i = 1 + (unat h - max 1 (unat (bc_base_height c)))"
        using True hp off by (auto simp: word_le_nat_alt max_def not_le simp flip: unat_eq_zero)
      have lt: "?i < length (bc_canonical c) \<longleftrightarrow> unat h < length hist"
        unfolding i len using True hp w(3) by (auto simp: word_le_nat_alt)
      have nth: "bc_canonical c ! ?i = hist ! unat h" if "unat h < length hist"
        unfolding i w(4) using that True hp w(2) by (auto simp: nth_append word_le_nat_alt)
      have "height_of (hist ! unat h) = h" if "unat h < length hist" using hh(1) [OF that] by simp
      then show ?thesis using h0 True lt nth by (auto simp: chain_block_def checked_sub_def in_window_def Let_def)
    qed
  qed
qed

section \<open>The window slides\<close>

text \<open>Eviction never panics and keeps the window of the same ledger.\<close>

lemma saturating_sub_le: "saturating_sub a b \<le> a"
  by (simp add: saturating_sub_def word_sub_le_iff)

lemma evict_rep:
  assumes w: "window_rep cr hist c"
  shows "\<exists>c'. evict_below_window c = Some c' \<and> window_rep cr hist c' \<and> bc_state c' = bc_state c \<and> bc_network c' = bc_network c
    \<and> bc_consensus c' = bc_consensus c \<and> bc_included c' = bc_included c \<and> bc_checkpoints c' = bc_checkpoints c
    \<and> bc_finalized c' = bc_finalized c \<and> bc_tip c' = bc_tip c \<and> bc_base_height c \<le> bc_base_height c'"
proof (cases "finality_floor c")
  case None
  then show ?thesis using w by (simp add: evict_below_window_def)
next
  case (Some flr)
  have l: "linked cr hist" "hist \<noteq> []" "unat (bc_base_height c) < length hist" "length hist \<le> 2 ^ 64"
    "bc_canonical c = take 1 hist @ drop (max 1 (unat (bc_base_height c))) hist"
    using w by (auto simp: window_rep_def linked_def)
  define nb where "nb = min (saturating_sub (of_nat (length hist - 1)) (RAM_WINDOW_BLOCKS - 1)) flr"
  let ?n = "if bc_base_height c = 0 then unat (nb - 1) else unat (nb - bc_base_height c)"
  show ?thesis
  proof (cases "nb \<le> bc_base_height c")
    case True
    then show ?thesis using w Some window_canonical(3) [OF w] by (simp add: evict_below_window_def nb_def)
  next
    case False
    then have nb: "bc_base_height c < nb" by simp
    have "nb \<le> of_nat (length hist - 1)" unfolding nb_def using saturating_sub_le by (rule order_trans [OF min.cobounded1])
    moreover have lt: "length hist - 1 < 2 ^ 64" using l(2,4) by (cases hist) auto
    ultimately have "unat nb \<le> length hist - 1" by (simp only: word_le_nat_alt unat_of_nat_u64)
    then have nl: "unat nb < length hist" using l(3) by linarith
    have n1: "1 \<le> nb" using nb by (simp add: word_le_nat_alt word_less_nat_alt)
    have n: "?n = unat nb - max 1 (unat (bc_base_height c))"
      using nb n1 by (auto simp: unat_sub word_less_nat_alt word_le_nat_alt max_def simp flip: unat_eq_zero)
    have cut: "take 1 (bc_canonical c) @ drop (1 + ?n) (bc_canonical c) = take 1 hist @ drop (max 1 (unat nb)) hist"
      unfolding n l(5) using l(2) nb n1 by (cases hist) (auto simp: word_less_nat_alt word_le_nat_alt max_def)
    have small: "\<not> length (bc_canonical c) \<le> ?n"
      unfolding n l(5) using l(2) nl by (cases hist) auto
    define c' where "c' = c\<lparr>bc_canonical := take 1 (bc_canonical c) @ drop (1 + ?n) (bc_canonical c),
        bc_known_hashes := fmfilter (\<lambda>h. \<not> (max (bc_base_height c) 1 \<le> h \<and> h < nb)) (bc_known_hashes c), bc_base_height := nb\<rparr>"
    have "evict_below_window c = Some c'"
      using Some window_canonical(3) [OF w] False small
      by (simp add: evict_below_window_def Let_def nb_def [symmetric] c'_def del: One_nat_def split: if_splits)
    moreover have "bc_canonical c' = take 1 hist @ drop (max 1 (unat nb)) hist" unfolding cut [symmetric] c'_def by simp
    moreover have "in_window c' hist h \<longleftrightarrow> in_window c hist h \<and> \<not> (max (bc_base_height c) 1 \<le> h \<and> h < nb)" for h
      using nb n1 by (auto simp: c'_def in_window_def not_le word_le_nat_alt word_less_nat_alt max_def simp flip: unat_eq_zero)
    moreover have "fmlookup (bc_known_hashes c') h =
        (if max (bc_base_height c) 1 \<le> h \<and> h < nb then None else fmlookup (bc_known_hashes c) h)" for h
      by (simp add: c'_def)
    moreover have o: "bc_base_height c' = nb" "bc_network c' = bc_network c" "bc_tip c' = bc_tip c"
      "bc_state c' = bc_state c" "bc_consensus c' = bc_consensus c" "bc_included c' = bc_included c"
      "bc_checkpoints c' = bc_checkpoints c" "bc_finalized c' = bc_finalized c" by (simp_all add: c'_def)
    ultimately show ?thesis using w nl nb unfolding window_rep_def by (intro exI [of _ c']) auto
  qed
qed

section \<open>Appending a block\<close>

lemma check_blockD:
  assumes "check_block cr b c = Some (Inr hash)" "window_rep cr hist c"
  shows "prev_of b = bc_tip c" "checked_add (of_nat (length hist - 1)) 1 = Some (height_of b)" "hash_of cr b = Inr hash"
    "bh_version (blk_header b) = PROTOCOL_VERSION" "length (blk_transactions b) \<le> MAX_TXS_PER_BLOCK"
    "tx_root cr (blk_transactions b) = Inr (bh_tx_root (blk_header b))" "\<forall>tx\<in>set (blk_transactions b). \<not> tx_replayed cr c tx"
    "\<exists>u. validate_header (bc_consensus c) (blk_header b) = Inr u" "check_producer cr (blk_header b) c = Some (Inr ())"
  using assms(1) window_canonical(3) [OF assms(2)]
  by (auto simp: check_block_def check_parent_def Let_def split: bind_splits if_splits sum.splits option.splits)

lemma linked_snoc:
  assumes "linked cr hist" "hist \<noteq> []" "hash_of cr (last hist) = Inr (prev_of b)"
    "checked_add (of_nat (length hist - 1)) 1 = Some (height_of b)"
  shows "linked cr (hist @ [b])" "height_of b = of_nat (length hist)" "length hist < 2 ^ 64"
proof -
  have l: "length hist - 1 < 2 ^ 64" "0 < length hist" using assms(1,2) by (cases hist; simp add: linked_def)+
  have "unat (of_nat (length hist - 1) :: u64) + 1 < 2 ^ 64" "height_of b = of_nat (length hist - 1) + 1"
    using assms(4) by (auto simp: checked_add_def split: if_splits)
  moreover have "Suc (length hist - 1) = length hist" using l(2) by simp
  ultimately show len: "length hist < 2 ^ 64" and h: "height_of b = of_nat (length hist)"
    unfolding unat_of_nat_u64 [OF l(1)] by (simp, metis add.commute of_nat_Suc)
  show "linked cr (hist @ [b])"
    using assms(1-3) len h by (auto simp: linked_def nth_append last_conv_nth less_Suc_eq) (metis diff_Suc_Suc minus_nat.diff_0)
qed

lemma window_push:
  assumes w: "window_rep cr hist c" and ck: "check_block cr b c = Some (Inr hash)"
  shows "window_rep cr (hist @ [b]) (c\<lparr>bc_state := s, bc_known_hashes := fmupd (height_of b) hash (bc_known_hashes c),
      bc_canonical := bc_canonical c @ [b], bc_tip := hash\<rparr>)" (is "window_rep cr ?h ?c")
proof -
  have l: "linked cr hist" "hist \<noteq> []" "hash_of cr (last hist) = Inr (bc_tip c)" "unat (bc_base_height c) < length hist"
    using w by (auto simp: window_rep_def)
  note k = check_blockD [OF ck w]
  have n: "linked cr ?h" "height_of b = of_nat (length hist)" "length hist < 2 ^ 64"
    using linked_snoc [OF l(1,2) l(3) [folded k(1)] k(2)] by auto
  then have un: "unat (height_of b) = length hist" by (simp add: unat_of_nat_u64)
  have win: "in_window ?c ?h h \<longleftrightarrow> in_window c hist h \<or> h = height_of b" for h
    using l(2,4) un by (auto simp: in_window_def less_Suc_eq word_le_nat_alt) (metis unat_eq_zero word_unat_eq_iff un)+
  have "\<not> in_window c hist (height_of b)" using un by (simp add: in_window_def)
  then have "map_option Inr (fmlookup (fmupd (height_of b) hash (bc_known_hashes c)) h) = Some (hash_of cr (?h ! unat h))"
    if "in_window ?c ?h h" for h
    using that k(3) un w unfolding win window_rep_def by (auto simp: nth_append in_window_def)
  moreover have "fmlookup (fmupd (height_of b) hash (bc_known_hashes c)) h = None" if "\<not> in_window ?c ?h h" for h
    using that w unfolding win window_rep_def by auto
  moreover have "bc_canonical c @ [b] = take 1 ?h @ drop (max 1 (unat (bc_base_height c))) ?h"
  proof -
    have "max 1 (unat (bc_base_height c)) \<le> length hist" "take 1 ?h = take 1 hist" using l(2,4) by (cases hist; simp)+
    then show ?thesis using w by (simp add: window_rep_def)
  qed
  ultimately show ?thesis using n(1) w l(2,4) k(3) by (auto simp: window_rep_def)
qed

lemma chain_rep_restored:
  assumes "chain_rep cr hist c" "rep cr s (abs_state (bc_state c))"
  shows "state_eq s (bc_state c) \<and> chain_rep cr hist (c\<lparr>bc_state := s\<rparr>)"
proof -
  have v: "rep cr (bc_state c) (abs_state (bc_state c))" "sound cr (abs_state (bc_state c))" "registry_inv cr (abs_state (bc_state c))"
    using assms(1) by (simp_all add: chain_rep_def valid_state_def)
  show ?thesis
    using assms rep_unique [OF assms(2) v(1)] valid_stateI [OF assms(2) v(2,3)] rep_abs [OF assms(2)]
    by (simp add: chain_rep_def window_rep_def in_window_def)
qed

lemma push_cases:
  assumes w: "window_rep cr hist c" and vs: "valid_state cr (bc_state c)" and p: "push_block_with_gc cr b c = Some (c', r)"
    and f: "block_free cr (bc_consensus c) (time_of (last hist)) (blk_transactions b) (abs_state (bc_state c))"
  obtains (checked) e where "check_block cr b c = Some (Inl e)" "c' = c" "r = Inl e"
    | (undone) hash e s where "check_block cr b c = Some (Inr hash)" "c' = c\<lparr>bc_state := s\<rparr>" "r = Inl e"
        "rep cr s (abs_state (bc_state c))"
    | (pushed) hash a' es s ids c1 where "check_block cr b c = Some (Inr hash)"
        "spec_block cr (bc_consensus c) (time_of (last hist)) (blk_transactions b) (abs_state (bc_state c)) = Some (a', es, Inr (), ids)"
        "rep cr s a'" "sound cr a'" "registry_inv cr a'"
        "evict_below_window (c\<lparr>bc_state := s, bc_known_hashes := fmupd (height_of b) hash (bc_known_hashes c),
           bc_canonical := bc_canonical c @ [b], bc_tip := hash\<rparr>) = Some c1"
        "c' = record_included cr b c1" "r = Inr \<lparr>ab_hash = hash, ab_gc_removed_domains = ids\<rparr>"
proof -
  let ?a = "abs_state (bc_state c)" and ?now = "time_of (last hist)" and ?txs = "blk_transactions b"
  have v: "rep cr (bc_state c) ?a" "sound cr ?a" "registry_inv cr ?a" "window_rep cr hist c"
    using w vs by (simp_all add: valid_state_def)
  note tip = window_canonical(1) [OF v(4)]
  obtain ck where ck: "check_block cr b c = Some ck" using p by (auto simp: push_block_with_gc_def split: bind_splits)
  show thesis
  proof (cases ck)
    case (Inl e)
    then show thesis using checked ck p by (simp add: push_block_with_gc_def)
  next
    case (Inr hash)
    have b: "case spec_block cr (bc_consensus c) ?now ?txs ?a of
        None \<Rightarrow> \<exists>s1 j1 ids. gc_expired_journaled cr ?now (bc_state c) [] = Some (s1, j1, ids)
          \<and> apply_txs cr (bc_consensus c) ?now ?txs s1 j1 = None
      | Some (a', es, r, ids) \<Rightarrow> \<exists>s1 j1 s'. gc_expired_journaled cr ?now (bc_state c) [] = Some (s1, j1, ids)
        \<and> apply_txs cr (bc_consensus c) ?now ?txs s1 j1 = Some (s', es, r) \<and> rep cr s' a' \<and> sound cr a' \<and> registry_inv cr a'
        \<and> asteps (sound cr) ?a es a'" by (rule block_ok [OF v(1-3) f])
    show thesis
    proof (cases "spec_block cr (bc_consensus c) ?now ?txs ?a")
      case None
      then show thesis using b ck Inr tip p by (auto simp: push_block_with_gc_def)
    next
      case (Some x)
      obtain a' es res ids where x: "x = (a', es, res, ids)" by (metis prod_cases4)
      obtain s1 j1 s' where s: "gc_expired_journaled cr ?now (bc_state c) [] = Some (s1, j1, ids)"
        "apply_txs cr (bc_consensus c) ?now ?txs s1 j1 = Some (s', es, res)" "rep cr s' a'" "sound cr a'" "registry_inv cr a'"
        "asteps (sound cr) ?a es a'" using b Some x by auto
      show thesis
      proof (cases res)
        case (Inl e)
        obtain s0 where "rollback cr es s' = Some s0" "rep cr s0 ?a" using undo_steps [OF s(6,3)] by blast
        then show thesis using undone [of hash s0 e] ck Inr Inl s tip p by (simp add: push_block_with_gc_def)
      next
        case Ok: (Inr u)
        then show thesis using ck Inr s tip p Some x
          by (auto simp: push_block_with_gc_def split: bind_splits intro: pushed)
      qed
    qed
  qed
qed

lemma record_included_fields [simp]:
  "bc_state (record_included cr b c) = bc_state c" "bc_network (record_included cr b c) = bc_network c"
  "bc_consensus (record_included cr b c) = bc_consensus c" "bc_checkpoints (record_included cr b c) = bc_checkpoints c"
  "bc_finalized (record_included cr b c) = bc_finalized c" "bc_tip (record_included cr b c) = bc_tip c"
  "window_rep cr' hist (record_included cr b c) \<longleftrightarrow> window_rep cr' hist c"
  by (simp_all add: record_included_def Let_def window_rep_def in_window_def)

lemma record_included_index:
  "bc_included c = bc_included d \<Longrightarrow> bc_included (record_included cr b c) = bc_included (record_included cr b d)"
  by (simp add: record_included_def Let_def)

lemma spec_ledger_snoc:
  "hist \<noteq> [] \<Longrightarrow> spec_ledger cr cons network hist = Some a \<Longrightarrow>
     spec_block cr cons (time_of (last hist)) (blk_transactions b) a = Some (a', es, Inr (), ids) \<Longrightarrow>
     spec_ledger cr cons network (hist @ [b]) = Some a'"
  by (cases hist) (auto simp: spec_ledger_def spec_blocks_append)

lemma push_window:
  assumes "window_rep cr hist c" "valid_state cr (bc_state c)" "push_block_with_gc cr b c = Some (c', Inr ab)"
    "block_free cr (bc_consensus c) (time_of (last hist)) (blk_transactions b) (abs_state (bc_state c))"
  shows "window_rep cr (hist @ [b]) c' \<and> valid_state cr (bc_state c') \<and> hash_of cr b = Inr (ab_hash ab) \<and> bc_network c' = bc_network c
    \<and> bc_consensus c' = bc_consensus c \<and> bc_checkpoints c' = bc_checkpoints c \<and> bc_finalized c' = bc_finalized c
    \<and> check_block cr b c = Some (Inr (ab_hash ab)) \<and> bc_included c' = bc_included (record_included cr b c)
    \<and> (\<exists>es. spec_block cr (bc_consensus c) (time_of (last hist)) (blk_transactions b) (abs_state (bc_state c))
          = Some (abs_state (bc_state c'), es, Inr (), ab_gc_removed_domains ab))"
  using assms
proof (cases rule: push_cases)
  case (pushed hash a' es s ids c1)
  have e: "window_rep cr (hist @ [b]) c1" "bc_state c1 = s" "bc_network c1 = bc_network c" "bc_consensus c1 = bc_consensus c"
    "bc_checkpoints c1 = bc_checkpoints c" "bc_finalized c1 = bc_finalized c" "bc_included c1 = bc_included c"
    using evict_rep [OF window_push [OF assms(1) pushed(1), of s]] pushed(6) by auto
  then show ?thesis
    using pushed rep_abs [OF pushed(3)] valid_stateI [OF pushed(3-5)] check_blockD(3) [OF pushed(1) assms(1)]
      record_included_index [OF e(7), of cr b]
    by simp
qed auto

lemma push_rep:
  assumes r: "chain_rep cr hist c" and p: "push_block_with_gc cr b c = Some (c', res)"
    and f: "block_free cr (bc_consensus c) (time_of (last hist)) (blk_transactions b) (abs_state (bc_state c))"
  shows "case res of
      Inl e \<Rightarrow> (\<exists>s. c' = c\<lparr>bc_state := s\<rparr> \<and> state_eq s (bc_state c)) \<and> chain_rep cr hist c'
    | Inr ab \<Rightarrow> chain_rep cr (hist @ [b]) c' \<and> hash_of cr b = Inr (ab_hash ab) \<and> bc_network c' = bc_network c
        \<and> bc_consensus c' = bc_consensus c \<and> bc_checkpoints c' = bc_checkpoints c \<and> bc_finalized c' = bc_finalized c
        \<and> check_block cr b c = Some (Inr (ab_hash ab)) \<and> bc_included c' = bc_included (record_included cr b c)
        \<and> (\<exists>es. spec_block cr (bc_consensus c) (time_of (last hist)) (blk_transactions b) (abs_state (bc_state c))
              = Some (abs_state (bc_state c'), es, Inr (), ab_gc_removed_domains ab))"
proof (cases res)
  case (Inr ab)
  have w: "window_rep cr hist c" "valid_state cr (bc_state c)" "hist \<noteq> []" using r by (auto simp: chain_rep_def window_rep_def)
  then show ?thesis using push_window [OF w(1,2) p [unfolded Inr] f] spec_ledger_snoc [OF w(3)] r Inr
    by (fastforce simp: chain_rep_def)
next
  case (Inl e)
  have w: "window_rep cr hist c" "valid_state cr (bc_state c)" using r by (auto simp: chain_rep_def)
  have same: "state_eq (bc_state c) (bc_state c)" using chain_rep_restored [OF r, of "bc_state c"] w(2) by (simp add: valid_state_def)
  from w p f show ?thesis
  proof (cases rule: push_cases)
    case (checked e')
    then show ?thesis using r same by (auto intro: exI [of _ "bc_state c"])
  next
    case (undone hash e' s)
    then show ?thesis using chain_rep_restored [OF r undone(4)] by auto
  qed (use Inl in simp)
qed

end
