(* ===== verification/Scone_Replay.thy ===== *)
theory Scone_Replay
  imports Scone_Ledger
begin

text \<open>
  Chains that grow: from genesis, by pushed blocks, rejected blocks and checkpoints. Their window,
  state and replay index are functions of the ledger, appending never panics, a transaction is
  never included twice within the replay window, and a restored node rebuilds the same index.
\<close>

section \<open>Growing chains\<close>

inductive grows :: "crypto \<Rightarrow> consensus \<Rightarrow> network_params \<Rightarrow> block list \<Rightarrow> blockchain \<Rightarrow> bool" for cr cons network where
  Start: "with_consensus_for_network cr cons network = Some c \<Longrightarrow> grows cr cons network [genesis_of cr network] c"
| Push: "grows cr cons network hist c \<Longrightarrow>
    block_free cr cons (time_of (last hist)) (blk_transactions b) (abs_state (bc_state c)) \<Longrightarrow>
    push_block_with_gc cr b c = Some (c', Inr ab) \<Longrightarrow> grows cr cons network (hist @ [b]) c'"
| Reject: "grows cr cons network hist c \<Longrightarrow>
    block_free cr cons (time_of (last hist)) (blk_transactions b) (abs_state (bc_state c)) \<Longrightarrow>
    push_block_with_gc cr b c = Some (c', Inl e) \<Longrightarrow> grows cr cons network hist c'"
| Checkpoint: "grows cr cons network hist c \<Longrightarrow> accept_checkpoint cr cp c = Some (c', r) \<Longrightarrow> grows cr cons network hist c'"

lemma genesis_rep:
  assumes "with_consensus_for_network cr cons network = Some c"
  shows "chain_rep cr [genesis_of cr network] c" "bc_consensus c = cons" "bc_network c = network"
proof -
  obtain h where h: "hash_of cr (genesis_of cr network) = Inr h"
    "c = \<lparr>bc_base_height = 0, bc_canonical = [genesis_of cr network], bc_known_hashes = fmupd 0 h fmempty, bc_tip = h,
      bc_network = network, bc_state = for_network network, bc_consensus = cons, bc_included = fmempty,
      bc_checkpoints = [], bc_finalized = None\<rparr>"
    using assms by (auto simp: with_consensus_for_network_def expect_def split: sum.splits)
  have "linked cr [genesis_of cr network]" by (simp add: linked_def genesis_of_def)
  moreover have "in_window c [genesis_of cr network] k \<longleftrightarrow> k = 0" for k using h(2) by (auto simp: in_window_def unat_eq_zero)
  moreover have "abs_state (for_network network) = registry_new network" by (rule rep_abs [OF rep_new])
  ultimately show "chain_rep cr [genesis_of cr network] c" "bc_consensus c = cons" "bc_network c = network"
    using h valid_new by (auto simp: chain_rep_def window_rep_def spec_ledger_def)
qed

lemma accept_fields:
  assumes "accept_checkpoint cr cp c = Some (c', r)"
  shows "bc_state c' = bc_state c" "bc_network c' = bc_network c" "bc_consensus c' = bc_consensus c" "bc_included c' = bc_included c"
    "bc_canonical c' = bc_canonical c" "bc_known_hashes c' = bc_known_hashes c" "bc_tip c' = bc_tip c"
    "bc_base_height c' = bc_base_height c"
  using assms by (auto simp: accept_checkpoint_def Let_def split: bind_splits sum.splits if_splits)

lemma accept_rep: "accept_checkpoint cr cp c = Some (c', r) \<Longrightarrow> chain_rep cr hist c' \<longleftrightarrow> chain_rep cr hist c"
  by (simp add: chain_rep_def window_rep_def in_window_def accept_fields)

lemma grows_rep: "grows cr cons network hist c \<Longrightarrow> chain_rep cr hist c \<and> bc_consensus c = cons \<and> bc_network c = network"
proof (induction rule: grows.induct)
  case (Start c)
  then show ?case using genesis_rep by blast
next
  case (Push hist c b c' ab)
  then show ?case using push_rep [of cr hist c b c' "Inr ab"] by auto
next
  case (Reject hist c b c' e)
  then show ?case using push_rep [of cr hist c b c' "Inl e"] by auto
next
  case (Checkpoint hist c cp c' r)
  then show ?case using accept_rep accept_fields by auto
qed

section \<open>The replay index\<close>

definition tx_ids :: "crypto \<Rightarrow> block \<Rightarrow> hash32 set" where
  "tx_ids cr b = {i. \<exists>tx\<in>set (blk_transactions b). transaction_id cr tx = Inr i}"

text \<open>The height of the last inclusion of every identifier.\<close>

definition record_block :: "crypto \<Rightarrow> block \<Rightarrow> (hash32, u64) fmap \<Rightarrow> (hash32, u64) fmap" where
  "record_block cr b m = fold (\<lambda>tx m. case transaction_id cr tx of Inl _ \<Rightarrow> m | Inr i \<Rightarrow> fmupd i (height_of b) m) (blk_transactions b) m"

definition inclusions :: "crypto \<Rightarrow> block list \<Rightarrow> (hash32, u64) fmap" where
  "inclusions cr hist = fold (record_block cr) hist fmempty"

definition retain :: "u64 \<Rightarrow> (hash32, u64) fmap \<Rightarrow> (hash32, u64) fmap" where
  "retain cutoff m = fmfilter (\<lambda>i. case fmlookup m i of None \<Rightarrow> False | Some h \<Rightarrow> cutoff < h) m"

lemma lookup_record_block:
  "fmlookup (record_block cr b m) i = (if i \<in> tx_ids cr b then Some (height_of b) else fmlookup m i)"
proof -
  have "fmlookup (fold (\<lambda>tx m. case transaction_id cr tx of Inl _ \<Rightarrow> m | Inr i \<Rightarrow> fmupd i (height_of b) m) txs m) i
      = (if \<exists>tx\<in>set txs. transaction_id cr tx = Inr i then Some (height_of b) else fmlookup m i)" for txs
    by (induction txs arbitrary: m) (auto split: sum.splits)
  then show ?thesis by (simp add: record_block_def tx_ids_def)
qed

lemma lookup_retain: "fmlookup (retain k m) i = (case fmlookup m i of None \<Rightarrow> None | Some h \<Rightarrow> if k < h then Some h else None)"
  by (simp add: retain_def split: option.splits)

lemma record_included_eq: "bc_included (record_included cr b c) =
    (if REPLAY_WINDOW_BLOCKS < height_of b then retain (saturating_sub (height_of b) REPLAY_WINDOW_BLOCKS) (record_block cr b (bc_included c))
     else record_block cr b (bc_included c))"
  by (simp add: record_included_def record_block_def retain_def Let_def)

lemma inclusions_snoc [simp]: "inclusions cr (hist @ [b]) = record_block cr b (inclusions cr hist)"
  by (simp add: inclusions_def)

lemma lookup_inclusions:
  "fmlookup (inclusions cr hist) i = Some h \<Longrightarrow> \<exists>b\<in>set hist. i \<in> tx_ids cr b \<and> h = height_of b"
  by (induction hist rule: rev_induct) (auto simp: lookup_record_block inclusions_def split: if_splits)

lemma inclusions_above:
  assumes "linked cr hist" "k < length hist" "i \<in> tx_ids cr (hist ! k)"
  shows "\<exists>h. fmlookup (inclusions cr hist) i = Some h \<and> k \<le> unat h"
  using assms
proof (induction hist rule: rev_induct)
  case (snoc b hist)
  have l: "linked cr hist" "height_of b = of_nat (length hist)" "length hist < 2 ^ 64"
    using snoc.prems(1) by (auto simp: linked_def nth_append split: if_splits)
  then have "unat (height_of b) = length hist" by (simp add: unat_of_nat_u64)
  then show ?case using snoc l(1) by (cases "k = length hist") (auto simp: lookup_record_block nth_append)
qed simp

text \<open>The index of a growing chain: the last inclusions above the cutoff.\<close>

definition replay_index :: "crypto \<Rightarrow> block list \<Rightarrow> (hash32, u64) fmap" where
  "replay_index cr hist = retain (saturating_sub (of_nat (length hist - 1)) REPLAY_WINDOW_BLOCKS) (inclusions cr hist)"

lemma height_push:
  assumes "chain_rep cr hist c" "check_block cr b c = Some (Inr hash)"
  shows "height_of b = of_nat (length hist)" "length hist < 2 ^ 64" "0 < length hist" "linked cr (hist @ [b])"
proof -
  have w: "window_rep cr hist c" "linked cr hist" "hist \<noteq> []" "hash_of cr (last hist) = Inr (bc_tip c)"
    using assms(1) by (auto simp: chain_rep_def window_rep_def)
  note k = check_blockD [OF assms(2) w(1)]
  show "height_of b = of_nat (length hist)" "length hist < 2 ^ 64" "0 < length hist" "linked cr (hist @ [b])"
    using linked_snoc [OF w(2,3) w(4) [folded k(1)] k(2)] w(3) by auto
qed

lemma index_step:
  assumes "height_of b = of_nat (length hist)" "length hist < 2 ^ 64" "0 < length hist" "bc_included c = replay_index cr hist"
  shows "bc_included (record_included cr b c) = replay_index cr (hist @ [b])"
proof (rule fmap_ext)
  fix i
  let ?n = "of_nat (length hist) :: u64" and ?p = "of_nat (length hist - 1) :: u64"
  have un: "unat ?n = length hist" "unat ?p = length hist - 1" using assms(2) by (simp_all add: unat_of_nat_u64)
  have w: "unat REPLAY_WINDOW_BLOCKS = 256" by (simp add: REPLAY_WINDOW_BLOCKS_def)
  have sub: "unat (saturating_sub x REPLAY_WINDOW_BLOCKS) = unat x - 256" for x
    using w by (auto simp: saturating_sub_def unat_sub word_le_nat_alt)
  have "saturating_sub ?n REPLAY_WINDOW_BLOCKS < ?n" using un assms(3) by (simp add: word_less_nat_alt sub)
  moreover have "saturating_sub ?p REPLAY_WINDOW_BLOCKS \<le> saturating_sub ?n REPLAY_WINDOW_BLOCKS"
    using un by (simp add: word_le_nat_alt sub)
  moreover have "saturating_sub ?n REPLAY_WINDOW_BLOCKS = saturating_sub ?p REPLAY_WINDOW_BLOCKS" if "\<not> REPLAY_WINDOW_BLOCKS < ?n"
    using that un w by (simp add: word_unat_eq_iff sub word_less_nat_alt)
  ultimately show "fmlookup (bc_included (record_included cr b c)) i = fmlookup (replay_index cr (hist @ [b])) i"
    using assms(1,4) by (auto simp: record_included_eq replay_index_def lookup_retain lookup_record_block split: option.splits)
qed

lemma grows_index: "grows cr cons network hist c \<Longrightarrow> bc_included c = replay_index cr hist"
proof (induction rule: grows.induct)
  case (Start c)
  then have "bc_included c = fmempty" by (auto simp: with_consensus_for_network_def expect_def split: sum.splits)
  moreover have "inclusions cr [genesis_of cr network] = fmempty" by (simp add: inclusions_def record_block_def genesis_of_def)
  ultimately show ?case by (simp add: replay_index_def retain_def)
next
  case (Push hist c b c' ab)
  have r: "chain_rep cr hist c" "bc_consensus c = cons" using grows_rep [OF Push.hyps(1)] by auto
  have p: "check_block cr b c = Some (Inr (ab_hash ab))" "bc_included c' = bc_included (record_included cr b c)"
    using push_rep [OF r(1) Push.hyps(3)] Push.hyps(2) r(2) by auto
  show ?case using index_step [OF height_push(1-3) [OF r(1) p(1)] Push.IH] p(2) by simp
next
  case (Reject hist c b c' e)
  have "chain_rep cr hist c" "bc_consensus c = cons" using grows_rep [OF Reject.hyps(1)] by auto
  then have "bc_included c' = bc_included c" using push_rep [of cr hist c b c' "Inl e"] Reject.hyps(2,3) by auto
  then show ?case using Reject.IH by simp
next
  case (Checkpoint hist c cp c' r)
  then show ?case using accept_fields(4) by simp
qed

text \<open>C11: A transaction never enters the chain twice within the replay window: in the ledger of a chain that
  grew from genesis by blocks and checkpoints, two blocks at most 256 heights apart share no
  transaction identifier.\<close>

theorem no_replay:
  assumes "grows cr cons network hist c" "i < j" "j < length hist" "j - i \<le> 256"
  shows "tx_ids cr (hist ! i) \<inter> tx_ids cr (hist ! j) = {}"
  using assms
proof (induction arbitrary: i j rule: grows.induct)
  case (Push hist c b c' ab)
  have r: "chain_rep cr hist c" "bc_consensus c = cons" using grows_rep [OF Push.hyps(1)] by auto
  have ck: "check_block cr b c = Some (Inr (ab_hash ab))" using push_rep [OF r(1) Push.hyps(3)] Push.hyps(2) r(2) by auto
  note h = height_push [OF r(1) ck]
  have l: "linked cr hist" using r(1) by (simp add: chain_rep_def window_rep_def)
  show ?case
  proof (cases "j = length hist")
    case True
    have "t \<notin> tx_ids cr b" if t: "t \<in> tx_ids cr (hist ! i)" for t
    proof
      assume "t \<in> tx_ids cr b"
      then obtain tx where tx: "tx \<in> set (blk_transactions b)" "transaction_id cr tx = Inr t" by (auto simp: tx_ids_def)
      obtain k where k: "fmlookup (inclusions cr hist) t = Some k" "i \<le> unat k"
        using inclusions_above [OF l _ t] Push.prems(1) True by auto
      have "unat (saturating_sub (of_nat (length hist - 1)) REPLAY_WINDOW_BLOCKS) < unat k \<or> i = 0"
        using k(2) Push.prems True h(2,3) unfolding saturating_sub_def REPLAY_WINDOW_BLOCKS_def
        by (auto simp: word_le_nat_alt unat_sub unat_of_nat_u64)
      moreover have "i \<noteq> 0"
      proof
        assume "i = 0"
        then have "hist ! i = genesis_of cr (bc_network c)"
          using r(1) h(3) by (auto simp: chain_rep_def window_rep_def hd_conv_nth)
        then show False using t by (simp add: tx_ids_def genesis_of_def)
      qed
      ultimately have "fmlookup (bc_included c) t \<noteq> None"
        using k(1) grows_index [OF Push.hyps(1)] by (simp add: replay_index_def lookup_retain word_less_nat_alt)
      then have "tx_replayed cr c tx" using tx(2) by (auto simp: tx_replayed_def is_tx_included_def fmlookup_dom_iff)
      then show False using check_blockD(7) [OF ck] r(1) tx(1) by (auto simp: chain_rep_def)
    qed
    then show ?thesis using True Push.prems(1) by (auto simp: nth_append)
  qed (use Push in \<open>auto simp: nth_append\<close>)
qed auto

end
