(* ===== verification/Scone_Chain_Props.thy ===== *)
theory Scone_Chain_Props
  imports Scone_Replay
begin

text \<open>
  What the chain guarantees: appending a block refines the ledger rules and is atomic, it does not
  panic, an honest producer can always extend the chain, and a restarted node has the replay
  index of one that never stopped.
\<close>

section \<open>Totality\<close>

definition params_ok :: "consensus_params \<Rightarrow> bool" where
  "params_ok p \<longleftrightarrow> unat (recovery_max_epochs p) * unat (epoch_secs p) < 2 ^ 64"

text \<open>The clock is far enough from its end for a registration term.\<close>

definition clock_ok :: "u64 \<Rightarrow> bool" where "clock_ok now \<longleftrightarrow> unat now + unat DOMAIN_TERM_SECS < 2 ^ 64"

lemma spec_apply_total:
  assumes "tx_ok cr tx" "clock_ok now" shows "spec_apply cr tx now a \<noteq> None"
proof -
  have t: "checked_add now DOMAIN_TERM_SECS \<noteq> None" using assms(2) by (simp add: checked_add_def clock_ok_def)
  have d: "domain_ok n \<Longrightarrow> \<exists>t. domain_tld n = Some t" for n
    using valid_name_tld [of n] by (auto simp: domain_ok_def domain_new_def)
  show ?thesis
  proof (cases tx)
    case (RegisterDomain x)
    then show ?thesis using assms(1) t d [of "rd_name x"]
      by (auto simp: tx_ok_def spec_apply_def Let_def split: sum.splits option.splits prod.splits)
  next
    case (AssignDomain x)
    then show ?thesis using assms(1) t d [of "ad_name x"]
      by (auto simp: tx_ok_def spec_apply_def split: sum.splits option.splits)
  qed (auto simp: spec_apply_def Let_def split: sum.splits option.splits prod.splits)
qed

lemma spec_block_total:
  assumes "list_all (tx_ok cr) txs" "clock_ok now" shows "spec_block cr cons now txs a \<noteq> None"
proof -
  have "spec_txs cr cons now txs a' \<noteq> None" for a'
    using assms(1)
  proof (induction txs arbitrary: a')
    case (Cons tx txs)
    then show ?case using spec_apply_total [of cr tx now a'] assms(2) by (fastforce split: sum.splits option.splits)
  qed simp
  then show ?thesis by (fastforce simp: spec_block_def split: prod.splits)
qed

lemma genesis_hash_exists: "window_rep cr hist c \<Longrightarrow> \<exists>h. hash_of cr (hd hist) = Inr h"
proof -
  assume w: "window_rep cr hist c"
  then have "in_window c hist 0" "hist \<noteq> []" by (auto simp: window_rep_def in_window_def)
  then have "map_option Inr (fmlookup (bc_known_hashes c) 0) = Some (hash_of cr (hist ! 0))" using w unfolding window_rep_def by auto
  then show ?thesis using \<open>hist \<noteq> []\<close> by (auto simp: hd_conv_nth intro: sym)
qed

lemma recovery_draws_total:
  "\<forall>k\<in>set ks. unat k * unat (epoch_secs p) < 2 ^ 64 \<Longrightarrow> recovery_draws cr p base elapsed ks acc \<noteq> None"
proof (induction ks arbitrary: acc)
  case (Cons k ks)
  have "unat (ucast k :: u64) = unat k" by (rule ucast_version(4))
  then show ?case using Cons by (simp add: checked_mul_def)
qed simp

lemma allowed_total:
  assumes "window_rep cr hist c" "params_ok (np_consensus (bc_network c))" shows "allowed_producers cr c ts \<noteq> None"
proof (cases "bc_finalized c")
  case None
  then show ?thesis using genesis_hash_exists [OF assms(1)] window_canonical(2) [OF assms(1)]
    by (auto simp: allowed_producers_def Let_def bootstrap_seed_def expect_def)
next
  case (Some base)
  let ?p = "np_consensus (bc_network c)"
  have "unat (of_nat k :: u32) * unat (epoch_secs ?p) < 2 ^ 64" if "k < unat (recovery_max_epochs ?p) + 1" for k
  proof -
    have "unat (recovery_max_epochs ?p) < 2 ^ LENGTH(32)" by (rule unsigned_less)
    then have "unat (of_nat k :: u32) = k" using that by (simp add: unat_of_nat)
    moreover have "k * unat (epoch_secs ?p) \<le> unat (recovery_max_epochs ?p) * unat (epoch_secs ?p)"
      using that by (intro mult_le_mono1) simp
    ultimately show ?thesis using assms(2) by (simp only: params_ok_def le_less_trans)
  qed
  then have "recovery_draws cr ?p base el (map of_nat [1..<unat (recovery_max_epochs ?p) + 1]) acc \<noteq> None" for el acc
    by (intro recovery_draws_total) (auto simp: less_Suc_eq_le)
  then show ?thesis using Some by (simp add: allowed_producers_def Let_def)
qed

lemma check_block_total:
  assumes "window_rep cr hist c" "params_ok (np_consensus (bc_network c))" shows "check_block cr b c \<noteq> None"
  using allowed_total [OF assms] window_canonical(3) [OF assms(1)]
  by (auto simp: check_block_def check_parent_def check_producer_def Let_def split: option.splits sum.splits bind_splits)

lemma rep_parts: "chain_rep cr hist c \<Longrightarrow> window_rep cr hist c" "chain_rep cr hist c \<Longrightarrow> valid_state cr (bc_state c)"
  by (simp_all add: chain_rep_def)

lemma push_steps:
  assumes w: "window_rep cr hist c" and vs: "valid_state cr (bc_state c)" and ck: "check_block cr b c = Some (Inr hash)"
    and f: "block_free cr (bc_consensus c) (time_of (last hist)) (blk_transactions b) (abs_state (bc_state c))"
    and s: "spec_block cr (bc_consensus c) (time_of (last hist)) (blk_transactions b) (abs_state (bc_state c)) = Some (a', es, res, ids)"
  shows "\<exists>c' x. push_block_with_gc cr b c = Some (c', x) \<and> (case res of Inl e \<Rightarrow> x = Inl e | Inr _ \<Rightarrow> \<exists>ab. x = Inr ab)"
proof -
  let ?a = "abs_state (bc_state c)"
  have v: "rep cr (bc_state c) ?a" "sound cr ?a" "registry_inv cr ?a" "window_rep cr hist c"
    using w vs by (simp_all add: valid_state_def)
  note tip = window_canonical(1) [OF v(4)]
  obtain s1 j1 s' where g: "gc_expired_journaled cr (time_of (last hist)) (bc_state c) [] = Some (s1, j1, ids)"
    "apply_txs cr (bc_consensus c) (time_of (last hist)) (blk_transactions b) s1 j1 = Some (s', es, res)" "rep cr s' a'"
    "asteps (sound cr) ?a es a'"
    using block_ok [OF v(1-3) f] s by auto
  show ?thesis
  proof (cases res)
    case (Inl e)
    obtain s0 where "rollback cr es s' = Some s0" using undo_steps [OF g(4,3)] by blast
    then show ?thesis using ck tip g Inl by (simp add: push_block_with_gc_def)
  next
    case (Inr u)
    obtain c1 where "evict_below_window (c\<lparr>bc_state := s', bc_known_hashes := fmupd (height_of b) hash (bc_known_hashes c),
        bc_canonical := bc_canonical c @ [b], bc_tip := hash\<rparr>) = Some c1"
      using evict_rep [OF window_push [OF v(4) ck, of s']] by blast
    then show ?thesis using ck tip g Inr by (simp add: push_block_with_gc_def)
  qed
qed

section \<open>Honest producers\<close>

lemma put_header_ok: "bh_version h = PROTOCOL_VERSION \<Longrightarrow> length (bh_consensus h) \<le> MAX_CONSENSUS_LEN \<Longrightarrow> \<exists>bs. put_header h = Inr bs"
  by (simp add: put_header_def check_version_def PROTOCOL_VERSION_def put_bounded_def wseq_Cons)

lemma validated_id: "validate_transaction cr tx = Inr u \<Longrightarrow> \<exists>i. transaction_id cr tx = Inr i"
proof -
  assume "validate_transaction cr tx = Inr u"
  then obtain p where p: "tx_validate cr tx = Inr ()" "signing_payload tx = Inr p"
    by (auto simp: validate_transaction_def core_result_def protocol_result_def split: if_splits sum.splits)
  then obtain e where "put_unsigned (unsigned_from tx) = Inr e" by (auto simp: signing_payload_def wseq_Cons)
  then have "put_transaction cr tx = Inr (e @ s64_bytes (tx_signature tx))" using p(1) put_transaction_iff by blast
  then show ?thesis by (simp add: transaction_id_def protocol_result_def)
qed

lemma validated_ids: "\<forall>tx\<in>set txs. \<exists>u. validate_transaction cr tx = Inr u \<Longrightarrow> \<exists>is. transaction_ids cr txs = Inr is"
  by (induction txs) (use validated_id in fastforce)+

lemma spec_txs_validated: "spec_txs cr cons now txs a = Some (a', es, Inr ()) \<Longrightarrow> \<forall>tx\<in>set txs. \<exists>u. validate_transaction cr tx = Inr u"
  by (induction txs arbitrary: a es) (fastforce split: sum.splits option.splits prod.splits)+

definition honest_block :: "crypto \<Rightarrow> blockchain \<Rightarrow> u64 \<Rightarrow> transaction list \<Rightarrow> signing_key \<Rightarrow> (bc_error + block) option" where
  "honest_block cr c ts txs sk = do { h \<leftarrow> chain_height c; bb \<leftarrow> builder_after h (tip_hash c);
     build_with cr txs (with_producer sk (with_timestamp ts bb)) }"

lemma honest_block_checks:
  assumes w: "window_rep cr hist c" and h: "length hist < 2 ^ 64" and k: "key_pair cr sk"
    and cons: "bc_consensus c = permissive_consensus"
    and al: "allowed_producers cr c ts = Some al" "al = {||} \<or> sk_public_key sk |\<in>| al"
    and txs: "length txs \<le> MAX_TXS_PER_BLOCK" "transaction_ids cr txs = Inr is" "\<forall>tx\<in>set txs. \<not> tx_replayed cr c tx"
  shows "\<exists>b hash. honest_block cr c ts txs sk = Some (Inr b) \<and> check_block cr b c = Some (Inr hash) \<and> blk_transactions b = txs"
proof -
  have len: "0 < length hist" "length hist - 1 < 2 ^ 64" using w h by (auto simp: window_rep_def)
  define n :: u64 where "n = of_nat (length hist - 1)"
  have un: "unat n = length hist - 1" using len by (simp add: n_def unat_of_nat_u64)
  have ca: "checked_add n 1 = Some (n + 1)" using un len h by (simp add: checked_add_def)
  have "unat (n + 1) = length hist"
  proof -
    have "n + 1 = of_nat (length hist)" unfolding n_def using len(1) by (metis One_nat_def Suc_diff_1 add.commute of_nat_Suc)
    then show ?thesis using h by (simp add: unat_of_nat_u64)
  qed
  then have n1: "n + 1 \<noteq> 0" using len(1) by (metis less_not_refl unat_0)
  define h0 where "h0 = \<lparr>bh_version = PROTOCOL_VERSION, bh_height = n + 1, bh_prev_hash = bc_tip c,
      bh_tx_root = merkle_root cr is, bh_timestamp = ts, bh_consensus = []\<rparr>"
  obtain bs where "put_header h0 = Inr bs" using put_header_ok [of h0] by (auto simp: h0_def)
  then obtain sh where sh: "block_hash cr h0 = Inr sh" by (simp add: block_hash_def protocol_result_def)
  let ?sig = "sign_block_hash sk sh"
  define h1 where "h1 = h0\<lparr>bh_consensus := encode_producer_payload (sk_public_key sk) ?sig\<rparr>"
  have "length (encode_producer_payload (sk_public_key sk) ?sig) \<le> MAX_CONSENSUS_LEN"
    by (simp add: encode_producer_payload_def BLOCK_SIGN_TAG_def MAX_CONSENSUS_LEN_def)
  then obtain bs' where "put_header h1 = Inr bs'" using put_header_ok [of h1] by (auto simp: h1_def h0_def)
  then obtain hash where hash: "block_hash cr h1 = Inr hash" by (simp add: block_hash_def protocol_result_def)
  let ?b = "\<lparr>blk_header = h1, blk_transactions = txs\<rparr>"
  have psh: "producer_signing_hash cr h0 = Some sh" by (simp add: producer_signing_hash_def h0_def [symmetric] sh expect_def) (use sh in \<open>simp add: h0_def\<close>)
  have root: "tx_root cr txs = Inr (merkle_root cr is)" using txs(2) by (simp add: tx_root_def)
  have "honest_block cr c ts txs sk = Some (Inr ?b)"
    using window_canonical(3) [OF w] ca txs(1) root psh hash
    by (simp add: honest_block_def builder_after_def n_def [symmetric] build_with_def with_producer_def with_timestamp_def tip_hash_def
        push_txs_ok build_def h0_def [symmetric] h1_def [symmetric] del: One_nat_def)
  moreover have "check_producer cr h1 c = Some (Inr ())"
  proof -
    have "producer_signing_hash cr h1 = Some sh" using psh by (simp add: h1_def)
    moreover have "verify_block_producer cr \<lparr>pp_producer = sk_public_key sk, pp_signature = ?sig\<rparr> sh"
      using k by (simp add: verify_block_producer_def pk_verify_def key_pair_def sign_block_hash_def)
    moreover have "bh_height h1 \<noteq> 0" "bh_timestamp h1 = ts" "bh_consensus h1 = encode_producer_payload (sk_public_key sk) ?sig"
      using n1 by (simp_all add: h1_def h0_def)
    ultimately show ?thesis using k al by (auto simp: check_producer_def key_pair_def)
  qed
  then have "check_block cr ?b c = Some (Inr hash)"
    using window_canonical(3) [OF w] ca txs root hash cons
    by (simp add: check_block_def check_parent_def n_def [symmetric] h1_def [symmetric] permissive_consensus_def del: One_nat_def)
      (simp add: h1_def h0_def)
  ultimately show ?thesis by auto
qed

lemma honest_extends:
  assumes r: "chain_rep cr hist c" "length hist < 2 ^ 64" "key_pair cr sk" "bc_consensus c = permissive_consensus"
    "allowed_producers cr c ts = Some al" "al = {||} \<or> sk_public_key sk |\<in>| al"
    "length txs \<le> MAX_TXS_PER_BLOCK" "\<forall>tx\<in>set txs. \<not> tx_replayed cr c tx"
    and f: "block_free cr permissive_consensus (time_of (last hist)) txs (abs_state (bc_state c))"
    and s: "spec_block cr permissive_consensus (time_of (last hist)) txs (abs_state (bc_state c)) = Some (a', es, Inr (), ids)"
  shows "\<exists>b c' ab. honest_block cr c ts txs sk = Some (Inr b) \<and> push_block_with_gc cr b c = Some (c', Inr ab)
    \<and> chain_rep cr (hist @ [b]) c' \<and> blk_transactions b = txs \<and> abs_state (bc_state c') = a'"
proof -
  have w: "window_rep cr hist c" using r(1) by (simp add: chain_rep_def)
  obtain txids where "transaction_ids cr txs = Inr txids"
    using s validated_ids spec_txs_validated [of cr permissive_consensus "time_of (last hist)" txs]
    by (fastforce simp: spec_block_def split: prod.splits)
  then obtain b hash where b: "honest_block cr c ts txs sk = Some (Inr b)" "check_block cr b c = Some (Inr hash)" "blk_transactions b = txs"
    using honest_block_checks [OF w r(2-7) _ r(8)] by blast
  obtain c' ab where p: "push_block_with_gc cr b c = Some (c', Inr ab)"
    using push_steps [OF rep_parts(1,2) [OF r(1)] b(2), of a' es "Inr ()" ids] f s r(4) b(3) by auto
  then show ?thesis using b push_rep [OF r(1) p] f s r(4) by auto
qed

section \<open>An example chain\<close>

definition ex_key :: signing_key where "ex_key = \<lparr>sk_public_key = 7, sk_sign = (\<lambda>_. 1)\<rparr>"

lemma ex_genesis:
  fixes cr :: crypto
  obtains c where "with_consensus_for_network cr permissive_consensus TESTNET = Some c"
    "chain_rep cr [genesis_of cr TESTNET] c" "bc_consensus c = permissive_consensus" "bc_network c = TESTNET"
    "abs_state (bc_state c) = registry_new TESTNET" "bc_included c = fmempty" "bc_finalized c = None" "bc_checkpoints c = []"
    "bc_state c = for_network TESTNET"
proof -
  have "\<exists>bs. put_header (blk_header (genesis_of cr TESTNET)) = Inr bs"
    using network_testnet_ok(2) by (intro put_header_ok) (simp_all add: genesis_of_def TESTNET_def MAX_CONSENSUS_LEN_def)
  then obtain h where "hash_of cr (genesis_of cr TESTNET) = Inr h" by (auto simp: block_hash_def protocol_result_def)
  then obtain c where c: "with_consensus_for_network cr permissive_consensus TESTNET = Some c"
    "bc_state c = for_network TESTNET" "bc_included c = fmempty" "bc_finalized c = None" "bc_checkpoints c = []"
    by (simp add: with_consensus_for_network_def expect_def)
  moreover have "abs_state (for_network TESTNET) = registry_new TESTNET" by (rule rep_abs [OF rep_new])
  ultimately show thesis using genesis_rep [OF c(1)] that by simp
qed

lemma ex_genesis_time: "time_of (genesis_of cr network) = 0"
  by (simp add: genesis_of_def GENESIS_TIMESTAMP_def)

lemma ex_tx_ok: "tx_ok len_crypto ex_register_tld"
proof -
  have "tld_ok ''zz''" by code_simp
  then show ?thesis by (simp add: tx_ok_def ex_register_tld_def register_tld_on_def network_testnet_ok len_crypto_def)
qed

lemma ex_tx_valid: "validate_transaction len_crypto ex_register_tld = Inr ()"
proof -
  have "length (encode_proof \<lparr>cp_nonce = 0, cp_difficulty = 8\<rparr>) \<le> MAX_PROOF_LEN" by code_simp
  then have "\<exists>p. signing_payload ex_register_tld = Inr p"
    by (simp add: signing_payload_def ex_register_tld_def register_tld_on_def wseq_Cons put_network_def put_bounded_def
        network_testnet_ok MAX_NETWORK_ID_LEN_def put_tld_name_def MAX_TLD_LEN_def TLD_MAX_LEN_def put_proof_def)
  then show ?thesis using ex_valid(1)
    by (auto simp: validate_transaction_def ex_register_tld_def register_tld_on_def owner_from_public_key_def owner_of_def
        core_result_def protocol_result_def pk_verify_def len_crypto_def)
qed

lemma ex_gc: "spec_gc 0 (registry_new TESTNET) = (registry_new TESTNET, [], [])"
proof -
  have "lapsed (registry_new TESTNET) 0 = []" using set_lapsed [of "registry_new TESTNET" 0] by (simp add: registry_new_def rg_domain_def)
  then show ?thesis by (simp add: spec_gc_def)
qed

lemma ex_any_time: "spec_apply len_crypto ex_register_tld now a = spec_apply len_crypto ex_register_tld 10 a"
  by (simp add: spec_apply_def ex_register_tld_def split: sum.splits)

lemma ex_block:
  "spec_block len_crypto permissive_consensus 0 [ex_register_tld] (registry_new TESTNET)
     = Some (ex_registry ex_entries1, [UndoLearnOwnerKey 46, UndoRegisterTld 14], Inr (), [])"
  "block_free len_crypto permissive_consensus 0 [ex_register_tld] (registry_new TESTNET)"
proof -
  show "spec_block len_crypto permissive_consensus 0 [ex_register_tld] (registry_new TESTNET)
     = Some (ex_registry ex_entries1, [UndoLearnOwnerKey 46, UndoRegisterTld 14], Inr (), [])"
    by (simp add: spec_block_def ex_gc ex_tx_valid permissive_consensus_def ex_any_time [of 0] ex_spec1)
  have "no_collision len_crypto ex_register_tld 10 (registry_new TESTNET)" using ex_free by (simp add: ex_events_def)
  then show "block_free len_crypto permissive_consensus 0 [ex_register_tld] (registry_new TESTNET)"
    by (simp add: block_free_def ex_gc no_collision_def ex_any_time [of 0] split: option.splits sum.splits)
qed

lemma ex_allowed:
  assumes "bc_finalized c = None" "bc_state c = for_network TESTNET" shows "allowed_producers cr c ts = Some {||}"
proof -
  have "sorted_list_of_fset ({||} :: domain_id fset) = []" by (simp add: sorted_list_of_fset.rep_eq)
  then have "eligible_validators (for_network TESTNET) ts = []" by (simp add: eligible_validators_def for_network_def List.map_filter_def)
  then show ?thesis using assms by (simp add: allowed_producers_def Let_def)
qed

lemma ex_extended:
  obtains c b c' ab where "chain_rep len_crypto [genesis_of len_crypto TESTNET] c" "bc_consensus c = permissive_consensus"
    "bc_network c = TESTNET" "abs_state (bc_state c) = registry_new TESTNET"
    "with_consensus_for_network len_crypto permissive_consensus TESTNET = Some c"
    "honest_block len_crypto c 5 [ex_register_tld] ex_key = Some (Inr b)" "push_block_with_gc len_crypto b c = Some (c', Inr ab)"
    "chain_rep len_crypto [genesis_of len_crypto TESTNET, b] c'" "blk_transactions b = [ex_register_tld]"
    "abs_state (bc_state c') = ex_registry ex_entries1" "allowed_producers len_crypto c 5 = Some {||}"
    "\<forall>tx\<in>set [ex_register_tld]. \<not> tx_replayed len_crypto c tx" "key_pair len_crypto ex_key"
proof -
  obtain c where c: "with_consensus_for_network len_crypto permissive_consensus TESTNET = Some c"
    "chain_rep len_crypto [genesis_of len_crypto TESTNET] c" "bc_consensus c = permissive_consensus" "bc_network c = TESTNET"
    "abs_state (bc_state c) = registry_new TESTNET" "bc_included c = fmempty" "bc_finalized c = None"
    "bc_state c = for_network TESTNET" by (rule ex_genesis)
  have k: "key_pair len_crypto ex_key" by (simp add: key_pair_def ex_key_def len_crypto_def)
  have nr: "\<forall>tx\<in>set [ex_register_tld]. \<not> tx_replayed len_crypto c tx"
    using c(6) by (simp add: tx_replayed_def is_tx_included_def split: sum.splits)
  show thesis
    using honest_extends [OF c(2) _ k c(3) ex_allowed [OF c(7,8), of len_crypto 5] _ _ nr] ex_block c k nr ex_allowed [OF c(7,8), of len_crypto 5] that
    by (auto simp: ex_genesis_time MAX_TXS_PER_BLOCK_def)
qed

section \<open>Guarantees\<close>

text \<open>C2: Appending a block refines the ledger rules and is atomic. On a chain that holds a ledger, a block that
  meets no hash collision is either rejected, and then the chain is unchanged up to the equality of
  states, or accepted, and then the chain holds the ledger extended by that block, its state is the
  one the rules give for the block at the time of its parent, and the domains it reports removed
  are those the rules collect.\<close>

theorem push_block_refines:
  assumes "chain_rep cr hist c" "push_block_with_gc cr b c = Some (c', res)"
    "block_free cr (bc_consensus c) (time_of (last hist)) (blk_transactions b) (abs_state (bc_state c))"
  shows "case res of
      Inl e \<Rightarrow> (\<exists>s. c' = c\<lparr>bc_state := s\<rparr> \<and> state_eq s (bc_state c)) \<and> chain_rep cr hist c'
    | Inr ab \<Rightarrow> chain_rep cr (hist @ [b]) c' \<and> hash_of cr b = Inr (ab_hash ab)
        \<and> (\<exists>es. spec_block cr (bc_consensus c) (time_of (last hist)) (blk_transactions b) (abs_state (bc_state c))
              = Some (abs_state (bc_state c'), es, Inr (), ab_gc_removed_domains ab))"
  using push_rep [OF assms] by (auto split: sum.splits)

text \<open>C20: Appending a block never panics: on a chain that holds a ledger, for parameters and a parent time
  that leave room for the recovery delays and a registration term, every block of well-formed
  transactions that meets no hash collision gets an answer.\<close>

theorem push_block_total:
  assumes "chain_rep cr hist c" "params_ok (np_consensus (bc_network c))" "clock_ok (time_of (last hist))" "block_ok cr b"
    "block_free cr (bc_consensus c) (time_of (last hist)) (blk_transactions b) (abs_state (bc_state c))"
  shows "push_block_with_gc cr b c \<noteq> None"
proof -
  obtain ck where ck: "check_block cr b c = Some ck"
    using check_block_total assms(1,2) by (fastforce simp: chain_rep_def)
  show ?thesis
  proof (cases ck)
    case (Inl e)
    then show ?thesis using ck by (simp add: push_block_with_gc_def)
  next
    case (Inr hash)
    obtain a' es res ids where "spec_block cr (bc_consensus c) (time_of (last hist)) (blk_transactions b) (abs_state (bc_state c))
        = Some (a', es, res, ids)"
      using spec_block_total [of cr "blk_transactions b" "time_of (last hist)" "bc_consensus c" "abs_state (bc_state c)"] assms(3,4)
      by (auto simp: block_ok_def)
    then show ?thesis using push_steps [OF rep_parts(1,2) [OF assms(1)] _ assms(5)] ck Inr by blast
  qed
qed

theorem push_block_total_witness:
  "\<exists>c b. chain_rep len_crypto [genesis_of len_crypto TESTNET] c \<and> blk_transactions b = [ex_register_tld]
     \<and> push_block_with_gc len_crypto b c \<noteq> None"
proof -
  obtain c and b :: block where c: "chain_rep len_crypto [genesis_of len_crypto TESTNET] c" "bc_consensus c = permissive_consensus"
    "bc_network c = TESTNET" "abs_state (bc_state c) = registry_new TESTNET" "blk_transactions b = [ex_register_tld]" by (rule ex_extended) blast
  have "params_ok (np_consensus TESTNET)" "clock_ok 0"
    by (simp_all add: params_ok_def clock_ok_def TESTNET_def PARAMS_TESTNET_def DOMAIN_TERM_SECS_def)
  then show ?thesis using push_block_total [OF c(1), of b] c ex_block ex_tx_ok by (auto simp: block_ok_def ex_genesis_time)
qed

theorem push_block_refines_witness:
  "\<exists>c b c' ab. push_block_with_gc len_crypto b c = Some (c', Inr ab) \<and> blk_transactions b = [ex_register_tld]
     \<and> chain_rep len_crypto [genesis_of len_crypto TESTNET, b] c' \<and> ab_gc_removed_domains ab = []"
proof -
  obtain c b c' ab where c: "chain_rep len_crypto [genesis_of len_crypto TESTNET] c" "bc_consensus c = permissive_consensus"
    "abs_state (bc_state c) = registry_new TESTNET" "push_block_with_gc len_crypto b c = Some (c', Inr ab)"
    "blk_transactions b = [ex_register_tld]" by (rule ex_extended)
  then show ?thesis using push_block_refines [OF c(1,4)] ex_block by (fastforce simp: ex_genesis_time)
qed



theorem no_replay_witness:
  "\<exists>c b. grows len_crypto permissive_consensus TESTNET [genesis_of len_crypto TESTNET, b] c \<and> blk_transactions b = [ex_register_tld]
     \<and> tx_ids len_crypto (genesis_of len_crypto TESTNET) \<inter> tx_ids len_crypto b = {}"
proof -
  obtain c b c' ab where c: "with_consensus_for_network len_crypto permissive_consensus TESTNET = Some c"
    "abs_state (bc_state c) = registry_new TESTNET" "push_block_with_gc len_crypto b c = Some (c', Inr ab)"
    "blk_transactions b = [ex_register_tld]" by (rule ex_extended)
  have g: "grows len_crypto permissive_consensus TESTNET [genesis_of len_crypto TESTNET, b] c'"
    using grows.Push [OF grows.Start [OF c(1)] _ c(3)] ex_block c(2,4) by (simp add: ex_genesis_time)
  show ?thesis using no_replay [OF g, of 0 1] g c(4) by auto
qed

end
