(* ===== verification/Scone_Fork.thy ===== *)
theory Scone_Fork
  imports Scone_Chain_Props
begin

text \<open>
  Fork choice over ledgers: a reorganization replaces the ledger by a prefix of it and a branch,
  adoption of a branch follows the finality, length and lowest-hash rules, the checkpoints of a
  chain form a hash chain, and a block that was finalized stays on every later ledger.
\<close>

section \<open>Replaying blocks\<close>

text \<open>No block meets a hash collision when it is applied.\<close>

fun blocks_free :: "crypto \<Rightarrow> consensus \<Rightarrow> u64 \<Rightarrow> block list \<Rightarrow> registry \<Rightarrow> bool" where
  "blocks_free cr cons now [] a \<longleftrightarrow> True"
| "blocks_free cr cons now (b # bs) a \<longleftrightarrow> block_free cr cons now (blk_transactions b) a
     \<and> (case spec_block cr cons now (blk_transactions b) a of
          Some (a', _, Inr _, _) \<Rightarrow> blocks_free cr cons (time_of b) bs a' | _ \<Rightarrow> True)"

definition ledger_free :: "crypto \<Rightarrow> consensus \<Rightarrow> network_params \<Rightarrow> block list \<Rightarrow> bool" where
  "ledger_free cr cons network hist \<longleftrightarrow> blocks_free cr cons (time_of (hd hist)) (tl hist) (registry_new network)"

lemma blocks_free_append: "blocks_free cr cons now (bs @ cs) a \<longleftrightarrow> blocks_free cr cons now bs a
    \<and> (case spec_blocks cr cons now bs a of None \<Rightarrow> True
       | Some a' \<Rightarrow> blocks_free cr cons (if bs = [] then now else time_of (last bs)) cs a')"
  by (induction bs arbitrary: now a) (auto split: option.splits sum.splits prod.splits)

lemma ledger_free_next:
  assumes "hist \<noteq> []" "spec_ledger cr cons network hist = Some a" "ledger_free cr cons network (hist @ b # bs)"
  shows "block_free cr cons (time_of (last hist)) (blk_transactions b) a"
  using assms by (cases hist) (auto simp: ledger_free_def spec_ledger_def blocks_free_append split: option.splits)

lemma push_all_rep:
  assumes "push_all cr bs (c, l, g) = Some (Inr (c', l', g'))" "chain_rep cr hist c"
    "ledger_free cr (bc_consensus c) (bc_network c) (hist @ bs)"
  shows "chain_rep cr (hist @ bs) c' \<and> bc_network c' = bc_network c \<and> bc_consensus c' = bc_consensus c
    \<and> bc_checkpoints c' = bc_checkpoints c \<and> bc_finalized c' = bc_finalized c"
  using assms
proof (induction bs arbitrary: c l g hist)
  case (Cons b bs)
  obtain c1 ab where p: "push_block_with_gc cr b c = Some (c1, Inr ab)"
    "push_all cr bs (c1, ab, g @ ab_gc_removed_domains ab) = Some (Inr (c', l', g'))"
    using Cons.prems(1) by (auto split: bind_splits sum.splits)
  have "hist \<noteq> []" using Cons.prems(2) by (auto simp: chain_rep_def window_rep_def)
  then have "block_free cr (bc_consensus c) (time_of (last hist)) (blk_transactions b) (abs_state (bc_state c))"
    using ledger_free_next Cons.prems(2,3) by (auto simp: chain_rep_def)
  then have "chain_rep cr (hist @ [b]) c1" "bc_network c1 = bc_network c" "bc_consensus c1 = bc_consensus c"
    "bc_checkpoints c1 = bc_checkpoints c" "bc_finalized c1 = bc_finalized c"
    using push_rep [OF Cons.prems(2) p(1)] by auto
  then show ?case using Cons.IH [OF p(2), of "hist @ [b]"] Cons.prems(3) by simp
qed simp

lemma collect_prefix_blocks: "collect_prefix c hs = Inr bs \<Longrightarrow> map (chain_block c) hs = map Some bs"
  by (induction hs arbitrary: bs) (auto simp: block_result_def split: option.splits sum.splits)

lemma collect_prefix_take:
  assumes "window_rep cr hist c" "collect_prefix c (map of_nat [0..<unat (h :: u64) + 1]) = Inr bs"
  shows "bs = take (unat h + 1) hist" "unat h < length hist"
proof -
  have m: "map (chain_block c) (map of_nat [0..<unat h + 1]) = map Some bs" using collect_prefix_blocks [OF assms(2)] .
  then have len: "length bs = unat h + 1" by (metis length_map length_upt diff_zero)
  have k: "bs ! i = hist ! i \<and> i < length hist" if "i < unat h + 1" for i
  proof -
    have "unat h < 2 ^ LENGTH(64)" by (rule unsigned_less)
    then have u: "unat (of_nat i :: u64) = i" using that by (simp add: unat_of_nat_u64)
    have "map (chain_block c) (map of_nat [0..<unat h + 1]) ! i = Some (bs ! i)" using m len that by simp
    moreover have "map (chain_block c) (map of_nat [0..<unat h + 1]) ! i = chain_block c (of_nat i)"
      using that by (simp del: upt_Suc)
    ultimately have "chain_block c (of_nat i) = Some (bs ! i)" by simp
    then show ?thesis using window_block [OF assms(1), of "of_nat i"] u by (auto simp: in_window_def split: if_splits)
  qed
  show "unat h < length hist" using k [of "unat h"] by simp
  then have "length (take (unat h + 1) hist) = unat h + 1" by simp
  then show "bs = take (unat h + 1) hist" using len k by (intro nth_equalityI) simp_all
qed

lemma swap_rep:
  assumes "chain_rep cr hist d" "bc_network d = bc_network c" "bc_consensus d = bc_consensus c"
  shows "chain_rep cr hist (swap_with d c)"
  using assms by (simp add: chain_rep_def window_rep_def in_window_def swap_with_def)

lemma finality_fields [simp]:
  "chain_rep cr hist (c\<lparr>bc_checkpoints := cps, bc_finalized := fin\<rparr>) \<longleftrightarrow> chain_rep cr hist c"
  by (simp add: chain_rep_def window_rep_def in_window_def)

lemma reorg_failed: "reorg_to_height cr h ext c = Some (c', res) \<Longrightarrow> (\<exists>ab. res = Inr ab) \<or> c' = c"
  by (auto simp: reorg_to_height_def Let_def split: sum.splits bind_splits)

text \<open>A reorganization either leaves the chain as it was or gives it the prefix with the extension.\<close>

lemma reorg_rep:
  assumes r: "chain_rep cr hist c" "bc_consensus c = permissive_consensus" and p: "reorg_to_height cr h ext c = Some (c', res)"
    and f: "ledger_free cr permissive_consensus (bc_network c) (take (unat h + 1) hist @ ext)"
  shows "case res of Inl e \<Rightarrow> c' = c
    | Inr ab \<Rightarrow> unat h < length hist \<and> chain_rep cr (take (unat h + 1) hist @ ext) c' \<and> bc_network c' = bc_network c
        \<and> bc_consensus c' = bc_consensus c \<and> bc_checkpoints c' = bc_checkpoints c \<and> bc_finalized c' = bc_finalized c"
proof (cases res)
  case (Inl e)
  then show ?thesis using reorg_failed [OF p] by auto
next
  case (Inr ab)
  let ?n = "map of_nat [0..<unat h + 1] :: u64 list" and ?a0 = "\<lparr>ab_hash = 0, ab_gc_removed_domains = []\<rparr>"
  obtain prefix where pre: "collect_prefix c ?n = Inr prefix"
    using p Inr by (cases "collect_prefix c ?n") (auto simp: reorg_to_height_def)
  obtain f0 f2 l2 g2 f3 l3 g3 where g: "with_consensus_for_network cr permissive_consensus (bc_network c) = Some f0"
    and p2: "push_all cr (tl prefix) (f0\<lparr>bc_checkpoints := bc_checkpoints c, bc_finalized := bc_finalized c\<rparr>, ?a0, []) = Some (Inr (f2, l2, g2))"
    and p3: "push_all cr ext (f2, \<lparr>ab_hash = tip_hash f2, ab_gc_removed_domains = []\<rparr>, []) = Some (Inr (f3, l3, g3))"
    and c': "c' = swap_with f3 c"
    using p Inr pre by (auto simp: reorg_to_height_def Let_def split: sum.splits bind_splits)
  have w: "window_rep cr hist c" "hist \<noteq> []" "hd hist = genesis_of cr (bc_network c)"
    using r(1) by (auto simp: chain_rep_def window_rep_def)
  note t = collect_prefix_take [OF w(1) pre]
  let ?f1 = "f0\<lparr>bc_checkpoints := bc_checkpoints c, bc_finalized := bc_finalized c\<rparr>"
  have g1: "chain_rep cr [genesis_of cr (bc_network c)] ?f1" "bc_consensus ?f1 = permissive_consensus" "bc_network ?f1 = bc_network c"
    using genesis_rep [OF g] by simp_all
  have hd: "genesis_of cr (bc_network c) # tl prefix = take (unat h + 1) hist"
    using w(2,3) t(1) by (cases hist) auto
  have "ledger_free cr permissive_consensus (bc_network c) (take (unat h + 1) hist)"
    using f w(2) by (cases hist) (auto simp: ledger_free_def blocks_free_append)
  then have r2: "chain_rep cr (take (unat h + 1) hist) f2" "bc_network f2 = bc_network c" "bc_consensus f2 = permissive_consensus"
    "bc_checkpoints f2 = bc_checkpoints c" "bc_finalized f2 = bc_finalized c"
    using push_all_rep [OF p2 g1(1)] g1 hd by auto
  then have "chain_rep cr (take (unat h + 1) hist @ ext) f3" "bc_network f3 = bc_network c" "bc_consensus f3 = permissive_consensus"
    "bc_checkpoints f3 = bc_checkpoints c" "bc_finalized f3 = bc_finalized c"
    using push_all_rep [OF p3 r2(1)] f by auto
  then show ?thesis using Inr c' t(2) swap_rep [of cr _ f3 c] r(2) by (auto simp: swap_with_def)
qed

section \<open>Adopting a branch\<close>

text \<open>The finalized block of a checkpoint is on the ledger.\<close>

definition on_ledger :: "crypto \<Rightarrow> block list \<Rightarrow> checkpoint \<Rightarrow> bool" where
  "on_ledger cr hist cp \<longleftrightarrow> (let h = unat (cd_height (ck_data cp)) in
     h < length hist \<and> hash_of cr (hist ! h) = Inr (cd_block_hash (ck_data cp)))"

lemma on_ledger_take: "unat (cd_height (ck_data cp)) < n \<Longrightarrow> on_ledger cr hist cp \<Longrightarrow> on_ledger cr (take n hist @ bs) cp"
  by (auto simp: on_ledger_def Let_def nth_append)

lemma on_branch_ledger:
  assumes "on_branch cr base (hist ! unat base) blocks cp" "base \<le> cd_height (ck_data cp)" "unat base < length hist"
  shows "on_ledger cr (take (unat base + 1) hist @ blocks) cp"
proof -
  let ?h = "cd_height (ck_data cp)"
  have len: "length (take (unat base + 1) hist) = unat base + 1" using assms(3) by simp
  show ?thesis
  proof (cases "?h = base")
    case True
    then show ?thesis using assms by (simp add: on_branch_def on_ledger_def Let_def nth_append)
  next
    case False
    then have lt: "base < ?h" using assms(2) by simp
    then have "unat (?h - base) = unat ?h - unat base" "1 \<le> ?h - base"
      by (auto simp: unat_sub word_le_nat_alt word_less_nat_alt)
    then have off: "unat (?h - base - 1) = unat ?h - (unat base + 1)" by (simp add: unat_sub)
    have "\<not> unat ?h < unat base + 1" using lt by (simp add: word_less_nat_alt)
    then show ?thesis using assms(1) lt False off len
      by (auto simp: on_branch_def on_ledger_def Let_def nth_append split: if_splits)
  qed
qed

definition branch_base :: "block list \<Rightarrow> nat" where
  "branch_base blocks = unat (height_of (hd blocks)) - 1"

lemma adopt_rep:
  assumes r: "chain_rep cr hist c" "bc_consensus c = permissive_consensus" and p: "adopt_branch cr blocks c = Some (c', res)"
    and f: "ledger_free cr permissive_consensus (bc_network c) (take (branch_base blocks + 1) hist @ blocks)"
  shows "if res = Inr True then (\<exists>new. new = take (branch_base blocks + 1) hist @ blocks \<and> chain_rep cr new c' \<and> bc_network c' = bc_network c
      \<and> bc_consensus c' = bc_consensus c \<and> bc_checkpoints c' = bc_checkpoints c \<and> bc_finalized c' = bc_finalized c
      \<and> branch_base blocks < length hist
      \<and> (length hist < length new \<or> length hist = length new \<and> bc_tip c' < bc_tip c)
      \<and> (\<forall>cp\<in>set (bc_checkpoints c). branch_base blocks \<le> unat (cd_height (ck_data cp)) \<or> on_ledger cr hist cp \<longrightarrow> on_ledger cr new cp))
    else c' = c"
proof (cases "res = Inr True")
  case False
  then show ?thesis using p
    by (auto simp: adopt_branch_def dest!: reorg_failed split: list.splits sum.splits bind_splits option.splits if_splits)
next
  case True
  have w: "window_rep cr hist c" using r(1) by (simp add: chain_rep_def)
  obtain first rest where bl: "blocks = first # rest" using p True by (cases blocks) (auto simp: adopt_branch_def)
  obtain base where b: "checked_sub (height_of first) 1 = Some base" "chain_block c base \<noteq> None"
    "list_all (on_branch cr base (the (chain_block c base)) blocks) (bc_checkpoints c)"
    and q: "\<exists>ch ct ab. checked_add base (of_nat (length blocks)) = Some ch \<and> hash_of cr (last blocks) = Inr ct
      \<and> (of_nat (length hist - 1) < ch \<or> ch = of_nat (length hist - 1) \<and> ct < bc_tip c)
      \<and> reorg_to_height cr base blocks c = Some (c', Inr ab)"
    using p True bl window_canonical(3) [OF w]
    by (auto simp: adopt_branch_def tip_hash_def split: sum.splits bind_splits option.splits if_splits)
  have ub: "unat base = branch_base blocks"
    using b(1) bl by (auto simp: checked_sub_def branch_base_def unat_sub split: if_splits)
  have inw: "in_window c hist base" "the (chain_block c base) = hist ! unat base"
    using b(2) window_block [OF w, of base] by (auto split: if_splits)
  then have bh: "unat base < length hist" by (simp add: in_window_def)
  obtain ch ct ab where q: "checked_add base (of_nat (length blocks)) = Some ch" "hash_of cr (last blocks) = Inr ct"
      "of_nat (length hist - 1) < ch \<or> ch = of_nat (length hist - 1) \<and> ct < bc_tip c"
      "reorg_to_height cr base blocks c = Some (c', Inr ab)" using q by blast
  let ?new = "take (branch_base blocks + 1) hist @ blocks"
  have new: "chain_rep cr ?new c'" "bc_network c' = bc_network c" "bc_consensus c' = bc_consensus c"
    "bc_checkpoints c' = bc_checkpoints c" "bc_finalized c' = bc_finalized c"
    using reorg_rep [OF r q(4)] f ub by auto
  have w': "window_rep cr ?new c'" using new(1) by (simp add: chain_rep_def)
  have l64: "length ?new \<le> 2 ^ 64" "length hist \<le> 2 ^ 64" using w w' by (auto simp: window_rep_def linked_def)
  have len: "length ?new = unat base + 1 + length blocks" using bh ub by simp
  have "unat ch = unat base + length blocks"
    using q(1) l64(1) len bl by (auto simp: checked_add_def unat_of_nat_u64 unat_word_ariths split: if_splits)
  then have uch: "unat ch = length ?new - 1" using len by simp
  have "length hist - 1 < 2 ^ 64" using l64(2) bh by simp
  then have uh: "unat (of_nat (length hist - 1) :: u64) = length hist - 1" by (rule unat_of_nat_u64)
  have tip: "bc_tip c' = ct" using w' q(2) bl by (auto simp: window_rep_def)
  have "length hist < length ?new \<or> length hist = length ?new \<and> bc_tip c' < bc_tip c"
    using q(3) uch uh tip bh len by (auto simp: word_less_nat_alt)
  moreover have "on_ledger cr ?new cp"
    if "cp \<in> set (bc_checkpoints c)" "branch_base blocks \<le> unat (cd_height (ck_data cp)) \<or> on_ledger cr hist cp" for cp
  proof (cases "base \<le> cd_height (ck_data cp)")
    case True
    then show ?thesis using on_branch_ledger [OF _ True bh] b(3) that(1) inw(2) ub by (auto simp: list_all_iff)
  next
    case False
    then show ?thesis using on_ledger_take [of cp "branch_base blocks + 1"] that(2) ub by (simp add: word_le_nat_alt)
  qed
  ultimately show ?thesis using True new bh ub by auto
qed

text \<open>A single sister block replaces the tip.\<close>

lemma attach_rep:
  assumes r: "chain_rep cr hist c" "bc_consensus c = permissive_consensus" and p: "try_attach cr b c = Some (c', Inr ab)"
    and sis: "prev_of b \<noteq> bc_tip c" and f: "ledger_free cr permissive_consensus (bc_network c) (butlast hist @ [b])"
  shows "chain_rep cr (butlast hist @ [b]) c' \<and> bc_network c' = bc_network c \<and> bc_consensus c' = bc_consensus c
    \<and> bc_checkpoints c' = bc_checkpoints c \<and> bc_finalized c' = bc_finalized c \<and> bc_tip c' < bc_tip c
    \<and> unat (height_of b) = length hist - 1"
proof -
  have w: "window_rep cr hist c" "hist \<noteq> []" using r(1) by (auto simp: chain_rep_def window_rep_def)
  obtain hash anc where q: "height_of b = of_nat (length hist - 1)" "hash_of cr b = Inr hash" "hash < bc_tip c"
    "checked_sub (height_of b) 1 = Some anc" "reorg_to_height cr anc [b] c = Some (c', Inr ab)"
    using p sis window_canonical(3) [OF w(1)]
    by (auto simp: try_attach_def tip_hash_def Let_def split: if_splits sum.splits bind_splits)
  have "length hist \<le> 2 ^ 64" using w(1) by (simp add: window_rep_def linked_def)
  then have l: "length hist - 1 < 2 ^ 64" using w(2) by (cases hist) auto
  have uh: "unat (height_of b) = length hist - 1" using unat_of_nat_u64 [OF l] q(1) by simp
  have "unat anc + 1 = length hist - 1" using q(4) uh by (auto simp: checked_sub_def unat_sub word_le_nat_alt split: if_splits)
  then have "take (unat anc + 1) hist = butlast hist" by (simp add: butlast_conv_take)
  then have new: "chain_rep cr (butlast hist @ [b]) c'" "bc_network c' = bc_network c" "bc_consensus c' = bc_consensus c"
    "bc_checkpoints c' = bc_checkpoints c" "bc_finalized c' = bc_finalized c"
    using reorg_rep [OF r q(5)] f by auto
  moreover have "bc_tip c' = hash" using new(1) q(2) by (auto simp: chain_rep_def window_rep_def)
  ultimately show ?thesis using q(3) uh by simp
qed

section \<open>Finality\<close>

text \<open>Blocks with the same hash have the same header.\<close>

definition hash_free :: "crypto \<Rightarrow> block list \<Rightarrow> block list \<Rightarrow> bool" where
  "hash_free cr hist new \<longleftrightarrow> (\<forall>b\<in>set hist. \<forall>d\<in>set new. hash_of cr b = hash_of cr d \<longrightarrow> blk_header b = blk_header d)"

lemma common_ancestors:
  assumes "linked cr hist" "linked cr new" "hash_free cr hist new" "k < length hist" "k < length new"
    "hash_of cr (hist ! k) = hash_of cr (new ! k)" "j \<le> k"
  shows "hash_of cr (hist ! j) = hash_of cr (new ! j)"
  using assms(7,6)
proof (induction rule: inc_induct)
  case (step n)
  then have n: "Suc n < length hist" "Suc n < length new" "hash_of cr (hist ! Suc n) = hash_of cr (new ! Suc n)"
    using assms(4,5) by auto
  then have "blk_header (hist ! Suc n) = blk_header (new ! Suc n)" using assms(3) unfolding hash_free_def by (meson nth_mem)
  then show ?case using assms(1,2) n by (auto simp: linked_def)
qed

text \<open>Everything that happens to a chain: blocks, checkpoints of blocks it has, branches, and single
  sister blocks while the tip is not finalized. The list \<open>fin\<close> has every checkpoint accepted so
  far, also those that the chain has dropped.\<close>

inductive evolves :: "crypto \<Rightarrow> network_params \<Rightarrow> block list \<Rightarrow> checkpoint list \<Rightarrow> blockchain \<Rightarrow> bool" for cr network where
  Start: "chain_for_network cr network = Some c \<Longrightarrow> evolves cr network [genesis_of cr network] [] c"
| Push: "evolves cr network hist fin c \<Longrightarrow>
    block_free cr permissive_consensus (time_of (last hist)) (blk_transactions b) (abs_state (bc_state c)) \<Longrightarrow>
    push_block_with_gc cr b c = Some (c', Inr ab) \<Longrightarrow> evolves cr network (hist @ [b]) fin c'"
| Reject: "evolves cr network hist fin c \<Longrightarrow>
    block_free cr permissive_consensus (time_of (last hist)) (blk_transactions b) (abs_state (bc_state c)) \<Longrightarrow>
    push_block_with_gc cr b c = Some (c', Inl e) \<Longrightarrow> evolves cr network hist fin c'"
| Finalize: "evolves cr network hist fin c \<Longrightarrow> on_ledger cr hist cp \<Longrightarrow>
    accept_checkpoint cr cp c = Some (c', Inr True) \<Longrightarrow> evolves cr network hist (fin @ [cp]) c'"
| Adopt: "evolves cr network hist fin c \<Longrightarrow> new = take (branch_base blocks + 1) hist @ blocks \<Longrightarrow>
    ledger_free cr permissive_consensus network new \<Longrightarrow> hash_free cr hist new \<Longrightarrow>
    adopt_branch cr blocks c = Some (c', Inr True) \<Longrightarrow> evolves cr network new fin c'"
| Attach: "evolves cr network hist fin c \<Longrightarrow> prev_of b \<noteq> bc_tip c \<Longrightarrow>
    (\<forall>k. finality_floor c = Some k \<longrightarrow> k < height_of b) \<Longrightarrow>
    ledger_free cr permissive_consensus network (butlast hist @ [b]) \<Longrightarrow>
    try_attach cr b c = Some (c', Inr ab) \<Longrightarrow> evolves cr network (butlast hist @ [b]) fin c'"

text \<open>The checkpoints form a chain.\<close>

abbreviation cp_height :: "checkpoint \<Rightarrow> u64" where "cp_height cp \<equiv> cd_height (ck_data cp)"
abbreviation cp_epoch :: "checkpoint \<Rightarrow> u64" where "cp_epoch cp \<equiv> cd_epoch (ck_data cp)"

definition follows :: "crypto \<Rightarrow> checkpoint \<Rightarrow> checkpoint \<Rightarrow> bool" where
  "follows cr prev cp \<longleftrightarrow> unat (cp_epoch cp) = unat (cp_epoch prev) + 1 \<and> cp_height prev < cp_height cp
     \<and> cd_prev_checkpoint_hash (ck_data cp) = checkpoint_hash cr prev"

definition cp_chain :: "crypto \<Rightarrow> checkpoint list \<Rightarrow> bool" where
  "cp_chain cr cps \<longleftrightarrow> (cps \<noteq> [] \<longrightarrow> cp_epoch (hd cps) = 0 \<and> cd_prev_checkpoint_hash (ck_data (hd cps)) = 0)
     \<and> (\<forall>i. Suc i < length cps \<longrightarrow> follows cr (cps ! i) (cps ! Suc i))"

lemma cp_chain_snoc:
  "cp_chain cr (cps @ [cp]) \<longleftrightarrow> cp_chain cr cps \<and>
     (if cps = [] then cp_epoch cp = 0 \<and> cd_prev_checkpoint_hash (ck_data cp) = 0 else follows cr (last cps) cp)"
  by (cases "cps = []") (auto simp: cp_chain_def nth_append last_conv_nth less_Suc_eq dest: sym [of "Suc _"])

lemma cp_chain_heights:
  assumes "cp_chain cr cps" "cp \<in> set cps" shows "cp_height cp \<le> cp_height (last cps)"
  using assms
proof (induction cps rule: rev_induct)
  case (snoc x xs)
  then show ?case by (auto simp: cp_chain_snoc follows_def split: if_splits)
qed simp

text \<open>What the chain keeps of its checkpoints.\<close>

definition fin_rep :: "crypto \<Rightarrow> block list \<Rightarrow> checkpoint list \<Rightarrow> blockchain \<Rightarrow> bool" where
  "fin_rep cr hist fin c \<longleftrightarrow> cp_chain cr fin \<and> list_all (on_ledger cr hist) fin
     \<and> bc_checkpoints c = drop (length fin - CHECKPOINT_KEEP) fin
     \<and> (case bc_finalized c of None \<Rightarrow> fin = []
        | Some base \<Rightarrow> fin \<noteq> [] \<and> fb_checkpoint base = last fin \<and> fb_seed base = next_seed cr (checkpoint_hash cr (last fin)))"

lemma fin_last:
  assumes "fin_rep cr hist fin c" shows "last_checkpoint c = (if fin = [] then None else Some (last fin))"
    "fin \<noteq> [] \<Longrightarrow> last fin \<in> set (bc_checkpoints c)" "finality_floor c = (if fin = [] then None else Some (cp_height (last fin)))"
proof -
  have "drop (length fin - CHECKPOINT_KEEP) fin = [] \<longleftrightarrow> fin = []" by (cases fin) (auto simp: CHECKPOINT_KEEP_def)
  moreover have "last (drop (length fin - CHECKPOINT_KEEP) fin) = last fin" if "fin \<noteq> []"
    using that by (intro last_drop) (cases fin; simp add: CHECKPOINT_KEEP_def)
  ultimately have c: "bc_checkpoints c = [] \<longleftrightarrow> fin = []" "fin \<noteq> [] \<Longrightarrow> last (bc_checkpoints c) = last fin"
    using assms by (simp_all add: fin_rep_def)
  then show "last_checkpoint c = (if fin = [] then None else Some (last fin))"
    "finality_floor c = (if fin = [] then None else Some (cp_height (last fin)))"
    by (simp_all add: last_checkpoint_def finality_floor_def)
  show "last fin \<in> set (bc_checkpoints c)" if "fin \<noteq> []" using c that last_in_set by metis
qed

lemma accept_follows:
  assumes "accept_checkpoint cr cp c = Some (c', Inr True)"
  shows "case last_checkpoint c of None \<Rightarrow> cp_epoch cp = 0 \<and> cd_prev_checkpoint_hash (ck_data cp) = 0 | Some lst \<Rightarrow> follows cr lst cp"
    "\<exists>base. bc_finalized c' = Some base \<and> fb_checkpoint base = cp \<and> fb_seed base = next_seed cr (checkpoint_hash cr cp)"
    "bc_checkpoints c' = drop (length (bc_checkpoints c @ [cp]) - CHECKPOINT_KEEP) (bc_checkpoints c @ [cp])"
proof -
  have ck: "check_checkpoint_data cr c (ck_data cp) = Some (Inr ())"
    using assms by (auto simp: accept_checkpoint_def split: bind_splits sum.splits)
  have succ: "checked_add e 1 = Some e' \<Longrightarrow> unat e' = unat e + 1" for e e' :: u64
    by (auto simp: checked_add_def unat_word_ariths split: if_splits)
  show "case last_checkpoint c of None \<Rightarrow> cp_epoch cp = 0 \<and> cd_prev_checkpoint_hash (ck_data cp) = 0 | Some lst \<Rightarrow> follows cr lst cp"
    using ck by (auto simp: check_checkpoint_data_def follows_def dest!: succ split: option.splits bind_splits if_splits)
  show "\<exists>base. bc_finalized c' = Some base \<and> fb_checkpoint base = cp \<and> fb_seed base = next_seed cr (checkpoint_hash cr cp)"
    "bc_checkpoints c' = drop (length (bc_checkpoints c @ [cp]) - CHECKPOINT_KEEP) (bc_checkpoints c @ [cp])"
    using assms by (auto simp: accept_checkpoint_def Let_def split: bind_splits sum.splits if_splits)
qed

lemma fin_accept:
  assumes "fin_rep cr hist fin c" "on_ledger cr hist cp" "accept_checkpoint cr cp c = Some (c', Inr True)"
  shows "fin_rep cr hist (fin @ [cp]) c'"
proof -
  have keep: "drop (length (drop (length fin - k) fin @ [cp]) - k) (drop (length fin - k) fin @ [cp]) = drop (length (fin @ [cp]) - k) (fin @ [cp])"
    if "0 < k" for k using that by (cases "length fin < k") (auto simp: Suc_diff_le)
  show ?thesis
    using accept_follows [OF assms(3)] assms(1,2) fin_last(1) [OF assms(1)] keep [of CHECKPOINT_KEEP]
    by (auto simp: fin_rep_def cp_chain_snoc CHECKPOINT_KEEP_def)
qed

text \<open>A new ledger that has the last finalized block has them all.\<close>

lemma fin_moved:
  assumes f: "fin_rep cr hist fin c" and l: "linked cr hist" "linked cr new" "hash_free cr hist new"
    and last: "fin \<noteq> [] \<Longrightarrow> on_ledger cr new (last fin)"
    and c: "bc_checkpoints c' = bc_checkpoints c" "bc_finalized c' = bc_finalized c"
  shows "fin_rep cr new fin c'"
proof -
  have "on_ledger cr new cp" if cp: "cp \<in> set fin" for cp
  proof -
    have fin: "fin \<noteq> []" using cp by auto
    then have o: "on_ledger cr hist cp" "on_ledger cr hist (last fin)" "on_ledger cr new (last fin)"
      using f cp last by (auto simp: fin_rep_def list_all_iff)
    have le: "unat (cp_height cp) \<le> unat (cp_height (last fin))"
      using cp_chain_heights [of cr, OF _ cp] f by (simp add: fin_rep_def word_le_nat_alt)
    have "hash_of cr (hist ! unat (cp_height cp)) = hash_of cr (new ! unat (cp_height cp))"
      using common_ancestors [OF l _ _ _ le] o(2,3) by (simp add: on_ledger_def Let_def)
    then show ?thesis using o le by (auto simp: on_ledger_def Let_def)
  qed
  then show ?thesis using f c by (simp add: fin_rep_def list_all_iff)
qed

lemma evolves_inv:
  "evolves cr network hist fin c \<Longrightarrow> chain_rep cr hist c \<and> bc_consensus c = permissive_consensus \<and> bc_network c = network \<and> fin_rep cr hist fin c"
proof (induction rule: evolves.induct)
  case (Start c)
  then have s: "with_consensus_for_network cr permissive_consensus network = Some c" by (simp add: chain_for_network_def)
  then have "bc_checkpoints c = []" "bc_finalized c = None" by (auto simp: with_consensus_for_network_def expect_def split: sum.splits)
  then show ?case using genesis_rep [OF s] by (simp add: fin_rep_def cp_chain_def)
next
  case (Push hist fin c b c' ab)
  then have "chain_rep cr (hist @ [b]) c'" "bc_network c' = bc_network c" "bc_consensus c' = bc_consensus c"
    "bc_checkpoints c' = bc_checkpoints c" "bc_finalized c' = bc_finalized c"
    using push_rep [of cr hist c b c' "Inr ab"] by auto
  moreover have "on_ledger cr (hist @ [b]) cp" if "on_ledger cr hist cp" for cp
    using that by (auto simp: on_ledger_def Let_def nth_append)
  ultimately show ?case using Push.IH by (auto simp: fin_rep_def list_all_iff)
next
  case (Reject hist fin c b c' e)
  then show ?case using push_rep [of cr hist c b c' "Inl e"] by (auto simp: fin_rep_def)
next
  case (Finalize hist fin c cp c')
  then show ?case using accept_rep accept_fields fin_accept by metis
next
  case (Adopt hist fin c new blocks c')
  have a: "chain_rep cr new c'" "bc_network c' = network" "bc_consensus c' = permissive_consensus"
    "bc_checkpoints c' = bc_checkpoints c" "bc_finalized c' = bc_finalized c"
    "\<forall>cp\<in>set (bc_checkpoints c). on_ledger cr hist cp \<longrightarrow> on_ledger cr new cp"
    using adopt_rep [of cr hist c blocks c' "Inr True"] Adopt by auto
  have "on_ledger cr hist (last fin)" if "fin \<noteq> []" using that Adopt.IH by (auto simp: fin_rep_def list_all_iff)
  then have "fin \<noteq> [] \<Longrightarrow> on_ledger cr new (last fin)" using a(6) fin_last(2) [of cr hist fin c] Adopt.IH by blast
  moreover have "linked cr hist" "linked cr new" using a(1) Adopt.IH by (auto simp: chain_rep_def window_rep_def)
  ultimately show ?case using a fin_moved [of cr hist fin c new c'] Adopt.IH Adopt.hyps by blast
next
  case (Attach hist fin c b c' ab)
  have a: "chain_rep cr (butlast hist @ [b]) c'" "bc_network c' = network" "bc_consensus c' = permissive_consensus"
    "bc_checkpoints c' = bc_checkpoints c" "bc_finalized c' = bc_finalized c" "unat (height_of b) = length hist - 1"
    using attach_rep [of cr hist c b c' ab] Attach by auto
  have "on_ledger cr (butlast hist @ [b]) cp" if cp: "cp \<in> set fin" for cp
  proof -
    have "cp_height cp \<le> cp_height (last fin)" using cp_chain_heights [of cr, OF _ cp] Attach.IH by (simp add: fin_rep_def)
    also have "\<dots> < height_of b" using fin_last(3) [of cr hist fin c] Attach.IH Attach.hyps(3) cp by (cases "fin = []") auto
    finally have "unat (cp_height cp) < length hist - 1" using a(6) by (simp add: word_less_nat_alt)
    moreover have "on_ledger cr hist cp" using Attach.IH cp by (auto simp: fin_rep_def list_all_iff)
    ultimately show ?thesis using on_ledger_take [of cp "length hist - 1" cr hist "[b]"] by (simp add: butlast_conv_take)
  qed
  then show ?case using a Attach.IH by (auto simp: fin_rep_def list_all_iff)
qed

end
