(* ===== verification/Scone_Fork_Props.thy ===== *)
theory Scone_Fork_Props
  imports Scone_Fork
begin

text \<open>
  What fork choice and finality guarantee, with an example chain in which four owners register
  top-level domains, form the committee and finalize the block.
\<close>

section \<open>A finalized chain\<close>

text \<open>A hash that adds the bytes.\<close>

definition sum_crypto :: crypto where
  "sum_crypto = toy_crypto\<lparr>blake3 := (\<lambda>bs. of_nat (sum_list (map unat bs)))\<rparr>"

definition val_tx :: "string \<Rightarrow> public_key \<Rightarrow> transaction" where
  "val_tx name pk = RegisterTld (register_tld_on sum_crypto NETWORK_TESTNET name 0
     (encode_proof \<lparr>cp_nonce = 0, cp_difficulty = 8\<rparr>) pk 1)"

definition val_txs :: "transaction list" where
  "val_txs = [val_tx ''zx'' 1, val_tx ''zy'' 2, val_tx ''zz'' 3, val_tx ''zzz'' 4]"

definition val_claim :: "tld_id \<Rightarrow> owner_id \<Rightarrow> public_key \<Rightarrow> registry \<Rightarrow> registry" where
  "val_claim i own pk a = set_entry i (TldEntry (claimed_by own)) (a\<lparr>rg_keys := fmupd own pk (rg_keys a)\<rparr>)"

abbreviation val_reg1 :: registry where "val_reg1 \<equiv> val_claim 1071 1042 1 (registry_new TESTNET)"
abbreviation val_reg2 :: registry where "val_reg2 \<equiv> val_claim 1072 1043 2 val_reg1"
abbreviation val_reg3 :: registry where "val_reg3 \<equiv> val_claim 1073 1044 3 val_reg2"
abbreviation val_reg4 :: registry where "val_reg4 \<equiv> val_claim 1195 1045 4 val_reg3"

lemma val_ids [simp]:
  "tld_id_from_tld sum_crypto ''zx'' = 1071" "tld_id_from_tld sum_crypto ''zy'' = 1072"
  "tld_id_from_tld sum_crypto ''zz'' = 1073" "tld_id_from_tld sum_crypto ''zzz'' = 1195"
  "owner_of sum_crypto 1 = 1042" "owner_of sum_crypto 2 = 1043" "owner_of sum_crypto 3 = 1044" "owner_of sum_crypto 4 = 1045"
  by code_simp+

abbreviation val_pow_ok :: "string \<Rightarrow> bool" where
  "val_pow_ok name \<equiv> verify_pow sum_crypto NETWORK_TESTNET (tld_challenge name) (encode_proof \<lparr>cp_nonce = 0, cp_difficulty = 8\<rparr>) 8
     = Inr \<lparr>cp_nonce = 0, cp_difficulty = 8\<rparr>"

lemma sum_bytes: "sum_list (map unat (bs :: bytes)) \<le> 255 * length bs"
proof (induction bs)
  case (Cons b bs)
  have "unat b < 2 ^ LENGTH(8)" by (rule unsigned_less)
  then show ?case using Cons by simp
qed simp

lemma val_pow: "val_pow_ok name" if "length name \<le> 3"
proof -
  let ?bs = "POW_VERSION @ network_bytes NETWORK_TESTNET @ tld_challenge name @ u64_le 0"
  have "length (POW_VERSION @ network_bytes NETWORK_TESTNET @ TLD_ID_VERSION) \<le> 100" by code_simp
  then have "sum_list (map unat ?bs) < 100000"
    using sum_bytes [of ?bs] that by (simp add: tld_challenge_def)
  moreover have "unat (of_nat m :: hash32) = m" if "m < 100000" for m using that by (simp add: unat_of_nat)
  moreover have "digest sum_crypto NETWORK_TESTNET (tld_challenge name) 0 = of_nat (sum_list (map unat ?bs))"
    by (simp add: digest_def hash256_def sum_crypto_def)
  ultimately have "unat (digest sum_crypto NETWORK_TESTNET (tld_challenge name) 0) < 100000" by metis
  then show ?thesis by (simp add: verify_pow_exact)
qed

lemma val_not_reserved: "name \<in> {''zx'', ''zy'', ''zz'', ''zzz''} \<Longrightarrow> name \<notin> set ICANN_TLDS"
proof
  assume n: "name \<in> {''zx'', ''zy'', ''zz'', ''zzz''}" "name \<in> set ICANN_TLDS"
  then have "name \<le> last ICANN_TLDS" using le_last_sorted [OF ICANN_TLDS_sorted] by blast
  moreover have "last ICANN_TLDS = last ICANN_TLDS_10" using ICANN_parts_nonempty by (simp add: ICANN_TLDS_def)
  moreover have "last ICANN_TLDS_10 < ''zx''" "last ICANN_TLDS_10 < ''zy''" "last ICANN_TLDS_10 < ''zz''"
    "last ICANN_TLDS_10 < ''zzz''" by code_simp+
  ultimately show False using n by auto
qed

lemma val_tx_validate: "tx_validate sum_crypto (val_tx ''zx'' 1) = Inr ()" "tx_validate sum_crypto (val_tx ''zy'' 2) = Inr ()"
  "tx_validate sum_crypto (val_tx ''zz'' 3) = Inr ()" "tx_validate sum_crypto (val_tx ''zzz'' 4) = Inr ()"
  by code_simp+

lemma val_validate:
  assumes "tx_validate sum_crypto (val_tx name pk) = Inr ()" "length name \<le> 3"
  shows "validate_transaction sum_crypto (val_tx name pk) = Inr ()"
proof -
  have "length (encode_proof \<lparr>cp_nonce = 0, cp_difficulty = 8\<rparr>) \<le> MAX_PROOF_LEN" by code_simp
  then have "\<exists>p. signing_payload (val_tx name pk) = Inr p"
    using assms(2) by (simp add: signing_payload_def val_tx_def register_tld_on_def wseq_Cons put_network_def put_bounded_def
        network_testnet_ok MAX_NETWORK_ID_LEN_def put_tld_name_def MAX_TLD_LEN_def TLD_MAX_LEN_def put_proof_def)
  then show ?thesis using assms(1)
    by (auto simp: validate_transaction_def val_tx_def register_tld_on_def owner_from_public_key_def owner_of_def
        core_result_def protocol_result_def pk_verify_def sum_crypto_def)
qed

lemma val_apply:
  assumes "name \<in> {''zx'', ''zy'', ''zz'', ''zzz''}" "tx_validate sum_crypto (val_tx name pk) = Inr ()" "rg_network a = TESTNET"
    "fmlookup (rg_entries a) (tld_id_from_tld sum_crypto name) = None" "fmlookup (rg_keys a) (owner_of sum_crypto pk) = None"
  shows "\<exists>es. spec_apply sum_crypto (val_tx name pk) now a
    = Some (val_claim (tld_id_from_tld sum_crypto name) (owner_of sum_crypto pk) pk a, es, Inr ())"
  using assms val_not_reserved [OF assms(1)] val_pow
  by (simp add: spec_apply_def)
    (auto simp: val_tx_def register_tld_on_def rg_tld_def TESTNET_def spec_learn_def val_claim_def)

lemma val_claim_simps [simp]:
  "rg_entries (val_claim i own pk a) = fmupd i (TldEntry (claimed_by own)) (rg_entries a)"
  "rg_keys (val_claim i own pk a) = fmupd own pk (rg_keys a)" "rg_network (val_claim i own pk a) = rg_network a"
  "rg_banned (val_claim i own pk a) = rg_banned a"
  by (simp_all add: val_claim_def set_entry_def)

lemma val_new [simp]: "rg_entries (registry_new n) = fmempty" "rg_keys (registry_new n) = fmempty" "rg_network (registry_new n) = n"
  "rg_banned (registry_new n) = {||}"
  by (simp_all add: registry_new_def)

lemma val_leaves:
  "tld_leaf_v2 sum_crypto 1071 (claimed_by 1042) = 1228" "tld_leaf_v2 sum_crypto 1072 (claimed_by 1043) = 1230"
  "tld_leaf_v2 sum_crypto 1073 (claimed_by 1044) = 1232" "tld_leaf_v2 sum_crypto 1195 (claimed_by 1045) = 1355"
  by code_simp+

lemma val_distinct:
  "leaves_distinct sum_crypto (rg_entries val_reg1)" "leaves_distinct sum_crypto (rg_entries val_reg2)"
  "leaves_distinct sum_crypto (rg_entries val_reg3)" "leaves_distinct sum_crypto (rg_entries val_reg4)"
  by (auto simp: leaves_distinct_code val_leaves)

lemma val_steps:
  "\<exists>es. spec_apply sum_crypto (val_tx ''zx'' 1) now (registry_new TESTNET) = Some (val_reg1, es, Inr ())"
  "\<exists>es. spec_apply sum_crypto (val_tx ''zy'' 2) now val_reg1 = Some (val_reg2, es, Inr ())"
  "\<exists>es. spec_apply sum_crypto (val_tx ''zz'' 3) now val_reg2 = Some (val_reg3, es, Inr ())"
  "\<exists>es. spec_apply sum_crypto (val_tx ''zzz'' 4) now val_reg3 = Some (val_reg4, es, Inr ())"
  using val_apply [of "''zx''" 1 "registry_new TESTNET" now] val_apply [of "''zy''" 2 val_reg1 now]
    val_apply [of "''zz''" 3 val_reg2 now] val_apply [of "''zzz''" 4 val_reg3 now] val_tx_validate
  by simp_all

lemma val_clash:
  "no_clash (val_tx ''zx'' 1) (registry_new TESTNET)" "no_clash (val_tx ''zy'' 2) val_reg1" "no_clash (val_tx ''zz'' 3) val_reg2"
  "no_clash (val_tx ''zzz'' 4) val_reg3"
  by (simp_all add: val_tx_def register_tld_on_def rg_domain_def)

lemma val_pool: "rg_pool val_reg4 = {1, 2, 3, 4}"
proof -
  have "rg_owners val_reg4 = {1042, 1043, 1044, 1045}" by (auto simp: rg_owners_def claimed_by_def)
  then show ?thesis by (auto simp: rg_pool_eq)
qed

lemma val_block:
  "\<exists>es. spec_block sum_crypto permissive_consensus 0 val_txs (registry_new TESTNET) = Some (val_reg4, es, Inr (), [])"
  "block_free sum_crypto permissive_consensus 0 val_txs (registry_new TESTNET)"
proof -
  obtain e1 e2 e3 e4 where s: "spec_apply sum_crypto (val_tx ''zx'' 1) 0 (registry_new TESTNET) = Some (val_reg1, e1, Inr ())"
    "spec_apply sum_crypto (val_tx ''zy'' 2) 0 val_reg1 = Some (val_reg2, e2, Inr ())"
    "spec_apply sum_crypto (val_tx ''zz'' 3) 0 val_reg2 = Some (val_reg3, e3, Inr ())"
    "spec_apply sum_crypto (val_tx ''zzz'' 4) 0 val_reg3 = Some (val_reg4, e4, Inr ())"
    using val_steps [of 0] by blast
  show "\<exists>es. spec_block sum_crypto permissive_consensus 0 val_txs (registry_new TESTNET) = Some (val_reg4, es, Inr (), [])"
    by (simp add: spec_block_def ex_gc val_txs_def val_validate val_tx_validate permissive_consensus_def s)
  show "block_free sum_crypto permissive_consensus 0 val_txs (registry_new TESTNET)"
    by (simp only: block_free_def ex_gc val_txs_def s no_collision_def txs_free.simps val_distinct val_clash
        prod.case option.case sum.case simp_thms)
qed

lemma committee_all:
  assumes "card (set eligible) \<le> n"
  shows "set (select_committee cr seed eligible n) = set eligible" "length (select_committee cr seed eligible n) = card (set eligible)"
proof -
  have "take n (sort (map (committee_rank cr seed) (sorted_list_of_set (set eligible))))
      = sort (map (committee_rank cr seed) (sorted_list_of_set (set eligible)))" using assms by simp
  then show "set (select_committee cr seed eligible n) = set eligible" "length (select_committee cr seed eligible n) = card (set eligible)"
    by (simp_all add: select_committee_def image_image committee_rank_def)
qed

definition val_checkpoint :: "hash32 \<Rightarrow> hash32 \<Rightarrow> checkpoint" where
  "val_checkpoint hash root = \<lparr>ck_data = \<lparr>cd_epoch = 0, cd_height = 1, cd_block_hash = hash, cd_prev_checkpoint_hash = 0,
     cd_state_root = root, cd_recovery = 0\<rparr>, ck_signatures = [(1, 1), (2, 1), (3, 1), (4, 1)]\<rparr>"

lemma val_accept:
  assumes w: "chain_rep sum_crypto hist c" "length hist = 2" "bc_network c = TESTNET" and e: "bc_checkpoints c = []" "bc_finalized c = None"
    and a: "abs_state (bc_state c) = val_reg4"
  shows "\<exists>c'. accept_checkpoint sum_crypto (val_checkpoint (bc_tip c) (state_root_smt sum_crypto (bc_state c))) c = Some (c', Inr True)"
    (is "\<exists>c'. accept_checkpoint _ ?cp c = _")
proof -
  have r: "rep sum_crypto (bc_state c) val_reg4" "window_rep sum_crypto hist c" "hist \<noteq> []"
    using w(1) a by (auto simp: chain_rep_def valid_state_def window_rep_def)
  note t = window_canonical [OF r(2)]
  obtain g where "bootstrap_seed sum_crypto c = Some g"
    using genesis_hash_exists [OF r(2)] t(2) by (auto simp: bootstrap_seed_def expect_def)
  moreover have "set (eligible_validators (bc_state c) now) = {1, 2, 3, 4}" "card {1, 2, 3, 4 :: public_key} = 4" for now
    using set_eligible [OF r(1)] val_pool by auto
  ultimately obtain com where com: "committee sum_crypto c 0 = Some com" "set com = {1, 2, 3, 4}" "length com = 4"
    using e(2) t(1) w(3) committee_all [of "eligible_validators (bc_state c) (time_of (last hist))" 4 sum_crypto]
    by (auto simp: committee_def Let_def TESTNET_def PARAMS_TESTNET_def)
  have "check_checkpoint_data sum_crypto c (ck_data ?cp) = Some (Inr ())"
    using t(3) e(1) w(2) by (simp add: check_checkpoint_data_def val_checkpoint_def last_checkpoint_def)
  moreover have "verify_quorum sum_crypto ?cp com (quorum_for 4)"
    using com(2) by (simp add: verify_quorum_def val_checkpoint_def pk_verify_def sum_crypto_def quorum_for_def)
  moreover have "cd_recovery (ck_data ?cp) = 0" "cd_state_root (ck_data ?cp) = state_root_smt sum_crypto (bc_state c)"
    by (simp_all add: val_checkpoint_def)
  ultimately show ?thesis using com(1,3) t(3) e(1)
    by (simp add: accept_checkpoint_def MIN_FINALITY_COMMITTEE_SIZE_def last_checkpoint_def Let_def)
qed

lemma val_extended:
  obtains c b c' ab where "chain_for_network sum_crypto TESTNET = Some c" "chain_rep sum_crypto [genesis_of sum_crypto TESTNET] c"
    "bc_consensus c = permissive_consensus" "bc_network c = TESTNET" "abs_state (bc_state c) = registry_new TESTNET"
    "bc_checkpoints c = []" "bc_finalized c = None" "blk_transactions b = val_txs"
    "push_block_with_gc sum_crypto b c = Some (c', Inr ab)" "chain_rep sum_crypto [genesis_of sum_crypto TESTNET, b] c'"
    "abs_state (bc_state c') = val_reg4"
proof -
  obtain c where c: "with_consensus_for_network sum_crypto permissive_consensus TESTNET = Some c"
    "chain_rep sum_crypto [genesis_of sum_crypto TESTNET] c" "bc_consensus c = permissive_consensus" "bc_network c = TESTNET"
    "abs_state (bc_state c) = registry_new TESTNET" "bc_included c = fmempty" "bc_finalized c = None" "bc_checkpoints c = []"
    "bc_state c = for_network TESTNET" by (rule ex_genesis)
  have k: "key_pair sum_crypto ex_key" by (simp add: key_pair_def ex_key_def sum_crypto_def)
  have nr: "\<forall>tx\<in>set val_txs. \<not> tx_replayed sum_crypto c tx"
    using c(6) by (simp add: tx_replayed_def is_tx_included_def split: sum.splits)
  have len: "length val_txs \<le> MAX_TXS_PER_BLOCK" by (simp add: val_txs_def MAX_TXS_PER_BLOCK_def)
  obtain es where "spec_block sum_crypto permissive_consensus 0 val_txs (registry_new TESTNET) = Some (val_reg4, es, Inr (), [])"
    using val_block(1) by blast
  then show thesis
    using honest_extends [OF c(2) _ k c(3) ex_allowed [OF c(7,9), of sum_crypto 5] _ len nr] val_block(2) c that
    by (auto simp: ex_genesis_time chain_for_network_def)
qed

lemma val_finalized:
  obtains b cp c where "evolves sum_crypto TESTNET [genesis_of sum_crypto TESTNET, b] [cp] c" "blk_transactions b = val_txs"
proof -
  let ?g = "genesis_of sum_crypto TESTNET"
  obtain c b c' ab where c: "chain_for_network sum_crypto TESTNET = Some c" "chain_rep sum_crypto [?g] c"
    "bc_consensus c = permissive_consensus" "bc_network c = TESTNET" "abs_state (bc_state c) = registry_new TESTNET"
    "bc_checkpoints c = []" "bc_finalized c = None" "blk_transactions b = val_txs"
    "push_block_with_gc sum_crypto b c = Some (c', Inr ab)" "chain_rep sum_crypto [?g, b] c'"
    "abs_state (bc_state c') = val_reg4" by (rule val_extended)
  have f: "block_free sum_crypto permissive_consensus (time_of (last [?g])) (blk_transactions b) (abs_state (bc_state c))"
    using c(5,8) val_block(2) by (simp add: ex_genesis_time)
  have ev: "evolves sum_crypto TESTNET [?g, b] [] c'" using evolves.Push [OF evolves.Start [OF c(1)] f c(9)] by simp
  have n: "bc_network c' = TESTNET" "bc_checkpoints c' = []" "bc_finalized c' = None"
    using push_rep [OF c(2,9)] f c(3,4,6,7) by auto
  let ?cp = "val_checkpoint (bc_tip c') (state_root_smt sum_crypto (bc_state c'))"
  obtain c'' where a: "accept_checkpoint sum_crypto ?cp c' = Some (c'', Inr True)" using val_accept [OF c(10) _ n c(11)] by auto
  have "on_ledger sum_crypto [?g, b] ?cp"
    using c(10) by (simp add: on_ledger_def val_checkpoint_def chain_rep_def window_rep_def)
  from that [OF evolves.Finalize [OF ev this a, simplified] c(8)] show thesis .
qed

lemma adopt_from_genesis:
  assumes c: "chain_for_network cr network = Some c" and b: "push_block_with_gc cr b c = Some (c', Inr ab)"
  shows "\<exists>d. adopt_branch cr [b] c = Some (d, Inr True)"
proof -
  have s: "with_consensus_for_network cr permissive_consensus network = Some c" using c by (simp add: chain_for_network_def)
  then have "bc_checkpoints c = []" "bc_finalized c = None" by (auto simp: with_consensus_for_network_def expect_def split: sum.splits)
  then have g: "chain_rep cr [genesis_of cr network] c" "bc_network c = network" "bc_checkpoints c = []" "bc_finalized c = None"
    using genesis_rep [OF s] by simp_all
  then have w: "window_rep cr [genesis_of cr network] c" "hash_of cr (genesis_of cr network) = Inr (bc_tip c)"
    by (simp_all add: chain_rep_def window_rep_def)
  obtain hash where ck: "check_block cr b c = Some (Inr hash)"
    using b by (auto simp: push_block_with_gc_def split: bind_splits sum.splits)
  note k = check_blockD [OF ck w(1)]
  have h: "height_of b = 1" using k(2) by (simp add: checked_add_def split: if_splits)
  have g0: "chain_block c 0 = Some (genesis_of cr network)" using window_block [OF w(1), of 0] by (simp add: in_window_def)
  have fresh: "c\<lparr>bc_checkpoints := [], bc_finalized := None\<rparr> = c" using g(3,4) by (cases c) simp
  have "\<exists>d ab'. reorg_to_height cr 0 [b] c = Some (d, Inr ab')"
    using c b g g0 by (simp add: reorg_to_height_def block_result_def chain_for_network_def fresh)
  then show ?thesis
    using h g0 w k(1,3) g(3) window_canonical(3) [OF w(1)] by (auto simp: adopt_branch_def checked_sub_def checked_add_def)
qed

section \<open>Guarantees\<close>

text \<open>C5: Fork choice. Adopting a branch on a chain that holds a ledger either changes nothing, or replaces the
  ledger by its prefix up to the parent of the branch followed by the branch; the new ledger is
  longer, or as long with a lower tip hash; the state is that of the new ledger; and every
  checkpoint the chain keeps that is at or above the fork point, or was on the old ledger, is on
  the new ledger. Nothing is claimed of a kept checkpoint below the fork point for a block the old
  ledger did not have. It needs the permissive consensus hooks and a new ledger without hash collisions.\<close>

theorem adopt_branch_exact:
  assumes "chain_rep cr hist c" "bc_consensus c = permissive_consensus" "adopt_branch cr blocks c = Some (c', res)"
    "new = take (branch_base blocks + 1) hist @ blocks" "ledger_free cr permissive_consensus (bc_network c) new"
  shows "if res = Inr True
    then chain_rep cr new c' \<and> (length hist < length new \<or> length hist = length new \<and> bc_tip c' < bc_tip c)
      \<and> bc_checkpoints c' = bc_checkpoints c
      \<and> (\<forall>cp\<in>set (bc_checkpoints c). branch_base blocks \<le> unat (cp_height cp) \<or> on_ledger cr hist cp \<longrightarrow> on_ledger cr new cp)
    else c' = c"
  using adopt_rep [OF assms(1-3)] assms(4,5) by auto

text \<open>C3: Finality is irreversible: through appended and rejected blocks, checkpoints, adopted branches and
  sister blocks of a tip that is not finalized, the block of every checkpoint the chain ever
  accepted for a block it had is still on its ledger, also of the checkpoints it has dropped since.\<close>

theorem finality_irreversible:
  assumes "evolves cr network hist fin c" "cp \<in> set fin"
  shows "unat (cp_height cp) < length hist \<and> hash_of cr (hist ! unat (cp_height cp)) = Inr (cd_block_hash (ck_data cp))"
  using evolves_inv [OF assms(1)] assms(2) by (auto simp: fin_rep_def list_all_iff on_ledger_def Let_def)

text \<open>C21: The accepted checkpoints form a chain: the first has epoch zero and names no predecessor, each
  later one has the next epoch, names the hash of the one before and finalizes a greater height.
  The chain keeps the last 64, and the committee of the next one is drawn from the last.\<close>

theorem checkpoint_chain:
  assumes "evolves cr network hist fin c"
  shows "cp_chain cr fin \<and> bc_checkpoints c = drop (length fin - 64) fin
    \<and> map_option fb_seed (bc_finalized c) = (if fin = [] then None else Some (next_seed cr (checkpoint_hash cr (last fin))))"
  using evolves_inv [OF assms] by (auto simp: fin_rep_def CHECKPOINT_KEEP_def split: option.splits)


theorem adopt_branch_exact_witness:
  "\<exists>c b c'. adopt_branch sum_crypto [b] c = Some (c', Inr True) \<and> blk_transactions b = val_txs
     \<and> chain_rep sum_crypto [genesis_of sum_crypto TESTNET] c \<and> chain_rep sum_crypto [genesis_of sum_crypto TESTNET, b] c'"
proof -
  let ?g = "genesis_of sum_crypto TESTNET"
  obtain c b c' ab where c: "chain_for_network sum_crypto TESTNET = Some c" "chain_rep sum_crypto [?g] c"
    "bc_consensus c = permissive_consensus" "bc_network c = TESTNET" "blk_transactions b = val_txs"
    "push_block_with_gc sum_crypto b c = Some (c', Inr ab)" "chain_rep sum_crypto [?g, b] c'" by (rule val_extended)
  obtain d where d: "adopt_branch sum_crypto [b] c = Some (d, Inr True)" using adopt_from_genesis [OF c(1,6)] by blast
  have "height_of b = 1" using c(7) by (simp add: chain_rep_def window_rep_def linked_def) (metis One_nat_def lessI nth_Cons_0 nth_Cons_Suc of_nat_1)
  then have "take (branch_base [b] + 1) [?g] @ [b] = [?g, b]" by (simp add: branch_base_def)
  moreover have "ledger_free sum_crypto permissive_consensus TESTNET [?g, b]"
    using val_block(2) c(5) by (simp add: ledger_free_def ex_genesis_time split: option.splits sum.splits)
  ultimately show ?thesis using adopt_branch_exact [OF c(2,3) d refl] c(2,4,5) d by auto
qed

theorem finality_irreversible_witness:
  "\<exists>b cp c. evolves sum_crypto TESTNET [genesis_of sum_crypto TESTNET, b] [cp] c \<and> blk_transactions b = val_txs
     \<and> hash_of sum_crypto ([genesis_of sum_crypto TESTNET, b] ! unat (cp_height cp)) = Inr (cd_block_hash (ck_data cp))"
proof -
  obtain b cp c where e: "evolves sum_crypto TESTNET [genesis_of sum_crypto TESTNET, b] [cp] c" "blk_transactions b = val_txs"
    by (rule val_finalized)
  show ?thesis using finality_irreversible [OF e(1), of cp] e by auto
qed

theorem checkpoint_chain_witness:
  "\<exists>b cp c. evolves sum_crypto TESTNET [genesis_of sum_crypto TESTNET, b] [cp] c \<and> cp_epoch cp = 0 \<and> bc_checkpoints c = [cp]"
proof -
  obtain b cp c where e: "evolves sum_crypto TESTNET [genesis_of sum_crypto TESTNET, b] [cp] c"
    by (rule val_finalized)
  show ?thesis using checkpoint_chain [OF e(1)] e by (auto simp: cp_chain_def)
qed

end
