(* ===== verification/Scone_Signer.thy ===== *)
theory Scone_Signer
  imports Scone_Chain
begin

text \<open>
  The signer guard of \<^verbatim>\<open>signer.rs\<close>: the last context every key of the node has signed, the rule that
  refuses a second content of one epoch, and the file that carries the contexts over a restart.
  The file system is outside the program: the outcome of a read is an argument of \<open>guard_load\<close>,
  and whether the atomic write of \<^verbatim>\<open>atomic_write\<close> succeeds is an argument of \<open>authorize\<close>; a write
  that succeeds replaces the file, one that fails before the rename leaves it. Then: whatever the
  requests, failures and restarts, the guard never releases two signatures of one key over
  different contents of one epoch, and a file it wrote gives the same guard back.
\<close>

section \<open>Contexts\<close>

definition SIGNER_TAG :: bytes where "SIGNER_TAG = str_bytes ''SCONE-SIGNER-V1''"
definition RECORD_LEN :: nat where "RECORD_LEN = length SIGNER_TAG + 32 + 32 + 8 + 8"

record signed_context =
  sc_signer :: public_key
  sc_signing_hash :: hash32
  sc_epoch :: u64
  sc_height :: u64

definition context_to_bytes :: "signed_context \<Rightarrow> bytes" where
  "context_to_bytes ctx = SIGNER_TAG @ h32_bytes (sc_signer ctx) @ h32_bytes (sc_signing_hash ctx)
     @ u64_le (sc_epoch ctx) @ u64_le (sc_height ctx)"

definition context_from_bytes :: "crypto \<Rightarrow> bytes \<Rightarrow> bc_error + signed_context" where
  "context_from_bytes cr b =
     (if length b \<noteq> RECORD_LEN \<or> take (length SIGNER_TAG) b \<noteq> SIGNER_TAG then Inl BcSigner
      else let p = length SIGNER_TAG in
        case public_key_from_bytes cr (h32_of_bytes (slice p (p + 32) b)) of
          None \<Rightarrow> Inl BcSigner
        | Some signer \<Rightarrow> Inr \<lparr>sc_signer = signer, sc_signing_hash = h32_of_bytes (slice (p + 32) (p + 64) b),
            sc_epoch = from_le_bytes (slice (p + 64) (p + 72) b), sc_height = from_le_bytes (slice (p + 72) (p + 80) b)\<rparr>)"

section \<open>The guard\<close>

record signer_guard =
  sg_last :: "(public_key, signed_context) fmap"
  sg_sealed :: bool

text \<open>What reading the file gives.\<close>

datatype file_read = Found bytes | NotFound | ReadError

text \<open>\<^verbatim>\<open>slice::chunks\<close>.\<close>

function chunks :: "nat \<Rightarrow> 'a list \<Rightarrow> 'a list list" where
  "chunks n xs = (if xs = [] \<or> n = 0 then [] else take n xs # chunks n (drop n xs))"
  by auto
termination by (relation "measure (\<lambda>(n, xs). length xs)") auto

declare chunks.simps [simp del]

fun load_contexts :: "crypto \<Rightarrow> bytes list \<Rightarrow> (public_key, signed_context) fmap \<Rightarrow> (public_key, signed_context) fmap option" where
  "load_contexts cr [] lst = Some lst"
| "load_contexts cr (chunk # rest) lst =
     (case context_from_bytes cr chunk of Inl _ \<Rightarrow> None | Inr ctx \<Rightarrow> load_contexts cr rest (fmupd (sc_signer ctx) ctx lst))"

definition guard_load :: "crypto \<Rightarrow> file_read \<Rightarrow> signer_guard" where
  "guard_load cr r =
     (let sealed = \<lparr>sg_last = fmempty, sg_sealed = True\<rparr> in
      case r of NotFound \<Rightarrow> \<lparr>sg_last = fmempty, sg_sealed = False\<rparr>
      | ReadError \<Rightarrow> sealed
      | Found data \<Rightarrow>
          if data = [] \<or> length data mod RECORD_LEN \<noteq> 0 then sealed
          else case load_contexts cr (chunks RECORD_LEN data) fmempty of
            None \<Rightarrow> sealed | Some lst \<Rightarrow> \<lparr>sg_last = lst, sg_sealed = False\<rparr>)"

definition may_sign :: "crypto \<Rightarrow> public_key \<Rightarrow> checkpoint_data \<Rightarrow> signer_guard \<Rightarrow> bc_error + unit" where
  "may_sign cr signer d g =
     (if sg_sealed g then Inl BcSigner
      else case fmlookup (sg_last g) signer of None \<Rightarrow> Inr ()
      | Some ctx \<Rightarrow>
          if cd_epoch d < sc_epoch ctx \<or> cd_epoch d = sc_epoch ctx \<and> signing_hash cr d \<noteq> sc_signing_hash ctx
          then Inl BcSigner else Inr ())"

definition persist_bytes :: "signer_guard \<Rightarrow> bytes" where
  "persist_bytes g = concat (map context_to_bytes
     (sort_key sc_signer (map (\<lambda>k. the (fmlookup (sg_last g) k)) (sorted_list_of_fset (fmdom (sg_last g))))))"

text \<open>The disk holds the bytes of the file, if there is one.\<close>

definition atomic_write :: "bool \<Rightarrow> bytes \<Rightarrow> bytes option \<Rightarrow> bytes option" where
  "atomic_write ok data disk = (if ok then Some data else disk)"

definition authorize :: "crypto \<Rightarrow> bool \<Rightarrow> signing_key \<Rightarrow> checkpoint_data \<Rightarrow> signer_guard \<times> bytes option
    \<Rightarrow> (signer_guard \<times> bytes option) \<times> (bc_error + signature)" where
  "authorize cr ok sk d = (\<lambda>(g, disk). let pk = sk_public_key sk in
     case may_sign cr pk d g of Inl e \<Rightarrow> ((g, disk), Inl e)
     | Inr _ \<Rightarrow>
         let h = signing_hash cr d; sig = sk_sign sk (h32_bytes h);
             g' = g\<lparr>sg_last := fmupd pk \<lparr>sc_signer = pk, sc_signing_hash = h, sc_epoch = cd_epoch d, sc_height = cd_height d\<rparr> (sg_last g)\<rparr>;
             disk' = atomic_write ok (persist_bytes g') disk in
         ((g', disk'), if ok then Inr sig else Inl BcSigner))"

definition sign_checkpoint :: "crypto \<Rightarrow> bool \<Rightarrow> signing_key \<Rightarrow> checkpoint_data \<Rightarrow> signer_guard \<times> bytes option
    \<Rightarrow> (signer_guard \<times> bytes option) \<times> (bc_error + signature)" where
  "sign_checkpoint cr ok sk d st = (case authorize cr ok sk d st of (st', r) \<Rightarrow> (st', try_bind r Inr))"

section \<open>The file\<close>

lemma context_length [simp]: "length (context_to_bytes ctx) = RECORD_LEN"
  by (simp add: context_to_bytes_def RECORD_LEN_def)

lemma record_pos [simp]: "0 < RECORD_LEN"
  by (simp add: RECORD_LEN_def)

lemma context_roundtrip:
  "context_from_bytes cr (context_to_bytes ctx) = (if ed_key_ok cr (sc_signer ctx) then Inr ctx else Inl BcSigner)"
  by (simp add: context_from_bytes_def)
    (simp add: context_to_bytes_def Let_def slice_def public_key_from_bytes_def from_be_be_bytes from_le_le_bytes)

lemma chunks_concat:
  assumes "\<forall>x\<in>set xs. length x = n" "0 < n" shows "chunks n (concat xs) = xs"
  using assms(1)
proof (induction xs)
  case (Cons x xs)
  then have "x @ concat xs \<noteq> []" "take n (x @ concat xs) = x" "drop n (x @ concat xs) = concat xs" using assms(2) by auto
  then show ?case using Cons assms(2) by (subst chunks.simps) simp
qed (simp add: chunks.simps)

lemma length_concat: "\<forall>x\<in>set xs. length x = n \<Longrightarrow> length (concat xs) = length xs * n"
  by (induction xs) auto

text \<open>Every context is filed under its own key.\<close>

definition filed :: "(public_key, signed_context) fmap \<Rightarrow> bool" where
  "filed m \<longleftrightarrow> (\<forall>k ctx. fmlookup m k = Some ctx \<longrightarrow> sc_signer ctx = k)"

abbreviation guard_ok :: "signer_guard \<Rightarrow> bool" where "guard_ok g \<equiv> filed (sg_last g)"

lemma filed_upd: "filed m \<Longrightarrow> filed (fmupd (sc_signer ctx) ctx m)"
  by (simp add: filed_def)

lemma filed_empty: "filed fmempty"
  by (simp add: filed_def)

lemma load_contexts_list:
  "load_contexts cr (map context_to_bytes ctxs) m =
     (if list_all (\<lambda>ctx. ed_key_ok cr (sc_signer ctx)) ctxs then Some (fold (\<lambda>ctx. fmupd (sc_signer ctx) ctx) ctxs m) else None)"
  by (induction ctxs arbitrary: m) (simp_all add: context_roundtrip)

lemma fold_fmupd_lookup:
  "fmlookup (fold (\<lambda>ctx. fmupd (sc_signer ctx) ctx) ctxs m) k =
     (case filter (\<lambda>ctx. sc_signer ctx = k) (rev ctxs) of [] \<Rightarrow> fmlookup m k | ctx # _ \<Rightarrow> Some ctx)"
  by (induction ctxs rule: rev_induct) (auto split: list.splits)

lemma fold_filed:
  assumes "filed m" "set ctxs = fset (fmran m)"
  shows "fold (\<lambda>ctx. fmupd (sc_signer ctx) ctx) ctxs fmempty = m"
proof (rule fmap_ext)
  fix k
  have ctx: "ctx \<in> set ctxs \<longleftrightarrow> fmlookup m (sc_signer ctx) = Some ctx" for ctx
    using assms by (auto simp: filed_def fmlookup_ran_iff)
  show "fmlookup (fold (\<lambda>ctx. fmupd (sc_signer ctx) ctx) ctxs fmempty) k = fmlookup m k"
  proof (cases "filter (\<lambda>ctx. sc_signer ctx = k) (rev ctxs)")
    case Nil
    then have "\<forall>ctx\<in>set ctxs. sc_signer ctx \<noteq> k" by (auto simp: filter_empty_conv)
    then have "fmlookup m k = None" using assms(1) ctx unfolding filed_def by (metis not_Some_eq)
    then show ?thesis using Nil by (simp add: fold_fmupd_lookup)
  next
    case (Cons ctx rest)
    then have "ctx \<in> set ctxs" "sc_signer ctx = k" by (auto simp: filter_eq_Cons_iff dest!: arg_cong [where f = set])
    then show ?thesis using Cons ctx by (simp add: fold_fmupd_lookup)
  qed
qed

lemma load_persisted:
  assumes "guard_ok g" "sg_last g \<noteq> fmempty" "\<not> sg_sealed g"
  shows "guard_load cr (Found (persist_bytes g)) =
    (if \<forall>k ctx. fmlookup (sg_last g) k = Some ctx \<longrightarrow> ed_key_ok cr k then g else \<lparr>sg_last = fmempty, sg_sealed = True\<rparr>)"
proof -
  define ctxs where "ctxs = sort_key sc_signer (map (\<lambda>k. the (fmlookup (sg_last g) k)) (sorted_list_of_fset (fmdom (sg_last g))))"
  have s: "set ctxs = fset (fmran (sg_last g))"
    by (auto simp: ctxs_def sorted_list_of_fset.rep_eq fmlookup_dom_iff fmlookup_ran_iff image_iff) (metis fmdomI option.sel)
  have b: "persist_bytes g = concat (map context_to_bytes ctxs)" by (simp add: persist_bytes_def ctxs_def)
  have "ctxs \<noteq> []"
  proof
    assume "ctxs = []"
    then have "fmlookup (sg_last g) k = None" for k using s by (cases "fmlookup (sg_last g) k") (auto dest!: fmranI)
    then show False using assms(2) by (simp add: fmap_ext)
  qed
  moreover have "chunks RECORD_LEN (persist_bytes g) = map context_to_bytes ctxs"
    unfolding b by (intro chunks_concat) auto
  moreover have "length (persist_bytes g) = length ctxs * RECORD_LEN" unfolding b by (subst length_concat [of _ RECORD_LEN]) auto
  moreover have "list_all (\<lambda>ctx. ed_key_ok cr (sc_signer ctx)) ctxs \<longleftrightarrow> (\<forall>k ctx. fmlookup (sg_last g) k = Some ctx \<longrightarrow> ed_key_ok cr k)"
    using assms(1) s by (fastforce simp: list_all_iff filed_def fmlookup_ran_iff)
  moreover have "fold (\<lambda>ctx. fmupd (sc_signer ctx) ctx) ctxs fmempty = sg_last g"
    by (rule fold_filed [OF assms(1) s])
  moreover have "persist_bytes g \<noteq> []" using calculation(1,3) record_pos by (metis length_0_conv mult_eq_0_iff nat_neq_iff)
  moreover have "\<lparr>sg_last = sg_last g, sg_sealed = False\<rparr> = g" using assms(3) by (cases g) simp
  ultimately show ?thesis by (auto simp: guard_load_def load_contexts_list Let_def)
qed

section \<open>Runs of a node\<close>

text \<open>Requests with the outcome of their write, restarts that read the file and restarts that cannot.\<close>

datatype signer_event = Request signing_key checkpoint_data bool | Restart | UnreadableRestart

definition read_disk :: "bytes option \<Rightarrow> file_read" where
  "read_disk disk = (case disk of None \<Rightarrow> NotFound | Some data \<Rightarrow> Found data)"

type_synonym released = "(public_key \<times> checkpoint_data) list"

fun signer_step :: "crypto \<Rightarrow> signer_event \<Rightarrow> (signer_guard \<times> bytes option) \<times> released \<Rightarrow> (signer_guard \<times> bytes option) \<times> released" where
  "signer_step cr (Request sk d ok) (st, out) =
     (case sign_checkpoint cr ok sk d st of (st', Inl _) \<Rightarrow> (st', out) | (st', Inr _) \<Rightarrow> (st', out @ [(sk_public_key sk, d)]))"
| "signer_step cr Restart ((g, disk), out) = ((guard_load cr (read_disk disk), disk), out)"
| "signer_step cr UnreadableRestart ((g, disk), out) = ((guard_load cr ReadError, disk), out)"

definition signer_run :: "crypto \<Rightarrow> signer_event list \<Rightarrow> bytes option \<Rightarrow> (signer_guard \<times> bytes option) \<times> released" where
  "signer_run cr evs disk = fold (signer_step cr) evs ((guard_load cr (read_disk disk), disk), [])"

text \<open>A guard knows everything that was released.\<close>

definition knows :: "crypto \<Rightarrow> signer_guard \<Rightarrow> public_key \<times> checkpoint_data \<Rightarrow> bool" where
  "knows cr g = (\<lambda>(pk, d). \<exists>ctx. fmlookup (sg_last g) pk = Some ctx
     \<and> (cd_epoch d < sc_epoch ctx \<or> cd_epoch d = sc_epoch ctx \<and> signing_hash cr d = sc_signing_hash ctx))"

definition covers :: "crypto \<Rightarrow> released \<Rightarrow> signer_guard \<Rightarrow> bool" where
  "covers cr out g \<longleftrightarrow> sg_sealed g \<or> guard_ok g \<and> list_all (knows cr g) out"

text \<open>Later signatures of one key are for later epochs or repeat the same content.\<close>

definition compatible :: "crypto \<Rightarrow> public_key \<times> checkpoint_data \<Rightarrow> public_key \<times> checkpoint_data \<Rightarrow> bool" where
  "compatible cr = (\<lambda>(pk, d) (pk', d'). pk = pk' \<longrightarrow>
     cd_epoch d < cd_epoch d' \<or> cd_epoch d = cd_epoch d' \<and> signing_hash cr d = signing_hash cr d')"

lemma load_contexts_filed: "load_contexts cr cs m = Some m' \<Longrightarrow> filed m \<Longrightarrow> filed m'"
proof (induction cs arbitrary: m)
  case (Cons c cs)
  then show ?case using filed_upd by (auto split: sum.splits)
qed simp

lemma loaded_ok: "guard_ok (guard_load cr r)"
  using load_contexts_filed [OF _ filed_empty] filed_empty by (simp add: guard_load_def Let_def split: file_read.splits option.splits)

lemma authorized:
  assumes "may_sign cr pk d g = Inr u" "covers cr out g"
    and g': "g' = g\<lparr>sg_last := fmupd pk \<lparr>sc_signer = pk, sc_signing_hash = signing_hash cr d, sc_epoch = cd_epoch d, sc_height = h\<rparr> (sg_last g)\<rparr>"
  shows "covers cr (out @ [(pk, d)]) g'" "list_all (\<lambda>x. compatible cr x (pk, d)) out" "\<not> sg_sealed g'" "guard_ok g'" "sg_last g' \<noteq> fmempty"
proof -
  have ns: "\<not> sg_sealed g" "guard_ok g" "list_all (knows cr g) out"
    using assms(1,2) by (auto simp: may_sign_def covers_def split: if_splits)
  have step: "knows cr g' x \<and> compatible cr x (pk, d)" if "knows cr g x" for x
    using that assms(1) ns(1) g' unfolding knows_def may_sign_def compatible_def
    by (auto split: if_splits option.splits)
  then show "list_all (\<lambda>x. compatible cr x (pk, d)) out" using ns(3) by (auto simp: list_all_iff)
  show ok: "\<not> sg_sealed g'" "guard_ok g'" using ns g' by (auto simp: filed_def)
  have "fmlookup (sg_last g') pk \<noteq> None" using g' by simp
  then show "sg_last g' \<noteq> fmempty" by auto
  show "covers cr (out @ [(pk, d)]) g'"
    using step ns(3) g' ok(2) unfolding covers_def by (auto simp: list_all_iff knows_def)
qed

lemma covers_load:
  assumes "covers cr out g" "\<not> sg_sealed g" "guard_ok g" "sg_last g \<noteq> fmempty"
  shows "covers cr out (guard_load cr (Found (persist_bytes g)))"
  using load_persisted [OF assms(3,4,2), of cr] assms(1) by (auto simp: covers_def)

lemma covers_butlast: "covers cr (out @ [x]) g \<Longrightarrow> covers cr out g"
  by (auto simp: covers_def)

definition signer_inv :: "crypto \<Rightarrow> (signer_guard \<times> bytes option) \<times> released \<Rightarrow> bool" where
  "signer_inv cr = (\<lambda>((g, disk), out). covers cr out g \<and> covers cr out (guard_load cr (read_disk disk)) \<and> sorted_wrt (compatible cr) out)"

lemma signer_inv_step: "signer_inv cr st \<Longrightarrow> signer_inv cr (signer_step cr ev st)"
proof -
  assume i: "signer_inv cr st"
  obtain g disk out where st: "st = ((g, disk), out)" by (metis prod.exhaust)
  have c: "covers cr out g" "covers cr out (guard_load cr (read_disk disk))" "sorted_wrt (compatible cr) out"
    using i st by (simp_all add: signer_inv_def)
  show ?thesis
  proof (cases ev)
    case (Request sk d ok)
    let ?pk = "sk_public_key sk"
    show ?thesis
    proof (cases "may_sign cr ?pk d g")
      case (Inl e)
      then show ?thesis using i st Request by (simp add: sign_checkpoint_def authorize_def Let_def)
    next
      case (Inr u)
      define g' where "g' = g\<lparr>sg_last := fmupd ?pk \<lparr>sc_signer = ?pk, sc_signing_hash = signing_hash cr d,
          sc_epoch = cd_epoch d, sc_height = cd_height d\<rparr> (sg_last g)\<rparr>"
      note a = authorized [OF Inr c(1) g'_def]
      have "sorted_wrt (compatible cr) (out @ [(?pk, d)])" using c(3) a(2) by (auto simp: sorted_wrt_append list_all_iff)
      moreover have "covers cr (out @ [(?pk, d)]) (guard_load cr (Found (persist_bytes g')))" using covers_load [OF a(1,3-5)] .
      ultimately show ?thesis using c a(1) st Request Inr covers_butlast [OF a(1)]
        by (auto simp: signer_inv_def sign_checkpoint_def authorize_def Let_def atomic_write_def read_disk_def g'_def [symmetric])
    qed
  qed (use c st in \<open>auto simp: signer_inv_def covers_def guard_load_def [of cr ReadError]\<close>)
qed

lemma signer_inv_run: "signer_inv cr (signer_run cr evs disk)"
proof -
  have "signer_inv cr st \<Longrightarrow> signer_inv cr (fold (signer_step cr) evs st)" for st
    by (induction evs arbitrary: st) (simp_all only: fold_simps signer_inv_step)
  then show ?thesis using loaded_ok by (auto simp: signer_run_def signer_inv_def covers_def)
qed

text \<open>C4: A node never signs two conflicting checkpoints with one key. Whatever checkpoints its keys are
  asked to sign, whether the writes of the guard's file succeed or fail, however often the node
  restarts, with the file readable or not, and whatever the file held at first: of two signatures
  released for one key, the later one is for a later epoch, or for the same epoch and the same
  signing hash.\<close>

theorem signer_never_equivocates:
  assumes "signer_run cr evs disk = (st, out)" "i < j" "j < length out" "out ! i = (pk, d)" "out ! j = (pk, d')"
  shows "cd_epoch d < cd_epoch d' \<or> cd_epoch d = cd_epoch d' \<and> signing_hash cr d = signing_hash cr d'"
proof -
  have "sorted_wrt (compatible cr) out" using signer_inv_run [of cr evs disk] assms(1) by (auto simp: signer_inv_def)
  then have "compatible cr (out ! i) (out ! j)" using assms(2,3) by (simp add: sorted_wrt_iff_nth_less)
  then show ?thesis using assms(4,5) by (simp add: compatible_def)
qed

definition ex_cp :: "u64 \<Rightarrow> checkpoint_data" where
  "ex_cp epoch = \<lparr>cd_epoch = epoch, cd_height = 10 + epoch, cd_block_hash = 0, cd_prev_checkpoint_hash = 0, cd_state_root = 0, cd_recovery = 0\<rparr>"

definition ex_signer :: signing_key where "ex_signer = \<lparr>sk_public_key = 7, sk_sign = (\<lambda>_. 1)\<rparr>"

lemma ex_cp_simps [simp]: "cd_epoch (ex_cp e) = e" "cd_height (ex_cp e) = 10 + e"
  by (simp_all add: ex_cp_def)

lemma ex_signer_run:
  "\<exists>st. signer_run toy_crypto [Request ex_signer (ex_cp 1) True, Restart, Request ex_signer (ex_cp 2) True] None = (st, [(7, ex_cp 1), (7, ex_cp 2)])"
proof -
  define g where "g = \<lparr>sg_last = fmupd 7 \<lparr>sc_signer = 7, sc_signing_hash = signing_hash toy_crypto (ex_cp 1), sc_epoch = 1, sc_height = 11\<rparr> fmempty,
    sg_sealed = False\<rparr>"
  have "sg_last g \<noteq> fmempty" using fmempty_lookup [of 7] by (auto simp: g_def dest: arg_cong [where f = "\<lambda>m. fmlookup m 7"])
  then have "guard_load toy_crypto (Found (persist_bytes g)) = g"
    using load_persisted [of g toy_crypto] by (simp add: g_def filed_def)
  then have "signer_step toy_crypto Restart ((g, Some (persist_bytes g)), out) = ((g, Some (persist_bytes g)), out)" for out
    by (simp add: read_disk_def)
  moreover have "signer_step toy_crypto (Request ex_signer (ex_cp 1) True) ((guard_load toy_crypto NotFound, None), []) =
      ((g, Some (persist_bytes g)), [(7, ex_cp 1)])"
    by (simp add: sign_checkpoint_def authorize_def Let_def guard_load_def may_sign_def ex_signer_def atomic_write_def g_def)
  moreover have "\<exists>st. signer_step toy_crypto (Request ex_signer (ex_cp 2) True) ((g, disk), out) = (st, [(7, ex_cp 1), (7, ex_cp 2)])" if "out = [(7, ex_cp 1)]" for disk out
    unfolding that by (simp add: sign_checkpoint_def authorize_def Let_def may_sign_def ex_signer_def g_def)
  ultimately show ?thesis by (simp only: signer_run_def fold_simps read_disk_def option.case)
qed

theorem signer_never_equivocates_witness:
  "\<exists>st out. signer_run toy_crypto [Request ex_signer (ex_cp 1) True, Restart, Request ex_signer (ex_cp 2) True] None = (st, out)
     \<and> length out = 2 \<and> cd_epoch (snd (out ! 0)) < cd_epoch (snd (out ! 1))"
proof -
  obtain st where r: "signer_run toy_crypto [Request ex_signer (ex_cp 1) True, Restart, Request ex_signer (ex_cp 2) True] None
      = (st, [(7, ex_cp 1), (7, ex_cp 2)])" using ex_signer_run by blast
  show ?thesis using signer_never_equivocates [OF r, of 0 1 7 "ex_cp 1" "ex_cp 2"] r by auto
qed

end
