(* ===== verification/Scone_Snapshot.thy ===== *)
theory Scone_Snapshot
  imports Scone_State_Props
begin

text \<open>
  The pure root recomputation of \<^verbatim>\<open>snapshot_verify.rs\<close>: a new tree, the leaves of the given domains, the
  leaves of the given TLDs, and the canonical state root. It is the root that a full node has for
  a state with these entries, in whatever order they are listed.
\<close>

fun insert_leaves :: "crypto \<Rightarrow> (hash32 \<times> 's) list \<Rightarrow> (hash32 \<Rightarrow> 's \<Rightarrow> hash32) \<Rightarrow> smt \<Rightarrow> smt option" where
  "insert_leaves cr [] lf t = Some t"
| "insert_leaves cr ((i, st) # rest) lf t = Option.bind (smt_insert cr t (smt_key i) (lf i st)) (insert_leaves cr rest lf)"

definition top_hash :: "crypto \<Rightarrow> hash32 \<Rightarrow> hash32" where
  "top_hash cr root = hash256 cr [str_bytes ''SCONE-STATE-SMT-V1'' @ h32_bytes root]"

definition recompute_state_root :: "crypto \<Rightarrow> (domain_id \<times> domain_state) list \<Rightarrow> (tld_id \<times> tld_state) list \<Rightarrow> hash32 option" where
  "recompute_state_root cr domains tlds =
     do { t1 \<leftarrow> insert_leaves cr domains (domain_leaf_v2 cr) smt_new;
          t2 \<leftarrow> insert_leaves cr tlds (tld_leaf_v2 cr) t1;
          Some (top_hash cr (smt_root cr t2)) }"

section \<open>The tree of the entries\<close>

definition listed :: "(domain_id \<times> 's) list \<Rightarrow> ('s \<Rightarrow> entry) \<Rightarrow> entries \<Rightarrow> entries" where
  "listed xs f E = fold (\<lambda>(i, st). fmupd i (f st)) xs E"

lemma insert_leaves_ok:
  assumes "tree_ok cr E t" "distinct (map fst xs)" "\<forall>i\<in>fst ` set xs. fmlookup E i = None" "\<And>i st. leaf cr i (f st) = lf i st"
  shows "\<exists>t'. insert_leaves cr xs lf t = Some t' \<and> tree_ok cr (listed xs f E) t'"
  using assms(1-3)
proof (induction xs arbitrary: E t)
  case (Cons x xs)
  obtain i st where x: "x = (i, st)" by (cases x)
  obtain t1 where t1: "smt_insert cr t (smt_key i) (lf i st) = Some t1" "tree_ok cr (fmupd i (f st) E) t1"
    using tree_insert [OF Cons.prems(1), of i "f st"] Cons.prems(3) x assms(4) by auto
  have "\<forall>j\<in>fst ` set xs. fmlookup (fmupd i (f st) E) j = None" using Cons.prems(2,3) x by force
  then show ?case using Cons.IH [OF t1(2)] Cons.prems(2) t1(1) x by (simp add: listed_def)
qed (simp add: listed_def)

lemma listed_lookup:
  "distinct (map fst xs) \<Longrightarrow> fmlookup (listed xs f E) i = (case map_of xs i of Some st \<Rightarrow> Some (f st) | None \<Rightarrow> fmlookup E i)"
proof (induction xs arbitrary: E)
  case (Cons x xs)
  then have "fst x \<notin> dom (map_of xs)" by (simp add: dom_map_of_conv_image_fst)
  then show ?case using Cons by (cases x) (auto simp: listed_def domIff split: option.splits)
qed (simp add: listed_def)

lemma distinct_ids: "distinct xs \<Longrightarrow> set xs = {(i, x). f i = Some x} \<Longrightarrow> distinct (map fst xs)"
  by (auto simp: distinct_map inj_on_def)

lemma map_of_listing: "distinct (map fst xs) \<Longrightarrow> set xs = {(i, x). f i = Some x} \<Longrightarrow> map_of xs = f"
  by (rule ext) (metis (mono_tags, lifting) mem_Collect_eq case_prodI case_prodD map_of_eq_Some_iff not_Some_eq)

lemma recompute_root:
  assumes "valid_state cr s" "distinct domains" "set domains = {(i, d). state_domain s i = Some d}"
    "distinct tlds" "set tlds = {(i, t). state_tld s i = Some t}"
  shows "recompute_state_root cr domains tlds = Some (state_root_smt cr s)"
proof -
  let ?E = "rg_entries (abs_state s)" and ?F = "listed tlds TldEntry (listed domains DomainEntry fmempty)"
  have r: "rep cr s (abs_state s)" using assms(1) by (simp add: valid_state_def)
  note d = distinct_ids [OF assms(2,3)] and t = distinct_ids [OF assms(4,5)]
  note m = map_of_listing [OF d assms(3)] map_of_listing [OF t assms(5)]
  have sd: "state_domain s i = rg_domain (abs_state s) i" and st: "state_tld s i = rg_tld (abs_state s) i" for i
    using rep_domain [OF r] rep_tld [OF r] by auto
  have E: "?F = ?E"
    by (rule fmap_ext) (simp add: listed_lookup d t m sd st rg_domain_def rg_tld_def split: option.splits entry.splits)
  have e: "tree_ok cr fmempty smt_new" by (simp add: tree_ok_def leaves_def canon_new smt.cont_emp fun_eq_iff)
  obtain t1 where t1: "insert_leaves cr domains (domain_leaf_v2 cr) smt_new = Some t1" "tree_ok cr (listed domains DomainEntry fmempty) t1"
    using insert_leaves_ok [OF e d, of DomainEntry "domain_leaf_v2 cr"] by auto
  have "\<forall>i\<in>fst ` set tlds. fmlookup (listed domains DomainEntry fmempty) i = None"
    using assms(5) by (auto simp: listed_lookup d m sd st rg_domain_def rg_tld_def split: option.splits entry.splits)
  then obtain t2 where t2: "insert_leaves cr tlds (tld_leaf_v2 cr) t1 = Some t2" "tree_ok cr ?E t2"
    using insert_leaves_ok [OF t1(2) t, of TldEntry "tld_leaf_v2 cr"] E by auto
  have "smt_eq t2 (cs_smt s)" using tree_ok_unique [OF t2(2)] r by (simp add: rep_def store_ok_def)
  then have "smt_root cr t2 = smt_root cr (cs_smt s)" by (simp add: smt_eq_def smt_root_def)
  then show ?thesis using t1 t2 by (simp add: recompute_state_root_def top_hash_def state_root_smt_def)
qed

text \<open>C18: The root recomputed from a snapshot is the root of the state: for every valid state and every
  listing of its domains and TLDs, once each and in any order, the recomputation succeeds and gives
  exactly the state root that a full node maintains incrementally and signs in its checkpoints.\<close>

theorem snapshot_root_exact:
  assumes "valid_state cr s" "distinct domains" "set domains = {(i, d). state_domain s i = Some d}"
    "distinct tlds" "set tlds = {(i, t). state_tld s i = Some t}"
  shows "recompute_state_root cr domains tlds = Some (state_root_smt cr s)"
  by (rule recompute_root [OF assms])

theorem snapshot_root_exact_witness:
  "\<exists>s. valid_state len_crypto s \<and> recompute_state_root len_crypto [(20, ex_domain)] [(14, \<lparr>ts_owner = 46, ts_open = True\<rparr>)]
     = Some (state_root_smt len_crypto s)"
proof -
  obtain s where s: "valid_state len_crypto s" "abs_state s = ex_registry ex_entries3" by (rule ex_state)
  then have r: "rep len_crypto s (ex_registry ex_entries3)" by (simp add: valid_state_def)
  have "set [(20, ex_domain)] = {(i, d). state_domain s i = Some d}"
    "set [(14, \<lparr>ts_owner = 46, ts_open = True\<rparr>)] = {(i, t). state_tld s i = Some t}"
    by (auto simp: rep_domain [OF r] rep_tld [OF r] rg_domain_def rg_tld_def ex_registry_def split: if_splits)
  then show ?thesis using snapshot_root_exact [OF s(1), of "[(20, ex_domain)]" "[(14, \<lparr>ts_owner = 46, ts_open = True\<rparr>)]"] s(1) by auto
qed

end
