(* ===== verification/Scone_Mempool.thy ===== *)
theory Scone_Mempool
  imports Scone_Block
begin

text \<open>
  The mempool of \<^verbatim>\<open>scone-network/src/mempool.rs\<close>: a bounded set of transactions, deduplicated by
  identifier, with the order of insertion kept beside the map. It implements a bounded queue
  without repetitions: every sequence of operations gives the results of the queue.
\<close>

section \<open>The pool\<close>

definition MAX_PENDING_PER_DOMAIN :: nat where "MAX_PENDING_PER_DOMAIN = 4"

fun domain_key_of :: "transaction \<Rightarrow> hash32 option" where
  "domain_key_of (RegisterDomain r) = Some (rd_domain_id r)"
| "domain_key_of (UpdateDomain u) = Some (ud_domain_id u)"
| "domain_key_of (AssignDomain a) = Some (ad_domain_id a)"
| "domain_key_of (RenewDomain r) = Some (rn_domain_id r)"
| "domain_key_of (TransferDomain t) = Some (td_domain_id t)"
| "domain_key_of (RegisterTld t) = Some (rt_tld_id t)"
| "domain_key_of (TransferTld t) = Some (tt_tld_id t)"
| "domain_key_of (RevokeTld r) = Some (rv_tld_id r)"
| "domain_key_of (SetTldOpen s) = Some (so_tld_id s)"
| "domain_key_of (Slash _) = None"

record mempool =
  mp_capacity :: nat
  mp_order :: "hash32 list"
  mp_entries :: "(hash32, transaction) fmap"

text \<open>The only error of the pool.\<close>

datatype mempool_error = LimitExceeded

definition mempool_new :: "nat \<Rightarrow> mempool" where
  "mempool_new capacity = \<lparr>mp_capacity = capacity, mp_order = [], mp_entries = fmempty\<rparr>"

definition mempool_len :: "mempool \<Rightarrow> nat" where "mempool_len m = fcard (fmdom (mp_entries m))"
definition mempool_is_empty :: "mempool \<Rightarrow> bool" where "mempool_is_empty m \<longleftrightarrow> mempool_len m = 0"
definition mempool_contains :: "mempool \<Rightarrow> hash32 \<Rightarrow> bool" where "mempool_contains m i \<longleftrightarrow> i |\<in>| fmdom (mp_entries m)"

definition mempool_insert :: "hash32 \<Rightarrow> transaction \<Rightarrow> mempool \<Rightarrow> mempool \<times> (mempool_error + bool)" where
  "mempool_insert i tx m =
     (if mempool_contains m i then (m, Inr False)
      else if mp_capacity m \<le> mempool_len m then (m, Inl LimitExceeded)
      else (m\<lparr>mp_order := mp_order m @ [i], mp_entries := fmupd i tx (mp_entries m)\<rparr>, Inr True))"

definition count_for_domain :: "mempool \<Rightarrow> hash32 \<Rightarrow> nat" where
  "count_for_domain m key =
     fcard (ffilter (\<lambda>i. domain_key_of (the (fmlookup (mp_entries m) i)) = Some key) (fmdom (mp_entries m)))"

text \<open>\<^verbatim>\<open>ids.iter().filter_map(|id| self.entries.remove(id))\<close>.\<close>

fun take_entries :: "hash32 list \<Rightarrow> (hash32, transaction) fmap \<Rightarrow> transaction list \<times> (hash32, transaction) fmap" where
  "take_entries [] es = ([], es)"
| "take_entries (i # is) es = (case take_entries is (fmdrop i es) of (txs, es') \<Rightarrow>
     (case fmlookup es i of None \<Rightarrow> txs | Some tx \<Rightarrow> tx # txs, es'))"

definition drain_up_to :: "nat \<Rightarrow> mempool \<Rightarrow> mempool \<times> transaction list" where
  "drain_up_to n m = (let k = min n (length (mp_order m)) in
     case take_entries (take k (mp_order m)) (mp_entries m) of (txs, es) \<Rightarrow>
       (m\<lparr>mp_order := drop k (mp_order m), mp_entries := es\<rparr>, txs))"

definition mempool_remove :: "hash32 \<Rightarrow> mempool \<Rightarrow> mempool" where
  "mempool_remove i m =
     (if mempool_contains m i
      then m\<lparr>mp_order := filter (\<lambda>x. x \<noteq> i) (mp_order m), mp_entries := fmdrop i (mp_entries m)\<rparr> else m)"

section \<open>The queue\<close>

type_synonym queue = "(hash32 \<times> transaction) list"

definition queue_insert :: "nat \<Rightarrow> hash32 \<Rightarrow> transaction \<Rightarrow> queue \<Rightarrow> queue \<times> (mempool_error + bool)" where
  "queue_insert cap i tx q =
     (if i \<in> fst ` set q then (q, Inr False) else if cap \<le> length q then (q, Inl LimitExceeded) else (q @ [(i, tx)], Inr True))"

datatype pool_op = PoolInsert hash32 transaction | PoolDrain nat | PoolRemove hash32
datatype pool_result = InsertResult "mempool_error + bool" | DrainResult "transaction list" | RemoveResult

fun pool_step :: "pool_op \<Rightarrow> mempool \<Rightarrow> mempool \<times> pool_result" where
  "pool_step (PoolInsert i tx) m = map_prod id InsertResult (mempool_insert i tx m)"
| "pool_step (PoolDrain n) m = map_prod id DrainResult (drain_up_to n m)"
| "pool_step (PoolRemove i) m = (mempool_remove i m, RemoveResult)"

fun queue_step :: "nat \<Rightarrow> pool_op \<Rightarrow> queue \<Rightarrow> queue \<times> pool_result" where
  "queue_step cap (PoolInsert i tx) q = map_prod id InsertResult (queue_insert cap i tx q)"
| "queue_step cap (PoolDrain n) q = (drop n q, DrainResult (map snd (take n q)))"
| "queue_step cap (PoolRemove i) q = (filter (\<lambda>x. fst x \<noteq> i) q, RemoveResult)"

fun run_steps :: "('op \<Rightarrow> 's \<Rightarrow> 's \<times> 'r) \<Rightarrow> 'op list \<Rightarrow> 's \<Rightarrow> 's \<times> 'r list" where
  "run_steps step [] s = (s, [])"
| "run_steps step (x # xs) s = (case step x s of (s', r) \<Rightarrow> case run_steps step xs s' of (s'', rs) \<Rightarrow> (s'', r # rs))"

text \<open>The pool holds a queue.\<close>

definition pool_rep :: "nat \<Rightarrow> queue \<Rightarrow> mempool \<Rightarrow> bool" where
  "pool_rep cap q m \<longleftrightarrow> mp_capacity m = cap \<and> mp_order m = map fst q \<and> distinct (map fst q) \<and> length q \<le> cap
     \<and> fmlookup (mp_entries m) = map_of q"

lemma rep_dom: "pool_rep cap q m \<Longrightarrow> fset (fmdom (mp_entries m)) = fst ` set q"
  by (simp add: pool_rep_def fmdom.rep_eq dom_map_of_conv_image_fst)

lemma rep_observe:
  assumes "pool_rep cap q m"
  shows "mempool_len m = length q" "mempool_is_empty m \<longleftrightarrow> q = []" "mempool_contains m i \<longleftrightarrow> i \<in> fst ` set q"
    "count_for_domain m key = length (filter (\<lambda>(i, tx). domain_key_of tx = Some key) q)"
proof -
  have d: "distinct (map fst q)" "fmlookup (mp_entries m) = map_of q" using assms by (simp_all add: pool_rep_def)
  then have c: "card (fst ` set q') = length q'" if "set q' \<subseteq> set q" "distinct q'" for q'
    using that distinct_card [of "map fst q'"] by (auto simp: distinct_map intro: inj_on_subset)
  show "mempool_len m = length q" using rep_dom [OF assms] c [of q] d(1) by (simp add: mempool_len_def fcard.rep_eq distinct_map)
  then show "mempool_is_empty m \<longleftrightarrow> q = []" by (simp add: mempool_is_empty_def)
  show "mempool_contains m i \<longleftrightarrow> i \<in> fst ` set q" using rep_dom [OF assms] by (simp add: mempool_contains_def)
  have "{i. domain_key_of (the (map_of q i)) = Some key} \<inter> fst ` set q = fst ` set (filter (\<lambda>(i, tx). domain_key_of tx = Some key) q)"
    using d(1) by (force simp: image_iff)
  then show "count_for_domain m key = length (filter (\<lambda>(i, tx). domain_key_of tx = Some key) q)"
    using rep_dom [OF assms] d c [of "filter (\<lambda>(i, tx). domain_key_of tx = Some key) q"]
    by (simp add: count_for_domain_def fcard.rep_eq ffilter.rep_eq distinct_map)
qed

lemma take_entries_front:
  "fmlookup es = map_of (q1 @ q2) \<Longrightarrow> distinct (map fst (q1 @ q2)) \<Longrightarrow>
     \<exists>es'. take_entries (map fst q1) es = (map snd q1, es') \<and> fmlookup es' = map_of q2"
proof (induction q1 arbitrary: es)
  case (Cons x q1)
  obtain i tx where x: "x = (i, tx)" by (cases x)
  have "map_of (q1 @ q2) i = None" using Cons.prems(2) x by (simp add: map_of_eq_None_iff)
  then have "fmlookup (fmdrop i es) = map_of (q1 @ q2)" using Cons.prems(1) x by (auto simp: fun_eq_iff simp del: map_of_append)
  then show ?case using Cons.IH [of "fmdrop i es"] Cons.prems x by auto
qed simp

lemma pool_step_rep:
  assumes "pool_rep cap q m" shows "pool_rep cap (fst (queue_step cap x q)) (fst (pool_step x m))"
    "snd (pool_step x m) = snd (queue_step cap x q)"
proof -
  have d: "distinct (map fst q)" "fmlookup (mp_entries m) = map_of q" "mp_order m = map fst q" "mp_capacity m = cap" "length q \<le> cap"
    using assms by (simp_all add: pool_rep_def)
  have "pool_rep cap (fst (queue_step cap x q)) (fst (pool_step x m)) \<and> snd (pool_step x m) = snd (queue_step cap x q)"
  proof (cases x)
    case (PoolInsert i tx)
    have "map_of (q @ [(i, tx)]) = (map_of q)(i \<mapsto> tx)" if "i \<notin> fst ` set q"
      using that by (induction q) (auto simp: fun_eq_iff)
    then show ?thesis using PoolInsert d rep_observe [OF assms] by (auto simp: mempool_insert_def queue_insert_def pool_rep_def)
  next
    case (PoolDrain n)
    have "fmlookup (mp_entries m) = map_of (take n q @ drop n q)" "distinct (map fst (take n q @ drop n q))" using d by simp_all
    from take_entries_front [OF this] obtain es' where
      "take_entries (map fst (take n q)) (mp_entries m) = (map snd (take n q), es')" "fmlookup es' = map_of (drop n q)" by blast
    moreover have "take (min n (length q)) (map fst q) = map fst (take n q)" "drop (min n (length q)) (map fst q) = map fst (drop n q)"
      by (simp_all add: min_def take_map drop_map)
    ultimately show ?thesis using PoolDrain d by (auto simp: drain_up_to_def Let_def pool_rep_def distinct_drop drop_map [symmetric])
  next
    case (PoolRemove i)
    have "map_of (filter (\<lambda>x. fst x \<noteq> i) q) = (map_of q)(i := None)" for q :: queue by (induction q) auto
    moreover have "filter (\<lambda>x. fst x \<noteq> i) q = q" if "i \<notin> fst ` set q" using that by (force simp: filter_id_conv)
    moreover have "distinct (map fst (filter (\<lambda>x. fst x \<noteq> i) q))" using d(1) by (simp add: distinct_map_filter)
    moreover have "length (filter (\<lambda>x. fst x \<noteq> i) q) \<le> cap" using d(5) length_filter_le order_trans by blast
    ultimately show ?thesis using PoolRemove d rep_observe(3) [OF assms, of i] assms
      by (auto simp: mempool_remove_def pool_rep_def filter_map o_def fun_eq_iff map_of_eq_None_iff)
  qed
  then show "pool_rep cap (fst (queue_step cap x q)) (fst (pool_step x m))" "snd (pool_step x m) = snd (queue_step cap x q)" by auto
qed

lemma pool_run_rep:
  "pool_rep cap q m \<Longrightarrow> run_steps pool_step xs m = (m', rs) \<Longrightarrow> run_steps (queue_step cap) xs q = (q', rs') \<Longrightarrow> pool_rep cap q' m' \<and> rs = rs'"
proof (induction xs arbitrary: q m rs rs')
  case (Cons x xs)
  then show ?case using pool_step_rep [OF Cons.prems(1), of x] by (fastforce split: prod.splits)
qed auto

text \<open>C35: The mempool is a bounded queue without repetitions: for every sequence of insertions, drains and
  removals the results are those of the queue (an insertion of a pooled identifier is ignored, one
  into a full pool refused, a drain hands out the oldest transactions in order of insertion), and
  afterwards the size, membership and the count per domain are those of the queue, whose length
  never exceeds the capacity.\<close>

theorem mempool_queue:
  "case (run_steps pool_step xs (mempool_new cap), run_steps (queue_step cap) xs []) of ((m, rs), (q, rs')) \<Rightarrow>
     rs = rs' \<and> mempool_len m = length q \<and> length q \<le> cap \<and> distinct (map fst q)
     \<and> (\<forall>i. mempool_contains m i \<longleftrightarrow> i \<in> fst ` set q)
     \<and> (\<forall>key. count_for_domain m key = length (filter (\<lambda>(i, tx). domain_key_of tx = Some key) q))"
proof -
  have "pool_rep cap [] (mempool_new cap)" by (simp add: pool_rep_def mempool_new_def fun_eq_iff)
  then have r: "pool_rep cap q m \<and> rs = rs'"
    if "run_steps pool_step xs (mempool_new cap) = (m, rs)" "run_steps (queue_step cap) xs [] = (q, rs')" for m rs q rs'
    using pool_run_rep that by blast
  obtain m rs q rs' where e: "run_steps pool_step xs (mempool_new cap) = (m, rs)" "run_steps (queue_step cap) xs [] = (q, rs')"
    by fastforce
  have "pool_rep cap q m" using r [OF e] ..
  then show ?thesis using r [OF e] rep_observe by (simp add: e) (simp add: pool_rep_def)
qed

end
