(* ===== verification/Scone_Groups.thy ===== *)
theory Scone_Groups
  imports Scone_Pow
begin

text \<open>
  The record groups of \<^verbatim>\<open>scone-core/src/groups.rs\<close>: a domain has a clear public group and encrypted
  groups with a priority; the chain sees one root that commits to every group. Decryption is a
  parameter of the selection, as in the code. Addresses are printed the way the standard library
  prints them. The root binds the identifiers and what each group commits to; that commitment
  leaves out the bytes of records of unknown type.
\<close>

section \<open>Printing\<close>

fun show_digits :: "nat \<Rightarrow> string" where
  "show_digits n = (if n < 10 then [char_of (48 + n)] else show_digits (n div 10) @ [char_of (48 + n mod 10)])"

declare show_digits.simps [simp del]

definition show_hex :: "nat \<Rightarrow> char" where
  "show_hex d = char_of (if d < 10 then 48 + d else 87 + d)"

fun show_hex_digits :: "nat \<Rightarrow> string" where
  "show_hex_digits n = (if n < 16 then [show_hex n] else show_hex_digits (n div 16) @ [show_hex (n mod 16)])"

declare show_hex_digits.simps [simp del]

fun join :: "string \<Rightarrow> string list \<Rightarrow> string" where
  "join sep [] = []"
| "join sep [x] = x"
| "join sep (x # y # xs) = x @ sep @ join sep (y # xs)"

definition show_ipv4 :: "u32 \<Rightarrow> string" where
  "show_ipv4 ip = join ''.'' (map (\<lambda>b. show_digits (unat b)) (be_bytes 4 ip))"

definition segments :: "128 word \<Rightarrow> nat list" where
  "segments ip = map (\<lambda>i. unat ip div 2 ^ (16 * (7 - i)) mod 2 ^ 16) [0..<8]"

text \<open>The first longest run of zero segments: its start and length.\<close>

fun zero_run :: "nat list \<Rightarrow> nat \<Rightarrow> nat \<times> nat \<Rightarrow> nat \<times> nat \<Rightarrow> nat \<times> nat" where
  "zero_run [] i cur longest = longest"
| "zero_run (s # ss) i (start, len) longest =
     (if s = 0 then
        let cur = (if len = 0 then i else start, len + 1) in
        zero_run ss (i + 1) cur (if snd longest < snd cur then cur else longest)
      else zero_run ss (i + 1) (0, 0) longest)"

definition show_ipv6 :: "128 word \<Rightarrow> string" where
  "show_ipv6 ip = (let segs = segments ip in
     if take 5 segs = [0, 0, 0, 0, 0] \<and> segs ! 5 = 65535
     then ''::ffff:'' @ show_ipv4 (of_nat (segs ! 6 * 65536 + segs ! 7))
     else case zero_run segs 0 (0, 0) (0, 0) of (start, len) \<Rightarrow>
       if 1 < len
       then join '':'' (map show_hex_digits (take start segs)) @ ''::'' @ join '':'' (map show_hex_digits (drop (start + len) segs))
       else join '':'' (map show_hex_digits segs))"

section \<open>Groups\<close>

definition GROUP_TAG :: bytes where "GROUP_TAG = str_bytes ''SCONE-GROUP-V1''"
definition GROUPS_ROOT_TAG :: bytes where "GROUPS_ROOT_TAG = str_bytes ''SCONE-GROUPS-V1''"
definition PUBLIC_GROUP :: string where "PUBLIC_GROUP = ''public''"

definition group_id_new :: "string \<Rightarrow> string result" where
  "group_id_new label =
     (if 1 \<le> length label \<and> length label \<le> 32 \<and> list_all ldh_byte label
      then Inr label else Inl InvalidRecord)"

datatype group_content = Clear "record_data list" | Encrypted bytes

record record_group =
  gr_id :: string
  gr_content :: group_content

definition canonical_line :: "record_data \<Rightarrow> string" where
  "canonical_line r = (case r of
       RA ip \<Rightarrow> ''A '' @ show_ipv4 ip
     | RAaaa ip \<Rightarrow> ''AAAA '' @ show_ipv6 ip
     | RCname n \<Rightarrow> ''CNAME '' @ n
     | RMx preference exchange \<Rightarrow> ''MX '' @ show_digits (unat preference) @ '' '' @ exchange
     | RTxt t \<Rightarrow> ''TXT '' @ t
     | RNs n \<Rightarrow> ''NS '' @ n
     | RUnknown type_code data \<Rightarrow> ''TYPE'' @ show_digits (unat type_code) @ '' '' @ show_digits (length data)) @ [CHR 0x0A]"

definition canonical_records :: "record_data list \<Rightarrow> bytes" where
  "canonical_records records = str_bytes (concat (map canonical_line records))"

definition commitment :: "crypto \<Rightarrow> record_group \<Rightarrow> hash32" where
  "commitment cr g = (case gr_content g of
       Clear records \<Rightarrow> hash256 cr [GROUP_TAG, str_bytes (gr_id g), str_bytes ''clear'', canonical_records records]
     | Encrypted ct \<Rightarrow> hash256 cr [GROUP_TAG, str_bytes (gr_id g), str_bytes ''enc'', ct])"

definition is_public :: "record_group \<Rightarrow> bool" where "is_public g \<longleftrightarrow> gr_id g = PUBLIC_GROUP"

record group_map =
  gm_priority :: "string list"
  gm_groups :: "record_group list"

definition public_only :: "record_data list \<Rightarrow> group_map" where
  "public_only records = \<lparr>gm_priority = [PUBLIC_GROUP], gm_groups = [\<lparr>gr_id = PUBLIC_GROUP, gr_content = Clear records\<rparr>]\<rparr>"

definition groups_validate :: "group_map \<Rightarrow> unit result" where
  "groups_validate m = (case find is_public (gm_groups m) of
       None \<Rightarrow> Inl InvalidRecord
     | Some g \<Rightarrow>
         (case gr_content g of Encrypted _ \<Rightarrow> Inl InvalidRecord
          | Clear _ \<Rightarrow>
              if length (gm_groups m) \<noteq> length (gm_priority m) then Inl InvalidRecord
              else if list_all (\<lambda>g. length (filter (\<lambda>p. p = gr_id g) (gm_priority m)) = 1) (gm_groups m) then Inr ()
              else Inl InvalidRecord))"

text \<open>\<^verbatim>\<open>sort_by\<close> is stable.\<close>

definition root_entry :: "hash32 \<times> string \<Rightarrow> bytes" where
  "root_entry x = str_bytes (snd x) @ [0] @ h32_bytes (fst x)"

definition root_input :: "crypto \<Rightarrow> group_map \<Rightarrow> bytes" where
  "root_input cr m = GROUPS_ROOT_TAG @ concat (map root_entry (sort_key snd (map (\<lambda>g. (commitment cr g, gr_id g)) (gm_groups m))))"

definition groups_root :: "crypto \<Rightarrow> group_map \<Rightarrow> hash32" where
  "groups_root cr m = hash256 cr [root_input cr m]"

fun record_type :: "record_data \<Rightarrow> u16" where
  "record_type (RA _) = 1"
| "record_type (RNs _) = 2"
| "record_type (RCname _) = 5"
| "record_type (RMx _ _) = 15"
| "record_type (RTxt _) = 16"
| "record_type (RAaaa _) = 28"
| "record_type (RUnknown type_code _) = type_code"

type_synonym decrypt_fn = "string \<Rightarrow> bytes \<Rightarrow> record_data list option"

fun select_from :: "string list \<Rightarrow> record_group list \<Rightarrow> u16 \<Rightarrow> decrypt_fn \<Rightarrow> record_data list" where
  "select_from [] groups rtype decrypt = []"
| "select_from (i # is) groups rtype decrypt =
     (case find (\<lambda>g. gr_id g = i) groups of None \<Rightarrow> select_from is groups rtype decrypt
      | Some g \<Rightarrow>
          (case (case gr_content g of Clear r \<Rightarrow> Some r | Encrypted ct \<Rightarrow> decrypt (gr_id g) ct) of
             None \<Rightarrow> select_from is groups rtype decrypt
           | Some r \<Rightarrow>
               let r' = filter (\<lambda>x. record_type x = rtype) r in
               if r' \<noteq> [] then r' else select_from is groups rtype decrypt))"

definition groups_select :: "group_map \<Rightarrow> u16 \<Rightarrow> decrypt_fn \<Rightarrow> record_data list" where
  "groups_select m rtype decrypt = select_from (gm_priority m) (gm_groups m) rtype decrypt"

section \<open>What the root binds\<close>

definition commit_input :: "record_group \<Rightarrow> bytes" where
  "commit_input g = GROUP_TAG @ str_bytes (gr_id g) @ (case gr_content g of
       Clear records \<Rightarrow> str_bytes ''clear'' @ canonical_records records | Encrypted ct \<Rightarrow> str_bytes ''enc'' @ ct)"

text \<open>What a group commits to: its identifier and its canonical lines or its ciphertext.\<close>

definition committed :: "record_group \<Rightarrow> string \<times> (bytes + bytes)" where
  "committed g = (gr_id g, case gr_content g of Clear records \<Rightarrow> Inl (canonical_records records) | Encrypted ct \<Rightarrow> Inr ct)"

definition valid_ids :: "group_map \<Rightarrow> bool" where
  "valid_ids m \<longleftrightarrow> list_all (\<lambda>g. group_id_new (gr_id g) = Inr (gr_id g)) (gm_groups m) \<and> distinct (map gr_id (gm_groups m))"

lemma commitment_input: "commitment cr g = blake3 cr (commit_input g)"
  by (simp add: commitment_def commit_input_def hash256_def split: group_content.splits)

lemma commit_input_committed: "gr_id g = gr_id h \<Longrightarrow> commit_input g = commit_input h \<longleftrightarrow> committed g = committed h"
  by (auto simp: commit_input_def committed_def str_bytes_def split: group_content.splits)

lemma root_entries_inject:
  assumes "concat (map root_entry xs) = concat (map root_entry ys)" "\<forall>x\<in>set xs \<union> set ys. 0 \<notin> set (str_bytes (snd x))"
  shows "xs = ys"
  using assms
proof (induction xs arbitrary: ys)
  case Nil
  then show ?case by (cases ys) (auto simp: root_entry_def)
next
  case (Cons x xs)
  then obtain y ys' where y: "ys = y # ys'" by (cases ys) (auto simp: root_entry_def)
  have e: "str_bytes (snd x) @ 0 # h32_bytes (fst x) @ concat (map root_entry xs)
      = str_bytes (snd y) @ 0 # h32_bytes (fst y) @ concat (map root_entry ys')"
    using Cons.prems(1) y by (simp add: root_entry_def [of x] root_entry_def [of y])
  have n: "0 \<notin> set (str_bytes (snd x))" "0 \<notin> set (str_bytes (snd y))" using Cons.prems(2) y by auto
  have "str_bytes (snd x) = str_bytes (snd y)" "h32_bytes (fst x) @ concat (map root_entry xs) = h32_bytes (fst y) @ concat (map root_entry ys')"
    using e unfolding append_marker_inject [OF n] by blast+
  then have "snd x = snd y" "fst x = fst y" "concat (map root_entry xs) = concat (map root_entry ys')"
    by (simp_all add: be_bytes_inject)
  then show ?case using Cons.IH [of ys'] Cons.prems(2) y by (auto simp: prod_eq_iff)
qed

lemma valid_no_zero: "group_id_new l = Inr l \<Longrightarrow> 0 \<notin> set (str_bytes l)"
proof -
  assume "group_id_new l = Inr l"
  then have "list_all ldh_byte l" by (simp add: group_id_new_def split: if_splits)
  moreover have "\<not> ldh_byte c" if "of_char c = (0 :: u8)" for c
  proof -
    have "of_char c = (of_char (CHR 0x00) :: u8)" using that by simp
    then have "c = CHR 0x00" using str_bytes_inject [of "[c]" "[CHR 0x00]"] by (simp add: str_bytes_def)
    then show ?thesis by (simp add: ldh_byte_def is_ascii_lowercase_def is_ascii_digit_def less_eq_char_def)
  qed
  ultimately show ?thesis by (auto simp: str_bytes_def list_all_iff)
qed

lemma valid_ids_no_zero: "valid_ids m \<Longrightarrow> g \<in> set (gm_groups m) \<Longrightarrow> 0 \<notin> set (str_bytes (gr_id g))"
  by (rule valid_no_zero) (simp add: valid_ids_def list_all_iff)

abbreviation tagged :: "crypto \<Rightarrow> group_map \<Rightarrow> (hash32 \<times> string) list" where
  "tagged cr m \<equiv> map (\<lambda>g. (commitment cr g, gr_id g)) (gm_groups m)"

lemma root_input_set:
  assumes "valid_ids m" "valid_ids n"
  shows "root_input cr m = root_input cr n \<longleftrightarrow> set (tagged cr m) = set (tagged cr n)"
proof
  assume "root_input cr m = root_input cr n"
  then have "concat (map root_entry (sort_key snd (tagged cr m))) = concat (map root_entry (sort_key snd (tagged cr n)))"
    by (simp add: root_input_def)
  moreover have "\<forall>x\<in>set (sort_key snd (tagged cr m)) \<union> set (sort_key snd (tagged cr n)). 0 \<notin> set (str_bytes (snd x))"
    using valid_ids_no_zero [OF assms(1)] valid_ids_no_zero [OF assms(2)] by auto
  ultimately have "sort_key snd (tagged cr m) = sort_key snd (tagged cr n)" by (rule root_entries_inject)
  from arg_cong [OF this, of set] show "set (tagged cr m) = set (tagged cr n)" by (simp only: set_sort)
next
  assume s: "set (tagged cr m) = set (tagged cr n)"
  have d: "distinct (map snd (tagged cr k))" if "valid_ids k" for k using that by (simp add: valid_ids_def comp_def)
  have d': "distinct (map snd (sort_key snd (tagged cr k)))" if "valid_ids k" for k
    using d [OF that] unfolding distinct_map [of snd] distinct_sort set_sort .
  have "inj_on snd (set (tagged cr m))" using d [OF assms(1)] unfolding distinct_map [of snd] ..
  then have "sort_key snd (tagged cr m) = sort_key snd (tagged cr n)"
    by (intro map_sorted_distinct_set_unique [where f = snd]) (use s d' assms in \<open>simp_all del: set_map\<close>)
  then show "root_input cr m = root_input cr n" by (simp add: root_input_def)
qed

lemma same_images:
  assumes "\<And>g h. g \<in> A \<union> B \<Longrightarrow> h \<in> A \<union> B \<Longrightarrow> f g = f h \<longleftrightarrow> c g = c h" shows "f ` A = f ` B \<longleftrightarrow> c ` A = c ` B"
proof -
  have "f ` X \<subseteq> f ` Y \<longleftrightarrow> c ` X \<subseteq> c ` Y" if "X \<subseteq> A \<union> B" "Y \<subseteq> A \<union> B" for X Y
  proof -
    have "f ` X \<subseteq> f ` Y \<longleftrightarrow> (\<forall>x\<in>X. \<exists>y\<in>Y. f x = f y)" by (simp add: image_subset_iff image_iff)
    also have "\<dots> \<longleftrightarrow> (\<forall>x\<in>X. \<exists>y\<in>Y. c x = c y)" using assms that by (meson subsetD)
    also have "\<dots> \<longleftrightarrow> c ` X \<subseteq> c ` Y" by (simp add: image_subset_iff image_iff)
    finally show ?thesis .
  qed
  from this [of A B] this [of B A] show ?thesis by (simp add: set_eq_subset)
qed

text \<open>C36: The root of a group map is a commitment to its groups, whatever their order and priority: for maps
  with well-formed, distinct identifiers and no collision among the hashed strings, two roots are
  equal exactly when the maps have the same identifiers with the same ciphertext, or the same
  canonical lines, under each.\<close>

theorem groups_root_binds:
  assumes "valid_ids m" "valid_ids n"
    "inj_on (blake3 cr) ({root_input cr m, root_input cr n} \<union> commit_input ` (set (gm_groups m) \<union> set (gm_groups n)))"
  shows "groups_root cr m = groups_root cr n \<longleftrightarrow> committed ` set (gm_groups m) = committed ` set (gm_groups n)"
proof -
  have "commitment cr g = commitment cr h \<and> gr_id g = gr_id h \<longleftrightarrow> committed g = committed h"
    if "g \<in> set (gm_groups m) \<union> set (gm_groups n)" "h \<in> set (gm_groups m) \<union> set (gm_groups n)" for g h
  proof -
    have "commitment cr g = commitment cr h \<longleftrightarrow> commit_input g = commit_input h"
      using that unfolding commitment_input by (intro inj_on_eq_iff [OF assms(3)]) auto
    then show ?thesis using commit_input_committed [of g h] by (auto simp: committed_def)
  qed
  then have "set (tagged cr m) = set (tagged cr n) \<longleftrightarrow> committed ` set (gm_groups m) = committed ` set (gm_groups n)"
    unfolding set_map by (intro same_images) auto
  moreover have "groups_root cr m = groups_root cr n \<longleftrightarrow> root_input cr m = root_input cr n"
    unfolding groups_root_def hash256_def by (simp add: inj_on_eq_iff [OF assms(3)])
  ultimately show ?thesis using root_input_set [OF assms(1,2)] by simp
qed

definition ex_group :: "string \<Rightarrow> record_group" where
  "ex_group t = \<lparr>gr_id = PUBLIC_GROUP, gr_content = Clear [RTxt t]\<rparr>"

definition ex_root_input :: "hash32 \<Rightarrow> bytes" where
  "ex_root_input c = GROUPS_ROOT_TAG @ root_entry (c, PUBLIC_GROUP)"

definition group_crypto :: crypto where
  "group_crypto = toy_crypto\<lparr>blake3 := (\<lambda>bs. if bs = commit_input (ex_group ''x'') then 1 else if bs = commit_input (ex_group ''y'') then 2
     else if bs = ex_root_input 1 then 3 else if bs = ex_root_input 2 then 4 else 0)\<rparr>"

lemma ex_group_inputs:
  "commit_input (ex_group ''x'') \<noteq> commit_input (ex_group ''y'')" "commit_input (ex_group t) \<noteq> ex_root_input c"
  "ex_root_input 1 \<noteq> ex_root_input 2"
  by (simp_all add: commit_input_def ex_group_def canonical_records_def canonical_line_def ex_root_input_def root_entry_def
      GROUP_TAG_def GROUPS_ROOT_TAG_def be_bytes_inject) (simp_all add: str_bytes_def PUBLIC_GROUP_def)

theorem groups_root_binds_witness:
  "groups_root group_crypto (public_only [RTxt ''x'']) \<noteq> groups_root group_crypto (public_only [RTxt ''y''])"
proof -
  have g: "gm_groups (public_only [RTxt t]) = [ex_group t]" for t by (simp add: public_only_def ex_group_def)
  have c: "commitment group_crypto (ex_group ''x'') = 1" "commitment group_crypto (ex_group ''y'') = 2"
    using ex_group_inputs(1) by (simp_all add: commitment_input group_crypto_def)
  have r: "root_input group_crypto (public_only [RTxt ''x'']) = ex_root_input 1"
    "root_input group_crypto (public_only [RTxt ''y'']) = ex_root_input 2"
    by (simp_all add: root_input_def g c ex_root_input_def) (simp_all add: ex_group_def)
  have v: "valid_ids (public_only [RTxt t])" for t
    by (simp add: valid_ids_def public_only_def group_id_new_def PUBLIC_GROUP_def ldh_byte_def is_ascii_lowercase_def less_eq_char_def)
  have "inj_on (blake3 group_crypto) {ex_root_input 1, ex_root_input 2, commit_input (ex_group ''x''), commit_input (ex_group ''y'')}"
    using ex_group_inputs ex_group_inputs(2) [symmetric] by (simp add: inj_on_def group_crypto_def)
  then have "groups_root group_crypto (public_only [RTxt ''x'']) = groups_root group_crypto (public_only [RTxt ''y''])
      \<longleftrightarrow> committed (ex_group ''x'') = committed (ex_group ''y'')"
    using groups_root_binds [OF v v, of group_crypto "''x''" "''y''"] by (simp add: r g insert_commute)
  moreover have "committed (ex_group ''x'') \<noteq> committed (ex_group ''y'')"
    by (simp add: committed_def ex_group_def canonical_records_def canonical_line_def)
  ultimately show ?thesis by simp
qed

text \<open>The bytes of a record of unknown type are not committed to, only their number.\<close>

theorem unknown_records_uncommitted:
  "length d = length d' \<Longrightarrow> commitment cr \<lparr>gr_id = i, gr_content = Clear (rs @ [RUnknown c d])\<rparr>
     = commitment cr \<lparr>gr_id = i, gr_content = Clear (rs @ [RUnknown c d'])\<rparr>"
  by (simp add: commitment_def canonical_records_def canonical_line_def)

text \<open>Validation does not make the identifiers unique: a second public group passes beside a priority
  entry that names no group.\<close>

theorem duplicate_groups_accepted:
  "groups_validate \<lparr>gm_priority = [PUBLIC_GROUP, ''ghost''],
     gm_groups = [\<lparr>gr_id = PUBLIC_GROUP, gr_content = Clear rs\<rparr>, \<lparr>gr_id = PUBLIC_GROUP, gr_content = Encrypted ct\<rparr>]\<rparr> = Inr ()"
  by (simp add: groups_validate_def is_public_def PUBLIC_GROUP_def)

end
