(* ===== verification/Scone_Store.thy ===== *)
theory Scone_Store
  imports Scone_Chain
begin

text \<open>
  The persistent store of \<^verbatim>\<open>scone-storage\<close>: the state encodings of \<^verbatim>\<open>state_bytes.rs\<close> and the tables of
  \<^verbatim>\<open>redb.rs\<close>. The database \<^verbatim>\<open>redb\<close> is third-party code; what the store uses of it is its documented
  contract: a table is an ordered map, a write transaction that is dropped on an error leaves the
  database as it was, and one that commits takes effect as a whole. So a store is a record of
  finite maps, a transaction is a function on it, and \<open>commit\<close> is the transaction boundary. Errors
  of the database itself (input and output) are not modelled. Keys of 32 bytes are words, whose
  order is the byte order. \<open>None\<close> is a panic.
\<close>

section \<open>Errors and results\<close>

datatype storage_error =
    StNonMonotonicHeight u64 u64 | StConflict | StTooLarge nat nat | StReservedKey bytes | StSnapshotUnavailable
  | StSnapshotRejected | StCorrupted | StUnsupportedFormat u64

type_synonym 'a st_result = "storage_error + 'a"

text \<open>\<^verbatim>\<open>?\<close> on a result that may also panic.\<close>

definition obind :: "('e + 'a) option \<Rightarrow> ('a \<Rightarrow> ('e + 'b) option) \<Rightarrow> ('e + 'b) option" where
  "obind r f = (case r of None \<Rightarrow> None | Some (Inl e) \<Rightarrow> Some (Inl e) | Some (Inr a) \<Rightarrow> f a)"

lemma obind_simps [simp]: "obind None f = None" "obind (Some (Inl e)) f = Some (Inl e)" "obind (Some (Inr a)) f = f a"
  by (simp_all add: obind_def)

section \<open>State encodings\<close>

definition DOMAIN_STATE_LEN_NONE :: nat where "DOMAIN_STATE_LEN_NONE = 57"
definition DOMAIN_STATE_LEN_SOME :: nat where "DOMAIN_STATE_LEN_SOME = DOMAIN_STATE_LEN_NONE + 32"
definition TAG_WITH_HASH :: u8 where "TAG_WITH_HASH = 0x01"
definition TAG_WITHOUT_HASH :: u8 where "TAG_WITHOUT_HASH = 0x02"

text \<open>The fixed array of 89 bytes.\<close>

definition domain_state_bytes :: "domain_state \<Rightarrow> bytes" where
  "domain_state_bytes st = (let body = h32_bytes (ds_owner st) @ u64_be (ds_sequence st) @ u64_be (ds_registered_at st) @ u64_be (ds_valid_until st) in
     case ds_record_hash st of
       Some h \<Rightarrow> TAG_WITH_HASH # body @ h32_bytes h
     | None \<Rightarrow> TAG_WITHOUT_HASH # body @ replicate 32 0)"

definition domain_as_encoded :: "bytes \<Rightarrow> bytes" where
  "domain_as_encoded a = take (if hd a = TAG_WITH_HASH then DOMAIN_STATE_LEN_SOME else DOMAIN_STATE_LEN_NONE) a"

definition domain_decode :: "bytes \<Rightarrow> domain_state st_result" where
  "domain_decode bs =
     (let finish = (\<lambda>hash. Inr \<lparr>ds_owner = h32_of_bytes (slice 1 33 bs), ds_sequence = from_be_bytes (slice 33 41 bs), ds_record_hash = hash,
            ds_registered_at = from_be_bytes (slice 41 49 bs), ds_valid_until = from_be_bytes (slice 49 57 bs)\<rparr>) in
      case bs of [] \<Rightarrow> Inl StCorrupted
      | tag # _ \<Rightarrow>
          if tag = TAG_WITH_HASH \<and> length bs = DOMAIN_STATE_LEN_SOME then finish (Some (h32_of_bytes (slice 57 89 bs)))
          else if tag = TAG_WITHOUT_HASH \<and> length bs = DOMAIN_STATE_LEN_NONE then finish None
          else Inl StCorrupted)"

text \<open>An entry of the domain table; the key has 32 bytes by its type.\<close>

definition stored_domain :: "bytes \<Rightarrow> bytes st_result" where
  "stored_domain v =
     (if length v \<noteq> DOMAIN_STATE_LEN_NONE \<and> length v \<noteq> DOMAIN_STATE_LEN_SOME then Inl StCorrupted
      else Inr (v @ replicate (DOMAIN_STATE_LEN_SOME - length v) 0))"

definition TLD_STATE_LEN :: nat where "TLD_STATE_LEN = 34"
definition TAG_TLD_V2 :: u8 where "TAG_TLD_V2 = 0x02"

definition tld_state_bytes :: "tld_state \<Rightarrow> bytes" where
  "tld_state_bytes st = TAG_TLD_V2 # h32_bytes (ts_owner st) @ [if ts_open st then 1 else 0]"

definition tld_as_encoded :: "bytes \<Rightarrow> bytes" where "tld_as_encoded a = take TLD_STATE_LEN a"

definition tld_decode :: "bytes \<Rightarrow> tld_state st_result" where
  "tld_decode bs = (case bs of [] \<Rightarrow> Inl StCorrupted
     | tag # _ \<Rightarrow>
         if tag = TAG_TLD_V2 \<and> length bs = TLD_STATE_LEN then
           (if bs ! 33 = 0 then Inr \<lparr>ts_owner = h32_of_bytes (slice 1 33 bs), ts_open = False\<rparr>
            else if bs ! 33 = 1 then Inr \<lparr>ts_owner = h32_of_bytes (slice 1 33 bs), ts_open = True\<rparr>
            else Inl StCorrupted)
         else Inl StCorrupted)"

definition stored_tld :: "bytes \<Rightarrow> bytes st_result" where
  "stored_tld v = (if length v \<noteq> TLD_STATE_LEN then Inl StCorrupted else Inr v)"

section \<open>Tables\<close>

definition STORAGE_FORMAT_VERSION :: u64 where "STORAGE_FORMAT_VERSION = 1"
definition META_TIP :: bytes where "META_TIP = str_bytes ''tip''"
definition META_FORMAT_VERSION :: bytes where "META_FORMAT_VERSION = str_bytes ''format_version''"
definition META_TIP_HEIGHT :: bytes where "META_TIP_HEIGHT = str_bytes ''tip_height''"
definition META_DOMAIN_COUNT :: bytes where "META_DOMAIN_COUNT = str_bytes ''domain_count''"
definition META_TLD_COUNT :: bytes where "META_TLD_COUNT = str_bytes ''tld_count''"
definition META_VERIFIED_SNAPSHOT :: bytes where "META_VERIFIED_SNAPSHOT = str_bytes ''verified_snapshot_v1''"
definition MAX_DHT_CACHE_ENTRY :: nat where "MAX_DHT_CACHE_ENTRY = 64 * 1024"
definition MAX_DOMAIN_PAGE :: nat where "MAX_DOMAIN_PAGE = 10000"
definition MAX_TLD_PAGE :: nat where "MAX_TLD_PAGE = 10000"
definition SNAPSHOT_INTERVAL :: u64 where "SNAPSHOT_INTERVAL = 64"
definition BLOCK_INDEX_HEADER :: nat where "BLOCK_INDEX_HEADER = 32 + 8"
definition SNAPSHOT_META_LEN :: nat where "SNAPSHOT_META_LEN = 8 + 32"
definition NAME_INDEX_VERSION :: bytes where "NAME_INDEX_VERSION = str_bytes ''SCONE-NAME-IDX-V1''"
definition NAME_TAG_DOMAIN :: u8 where "NAME_TAG_DOMAIN = 0x01"
definition NAME_TAG_TLD :: u8 where "NAME_TAG_TLD = 0x02"

type_synonym rows = "(hash32, bytes) fmap"
type_synonym meta_rows = "(bytes, bytes) fmap"

record store =
  st_by_height :: "(u64, bytes) fmap"
  st_by_hash :: rows
  st_domains :: rows
  st_tlds :: rows
  st_names :: rows
  st_reverse :: rows
  st_dht :: rows
  st_meta :: meta_rows
  st_snap_meta :: "(u64, bytes) fmap"
  st_snap_domains :: rows
  st_snap_tlds :: rows

record name_binding =
  nb_is_tld :: bool
  nb_name :: string
  nb_target :: hash32

record state_delta =
  sd_domains :: "(domain_id \<times> bytes) list"
  sd_tlds :: "(tld_id \<times> bytes) list"
  sd_removed_domains :: "domain_id list"
  sd_removed_tlds :: "tld_id list"
  sd_name_upserts :: "name_binding list"
  sd_name_removals :: "(bool \<times> hash32) list"

definition delta_empty :: state_delta where
  "delta_empty = \<lparr>sd_domains = [], sd_tlds = [], sd_removed_domains = [], sd_removed_tlds = [], sd_name_upserts = [], sd_name_removals = []\<rparr>"

text \<open>The transaction boundary.\<close>

definition commit :: "store \<Rightarrow> (storage_error + store) option \<Rightarrow> (store \<times> unit st_result) option" where
  "commit s r = map_option (\<lambda>x. case x of Inl e \<Rightarrow> (s, Inl e) | Inr s' \<Rightarrow> (s', Inr ())) r"

section \<open>Metadata\<close>

definition ensure_not_reserved :: "bytes \<Rightarrow> unit st_result" where
  "ensure_not_reserved key =
     (if key \<in> {META_TIP, META_TIP_HEIGHT, META_FORMAT_VERSION, META_DOMAIN_COUNT, META_TLD_COUNT, META_VERIFIED_SNAPSHOT}
      then Inl (StReservedKey key) else Inr ())"

definition meta_u64 :: "meta_rows \<Rightarrow> bytes \<Rightarrow> u64 st_result" where
  "meta_u64 m key = (case fmlookup m key of None \<Rightarrow> Inl StCorrupted
     | Some bs \<Rightarrow> if length bs \<noteq> 8 then Inl StCorrupted else Inr (from_be_bytes bs))"

definition meta_u256 :: "meta_rows \<Rightarrow> bytes \<Rightarrow> hash32 st_result" where
  "meta_u256 m key = (case fmlookup m key of None \<Rightarrow> Inl StCorrupted
     | Some bs \<Rightarrow> if length bs \<noteq> 32 then Inl StCorrupted else Inr (h32_of_bytes bs))"

definition write_tip :: "u64 \<Rightarrow> hash32 \<Rightarrow> meta_rows \<Rightarrow> meta_rows" where
  "write_tip height hash m = fmupd META_TIP_HEIGHT (u64_be height) (fmupd META_TIP (h32_bytes hash) m)"

text \<open>The counters: \<^verbatim>\<open>current + n\<close> panics on overflow, \<^verbatim>\<open>checked_sub\<close> is an error.\<close>

definition add_counter :: "bytes \<Rightarrow> u64 \<Rightarrow> meta_rows \<Rightarrow> meta_rows st_result option" where
  "add_counter key n m =
     (if n = 0 then Some (Inr m)
      else case meta_u64 m key of Inl e \<Rightarrow> Some (Inl e)
      | Inr current \<Rightarrow> map_option (\<lambda>c. Inr (fmupd key (u64_be c) m)) (checked_add current n))"

definition sub_counter :: "bytes \<Rightarrow> u64 \<Rightarrow> meta_rows \<Rightarrow> meta_rows st_result" where
  "sub_counter key n m =
     (if n = 0 then Inr m
      else case meta_u64 m key of Inl e \<Rightarrow> Inl e
      | Inr current \<Rightarrow> (case checked_sub current n of None \<Rightarrow> Inl StCorrupted | Some c \<Rightarrow> Inr (fmupd key (u64_be c) m)))"

definition tip_inner :: "store \<Rightarrow> (u64 \<times> hash32) st_result" where
  "tip_inner s = try_bind (meta_u256 (st_meta s) META_TIP) (\<lambda>hash.
     try_bind (meta_u64 (st_meta s) META_TIP_HEIGHT) (\<lambda>height. Inr (height, hash)))"

definition store_domain_count :: "store \<Rightarrow> u64 st_result" where "store_domain_count s = meta_u64 (st_meta s) META_DOMAIN_COUNT"
definition store_tld_count :: "store \<Rightarrow> u64 st_result" where "store_tld_count s = meta_u64 (st_meta s) META_TLD_COUNT"

definition check_format_version :: "store \<Rightarrow> unit st_result" where
  "check_format_version s = try_bind (meta_u64 (st_meta s) META_FORMAT_VERSION) (\<lambda>version.
     if version \<noteq> STORAGE_FORMAT_VERSION then Inl (StUnsupportedFormat version) else Inr ())"

text \<open>Opening a database, which is empty when the file is new.\<close>

definition store_open :: "crypto \<Rightarrow> store \<Rightarrow> (store \<times> unit st_result) option" where
  "store_open cr db = map_option (\<lambda>genesis.
     let m = st_meta db;
         m' = (if fmlookup m META_FORMAT_VERSION = None
           then fmupd META_TLD_COUNT (u64_be 0) (fmupd META_DOMAIN_COUNT (u64_be 0)
             (write_tip 0 genesis (fmupd META_FORMAT_VERSION (u64_be STORAGE_FORMAT_VERSION) m)))
           else m);
         s = db\<lparr>st_meta := m'\<rparr> in
     (s, check_format_version s)) (genesis_hash cr)"

definition meta_get :: "bytes \<Rightarrow> store \<Rightarrow> bytes option" where "meta_get key s = fmlookup (st_meta s) key"

definition meta_set :: "bytes \<Rightarrow> bytes \<Rightarrow> store \<Rightarrow> store \<times> unit st_result" where
  "meta_set key val s = (case ensure_not_reserved key of Inl e \<Rightarrow> (s, Inl e)
     | Inr _ \<Rightarrow> (s\<lparr>st_meta := fmupd key val (st_meta s)\<rparr>, Inr ()))"

section \<open>The name index\<close>

text \<open>A name is its bytes, as in a \<^verbatim>\<open>String\<close>.\<close>

definition name_index_key :: "crypto \<Rightarrow> bytes \<Rightarrow> hash32" where
  "name_index_key cr canonical = hash256 cr [NAME_INDEX_VERSION, canonical]"

definition name_reverse_value :: "bool \<Rightarrow> bytes \<Rightarrow> bytes" where
  "name_reverse_value is_tld canonical = (if is_tld then NAME_TAG_TLD else NAME_TAG_DOMAIN) # canonical"

definition decode_name_reverse :: "bytes \<Rightarrow> (bool \<times> bytes) st_result" where
  "decode_name_reverse bs = (case bs of [] \<Rightarrow> Inl StCorrupted
     | tag # name \<Rightarrow>
         if tag \<noteq> NAME_TAG_DOMAIN \<and> tag \<noteq> NAME_TAG_TLD then Inl StCorrupted
         else if \<not> utf8_valid name then Inl StCorrupted
         else if name = [] then Inl StCorrupted
         else Inr (tag = NAME_TAG_TLD, name))"

definition bind_name :: "crypto \<Rightarrow> name_binding \<Rightarrow> rows \<times> rows \<Rightarrow> rows \<times> rows" where
  "bind_name cr nb = (\<lambda>(names, reverse).
     (fmupd (name_index_key cr (str_bytes (nb_name nb))) (h32_bytes (nb_target nb)) names,
      fmupd (nb_target nb) (name_reverse_value (nb_is_tld nb) (str_bytes (nb_name nb))) reverse))"

definition remove_name_entry :: "crypto \<Rightarrow> hash32 \<Rightarrow> rows \<times> rows \<Rightarrow> (rows \<times> rows) st_result" where
  "remove_name_entry cr i = (\<lambda>(names, reverse).
     case fmlookup reverse i of None \<Rightarrow> Inr (names, reverse)
     | Some v \<Rightarrow> try_bind (decode_name_reverse v) (\<lambda>(_, name).
         Inr (fmdrop (name_index_key cr name) names, fmdrop i reverse)))"

fun remove_names :: "crypto \<Rightarrow> (bool \<times> hash32) list \<Rightarrow> rows \<times> rows \<Rightarrow> (rows \<times> rows) st_result" where
  "remove_names cr [] nr = Inr nr"
| "remove_names cr ((_, i) # rest) nr = try_bind (remove_name_entry cr i nr) (remove_names cr rest)"

definition apply_name_deltas :: "crypto \<Rightarrow> name_binding list \<Rightarrow> (bool \<times> hash32) list \<Rightarrow> rows \<times> rows \<Rightarrow> (rows \<times> rows) st_result" where
  "apply_name_deltas cr upserts removals nr = remove_names cr removals (fold (bind_name cr) upserts nr)"

text \<open>The two lookups differ in the namespace they want.\<close>

definition resolve_in :: "crypto \<Rightarrow> bool \<Rightarrow> string \<Rightarrow> store \<Rightarrow> hash32 option st_result" where
  "resolve_in cr want_tld name s =
     (case fmlookup (st_names s) (name_index_key cr (str_bytes name)) of None \<Rightarrow> Inr None
      | Some v \<Rightarrow>
          if length v \<noteq> 32 then Inr None
          else let i = h32_of_bytes v in
            case fmlookup (st_reverse s) i of None \<Rightarrow> Inl StCorrupted
            | Some r \<Rightarrow> try_bind (decode_name_reverse r) (\<lambda>(is_tld, _). Inr (if is_tld = want_tld then Some i else None)))"

definition resolve_name :: "crypto \<Rightarrow> string \<Rightarrow> store \<Rightarrow> domain_id option st_result" where
  "resolve_name cr = resolve_in cr False"

definition resolve_tld :: "crypto \<Rightarrow> string \<Rightarrow> store \<Rightarrow> tld_id option st_result" where
  "resolve_tld cr = resolve_in cr True"

section \<open>Single entries\<close>

definition put_domain_state :: "domain_id \<Rightarrow> bytes \<Rightarrow> store \<Rightarrow> (store \<times> unit st_result) option" where
  "put_domain_state i a s = commit s
     (obind (if fmlookup (st_domains s) i = None then add_counter META_DOMAIN_COUNT 1 (st_meta s) else Some (Inr (st_meta s))) (\<lambda>m.
        Some (Inr (s\<lparr>st_domains := fmupd i (domain_as_encoded a) (st_domains s), st_meta := m\<rparr>))))"

definition put_tld_state :: "tld_id \<Rightarrow> bytes \<Rightarrow> store \<Rightarrow> (store \<times> unit st_result) option" where
  "put_tld_state i a s = commit s
     (obind (if fmlookup (st_tlds s) i = None then add_counter META_TLD_COUNT 1 (st_meta s) else Some (Inr (st_meta s))) (\<lambda>m.
        Some (Inr (s\<lparr>st_tlds := fmupd i (tld_as_encoded a) (st_tlds s), st_meta := m\<rparr>))))"

definition put_domain_state_with_name :: "crypto \<Rightarrow> domain_id \<Rightarrow> bytes \<Rightarrow> string \<Rightarrow> store \<Rightarrow> (store \<times> unit st_result) option" where
  "put_domain_state_with_name cr i a name s = commit s
     (obind (if fmlookup (st_domains s) i = None then add_counter META_DOMAIN_COUNT 1 (st_meta s) else Some (Inr (st_meta s))) (\<lambda>m.
      obind (Some (apply_name_deltas cr [\<lparr>nb_is_tld = False, nb_name = name, nb_target = i\<rparr>] [] (st_names s, st_reverse s))) (\<lambda>(n, r).
        Some (Inr (s\<lparr>st_domains := fmupd i (domain_as_encoded a) (st_domains s), st_meta := m, st_names := n, st_reverse := r\<rparr>)))))"

definition put_tld_state_with_name :: "crypto \<Rightarrow> tld_id \<Rightarrow> bytes \<Rightarrow> string \<Rightarrow> store \<Rightarrow> (store \<times> unit st_result) option" where
  "put_tld_state_with_name cr i a name s = commit s
     (obind (if fmlookup (st_tlds s) i = None then add_counter META_TLD_COUNT 1 (st_meta s) else Some (Inr (st_meta s))) (\<lambda>m.
      obind (Some (apply_name_deltas cr [\<lparr>nb_is_tld = True, nb_name = name, nb_target = i\<rparr>] [] (st_names s, st_reverse s))) (\<lambda>(n, r).
        Some (Inr (s\<lparr>st_tlds := fmupd i (tld_as_encoded a) (st_tlds s), st_meta := m, st_names := n, st_reverse := r\<rparr>)))))"

definition remove_domain_state :: "crypto \<Rightarrow> domain_id \<Rightarrow> store \<Rightarrow> (store \<times> unit st_result) option" where
  "remove_domain_state cr i s = commit s (Some
     (try_bind (if fmlookup (st_domains s) i \<noteq> None then sub_counter META_DOMAIN_COUNT 1 (st_meta s) else Inr (st_meta s)) (\<lambda>m.
      try_bind (remove_name_entry cr i (st_names s, st_reverse s)) (\<lambda>(n, r).
        Inr (s\<lparr>st_domains := fmdrop i (st_domains s), st_meta := m, st_names := n, st_reverse := r\<rparr>)))))"

definition store_domain_state :: "domain_id \<Rightarrow> store \<Rightarrow> bytes option st_result" where
  "store_domain_state i s = (case fmlookup (st_domains s) i of None \<Rightarrow> Inr None
     | Some v \<Rightarrow> try_bind (stored_domain v) (\<lambda>a. Inr (Some a)))"

definition store_tld_state :: "tld_id \<Rightarrow> store \<Rightarrow> bytes option st_result" where
  "store_tld_state i s = (case fmlookup (st_tlds s) i of None \<Rightarrow> Inr None
     | Some v \<Rightarrow> try_bind (stored_tld v) (\<lambda>a. Inr (Some a)))"

definition put_dht_cache :: "domain_id \<Rightarrow> bytes \<Rightarrow> store \<Rightarrow> store \<times> unit st_result" where
  "put_dht_cache i bs s =
     (if MAX_DHT_CACHE_ENTRY < length bs then (s, Inl (StTooLarge (length bs) MAX_DHT_CACHE_ENTRY))
      else (s\<lparr>st_dht := fmupd i bs (st_dht s)\<rparr>, Inr ()))"

definition dht_cache :: "domain_id \<Rightarrow> store \<Rightarrow> bytes option" where "dht_cache i s = fmlookup (st_dht s) i"

section \<open>Blocks\<close>

definition indexed_block :: "u64 \<Rightarrow> hash32 \<Rightarrow> bytes \<Rightarrow> bytes" where
  "indexed_block height hash block_bytes = h32_bytes hash @ u64_be height @ block_bytes"

definition block_at_height :: "u64 \<Rightarrow> store \<Rightarrow> bytes option st_result" where
  "block_at_height height s = (case fmlookup (st_by_height s) height of None \<Rightarrow> Inr None
     | Some bs \<Rightarrow> if length bs < BLOCK_INDEX_HEADER then Inl StCorrupted else Inr (Some (drop BLOCK_INDEX_HEADER bs)))"

definition block_by_hash :: "hash32 \<Rightarrow> store \<Rightarrow> bytes option" where "block_by_hash hash s = fmlookup (st_by_hash s) hash"

text \<open>The rows written or removed and how many of them were new or present.\<close>

definition upsert_rows :: "(bytes \<Rightarrow> bytes) \<Rightarrow> (hash32 \<times> bytes) list \<Rightarrow> rows \<Rightarrow> rows \<times> nat" where
  "upsert_rows as_encoded xs t = fold (\<lambda>(i, a) (t, n). (fmupd i (as_encoded a) t, if fmlookup t i = None then n + 1 else n)) xs (t, 0)"

definition remove_rows :: "hash32 list \<Rightarrow> rows \<Rightarrow> rows \<times> nat" where
  "remove_rows ids t = fold (\<lambda>i (t, n). (fmdrop i t, if fmlookup t i = None then n else n + 1)) ids (t, 0)"

definition append_deltas :: "crypto \<Rightarrow> u64 \<Rightarrow> hash32 \<Rightarrow> bytes \<Rightarrow> bytes \<Rightarrow> state_delta \<Rightarrow> store \<Rightarrow> (storage_error + store) option" where
  "append_deltas cr height hash block_bytes indexed d s =
     (case fmlookup (st_by_height s) height of
        Some previous \<Rightarrow> if previous = indexed then Some (Inr s) else Some (Inl StConflict)
      | None \<Rightarrow>
          let (domains1, new_domains) = upsert_rows domain_as_encoded (sd_domains d) (st_domains s);
              (tlds1, new_tlds) = upsert_rows tld_as_encoded (sd_tlds d) (st_tlds s);
              (domains2, removed_domain_count) = remove_rows (sd_removed_domains d) domains1;
              (tlds2, removed_tld_count) = remove_rows (sd_removed_tlds d) tlds1 in
          obind (add_counter META_DOMAIN_COUNT (of_nat new_domains) (st_meta s)) (\<lambda>m1.
          obind (add_counter META_TLD_COUNT (of_nat new_tlds) m1) (\<lambda>m2.
          obind (Some (sub_counter META_DOMAIN_COUNT (of_nat removed_domain_count) m2)) (\<lambda>m3.
          obind (Some (sub_counter META_TLD_COUNT (of_nat removed_tld_count) m3)) (\<lambda>m4.
          obind (Some (apply_name_deltas cr (sd_name_upserts d) (sd_name_removals d) (st_names s, st_reverse s))) (\<lambda>(n, r).
            Some (Inr (s\<lparr>st_by_height := fmupd height indexed (st_by_height s), st_by_hash := fmupd hash block_bytes (st_by_hash s),
              st_domains := domains2, st_tlds := tlds2, st_names := n, st_reverse := r, st_meta := write_tip height hash m4\<rparr>))))))))"

definition snapshot_core :: "u64 \<Rightarrow> hash32 \<Rightarrow> store \<Rightarrow> store" where
  "snapshot_core height hash s = s\<lparr>st_snap_meta := fmupd 0 (u64_be height @ h32_bytes hash) fmempty,
     st_snap_domains := st_domains s, st_snap_tlds := st_tlds s\<rparr>"

definition append_core :: "crypto \<Rightarrow> u64 \<Rightarrow> hash32 \<Rightarrow> bytes \<Rightarrow> state_delta \<Rightarrow> store \<Rightarrow> (storage_error + store) option" where
  "append_core cr height hash block_bytes d s =
     (let indexed = indexed_block height hash block_bytes in
      if 1 < height \<and> (height - 1) mod SNAPSHOT_INTERVAL = 0 then
        (case fmlookup (st_by_height s) (height - 1) of None \<Rightarrow> Some (Inl StCorrupted)
         | Some v \<Rightarrow>
             if length v < 32 then Some (Inl StCorrupted)
             else append_deltas cr height hash block_bytes indexed d (snapshot_core (height - 1) (h32_of_bytes (take 32 v)) s))
      else append_deltas cr height hash block_bytes indexed d s)"

definition append_block_with_state :: "crypto \<Rightarrow> u64 \<Rightarrow> hash32 \<Rightarrow> bytes \<Rightarrow> state_delta \<Rightarrow> store \<Rightarrow> (store \<times> unit st_result) option" where
  "append_block_with_state cr height hash block_bytes d s =
     (case tip_inner s of Inl e \<Rightarrow> Some (s, Inl e)
      | Inr (tip_height, tip) \<Rightarrow>
          if height = tip_height \<and> hash = tip then Some (s, Inr ())
          else case checked_add tip_height 1 of None \<Rightarrow> Some (s, Inl (StNonMonotonicHeight (- 1) height))
          | Some expected \<Rightarrow>
              if height \<noteq> expected then Some (s, Inl (StNonMonotonicHeight expected height))
              else commit s (append_core cr height hash block_bytes d s))"

definition append_block :: "crypto \<Rightarrow> u64 \<Rightarrow> hash32 \<Rightarrow> bytes \<Rightarrow> store \<Rightarrow> (store \<times> unit st_result) option" where
  "append_block cr height hash block_bytes s = append_block_with_state cr height hash block_bytes delta_empty s"

section \<open>Pages\<close>

text \<open>A page: the rows after the cursor in key order, at most \<open>mx\<close> of them, each decoded.\<close>

type_synonym page = "(hash32 \<times> bytes) list \<times> hash32 option"

fun table_loop :: "(bytes \<Rightarrow> bytes st_result) \<Rightarrow> hash32 option \<Rightarrow> nat \<Rightarrow> (hash32 \<times> bytes) list \<Rightarrow> page \<Rightarrow> page st_result" where
  "table_loop entry_of after mx [] p = Inr p"
| "table_loop entry_of after mx ((k, v) # rest) (out, cursor) =
     (if after = Some k then table_loop entry_of after mx rest (out, cursor)
      else try_bind (entry_of v) (\<lambda>a.
        let out' = out @ [(k, a)] in
        if length out' = mx then Inr (out', Some k) else table_loop entry_of after mx rest (out', Some k)))"

definition rows_from :: "hash32 option \<Rightarrow> rows \<Rightarrow> (hash32 \<times> bytes) list" where
  "rows_from after t = map (\<lambda>k. (k, the (fmlookup t k)))
     (filter (\<lambda>k. case after of None \<Rightarrow> True | Some start \<Rightarrow> start \<le> k) (sorted_list_of_fset (fmdom t)))"

definition table_page :: "(bytes \<Rightarrow> bytes st_result) \<Rightarrow> nat \<Rightarrow> hash32 option \<Rightarrow> nat \<Rightarrow> rows \<Rightarrow> page st_result" where
  "table_page entry_of cap after mx t =
     (let mx' = min mx cap in
      if mx' = 0 then Inr ([], after) else table_loop entry_of after mx' (rows_from after t) ([], after))"

definition iterate_domains :: "hash32 option \<Rightarrow> nat \<Rightarrow> store \<Rightarrow> page st_result" where
  "iterate_domains after mx s = table_page stored_domain MAX_DOMAIN_PAGE after mx (st_domains s)"

definition iterate_tlds :: "hash32 option \<Rightarrow> nat \<Rightarrow> store \<Rightarrow> page st_result" where
  "iterate_tlds after mx s = table_page stored_tld MAX_TLD_PAGE after mx (st_tlds s)"

definition snapshot_domains :: "hash32 option \<Rightarrow> nat \<Rightarrow> store \<Rightarrow> page st_result" where
  "snapshot_domains after mx s = table_page stored_domain MAX_DOMAIN_PAGE after mx (st_snap_domains s)"

definition snapshot_tlds :: "hash32 option \<Rightarrow> nat \<Rightarrow> store \<Rightarrow> page st_result" where
  "snapshot_tlds after mx s = table_page stored_tld MAX_TLD_PAGE after mx (st_snap_tlds s)"

record snapshot_meta =
  sm_height :: u64
  sm_tip_hash :: hash32

definition store_snapshot_meta :: "store \<Rightarrow> snapshot_meta option st_result" where
  "store_snapshot_meta s = (case fmlookup (st_snap_meta s) 0 of None \<Rightarrow> Inr None
     | Some bs \<Rightarrow> if length bs \<noteq> SNAPSHOT_META_LEN then Inl StCorrupted
         else Inr (Some \<lparr>sm_height = from_be_bytes (take 8 bs), sm_tip_hash = h32_of_bytes (drop 8 bs)\<rparr>))"

section \<open>Imported snapshots\<close>

definition MARKER_LEN :: nat where "MARKER_LEN = 8 + 32 + 32"

record marker =
  mk_height :: u64
  mk_tip_hash :: hash32
  mk_manifest_hash :: hash32

definition marker_encode :: "marker \<Rightarrow> bytes" where
  "marker_encode m = u64_be (mk_height m) @ h32_bytes (mk_tip_hash m) @ h32_bytes (mk_manifest_hash m)"

definition marker_decode :: "bytes \<Rightarrow> marker st_result" where
  "marker_decode bs =
     (if length bs \<noteq> MARKER_LEN then Inl StCorrupted
      else Inr \<lparr>mk_height = from_be_bytes (slice 0 8 bs), mk_tip_hash = h32_of_bytes (slice 8 40 bs),
        mk_manifest_hash = h32_of_bytes (slice 40 72 bs)\<rparr>)"

definition verified_snapshot_marker :: "store \<Rightarrow> marker option st_result" where
  "verified_snapshot_marker s = (case meta_get META_VERIFIED_SNAPSHOT s of None \<Rightarrow> Inr None
     | Some bs \<Rightarrow> try_bind (marker_decode bs) (\<lambda>m. Inr (Some m)))"

definition put_rows :: "(bytes \<Rightarrow> bytes) \<Rightarrow> (hash32 \<times> bytes) list \<Rightarrow> rows \<Rightarrow> rows" where
  "put_rows as_encoded xs t = fold (\<lambda>(i, a). fmupd i (as_encoded a)) xs t"

definition write_verified_snapshot :: "(domain_id \<times> bytes) list \<Rightarrow> (tld_id \<times> bytes) list \<Rightarrow> marker \<Rightarrow> store
    \<Rightarrow> store \<times> unit st_result" where
  "write_verified_snapshot domains tlds m s =
     (case tip_inner s of Inl e \<Rightarrow> (s, Inl e)
      | Inr (tip_height, _) \<Rightarrow>
          if tip_height \<noteq> 0 then (s, Inl StSnapshotUnavailable)
          else (s\<lparr>st_domains := put_rows domain_as_encoded domains (st_domains s), st_tlds := put_rows tld_as_encoded tlds (st_tlds s),
             st_snap_meta := fmupd 0 (u64_be (mk_height m) @ h32_bytes (mk_tip_hash m)) fmempty,
             st_snap_domains := put_rows domain_as_encoded domains fmempty, st_snap_tlds := put_rows tld_as_encoded tlds fmempty,
             st_meta := fmupd META_VERIFIED_SNAPSHOT (marker_encode m) (write_tip (mk_height m) (mk_tip_hash m)
               (fmupd META_TLD_COUNT (u64_be (of_nat (length tlds))) (fmupd META_DOMAIN_COUNT (u64_be (of_nat (length domains))) (st_meta s))))\<rparr>,
            Inr ()))"

definition append_bootstrap_anchor :: "u64 \<Rightarrow> hash32 \<Rightarrow> bytes \<Rightarrow> store \<Rightarrow> (store \<times> unit st_result) option" where
  "append_bootstrap_anchor height hash block_bytes s =
     (case verified_snapshot_marker s of Inl e \<Rightarrow> Some (s, Inl e)
      | Inr None \<Rightarrow> Some (s, Inl StSnapshotUnavailable)
      | Inr (Some m) \<Rightarrow>
          if height \<noteq> mk_height m \<or> hash \<noteq> mk_tip_hash m then Some (s, Inl StSnapshotUnavailable)
          else case tip_inner s of Inl e \<Rightarrow> Some (s, Inl e)
          | Inr (tip_height, _) \<Rightarrow>
              if tip_height \<noteq> mk_height m
              then map_option (\<lambda>expected. (s, Inl (StNonMonotonicHeight expected height))) (checked_add tip_height 1)
              else let indexed = indexed_block height hash block_bytes in
                Some (case fmlookup (st_by_height s) height of
                    Some previous \<Rightarrow> (s, if previous = indexed then Inr () else Inl StConflict)
                  | None \<Rightarrow> (s\<lparr>st_by_height := fmupd height indexed (st_by_height s), st_by_hash := fmupd hash block_bytes (st_by_hash s)\<rparr>, Inr ())))"

section \<open>Rebuilding the name index\<close>

definition tx_binding :: "transaction \<Rightarrow> name_binding option" where
  "tx_binding tx = (case tx of
       RegisterDomain r \<Rightarrow> Some \<lparr>nb_is_tld = False, nb_name = rd_name r, nb_target = rd_domain_id r\<rparr>
     | AssignDomain a \<Rightarrow> Some \<lparr>nb_is_tld = False, nb_name = ad_name a, nb_target = ad_domain_id a\<rparr>
     | RegisterTld t \<Rightarrow> Some \<lparr>nb_is_tld = True, nb_name = rt_name t, nb_target = rt_tld_id t\<rparr>
     | _ \<Rightarrow> None)"

text \<open>The stored block at a height, which must be there and decode.\<close>

definition stored_block :: "crypto \<Rightarrow> store \<Rightarrow> u64 \<Rightarrow> block st_result" where
  "stored_block cr s height = try_bind (block_at_height height s) (\<lambda>r.
     case r of None \<Rightarrow> Inl StCorrupted
     | Some bs \<Rightarrow> (case decode_complete (take_block cr) bs of Inl _ \<Rightarrow> Inl StCorrupted | Inr b \<Rightarrow> Inr b))"

fun collect_binds :: "crypto \<Rightarrow> store \<Rightarrow> u64 list \<Rightarrow> (hash32, name_binding) fmap \<Rightarrow> (hash32, name_binding) fmap st_result" where
  "collect_binds cr s [] m = Inr m"
| "collect_binds cr s (h # hs) m = try_bind (stored_block cr s h) (\<lambda>b.
     collect_binds cr s hs (fold (\<lambda>nb. fmupd (nb_target nb) nb) (List.map_filter tx_binding (blk_transactions b)) m))"

text \<open>The iteration order of the hash map is the argument \<open>iter\<close>.\<close>

definition rebuild_name_index :: "crypto \<Rightarrow> (hash32 fset \<Rightarrow> hash32 list) \<Rightarrow> store \<Rightarrow> store \<times> unit st_result" where
  "rebuild_name_index cr iter s =
     (case try_bind (tip_inner s) (\<lambda>(tip_height, _). collect_binds cr s (map of_nat [1..<unat tip_height + 1]) fmempty) of
        Inl e \<Rightarrow> (s, Inl e)
      | Inr binds \<Rightarrow>
          let live = (\<lambda>nb. fmlookup (if nb_is_tld nb then st_tlds s else st_domains s) (nb_target nb) \<noteq> None);
              upserts = filter live (map (\<lambda>i. the (fmlookup binds i)) (iter (fmdom binds))) in
          (case apply_name_deltas cr upserts [] (fmempty, fmempty) of Inl e \<Rightarrow> (s, Inl e)
           | Inr (n, r) \<Rightarrow> (s\<lparr>st_names := n, st_reverse := r\<rparr>, Inr ())))"

end
