(* ===== verification/Scone_Persist.thy ===== *)
theory Scone_Persist
  imports Scone_Store Scone_Replay
begin

text \<open>
  The chain and its store (\<^verbatim>\<open>crates/scone-storage/src/integration.rs\<close>): what a block changes is written with
  it, and a restart loads the chain from the frozen snapshot and the blocks after it, from the live
  tables, or by replaying every block.
\<close>

section \<open>Writing a block\<close>

definition DOMAIN_PAGE :: nat where "DOMAIN_PAGE = 100"
definition TLD_PAGE :: nat where "TLD_PAGE = 100"

definition tx_touched_tld :: "transaction \<Rightarrow> tld_id option" where
  "tx_touched_tld tx = (case tx of RegisterTld r \<Rightarrow> Some (rt_tld_id r) | TransferTld t \<Rightarrow> Some (tt_tld_id t)
     | RevokeTld r \<Rightarrow> Some (rv_tld_id r) | SetTldOpen s \<Rightarrow> Some (so_tld_id s) | _ \<Rightarrow> None)"

definition tx_touched_domain :: "transaction \<Rightarrow> domain_id option" where
  "tx_touched_domain tx = (case tx of RegisterDomain r \<Rightarrow> Some (rd_domain_id r) | UpdateDomain u \<Rightarrow> Some (ud_domain_id u)
     | AssignDomain a \<Rightarrow> Some (ad_domain_id a) | RenewDomain r \<Rightarrow> Some (rn_domain_id r)
     | TransferDomain t \<Rightarrow> Some (td_domain_id t) | _ \<Rightarrow> None)"

text \<open>The first occurrences, in order.\<close>

fun first_seen :: "hash32 set \<Rightarrow> hash32 list \<Rightarrow> hash32 list" where
  "first_seen seen [] = []"
| "first_seen seen (x # xs) = (if x \<in> seen then first_seen seen xs else x # first_seen (insert x seen) xs)"

definition touched_tlds :: "block \<Rightarrow> tld_id list" where
  "touched_tlds b = first_seen {} (List.map_filter tx_touched_tld (blk_transactions b))"

definition touched_domains :: "block \<Rightarrow> domain_id list" where
  "touched_domains b = first_seen {} (List.map_filter tx_touched_domain (blk_transactions b))"

definition gc_of_block :: "store \<Rightarrow> block \<Rightarrow> domain_id list" where "gc_of_block s b = []"

definition block_delta :: "chain_state \<Rightarrow> block \<Rightarrow> domain_id list \<Rightarrow> state_delta" where
  "block_delta st b removed =
     (let tld_removals = filter (\<lambda>i. state_tld st i = None) (touched_tlds b) in
      \<lparr>sd_domains = List.map_filter (\<lambda>i. map_option (\<lambda>d. (i, domain_state_bytes d)) (state_domain st i)) (touched_domains b),
       sd_tlds = List.map_filter (\<lambda>i. map_option (\<lambda>t. (i, tld_state_bytes t)) (state_tld st i)) (touched_tlds b),
       sd_removed_domains = removed, sd_removed_tlds = tld_removals,
       sd_name_upserts = List.map_filter tx_binding (blk_transactions b),
       sd_name_removals = map (Pair False) removed @ map (Pair True) tld_removals\<rparr>)"

definition store_block_with_removals :: "crypto \<Rightarrow> blockchain \<Rightarrow> block \<Rightarrow> hash32 \<Rightarrow> domain_id list \<Rightarrow> store
    \<Rightarrow> (store \<times> unit st_result) option" where
  "store_block_with_removals cr c b hash removed s =
     (case put_block cr b of Inl _ \<Rightarrow> Some (s, Inl StCorrupted)
      | Inr bs \<Rightarrow> append_block_with_state cr (bh_height (blk_header b)) hash bs (block_delta (bc_state c) b removed) s)"

definition store_block :: "crypto \<Rightarrow> blockchain \<Rightarrow> block \<Rightarrow> hash32 \<Rightarrow> store \<Rightarrow> (store \<times> unit st_result) option" where
  "store_block cr c b hash s = store_block_with_removals cr c b hash [] s"

section \<open>Reading the tables\<close>

fun each_row :: "('a \<Rightarrow> 'b \<Rightarrow> 'b st_result option) \<Rightarrow> 'a list \<Rightarrow> 'b \<Rightarrow> 'b st_result option" where
  "each_row f [] st = Some (Inr st)"
| "each_row f (x # xs) st = obind (f x st) (each_row f xs)"

lemma table_loop_page:
  "table_loop entry_of after mx rows (out, cursor) = Inr (out', cursor') \<Longrightarrow>
     \<exists>n xs. out' = out @ xs \<and> map fst xs = map fst (take n (filter (\<lambda>(k, v). after \<noteq> Some k) rows))
       \<and> (if xs = [] then cursor' = cursor else cursor' = Some (fst (last xs)))"
proof (induction rows arbitrary: out cursor)
  case (Cons row rows)
  obtain k v where row: "row = (k, v)" by (cases row)
  consider (same) "after = Some k" | (full) a where "after \<noteq> Some k" "entry_of v = Inr a" "out' = out @ [(k, a)]" "cursor' = Some k"
    | (more) a where "after \<noteq> Some k" "entry_of v = Inr a" "table_loop entry_of after mx rows (out @ [(k, a)], Some k) = Inr (out', cursor')"
    using Cons.prems row by (auto simp: Let_def split: if_splits sum.splits)
  then show ?case
  proof cases
    case same
    then show ?thesis using Cons.IH [of out cursor] Cons.prems row by simp
  next
    case full
    then show ?thesis using row by (intro exI [of _ 1] exI [of _ "[(k, a)]"]) simp
  next
    case more
    obtain n xs where x: "out' = (out @ [(k, a)]) @ xs" "map fst xs = map fst (take n (filter (\<lambda>(k, v). after \<noteq> Some k) rows))"
      "if xs = [] then cursor' = Some k else cursor' = Some (fst (last xs))" using Cons.IH [OF more(3)] by blast
    then show ?thesis using more row by (intro exI [of _ "Suc n"] exI [of _ "(k, a) # xs"]) auto
  qed
qed auto

text \<open>The rows after the cursor, in key order.\<close>

definition after_cursor :: "hash32 option \<Rightarrow> hash32 \<Rightarrow> bool" where
  "after_cursor after k \<longleftrightarrow> (case after of None \<Rightarrow> True | Some c \<Rightarrow> c < k)"

definition rows_after :: "hash32 option \<Rightarrow> rows \<Rightarrow> (hash32 \<times> bytes) list" where
  "rows_after after t = map (\<lambda>k. (k, the (fmlookup t k))) (filter (after_cursor after) (sorted_list_of_fset (fmdom t)))"

lemma rows_from_after: "filter (\<lambda>(k, v). after \<noteq> Some k) (rows_from after t) = rows_after after t"
proof -
  have "filter (\<lambda>k. after \<noteq> Some k) (filter (\<lambda>k. case after of None \<Rightarrow> True | Some start \<Rightarrow> start \<le> k) ks) = filter (after_cursor after) ks" for ks
    by (auto simp: after_cursor_def order_less_le intro!: filter_cong split: option.splits)
  then show ?thesis by (simp add: rows_from_def rows_after_def filter_map o_def)
qed

lemma rows_after_props:
  "sorted_wrt (<) (map fst (rows_after after t))" "distinct (map fst (rows_after after t))"
  "set (map fst (rows_after after t)) = {k. k |\<in>| fmdom t \<and> after_cursor after k}"
proof -
  show s: "sorted_wrt (<) (map fst (rows_after after t))"
    by (simp add: rows_after_def o_def sorted_wrt_filter sorted_list_of_fset_strict)
  then show "distinct (map fst (rows_after after t))" by (simp only: strict_sorted_iff)
qed (auto simp: rows_after_def)

lemma page_cursor:
  assumes "table_page entry_of cap after mx t = Inr (page, nxt)" "page \<noteq> []"
  shows "nxt = Some (fst (last page)) \<and> after_cursor after (fst (last page)) \<and> fst (last page) |\<in>| fmdom t"
proof -
  have "table_loop entry_of after (min mx cap) (rows_from after t) ([], after) = Inr (page, nxt)"
    using assms by (auto simp: table_page_def Let_def split: if_splits)
  then obtain n where n: "map fst page = map fst (take n (rows_after after t))" "nxt = Some (fst (last page))"
    using table_loop_page [of entry_of after "min mx cap" "rows_from after t" "[]" after page nxt] assms(2)
    by (auto simp: rows_from_after)
  have "fst (last page) \<in> set (map fst page)" using assms(2) by auto
  also have "\<dots> \<subseteq> set (map fst (rows_after after t))" unfolding n(1) by (auto dest: in_set_takeD)
  finally show ?thesis using n(2) unfolding rows_after_props(3) by simp
qed

text \<open>The loop over the pages of a table. It ends since the cursor moves up (the page sizes of the callers are positive).\<close>

function load_table :: "(bytes \<Rightarrow> bytes st_result) \<Rightarrow> nat \<Rightarrow> nat \<Rightarrow> (hash32 \<times> bytes \<Rightarrow> 'b \<Rightarrow> 'b st_result option)
    \<Rightarrow> rows \<Rightarrow> hash32 option \<Rightarrow> 'b \<Rightarrow> 'b st_result option" where
  "load_table entry_of cap mx f t cursor st =
     (if mx = 0 then Some (Inr st)
      else case table_page entry_of cap cursor mx t of Inl e \<Rightarrow> Some (Inl e)
      | Inr (page, nxt) \<Rightarrow> obind (each_row f page st) (\<lambda>st'.
          if length page < mx then Some (Inr st') else load_table entry_of cap mx f t nxt st'))"
  by pat_completeness auto
termination
proof (relation "measure (\<lambda>(e, cap, mx, f, t, cursor, st). card {k. k |\<in>| fmdom t \<and> after_cursor cursor k})", simp, clarsimp)
  fix entry_of cap mx f t cursor st page nxt
  assume "0 < mx" and p: "table_page entry_of cap cursor mx t = Inr (page, nxt)" and "\<not> length page < mx"
  then have "page \<noteq> []" by auto
  note c = page_cursor [OF p this]
  let ?k = "fst (last page)"
  have "{k. k |\<in>| fmdom t \<and> after_cursor nxt k} \<subset> {k. k |\<in>| fmdom t \<and> after_cursor cursor k}"
    using c by (auto simp: after_cursor_def split: option.splits)
  then show "card {k. k |\<in>| fmdom t \<and> after_cursor nxt k} < card {k. k |\<in>| fmdom t \<and> after_cursor cursor k}"
    by (intro psubset_card_mono) auto
qed

declare load_table.simps [simp del]

definition restore_domain_row :: "crypto \<Rightarrow> domain_id \<times> bytes \<Rightarrow> chain_state \<Rightarrow> chain_state st_result option" where
  "restore_domain_row cr = (\<lambda>(i, a) st. case domain_decode (domain_as_encoded a) of Inl e \<Rightarrow> Some (Inl e)
     | Inr d \<Rightarrow> map_option (\<lambda>r. case r of Inl _ \<Rightarrow> Inl StCorrupted | Inr st' \<Rightarrow> Inr st') (restore_domain cr i d st))"

definition restore_tld_row :: "crypto \<Rightarrow> tld_id \<times> bytes \<Rightarrow> chain_state \<Rightarrow> chain_state st_result option" where
  "restore_tld_row cr = (\<lambda>(i, a) st. case tld_decode (tld_as_encoded a) of Inl e \<Rightarrow> Some (Inl e)
     | Inr d \<Rightarrow> map_option (\<lambda>r. case r of Inl _ \<Rightarrow> Inl StCorrupted | Inr st' \<Rightarrow> Inr st') (restore_tld cr i d st))"

text \<open>A new state, which is one of the test network, with the rows of the two tables.\<close>

definition load_state :: "crypto \<Rightarrow> rows \<Rightarrow> rows \<Rightarrow> chain_state st_result option" where
  "load_state cr domains tlds =
     obind (load_table stored_domain MAX_DOMAIN_PAGE DOMAIN_PAGE (restore_domain_row cr) domains None chain_state_new)
       (load_table stored_tld MAX_TLD_PAGE TLD_PAGE (restore_tld_row cr) tlds None)"

definition load_from_full_state :: "crypto \<Rightarrow> store \<Rightarrow> network_params \<Rightarrow> u64 \<Rightarrow> block \<Rightarrow> hash32 \<Rightarrow> blockchain st_result option" where
  "load_from_full_state cr s network tip_height tip_block recomputed =
     obind (load_state cr (st_domains s) (st_tlds s)) (\<lambda>st.
       map_option (\<lambda>c. if np_network_id (bc_network c) \<noteq> np_network_id network then Inl StCorrupted else Inr c)
         (restore cr tip_height recomputed tip_block st))"

section \<open>Replaying blocks\<close>

text \<open>The stored block at a height, which must also announce that height.\<close>

definition stored_block_at :: "crypto \<Rightarrow> store \<Rightarrow> u64 \<Rightarrow> block st_result" where
  "stored_block_at cr s h = try_bind (stored_block cr s h) (\<lambda>b. if bh_height (blk_header b) \<noteq> h then Inl StCorrupted else Inr b)"

fun replay_blocks :: "crypto \<Rightarrow> store \<Rightarrow> u64 list \<Rightarrow> blockchain \<Rightarrow> blockchain st_result option" where
  "replay_blocks cr s [] c = Some (Inr c)"
| "replay_blocks cr s (h # hs) c = (case stored_block_at cr s h of Inl e \<Rightarrow> Some (Inl e)
     | Inr b \<Rightarrow> do { (c', r) \<leftarrow> push_block cr b c; case r of Inl _ \<Rightarrow> Some (Inl StCorrupted) | Inr _ \<Rightarrow> replay_blocks cr s hs c' })"

definition heights :: "nat \<Rightarrow> u64 \<Rightarrow> u64 list" where "heights first tip = map of_nat [first..<unat tip + 1]"

text \<open>The snapshot path: \<open>Some None\<close> when the snapshot is unusable.\<close>

definition try_load_from_snapshot :: "crypto \<Rightarrow> store \<Rightarrow> network_params \<Rightarrow> u64 \<Rightarrow> hash32 \<Rightarrow> blockchain option option" where
  "try_load_from_snapshot cr s network tip_height tip =
     (case store_snapshot_meta s of Inl _ \<Rightarrow> Some None | Inr None \<Rightarrow> Some None
      | Inr (Some sm) \<Rightarrow>
          if sm_height sm = 0 \<or> tip_height \<le> sm_height sm then Some None
          else case stored_block_at cr s (sm_height sm) of Inl _ \<Rightarrow> Some None
          | Inr anchor \<Rightarrow>
              if block_hash cr (blk_header anchor) \<noteq> Inr (sm_tip_hash sm) then Some None
              else do { loaded \<leftarrow> load_state cr (st_snap_domains s) (st_snap_tlds s);
                        case loaded of Inl _ \<Rightarrow> Some None
                        | Inr st \<Rightarrow>
                            do { c \<leftarrow> restore cr (sm_height sm) (sm_tip_hash sm) anchor st;
                                 replayed \<leftarrow> replay_blocks cr s (heights (unat (sm_height sm) + 1) tip_height) c;
                                 Some (case replayed of Inl _ \<Rightarrow> None
                                   | Inr c' \<Rightarrow> if tip_hash c' \<noteq> tip then None
                                       else if np_network_id (bc_network c') \<noteq> np_network_id network then None else Some c') } })"

fun window_entries :: "crypto \<Rightarrow> store \<Rightarrow> u64 list \<Rightarrow> (hash32 \<times> u64) list st_result" where
  "window_entries cr s [] = Inr []"
| "window_entries cr s (h # hs) = try_bind (stored_block_at cr s h) (\<lambda>b.
     try_bind (window_entries cr s hs) (\<lambda>es.
       Inr (List.map_filter (\<lambda>tx. case transaction_id cr tx of Inl _ \<Rightarrow> None | Inr i \<Rightarrow> Some (i, h)) (blk_transactions b) @ es)))"

definition rebuild_replay_index_from_store :: "crypto \<Rightarrow> store \<Rightarrow> blockchain \<Rightarrow> u64 \<Rightarrow> blockchain st_result option" where
  "rebuild_replay_index_from_store cr s c tip_height =
     (case verified_snapshot_marker s of Inl e \<Rightarrow> Some (Inl e)
      | Inr m \<Rightarrow>
          let start = max (saturating_sub tip_height (REPLAY_WINDOW_BLOCKS - 1)) 1;
              first = (case m of Some mk \<Rightarrow> if start < mk_height mk then mk_height mk else start | None \<Rightarrow> start) in
          (case window_entries cr s (heights (unat first) tip_height) of Inl e \<Rightarrow> Some (Inl e)
           | Inr es \<Rightarrow> map_option Inr (rebuild_replay_index es c)))"

section \<open>Restart\<close>

definition load_chain :: "crypto \<Rightarrow> store \<Rightarrow> network_params \<Rightarrow> blockchain st_result option" where
  "load_chain cr s network =
     (case tip_inner s of Inl e \<Rightarrow> Some (Inl e)
      | Inr (tip_height, tip) \<Rightarrow>
          if tip_height = 0 then map_option Inr (chain_for_network cr network)
          else case verified_snapshot_marker s of Inl e \<Rightarrow> Some (Inl e)
          | Inr m \<Rightarrow>
              case block_at_height tip_height s of Inl e \<Rightarrow> Some (Inl e)
              | Inr None \<Rightarrow> Some (Inl (case m of Some mk \<Rightarrow>
                    if mk_height mk = tip_height \<and> mk_tip_hash mk = tip then StSnapshotUnavailable else StCorrupted
                  | None \<Rightarrow> StCorrupted))
              | Inr (Some _) \<Rightarrow>
                  case stored_block_at cr s tip_height of Inl e \<Rightarrow> Some (Inl e)
                  | Inr tip_block \<Rightarrow>
                      if block_hash cr (blk_header tip_block) \<noteq> Inr tip then Some (Inl StCorrupted)
                      else do { snapshot \<leftarrow> try_load_from_snapshot cr s network tip_height tip;
                                loaded \<leftarrow> (case snapshot of Some c \<Rightarrow> Some (Inr c)
                                  | None \<Rightarrow> load_from_full_state cr s network tip_height tip_block tip);
                                obind (Some loaded) (\<lambda>c. rebuild_replay_index_from_store cr s c tip_height) })"

definition load_chain_replay :: "crypto \<Rightarrow> store \<Rightarrow> blockchain st_result option" where
  "load_chain_replay cr s = do { c \<leftarrow> chain_new cr;
     case tip_inner s of Inl e \<Rightarrow> Some (Inl e)
     | Inr (tip_height, tip) \<Rightarrow>
         obind (replay_blocks cr s (heights 1 tip_height) c) (\<lambda>c'.
           Some (if tip_hash c' \<noteq> tip then Inl StCorrupted else Inr c')) }"

end
