(* ===== verification/Scone_Persist_Inv.thy ===== *)
theory Scone_Persist_Inv
  imports Scone_Persist Scone_Chain_Props
begin

text \<open>
  The tables of the store hold the registry of the chain: the stored forms are read gone, the
  writes of a block bring the tables from the registry before it to the registry after it, and
  loading a table restores the entries it holds.
\<close>

section \<open>Stored forms\<close>

definition domain_row :: "domain_state \<Rightarrow> bytes" where "domain_row d = domain_as_encoded (domain_state_bytes d)"
definition tld_row :: "tld_state \<Rightarrow> bytes" where "tld_row t = tld_as_encoded (tld_state_bytes t)"

lemmas domain_lens = DOMAIN_STATE_LEN_NONE_def DOMAIN_STATE_LEN_SOME_def TAG_WITH_HASH_def TAG_WITHOUT_HASH_def

lemma domain_row_eq: "domain_row d = (case ds_record_hash d of
     Some h \<Rightarrow> TAG_WITH_HASH # h32_bytes (ds_owner d) @ u64_be (ds_sequence d) @ u64_be (ds_registered_at d) @ u64_be (ds_valid_until d) @ h32_bytes h
   | None \<Rightarrow> TAG_WITHOUT_HASH # h32_bytes (ds_owner d) @ u64_be (ds_sequence d) @ u64_be (ds_registered_at d) @ u64_be (ds_valid_until d))"
  by (simp add: domain_row_def domain_as_encoded_def domain_state_bytes_def domain_lens Let_def split: option.splits)

lemma decode_domain_row: "domain_decode (domain_row d) = Inr d"
  by (cases "ds_record_hash d") (simp_all add: domain_row_eq domain_decode_def slice_def domain_lens from_be_be_bytes)

lemma stored_domain_row: "stored_domain (domain_row d) = Inr (domain_state_bytes d)"
  by (simp add: stored_domain_def domain_row_eq domain_state_bytes_def domain_lens Let_def split: option.splits)

lemma decode_tld_row: "tld_decode (tld_row t) = Inr t"
  by (cases t) (simp add: tld_row_def tld_as_encoded_def tld_state_bytes_def tld_decode_def TLD_STATE_LEN_def TAG_TLD_V2_def
      slice_def nth_append from_be_be_bytes)

lemma stored_tld_row: "stored_tld (tld_row t) = Inr (tld_state_bytes t)"
  by (simp add: stored_tld_def tld_row_def tld_as_encoded_def tld_state_bytes_def TLD_STATE_LEN_def)

section \<open>Tables of a registry\<close>

definition domain_rows :: "entries \<Rightarrow> rows" where
  "domain_rows E = fmmap (\<lambda>e. domain_row (the_domain e)) (fmfilter (\<lambda>i. i \<in> domain_ids E) E)"

definition tld_rows :: "entries \<Rightarrow> rows" where
  "tld_rows E = fmmap (\<lambda>e. tld_row (the_tld e)) (fmfilter (\<lambda>i. i \<in> tld_ids E) E)"

lemma lookup_domain_rows: "fmlookup (domain_rows (rg_entries a)) i = map_option domain_row (rg_domain a i)"
  by (auto simp: domain_rows_def domain_ids_def rg_domain_def split: option.splits entry.splits)

lemma lookup_tld_rows: "fmlookup (tld_rows (rg_entries a)) i = map_option tld_row (rg_tld a i)"
  by (auto simp: tld_rows_def tld_ids_def rg_tld_def split: option.splits entry.splits)

lemma fcard_rows: "fcard (fmdom (domain_rows E)) = card (domain_ids E)" "fcard (fmdom (tld_rows E)) = card (tld_ids E)"
proof -
  have "fset (fmdom (domain_rows E)) = domain_ids E" "fset (fmdom (tld_rows E)) = tld_ids E"
    by (auto simp: domain_rows_def tld_rows_def domain_ids_def tld_ids_def fmlookup_dom_iff)
  then show "fcard (fmdom (domain_rows E)) = card (domain_ids E)" "fcard (fmdom (tld_rows E)) = card (tld_ids E)"
    by (simp_all add: fcard.rep_eq)
qed

section \<open>Writing rows\<close>

lemma upsert_rows_spec:
  assumes "upsert_rows f xs t = (t', n)"
  shows "fmlookup t' i = (case map_of (rev xs) i of Some a \<Rightarrow> Some (f a) | None \<Rightarrow> fmlookup t i)"
    "fcard (fmdom t') = fcard (fmdom t) + n" "n \<le> length xs"
proof -
  have "fmlookup u i = (case map_of (rev xs) i of Some a \<Rightarrow> Some (f a) | None \<Rightarrow> fmlookup t i)
      \<and> fcard (fmdom u) + m = fcard (fmdom t) + k \<and> k \<le> m + length xs"
    if "fold (\<lambda>(i, a) (t, n). (fmupd i (f a) t, if fmlookup t i = None then n + 1 else n)) xs (t, m) = (u, k)" for t u m k
    using that
  proof (induction xs arbitrary: t m)
    case (Cons x xs)
    obtain j a where x: "x = (j, a)" by (cases x)
    let ?m = "if fmlookup t j = None then m + 1 else m"
    have "fcard (fmdom (fmupd j (f a) t)) + m = fcard (fmdom t) + ?m"
      by (auto simp: fcard_finsert_if fmlookup_dom_iff)
    moreover note Cons.IH [of "fmupd j (f a) t" ?m] Cons.prems
    ultimately show ?case using x by (auto simp: map_add_def split: option.splits if_splits)
  qed simp
  from this [of t 0 t' n] show "fmlookup t' i = (case map_of (rev xs) i of Some a \<Rightarrow> Some (f a) | None \<Rightarrow> fmlookup t i)"
    "fcard (fmdom t') = fcard (fmdom t) + n" "n \<le> length xs" using assms by (simp_all add: upsert_rows_def)
qed

lemma remove_rows_spec:
  assumes "remove_rows ids t = (t', n)"
  shows "fmlookup t' i = (if i \<in> set ids then None else fmlookup t i)" "fcard (fmdom t') + n = fcard (fmdom t)"
proof -
  have "fmlookup u i = (if i \<in> set ids then None else fmlookup t i) \<and> fcard (fmdom u) + k = fcard (fmdom t) + m"
    if "fold (\<lambda>i (t, n). (fmdrop i t, if fmlookup t i = None then n else n + 1)) ids (t, m) = (u, k)" for t u m k
    using that
  proof (induction ids arbitrary: t m)
    case (Cons j ids)
    let ?m = "if fmlookup t j = None then m else m + 1"
    have "fcard (fmdom (fmdrop j t)) + ?m = fcard (fmdom t) + m"
      using card_Suc_Diff1 [of "fset (fmdom t)" j] by (auto simp: fcard.rep_eq fmlookup_dom_iff)
    moreover note Cons.IH [of "fmdrop j t" ?m] Cons.prems
    ultimately show ?case by (auto split: if_splits)
  qed simp
  from this [of t 0 t' n] show "fmlookup t' i = (if i \<in> set ids then None else fmlookup t i)" "fcard (fmdom t') + n = fcard (fmdom t)"
    using assms by (simp_all add: remove_rows_def)
qed

section \<open>What a block changes\<close>

lemma register_parts:
  "rg_domain (spec_register i own now until a) j = (if j = i then Some \<lparr>ds_owner = own, ds_sequence = 0, ds_record_hash = None,
     ds_registered_at = now, ds_valid_until = until\<rparr> else rg_domain a j)"
  "rg_tld (spec_register i own now until a) j = (if j = i then None else rg_tld a j)"
  by (simp_all add: spec_register_def rg_domain_def rg_tld_def set_entry_def)

lemma tld_not_domain: "rg_tld a i = Some t \<Longrightarrow> rg_domain a i = None"
  by (auto simp: rg_domain_def rg_tld_def split: option.splits entry.splits)

lemma kind_frame:
  assumes "spec_kind cr tx now a = Some (a', es, r)" "no_clash tx a"
  shows "(tx_touched_domain tx \<noteq> Some i \<longrightarrow> rg_domain a' i = rg_domain a i) \<and> (tx_touched_tld tx \<noteq> Some i \<longrightarrow> rg_tld a' i = rg_tld a i)
    \<and> (rg_domain a i \<noteq> None \<longrightarrow> rg_domain a' i \<noteq> None)"
proof (cases tx)
  case (RegisterDomain x)
  then show ?thesis using assms
    by (auto simp: tx_touched_domain_def tx_touched_tld_def register_parts dest!: learn_entries
        split: option.splits if_splits sum.splits bind_splits prod.splits)
next
  case (UpdateDomain x)
  then show ?thesis using assms domain_not_tld
    by (fastforce simp: tx_touched_domain_def tx_touched_tld_def dest!: learn_entries split: option.splits if_splits prod.splits)
next
  case (RegisterTld x)
  then show ?thesis using assms
    by (auto simp: tx_touched_domain_def tx_touched_tld_def dest!: learn_entries split: option.splits if_splits sum.splits prod.splits)
next
  case (AssignDomain x)
  then show ?thesis using assms
    by (auto simp: tx_touched_domain_def tx_touched_tld_def register_parts
        split: option.splits if_splits sum.splits bind_splits prod.splits)
qed (use assms domain_not_tld in \<open>auto simp: tx_touched_domain_def tx_touched_tld_def tld_not_domain split: option.splits if_splits\<close>)

lemma apply_frame:
  assumes "spec_apply cr tx now a = Some (a', es, r)" "no_clash tx a"
  shows "(tx_touched_domain tx \<noteq> Some i \<longrightarrow> rg_domain a' i = rg_domain a i) \<and> (tx_touched_tld tx \<noteq> Some i \<longrightarrow> rg_tld a' i = rg_tld a i)
    \<and> (rg_domain a i \<noteq> None \<longrightarrow> rg_domain a' i \<noteq> None)"
  using assms kind_frame [OF _ assms(2), of cr now a' es r i] by (auto simp: spec_apply_def split: sum.splits if_splits)

lemma txs_frame:
  "spec_txs cr cons now txs a = Some (a', es, Inr ()) \<Longrightarrow> txs_free cr cons now txs a \<Longrightarrow>
     (i \<notin> set (List.map_filter tx_touched_domain txs) \<longrightarrow> rg_domain a' i = rg_domain a i)
     \<and> (i \<notin> set (List.map_filter tx_touched_tld txs) \<longrightarrow> rg_tld a' i = rg_tld a i)
     \<and> (rg_domain a i \<noteq> None \<longrightarrow> rg_domain a' i \<noteq> None)"
proof (induction txs arbitrary: a es)
  case (Cons tx txs)
  obtain a1 es1 es2 where s: "spec_apply cr tx now a = Some (a1, es1, Inr ())" "spec_txs cr cons now txs a1 = Some (a', es2, Inr ())"
    using Cons.prems(1) by (auto split: sum.splits option.splits prod.splits)
  have f: "no_clash tx a" "txs_free cr cons now txs a1" using Cons.prems(2) s(1) by (auto simp: no_collision_def)
  show ?case using apply_frame [OF s(1) f(1), of i] Cons.IH [OF s(2) f(2)]
    by (auto simp: map_filter_simps split: option.splits)
qed (simp add: map_filter_simps)

lemma set_first_seen: "set (first_seen seen xs) = set xs - seen"
  by (induction seen xs rule: first_seen.induct) auto

lemma length_first_seen: "length (first_seen seen xs) \<le> length xs"
  by (induction seen xs rule: first_seen.induct) auto

lemma distinct_first_seen: "distinct (first_seen seen xs)"
  by (induction seen xs rule: first_seen.induct) (auto simp: set_first_seen)

lemma block_frame:
  assumes "spec_block cr cons now (blk_transactions b) a = Some (a', es, Inr (), ids)" "block_free cr cons now (blk_transactions b) a"
  shows "i \<notin> set (touched_domains b) \<Longrightarrow> i \<notin> set ids \<Longrightarrow> rg_domain a' i = rg_domain a i"
    "i \<notin> set (touched_tlds b) \<Longrightarrow> rg_tld a' i = rg_tld a i"
    "i \<notin> set ids \<Longrightarrow> rg_domain a i \<noteq> None \<Longrightarrow> rg_domain a' i \<noteq> None"
proof -
  obtain es1 es2 where s: "spec_gc now a = (fold spec_expire ids a, es1, ids)"
    "spec_txs cr cons now (blk_transactions b) (fold spec_expire ids a) = Some (a', es2, Inr ())"
    using assms(1) by (auto simp: spec_block_def spec_gc_def)
  have f: "txs_free cr cons now (blk_transactions b) (fold spec_expire ids a)" using assms(2) s(1) by (simp add: block_free_def)
  have g: "i \<notin> set ids \<Longrightarrow> rg_domain (fold spec_expire ids a) i = rg_domain a i"
    by (induction ids arbitrary: a) (auto simp: expire_domain)
  note t = txs_frame [OF s(2) f, of i] fold_expire_tld [of ids a i]
  show "i \<notin> set (touched_domains b) \<Longrightarrow> i \<notin> set ids \<Longrightarrow> rg_domain a' i = rg_domain a i"
    "i \<notin> set (touched_tlds b) \<Longrightarrow> rg_tld a' i = rg_tld a i"
    "i \<notin> set ids \<Longrightarrow> rg_domain a i \<noteq> None \<Longrightarrow> rg_domain a' i \<noteq> None"
    using t g by (simp_all add: touched_domains_def touched_tlds_def set_first_seen)
qed

section \<open>The tables after a block\<close>

lemma map_of_rev_distinct: "distinct (map fst xs) \<Longrightarrow> map_of (rev xs) = map_of xs"
  by (subst map_of_inject_set) (simp_all add: rev_map [symmetric])

lemma map_of_filter:
  assumes "distinct is" shows "map_of (rev (List.map_filter (\<lambda>i. map_option (\<lambda>d. (i, f d)) (g i)) is)) j
    = (if j \<in> set is then map_option f (g j) else None)"
proof -
  have k: "map fst (List.map_filter (\<lambda>i. map_option (\<lambda>d. (i, f d)) (g i)) is) = filter (\<lambda>i. g i \<noteq> None) is"
    by (induction "is") (auto simp: map_filter_simps split: option.splits)
  then have "distinct (map fst (List.map_filter (\<lambda>i. map_option (\<lambda>d. (i, f d)) (g i)) is))" using assms by simp
  then have "map_of (rev (List.map_filter (\<lambda>i. map_option (\<lambda>d. (i, f d)) (g i)) is)) = map_of (List.map_filter (\<lambda>i. map_option (\<lambda>d. (i, f d)) (g i)) is)"
    by (rule map_of_rev_distinct)
  moreover have "map_of (List.map_filter (\<lambda>i. map_option (\<lambda>d. (i, f d)) (g i)) is) j = (if j \<in> set is then map_option f (g j) else None)"
    by (induction "is") (auto simp: map_filter_simps split: option.splits)
  ultimately show ?thesis by simp
qed

lemma block_delta_fields [simp]:
  "sd_domains (block_delta st b ids) = List.map_filter (\<lambda>i. map_option (\<lambda>d. (i, domain_state_bytes d)) (state_domain st i)) (touched_domains b)"
  "sd_tlds (block_delta st b ids) = List.map_filter (\<lambda>i. map_option (\<lambda>t. (i, tld_state_bytes t)) (state_tld st i)) (touched_tlds b)"
  "sd_removed_domains (block_delta st b ids) = ids" "sd_removed_tlds (block_delta st b ids) = filter (\<lambda>i. state_tld st i = None) (touched_tlds b)"
  "sd_name_upserts (block_delta st b ids) = List.map_filter tx_binding (blk_transactions b)"
  by (simp_all add: block_delta_def Let_def)

lemma distinct_touched: "distinct (touched_domains b)" "distinct (touched_tlds b)"
  by (simp_all add: touched_domains_def touched_tlds_def distinct_first_seen)

lemma domains_after:
  assumes sp: "spec_block cr cons now (blk_transactions b) a = Some (a', es, Inr (), ids)" "block_free cr cons now (blk_transactions b) a"
    and gone: "\<forall>i\<in>set ids. rg_domain a' i = None" and st: "state_domain st = rg_domain a'"
    and up: "upsert_rows domain_as_encoded (sd_domains (block_delta st b ids)) (domain_rows (rg_entries a)) = (d1, n)"
    and rm: "remove_rows (sd_removed_domains (block_delta st b ids)) d1 = (d2, k)"
  shows "d2 = domain_rows (rg_entries a')"
proof (rule fmap_ext)
  fix i
  have "fmlookup d1 i = (case (if i \<in> set (touched_domains b) then map_option domain_state_bytes (rg_domain a' i) else None) of
      Some x \<Rightarrow> Some (domain_as_encoded x) | None \<Rightarrow> map_option domain_row (rg_domain a i))"
    using upsert_rows_spec(1) [OF up, of i]
    by (simp add: st map_of_filter distinct_touched lookup_domain_rows split: option.splits)
  moreover have "fmlookup d2 i = (if i \<in> set ids then None else fmlookup d1 i)"
    using remove_rows_spec(1) [OF rm, of i] by simp
  ultimately show "fmlookup d2 i = fmlookup (domain_rows (rg_entries a')) i"
    using gone block_frame(1,3) [OF sp, of i]
    by (cases "i \<in> set ids"; cases "rg_domain a i") (auto simp: lookup_domain_rows domain_row_def split: option.splits)
qed

lemma tlds_after:
  assumes sp: "spec_block cr cons now (blk_transactions b) a = Some (a', es, Inr (), ids)" "block_free cr cons now (blk_transactions b) a"
    and st: "state_tld st = rg_tld a'"
    and up: "upsert_rows tld_as_encoded (sd_tlds (block_delta st b ids)) (tld_rows (rg_entries a)) = (d1, n)"
    and rm: "remove_rows (sd_removed_tlds (block_delta st b ids)) d1 = (d2, k)"
  shows "d2 = tld_rows (rg_entries a')"
proof (rule fmap_ext)
  fix i
  have "fmlookup d1 i = (case (if i \<in> set (touched_tlds b) then map_option tld_state_bytes (rg_tld a' i) else None) of
      Some x \<Rightarrow> Some (tld_as_encoded x) | None \<Rightarrow> map_option tld_row (rg_tld a i))"
    using upsert_rows_spec(1) [OF up, of i]
    by (simp add: st map_of_filter distinct_touched lookup_tld_rows split: option.splits)
  moreover have "fmlookup d2 i = (if i \<in> set (touched_tlds b) \<and> rg_tld a' i = None then None else fmlookup d1 i)"
    using remove_rows_spec(1) [OF rm, of i] by (simp add: st)
  ultimately show "fmlookup d2 i = fmlookup (tld_rows (rg_entries a')) i"
    using block_frame(2) [OF sp, of i] by (auto simp: lookup_tld_rows tld_row_def split: option.splits)
qed

section \<open>Counters and names\<close>

lemma add_counter_ok:
  assumes "meta_u64 m key = Inr (of_nat n)" "n + k < 2 ^ 64"
  shows "\<exists>m'. add_counter key (of_nat k) m = Some (Inr m') \<and> meta_u64 m' key = Inr (of_nat (n + k))
    \<and> (\<forall>x. x \<noteq> key \<longrightarrow> fmlookup m' x = fmlookup m x)"
proof -
  have u: "unat (of_nat n :: u64) = n" "unat (of_nat k :: u64) = k" using assms(2) by (simp_all add: unat_of_nat_u64)
  have "(of_nat k :: u64) = 0 \<longleftrightarrow> k = 0" using u(2) by (metis unat_eq_zero)
  then show ?thesis using assms u by (auto simp: add_counter_def checked_add_def meta_u64_def from_be_be_bytes)
qed

lemma sub_counter_ok:
  assumes "meta_u64 m key = Inr (of_nat n)" "k \<le> n" "n < 2 ^ 64"
  shows "\<exists>m'. sub_counter key (of_nat k) m = Inr m' \<and> meta_u64 m' key = Inr (of_nat (n - k))
    \<and> (\<forall>x. x \<noteq> key \<longrightarrow> fmlookup m' x = fmlookup m x)"
proof -
  have u: "unat (of_nat n :: u64) = n" "unat (of_nat k :: u64) = k" using assms(2,3) by (simp_all add: unat_of_nat_u64)
  have "(of_nat k :: u64) = 0 \<longleftrightarrow> k = 0" using u(2) by (metis unat_eq_zero)
  then show ?thesis using assms u
    by (auto simp: sub_counter_def checked_sub_def meta_u64_def from_be_be_bytes word_le_nat_alt of_nat_diff)
qed

lemma meta_u64_cong: "fmlookup m key = fmlookup m' key \<Longrightarrow> meta_u64 m key = meta_u64 m' key"
  by (simp add: meta_u64_def)

definition reverse_ok :: "rows \<Rightarrow> bool" where
  "reverse_ok r \<longleftrightarrow> (\<forall>i v. fmlookup r i = Some v \<longrightarrow> (\<exists>x. decode_name_reverse v = Inr x))"

definition plain_name :: "string \<Rightarrow> bool" where
  "plain_name n \<longleftrightarrow> n \<noteq> [] \<and> utf8_valid (str_bytes n)"

lemma decode_reverse_value: "plain_name n \<Longrightarrow> decode_name_reverse (name_reverse_value t (str_bytes n)) = Inr (t, str_bytes n)"
  by (auto simp: decode_name_reverse_def name_reverse_value_def NAME_TAG_DOMAIN_def NAME_TAG_TLD_def plain_name_def str_bytes_def)

lemma remove_names_ok: "reverse_ok (snd nr) \<Longrightarrow> \<exists>nr'. remove_names cr rems nr = Inr nr' \<and> reverse_ok (snd nr')"
proof (induction rems arbitrary: nr)
  case (Cons x rems)
  obtain t i n r where x: "x = (t, i)" "nr = (n, r)" by (cases x, cases nr)
  obtain nr1 where "remove_name_entry cr i nr = Inr nr1" "reverse_ok (snd nr1)"
  proof (cases "fmlookup r i")
    case None
    then show ?thesis using that [of nr] x Cons.prems by (simp add: remove_name_entry_def)
  next
    case (Some v)
    then obtain y where "decode_name_reverse v = Inr y" using Cons.prems x by (metis snd_conv reverse_ok_def)
    then have "remove_name_entry cr i nr = Inr (fmdrop (name_index_key cr (snd y)) n, fmdrop i r)"
      using x Some by (simp add: remove_name_entry_def split: prod.splits)
    moreover have "reverse_ok (fmdrop i r)" using Cons.prems x by (simp add: reverse_ok_def)
    ultimately show ?thesis using that by simp
  qed
  then show ?case using Cons.IH x by simp
qed simp

lemma bind_names_ok:
  "\<forall>nb\<in>set ups. plain_name (nb_name nb) \<Longrightarrow> reverse_ok (snd nr) \<Longrightarrow> reverse_ok (snd (fold (bind_name cr) ups nr))"
proof (induction ups arbitrary: nr)
  case (Cons nb ups)
  then have "reverse_ok (snd (bind_name cr nb nr))"
    by (cases nr) (auto simp: bind_name_def reverse_ok_def decode_reverse_value)
  then show ?case using Cons by simp
qed simp

lemma name_deltas_ok:
  "\<forall>nb\<in>set ups. plain_name (nb_name nb) \<Longrightarrow> reverse_ok r \<Longrightarrow>
     \<exists>n' r'. apply_name_deltas cr ups rems (n, r) = Inr (n', r') \<and> reverse_ok r'"
  using remove_names_ok [OF bind_names_ok [of ups "(n, r)" cr], of cr rems] by (auto simp: apply_name_deltas_def)

section \<open>The store of a chain\<close>

definition row_of :: "crypto \<Rightarrow> u64 \<Rightarrow> block \<Rightarrow> bytes \<Rightarrow> bool" where
  "row_of cr h b v \<longleftrightarrow> (\<exists>hash bs. hash_of cr b = Inr hash \<and> block_ok cr b \<and> put_block cr b = Inr bs \<and> v = indexed_block h hash bs)"

definition blocks_rep :: "crypto \<Rightarrow> block list \<Rightarrow> store \<Rightarrow> bool" where
  "blocks_rep cr hist s \<longleftrightarrow> (\<forall>h. 0 < unat h \<and> unat h < length hist \<longrightarrow> (\<exists>v. fmlookup (st_by_height s) h = Some v \<and> row_of cr h (hist ! unat h) v))
     \<and> (\<forall>h. \<not> (0 < unat h \<and> unat h < length hist) \<longrightarrow> fmlookup (st_by_height s) h = None)"

lemma blocks_repD:
  assumes "blocks_rep cr hist s" "0 < unat h" "unat h < length hist"
  obtains hash bs where "hash_of cr (hist ! unat h) = Inr hash" "block_ok cr (hist ! unat h)" "put_block cr (hist ! unat h) = Inr bs"
    "fmlookup (st_by_height s) h = Some (indexed_block h hash bs)"
  using assms by (auto simp: blocks_rep_def row_of_def)

definition snap_rep :: "crypto \<Rightarrow> consensus \<Rightarrow> network_params \<Rightarrow> block list \<Rightarrow> store \<Rightarrow> bool" where
  "snap_rep cr cons network hist s \<longleftrightarrow> st_snap_meta s = fmempty
     \<or> (\<exists>n hash a. 0 < n \<and> Suc n < length hist \<and> hash_of cr (hist ! n) = Inr hash \<and> spec_ledger cr cons network (take (Suc n) hist) = Some a
          \<and> st_snap_meta s = fmupd 0 (u64_be (of_nat n) @ h32_bytes hash) fmempty
          \<and> st_snap_domains s = domain_rows (rg_entries a) \<and> st_snap_tlds s = tld_rows (rg_entries a))"

definition meta_rep :: "nat \<Rightarrow> nat \<Rightarrow> meta_rows \<Rightarrow> bool" where
  "meta_rep nd nt m \<longleftrightarrow> meta_u64 m META_DOMAIN_COUNT = Inr (of_nat nd) \<and> meta_u64 m META_TLD_COUNT = Inr (of_nat nt)
     \<and> meta_u64 m META_FORMAT_VERSION = Inr STORAGE_FORMAT_VERSION \<and> fmlookup m META_VERIFIED_SNAPSHOT = None"

text \<open>The store of a chain that holds the ledger \<open>hist\<close>: its blocks, the tables of its registry, the
  counters and the tip, and a snapshot of the registry at an earlier height if there is one.\<close>

definition store_rep :: "crypto \<Rightarrow> block list \<Rightarrow> blockchain \<Rightarrow> store \<Rightarrow> bool" where
  "store_rep cr hist c s \<longleftrightarrow>
     (let E = rg_entries (abs_state (bc_state c)) in
      blocks_rep cr hist s \<and> st_domains s = domain_rows E \<and> st_tlds s = tld_rows E
      \<and> meta_rep (card (domain_ids E)) (card (tld_ids E)) (st_meta s)
      \<and> (\<exists>tip. tip_inner s = Inr (of_nat (length hist - 1), tip) \<and> (1 < length hist \<longrightarrow> tip = bc_tip c))
      \<and> snap_rep cr (bc_consensus c) (bc_network c) hist s \<and> reverse_ok (st_reverse s))"

lemmas meta_keys = META_TIP_def META_FORMAT_VERSION_def META_TIP_HEIGHT_def META_DOMAIN_COUNT_def META_TLD_COUNT_def META_VERIFIED_SNAPSHOT_def

lemma meta_distinct [simp]:
  "META_DOMAIN_COUNT \<noteq> META_TLD_COUNT" "META_DOMAIN_COUNT \<noteq> META_FORMAT_VERSION" "META_DOMAIN_COUNT \<noteq> META_VERIFIED_SNAPSHOT"
  "META_TLD_COUNT \<noteq> META_DOMAIN_COUNT" "META_TLD_COUNT \<noteq> META_FORMAT_VERSION" "META_TLD_COUNT \<noteq> META_VERIFIED_SNAPSHOT"
  "META_FORMAT_VERSION \<noteq> META_DOMAIN_COUNT" "META_FORMAT_VERSION \<noteq> META_TLD_COUNT" "META_VERIFIED_SNAPSHOT \<noteq> META_DOMAIN_COUNT"
  "META_VERIFIED_SNAPSHOT \<noteq> META_TLD_COUNT" "META_TIP \<noteq> META_TIP_HEIGHT" "META_TIP_HEIGHT \<noteq> META_TIP"
  "META_TIP \<noteq> META_DOMAIN_COUNT" "META_TIP \<noteq> META_TLD_COUNT" "META_TIP \<noteq> META_FORMAT_VERSION" "META_TIP \<noteq> META_VERIFIED_SNAPSHOT"
  "META_TIP_HEIGHT \<noteq> META_DOMAIN_COUNT" "META_TIP_HEIGHT \<noteq> META_TLD_COUNT" "META_TIP_HEIGHT \<noteq> META_FORMAT_VERSION"
  "META_TIP_HEIGHT \<noteq> META_VERIFIED_SNAPSHOT" "META_VERIFIED_SNAPSHOT \<noteq> META_FORMAT_VERSION" "META_FORMAT_VERSION \<noteq> META_VERIFIED_SNAPSHOT"
  by (simp_all add: meta_keys)

lemma write_tip_meta:
  "meta_rep nd nt m \<Longrightarrow> meta_rep nd nt (write_tip height hash m)"
  "meta_u256 (write_tip height hash m) META_TIP = Inr hash" "meta_u64 (write_tip height hash m) META_TIP_HEIGHT = Inr height"
  by (simp_all add: meta_rep_def meta_u64_def meta_u256_def write_tip_def from_be_be_bytes meta_distinct [symmetric])

lemma counters_ok:
  assumes "meta_rep nd nt m" "nd + n < 2 ^ 64" "nt + k < 2 ^ 64" "rd \<le> nd + n" "rt \<le> nt + k"
  shows "\<exists>m1 m2 m3 m4. add_counter META_DOMAIN_COUNT (of_nat n) m = Some (Inr m1) \<and> add_counter META_TLD_COUNT (of_nat k) m1 = Some (Inr m2)
    \<and> sub_counter META_DOMAIN_COUNT (of_nat rd) m2 = Inr m3 \<and> sub_counter META_TLD_COUNT (of_nat rt) m3 = Inr m4
    \<and> meta_rep (nd + n - rd) (nt + k - rt) m4"
proof -
  obtain m1 where m1: "add_counter META_DOMAIN_COUNT (of_nat n) m = Some (Inr m1)" "meta_rep (nd + n) nt m1"
    using add_counter_ok [of m META_DOMAIN_COUNT nd n] assms(1,2) by (auto simp: meta_rep_def meta_u64_def)
  obtain m2 where m2: "add_counter META_TLD_COUNT (of_nat k) m1 = Some (Inr m2)" "meta_rep (nd + n) (nt + k) m2"
    using add_counter_ok [of m1 META_TLD_COUNT nt k] m1(2) assms(3) by (auto simp: meta_rep_def meta_u64_def)
  obtain m3 where m3: "sub_counter META_DOMAIN_COUNT (of_nat rd) m2 = Inr m3" "meta_rep (nd + n - rd) (nt + k) m3"
    using sub_counter_ok [of m2 META_DOMAIN_COUNT "nd + n" rd] m2(2) assms(2,4) by (auto simp: meta_rep_def meta_u64_def)
  obtain m4 where "sub_counter META_TLD_COUNT (of_nat rt) m3 = Inr m4" "meta_rep (nd + n - rd) (nt + k - rt) m4"
    using sub_counter_ok [of m3 META_TLD_COUNT "nt + k" rt] m3(2) assms(3,5) by (auto simp: meta_rep_def meta_u64_def)
  then show ?thesis using m1(1) m2(1) m3(1) by blast
qed

end
