(* ===== verification/Scone_Persist_Props.thy ===== *)
theory Scone_Persist_Props
  imports Scone_Persist_Inv
begin

text \<open>
  What the store promises the chain: storing every accepted block keeps the store of the chain, and
  a restart gives the chain back.
\<close>

section \<open>Storing an accepted block\<close>

lemma empty_name: "\<not> domain_ok []" "\<not> tld_ok []"
  by (simp_all add: domain_ok_def domain_new_def domain_validate_def tld_ok_def tld_new_def tld_validate_def)

lemma binding_plain: "tx_ok cr tx \<Longrightarrow> tx_binding tx = Some nb \<Longrightarrow> plain_name (nb_name nb)"
  using empty_name by (cases tx) (auto simp: tx_binding_def tx_ok_def plain_name_def utf8_tld utf8_domain)

lemma set_map_filter: "x \<in> set (List.map_filter f xs) \<longleftrightarrow> (\<exists>y\<in>set xs. f y = Some x)"
  by (induction xs) (auto simp: map_filter_simps split: option.splits)

lemma length_map_filter: "length (List.map_filter f xs) \<le> length xs"
  by (induction xs) (auto simp: map_filter_simps split: option.splits)

lemma bindings_plain: "block_ok cr b \<Longrightarrow> \<forall>nb\<in>set (List.map_filter tx_binding (blk_transactions b)). plain_name (nb_name nb)"
proof
  fix nb assume "block_ok cr b" "nb \<in> set (List.map_filter tx_binding (blk_transactions b))"
  then obtain tx where "tx \<in> set (blk_transactions b)" "tx_ok cr tx" "tx_binding tx = Some nb"
    by (auto simp: block_ok_def list_all_iff set_map_filter)
  then show "plain_name (nb_name nb)" using binding_plain by blast
qed

lemma checked_block_encodes:
  assumes "check_block cr b c = Some (Inr hash)" "window_rep cr hist c" shows "\<exists>bs. put_block cr b = Inr bs"
proof -
  note k = check_blockD [OF assms]
  have "\<exists>h. put_header (blk_header b) = Inr h" using k(3) by (auto simp: block_hash_def protocol_result_def split: sum.splits)
  moreover have "\<exists>bs. wseq (map (put_transaction cr) txs) = Inr bs" if "transaction_ids cr txs = Inr is" for txs "is"
    using that
  proof (induction txs arbitrary: "is")
    case (Cons tx txs)
    then show ?case by (force simp: transaction_id_def protocol_result_def wseq_Cons split: sum.splits)
  qed simp
  ultimately show ?thesis using k(5,6) by (auto simp: put_block_def wseq_Cons tx_root_def)
qed


text \<open>The deltas of an accepted block, in the transaction that also writes the block.\<close>

lemma deltas_ok:
  assumes sp: "spec_block cr cons now (blk_transactions b) a = Some (a', es, Inr (), ids)" "block_free cr cons now (blk_transactions b) a"
    and gone: "\<forall>i\<in>set ids. rg_domain a' i = None" and st: "state_domain st = rg_domain a'" "state_tld st = rg_tld a'"
    and s: "st_domains s = domain_rows (rg_entries a)" "st_tlds s = tld_rows (rg_entries a)" "reverse_ok (st_reverse s)"
      "meta_rep (card (domain_ids (rg_entries a))) (card (tld_ids (rg_entries a))) (st_meta s)" "fmlookup (st_by_height s) height = None"
    and b: "block_ok cr b" "card (domain_ids (rg_entries a)) + length (blk_transactions b) < 2 ^ 64"
      "card (tld_ids (rg_entries a)) + length (blk_transactions b) < 2 ^ 64"
  shows "\<exists>s'. append_deltas cr height hash bs indexed (block_delta st b ids) s = Some (Inr s')
    \<and> st_by_height s' = fmupd height indexed (st_by_height s) \<and> st_domains s' = domain_rows (rg_entries a')
    \<and> st_tlds s' = tld_rows (rg_entries a') \<and> tip_inner s' = Inr (height, hash) \<and> reverse_ok (st_reverse s')
    \<and> meta_rep (card (domain_ids (rg_entries a'))) (card (tld_ids (rg_entries a'))) (st_meta s')
    \<and> st_snap_meta s' = st_snap_meta s \<and> st_snap_domains s' = st_snap_domains s \<and> st_snap_tlds s' = st_snap_tlds s
    \<and> apply_name_deltas cr (sd_name_upserts (block_delta st b ids)) (sd_name_removals (block_delta st b ids)) (st_names s, st_reverse s)
        = Inr (st_names s', st_reverse s')"
proof -
  let ?d = "block_delta st b ids"
  obtain d1 n d2 k where d: "upsert_rows domain_as_encoded (sd_domains ?d) (domain_rows (rg_entries a)) = (d1, n)"
    "remove_rows (sd_removed_domains ?d) d1 = (d2, k)" by (meson surj_pair)
  obtain t1 n' t2 k' where t: "upsert_rows tld_as_encoded (sd_tlds ?d) (tld_rows (rg_entries a)) = (t1, n')"
    "remove_rows (sd_removed_tlds ?d) t1 = (t2, k')" by (meson surj_pair)
  have rows: "d2 = domain_rows (rg_entries a')" "t2 = tld_rows (rg_entries a')"
    using domains_after [OF sp gone st(1) d] tlds_after [OF sp st(2) t] by auto
  have len: "length (sd_domains ?d) \<le> length (blk_transactions b)" "length (sd_tlds ?d) \<le> length (blk_transactions b)"
    using length_map_filter length_first_seen unfolding block_delta_fields touched_domains_def touched_tlds_def by (meson le_trans)+
  have cd: "fcard (fmdom d1) = card (domain_ids (rg_entries a)) + n" "card (domain_ids (rg_entries a')) + k = fcard (fmdom d1)"
    using upsert_rows_spec(2) [OF d(1)] remove_rows_spec(2) [OF d(2)] by (simp_all add: rows fcard_rows)
  have ct: "fcard (fmdom t1) = card (tld_ids (rg_entries a)) + n'" "card (tld_ids (rg_entries a')) + k' = fcard (fmdom t1)"
    using upsert_rows_spec(2) [OF t(1)] remove_rows_spec(2) [OF t(2)] by (simp_all add: rows fcard_rows)
  have "card (domain_ids (rg_entries a)) + n < 2 ^ 64" "card (tld_ids (rg_entries a)) + n' < 2 ^ 64"
    using b(2,3) len upsert_rows_spec(3) [OF d(1)] upsert_rows_spec(3) [OF t(1)] by linarith+
  moreover have "k \<le> card (domain_ids (rg_entries a)) + n" "k' \<le> card (tld_ids (rg_entries a)) + n'" using cd ct by linarith+
  ultimately obtain m1 m2 m3 m4 where m: "add_counter META_DOMAIN_COUNT (of_nat n) (st_meta s) = Some (Inr m1)"
    "add_counter META_TLD_COUNT (of_nat n') m1 = Some (Inr m2)" "sub_counter META_DOMAIN_COUNT (of_nat k) m2 = Inr m3"
    "sub_counter META_TLD_COUNT (of_nat k') m3 = Inr m4"
    "meta_rep (card (domain_ids (rg_entries a)) + n - k) (card (tld_ids (rg_entries a)) + n' - k') m4"
    using counters_ok [OF s(4), of n n' k k'] by blast
  have c4: "meta_rep (card (domain_ids (rg_entries a'))) (card (tld_ids (rg_entries a'))) m4"
    using m(5) cd ct by (metis diff_add_inverse2)
  obtain nn rr where nr: "apply_name_deltas cr (sd_name_upserts ?d) (sd_name_removals ?d) (st_names s, st_reverse s) = Inr (nn, rr)" "reverse_ok rr"
    using name_deltas_ok [OF _ s(3)] bindings_plain [OF b(1)] by (metis block_delta_fields(5))
  define s' where "s' = s\<lparr>st_by_height := fmupd height indexed (st_by_height s), st_by_hash := fmupd hash bs (st_by_hash s),
    st_domains := d2, st_tlds := t2, st_names := nn, st_reverse := rr, st_meta := write_tip height hash m4\<rparr>"
  have "append_deltas cr height hash bs indexed ?d s = Some (Inr s')"
    unfolding append_deltas_def s(1,2,5) d t Let_def case_prod_conv option.case m(1,2) obind_simps m(3,4) nr(1) s'_def by simp
  moreover have "tip_inner s' = Inr (height, hash)" by (simp add: s'_def tip_inner_def write_tip_meta)
  ultimately show ?thesis using rows nr write_tip_meta(1) [OF c4, of height hash] by (intro exI [of _ s']) (simp add: s'_def)
qed

lemma blocks_rep_snoc:
  assumes "blocks_rep cr hist s" "length hist < 2 ^ 64" "0 < length hist" "hash_of cr b = Inr hash" "block_ok cr b" "put_block cr b = Inr bs"
    "st_by_height s' = fmupd (of_nat (length hist)) (indexed_block (of_nat (length hist)) hash bs) (st_by_height s)"
  shows "blocks_rep cr (hist @ [b]) s'"
proof -
  let ?h = "of_nat (length hist) :: u64"
  have u: "unat ?h = length hist" using assms(2) by (rule unat_of_nat_u64)
  then have eq: "h = ?h \<longleftrightarrow> unat h = length hist" for h by (metis word_unat_eq_iff)
  have split: "0 < unat h \<and> unat h < length (hist @ [b]) \<longleftrightarrow> 0 < unat h \<and> unat h < length hist \<or> h = ?h" for h
    unfolding eq using assms(3) by auto
  have new: "row_of cr ?h b (indexed_block ?h hash bs)" using assms(4-6) by (simp add: row_of_def)
  show ?thesis unfolding blocks_rep_def split
  proof (intro conjI allI impI)
    fix h assume "0 < unat h \<and> unat h < length hist \<or> h = ?h"
    then show "\<exists>v. fmlookup (st_by_height s') h = Some v \<and> row_of cr h ((hist @ [b]) ! unat h) v"
      using assms(1,7) u new unfolding blocks_rep_def by (cases "h = ?h") (simp_all add: nth_append)
  next
    fix h assume "\<not> (0 < unat h \<and> unat h < length hist \<or> h = ?h)"
    then show "fmlookup (st_by_height s') h = None" using assms(1,7) unfolding blocks_rep_def by auto
  qed
qed

text \<open>The state that is frozen before the deltas of a block are written.\<close>

definition frozen :: "u64 \<Rightarrow> hash32 \<Rightarrow> store \<Rightarrow> store" where
  "frozen h tip s = (if 1 < h \<and> (h - 1) mod SNAPSHOT_INTERVAL = 0 then snapshot_core (h - 1) tip s else s)"

lemma frozen_tables [simp]:
  "st_domains (frozen h tip s) = st_domains s" "st_tlds (frozen h tip s) = st_tlds s" "st_reverse (frozen h tip s) = st_reverse s"
  "st_names (frozen h tip s) = st_names s" "st_meta (frozen h tip s) = st_meta s" "st_by_height (frozen h tip s) = st_by_height s"
  by (simp_all add: frozen_def snapshot_core_def)

lemma previous_height:
  assumes "length hist < 2 ^ 64" "1 < (of_nat (length hist) :: u64)"
  shows "1 < length hist" "(of_nat (length hist) :: u64) - 1 = of_nat (length hist - 1)" "unat (of_nat (length hist - 1) :: u64) = length hist - 1"
proof -
  show l: "1 < length hist" using assms unat_of_nat_u64 [OF assms(1)] by (simp add: word_less_nat_alt)
  then show "(of_nat (length hist) :: u64) - 1 = of_nat (length hist - 1)" by (simp add: of_nat_diff)
  show "unat (of_nat (length hist - 1) :: u64) = length hist - 1" using assms(1) by (intro unat_of_nat_u64) simp
qed

lemma append_core_frozen:
  assumes "window_rep cr hist c" "blocks_rep cr hist s" "length hist < 2 ^ 64"
  shows "append_core cr (of_nat (length hist)) hash bs d s
    = append_deltas cr (of_nat (length hist)) hash bs (indexed_block (of_nat (length hist)) hash bs) d (frozen (of_nat (length hist)) (bc_tip c) s)"
proof (cases "1 < (of_nat (length hist) :: u64) \<and> (of_nat (length hist) - 1 :: u64) mod SNAPSHOT_INTERVAL = 0")
  case True
  note p = previous_height [OF assms(3) conjunct1 [OF True]]
  have "0 < unat (of_nat (length hist - 1) :: u64)" "unat (of_nat (length hist - 1) :: u64) < length hist" using p by simp_all
  then obtain ph pbs where "hash_of cr (hist ! (length hist - 1)) = Inr ph"
    "fmlookup (st_by_height s) (of_nat (length hist - 1)) = Some (indexed_block (of_nat (length hist - 1)) ph pbs)"
    using blocks_repD [OF assms(2)] p(3) by metis
  moreover have "hash_of cr (hist ! (length hist - 1)) = Inr (bc_tip c)" using assms(1) by (auto simp: window_rep_def last_conv_nth)
  ultimately show ?thesis using True unfolding append_core_def frozen_def Let_def p(2)
    by (simp add: indexed_block_def from_be_be_bytes)
qed (simp only: append_core_def frozen_def Let_def if_False)

lemma frozen_snap:
  assumes "chain_rep cr hist c" "snap_rep cr (bc_consensus c) (bc_network c) hist s" "length hist < 2 ^ 64"
    "st_domains s = domain_rows (rg_entries (abs_state (bc_state c)))" "st_tlds s = tld_rows (rg_entries (abs_state (bc_state c)))"
    and s': "st_snap_meta s' = st_snap_meta (frozen (of_nat (length hist)) (bc_tip c) s)"
      "st_snap_domains s' = st_snap_domains (frozen (of_nat (length hist)) (bc_tip c) s)"
      "st_snap_tlds s' = st_snap_tlds (frozen (of_nat (length hist)) (bc_tip c) s)"
  shows "snap_rep cr (bc_consensus c) (bc_network c) (hist @ [b]) s'"
proof (cases "1 < (of_nat (length hist) :: u64) \<and> (of_nat (length hist) - 1 :: u64) mod SNAPSHOT_INTERVAL = 0")
  case True
  note p = previous_height [OF assms(3) conjunct1 [OF True]]
  let ?n = "length hist - 1"
  have "0 < ?n" "Suc ?n < length (hist @ [b])" "take (Suc ?n) (hist @ [b]) = hist" "(hist @ [b]) ! ?n = last hist"
    using p(1) by (cases hist; auto simp: nth_append last_conv_nth)+
  moreover have "hash_of cr (last hist) = Inr (bc_tip c)"
    "spec_ledger cr (bc_consensus c) (bc_network c) hist = Some (abs_state (bc_state c))" using assms(1) by (simp_all add: chain_rep_def window_rep_def)
  moreover have "st_snap_meta s' = fmupd 0 (u64_be (of_nat ?n) @ h32_bytes (bc_tip c)) fmempty" "st_snap_domains s' = st_domains s"
    "st_snap_tlds s' = st_tlds s" using s' True unfolding frozen_def p(2) by (simp_all add: snapshot_core_def)
  ultimately show ?thesis using assms(4,5) unfolding snap_rep_def by metis
next
  case False
  then have same: "st_snap_meta s' = st_snap_meta s" "st_snap_domains s' = st_snap_domains s" "st_snap_tlds s' = st_snap_tlds s"
    using s' by (simp_all only: frozen_def if_False)
  show ?thesis
  proof (cases "st_snap_meta s = fmempty")
    case False
    then obtain n hash a where n: "0 < n" "Suc n < length hist" "hash_of cr (hist ! n) = Inr hash"
      "spec_ledger cr (bc_consensus c) (bc_network c) (take (Suc n) hist) = Some a"
      "st_snap_meta s = fmupd 0 (u64_be (of_nat n) @ h32_bytes hash) fmempty" "st_snap_domains s = domain_rows (rg_entries a)"
      "st_snap_tlds s = tld_rows (rg_entries a)" using assms(2) by (auto simp: snap_rep_def)
    then have "Suc n < length (hist @ [b])" "(hist @ [b]) ! n = hist ! n" "take (Suc n) (hist @ [b]) = take (Suc n) hist"
      by (auto simp: nth_append)
    then show ?thesis using n same unfolding snap_rep_def by metis
  qed (simp add: snap_rep_def same)
qed

lemma store_block_ok:
  assumes r: "chain_rep cr hist c" and p: "push_block_with_gc cr b c = Some (c', Inr ab)"
    and f: "block_free cr (bc_consensus c) (time_of (last hist)) (blk_transactions b) (abs_state (bc_state c))"
    and sr: "store_rep cr hist c s" and ok: "block_ok cr b"
    and gone: "\<forall>i\<in>set (ab_gc_removed_domains ab). state_domain (bc_state c') i = None"
    and room: "domain_count (bc_state c) + length (blk_transactions b) < 2 ^ 64" "tld_count (bc_state c) + length (blk_transactions b) < 2 ^ 64"
  shows "\<exists>s'. store_block_with_removals cr c' b (ab_hash ab) (ab_gc_removed_domains ab) s = Some (s', Inr ())
    \<and> store_rep cr (hist @ [b]) c' s'
    \<and> apply_name_deltas cr (sd_name_upserts (block_delta (bc_state c') b (ab_gc_removed_domains ab)))
        (sd_name_removals (block_delta (bc_state c') b (ab_gc_removed_domains ab))) (st_names s, st_reverse s) = Inr (st_names s', st_reverse s')"
proof -
  let ?a = "abs_state (bc_state c)" and ?a' = "abs_state (bc_state c')" and ?h = "of_nat (length hist) :: u64"
  let ?d = "block_delta (bc_state c') b (ab_gc_removed_domains ab)" and ?s = "frozen (of_nat (length hist)) (bc_tip c) s"
  obtain es where q: "chain_rep cr (hist @ [b]) c'" "hash_of cr b = Inr (ab_hash ab)" "check_block cr b c = Some (Inr (ab_hash ab))"
    "bc_network c' = bc_network c" "bc_consensus c' = bc_consensus c"
    "spec_block cr (bc_consensus c) (time_of (last hist)) (blk_transactions b) ?a = Some (?a', es, Inr (), ab_gc_removed_domains ab)"
    using push_rep [OF r p f] by auto
  have w: "window_rep cr hist c" "rep cr (bc_state c) ?a" "rep cr (bc_state c') ?a'" "bc_tip c' = ab_hash ab"
    using r q(1,2) by (auto simp: chain_rep_def valid_state_def window_rep_def)
  note hp = height_push [OF r q(3)]
  have st: "state_domain (bc_state c') = rg_domain ?a'" "state_tld (bc_state c') = rg_tld ?a'"
    using rep_domain [OF w(3)] rep_tld [OF w(3)] by auto
  obtain bs where bs: "put_block cr b = Inr bs" using checked_block_encodes [OF q(3) w(1)] by blast
  have un: "unat ?h = length hist" "unat (of_nat (length hist - 1) :: u64) = length hist - 1" using hp(2) by (simp_all add: unat_of_nat_u64)
  obtain tip where s: "blocks_rep cr hist s" "st_domains s = domain_rows (rg_entries ?a)" "st_tlds s = tld_rows (rg_entries ?a)"
    "reverse_ok (st_reverse s)" "meta_rep (card (domain_ids (rg_entries ?a))) (card (tld_ids (rg_entries ?a))) (st_meta s)"
    "snap_rep cr (bc_consensus c) (bc_network c) hist s" "tip_inner s = Inr (of_nat (length hist - 1), tip)"
    using sr by (auto simp: store_rep_def Let_def)
  have room': "card (domain_ids (rg_entries ?a)) + length (blk_transactions b) < 2 ^ 64" "card (tld_ids (rg_entries ?a)) + length (blk_transactions b) < 2 ^ 64"
    using room w(2) by (simp_all add: rep_def store_ok_def)
  have fresh: "fmlookup (st_by_height s) ?h = None" using s(1) un(1) by (simp add: blocks_rep_def)
  obtain s' where s': "append_deltas cr ?h (ab_hash ab) bs (indexed_block ?h (ab_hash ab) bs) ?d ?s = Some (Inr s')"
    "st_by_height s' = fmupd ?h (indexed_block ?h (ab_hash ab) bs) (st_by_height s)" "st_domains s' = domain_rows (rg_entries ?a')"
    "st_tlds s' = tld_rows (rg_entries ?a')" "tip_inner s' = Inr (?h, ab_hash ab)" "reverse_ok (st_reverse s')"
    "meta_rep (card (domain_ids (rg_entries ?a'))) (card (tld_ids (rg_entries ?a'))) (st_meta s')"
    "st_snap_meta s' = st_snap_meta ?s" "st_snap_domains s' = st_snap_domains ?s" "st_snap_tlds s' = st_snap_tlds ?s"
    "apply_name_deltas cr (sd_name_upserts ?d) (sd_name_removals ?d) (st_names s, st_reverse s) = Inr (st_names s', st_reverse s')"
    using deltas_ok [OF q(6) f _ st, of ?s ?h "ab_hash ab" bs "indexed_block ?h (ab_hash ab) bs"] gone s fresh ok room' unfolding frozen_tables st(1) by metis
  have "?h \<noteq> of_nat (length hist - 1)" using un hp(3) by (metis diff_less zero_less_one less_irrefl)
  then have "store_block_with_removals cr c' b (ab_hash ab) (ab_gc_removed_domains ab) s = Some (s', Inr ())"
    using check_blockD(2) [OF q(3) w(1)] hp(1) append_core_frozen [OF w(1) s(1) hp(2)] s'(1)
    by (simp add: store_block_with_removals_def bs append_block_with_state_def s(7) commit_def)
  then show ?thesis using s' q(4,5) w(4) blocks_rep_snoc [OF s(1) hp(2,3) q(2) ok bs s'(2)] frozen_snap [OF r s(6) hp(2) s(2,3) s'(8-10), of b]
    by (auto simp: store_rep_def Let_def)
qed

end
