(* ===== verification/Scone_Restart.thy ===== *)
theory Scone_Restart
  imports Scone_Persist_Props Scone_Snapshot
begin

text \<open>
  Restart. Loading a table page by page reads every row once, so the loaded state has the entries
  of the stored one; replaying the blocks above a frozen state gives the entries of the chain; and
  the scan of the last blocks gives its replay index.
\<close>

section \<open>Loading a table\<close>

lemma each_row_append: "each_row f (xs @ ys) st = obind (each_row f xs st) (each_row f ys)"
  by (induction xs arbitrary: st) (auto simp: obind_def split: option.splits sum.splits)

lemma drop_after:
  assumes "sorted_wrt (<) ks" "n < length ks" shows "filter (\<lambda>k. (ks ! n :: hash32) < k) ks = drop (Suc n) ks"
  using assms
proof (induction ks arbitrary: n)
  case (Cons x ks)
  show ?case
  proof (cases n)
    case 0
    then show ?thesis using Cons.prems(1) by (auto intro!: filter_True)
  next
    case (Suc m)
    then have "x < ks ! m" using Cons.prems by simp
    then have "\<not> ks ! m < x" by simp
    then show ?thesis using Cons Suc by simp
  qed
qed simp

text \<open>The keys after the cursor.\<close>

definition keys_after :: "hash32 option \<Rightarrow> rows \<Rightarrow> hash32 list" where
  "keys_after after t = filter (after_cursor after) (sorted_list_of_fset (fmdom t))"

lemma keys_after_next:
  assumes "n < length (keys_after after t)" shows "keys_after (Some (keys_after after t ! n)) t = drop (Suc n) (keys_after after t)"
proof -
  have s: "sorted_wrt (<) (keys_after after t)" by (simp add: keys_after_def sorted_wrt_filter sorted_list_of_fset_strict)
  have "after_cursor after (keys_after after t ! n)" using assms nth_mem by (fastforce simp: keys_after_def)
  then have "after_cursor (Some (keys_after after t ! n)) k \<longleftrightarrow> after_cursor after k \<and> keys_after after t ! n < k" for k
    by (auto simp: after_cursor_def split: option.splits)
  then have "filter (after_cursor (Some (keys_after after t ! n))) ks = filter (\<lambda>k. keys_after after t ! n < k) (filter (after_cursor after) ks)" for ks
    by (subst filter_filter) (auto intro!: filter_cong)
  then have "keys_after (Some (keys_after after t ! n)) t = filter (\<lambda>k. keys_after after t ! n < k) (keys_after after t)"
    by (simp only: keys_after_def [of "Some _"] keys_after_def [of after])
  then show ?thesis using drop_after [OF s assms] by simp
qed

lemma table_loop_rows:
  assumes "\<forall>(k, v)\<in>set rows. entry_of v = Inr (g k)" "length out < mx"
  shows "table_loop entry_of after mx rows (out, cursor) =
    (let ks = map fst (filter (\<lambda>(k, v). after \<noteq> Some k) rows); xs = take (mx - length out) ks in
     Inr (out @ map (\<lambda>k. (k, g k)) xs, if xs = [] then cursor else Some (last xs)))"
  using assms
proof (induction rows arbitrary: out cursor)
  case (Cons row rows)
  obtain k v where row: "row = (k, v)" by (cases row)
  then have v: "entry_of v = Inr (g k)" "\<forall>(k, v)\<in>set rows. entry_of v = Inr (g k)" using Cons.prems(1) by auto
  obtain m where m: "mx - length out = Suc m" using Cons.prems(2) by (cases "mx - length out") auto
  show ?case
  proof (cases "after = Some k")
    case True
    then show ?thesis using Cons.IH [OF v(2) Cons.prems(2)] row by simp
  next
    case False
    show ?thesis
    proof (cases "length (out @ [(k, g k)]) = mx")
      case True
      then have "m = 0" using m by simp
      then show ?thesis using False True row v(1) m by simp
    next
      case more: False
      then have "length (out @ [(k, g k)]) < mx" "mx - length (out @ [(k, g k)]) = m" using Cons.prems(2) m by auto
      then show ?thesis using Cons.IH [OF v(2), of "out @ [(k, g k)]" "Some k"] False more row v(1) m by (simp add: Let_def)
    qed
  qed
qed simp

lemma table_page_rows:
  assumes "\<forall>k v. fmlookup t k = Some v \<longrightarrow> entry_of v = Inr (g k)" "0 < mx" "mx \<le> cap"
  shows "table_page entry_of cap after mx t = (let xs = take mx (keys_after after t) in
    Inr (map (\<lambda>k. (k, g k)) xs, if xs = [] then after else Some (last xs)))"
proof -
  have "\<forall>(k, v)\<in>set (rows_from after t). entry_of v = Inr (g k)" using assms(1) by (auto simp: rows_from_def fmlookup_dom_iff)
  moreover have "map fst (filter (\<lambda>(k, v). after \<noteq> Some k) (rows_from after t)) = keys_after after t"
    by (simp add: rows_from_after rows_after_def keys_after_def o_def)
  ultimately show ?thesis using table_loop_rows [of "rows_from after t" entry_of g "[]" mx after after] assms(2,3)
    by (simp add: table_page_def Let_def min_absorb1)
qed

lemma load_table_rows:
  assumes "\<forall>k v. fmlookup t k = Some v \<longrightarrow> entry_of v = Inr (g k)" "0 < mx" "mx \<le> cap"
  shows "load_table entry_of cap mx f t cursor st = each_row f (map (\<lambda>k. (k, g k)) (keys_after cursor t)) st"
proof (induction "length (keys_after cursor t)" arbitrary: cursor st rule: less_induct)
  case less
  let ?ks = "keys_after cursor t"
  note page = table_page_rows [OF assms, of cursor]
  show ?case
  proof (cases "length ?ks < mx")
    case True
    then show ?thesis using assms(2) by (simp add: load_table.simps page Let_def obind_def split: option.splits sum.splits)
  next
    case False
    then have ne: "take mx ?ks \<noteq> []" using assms(2) by auto
    then have nxt: "last (take mx ?ks) = ?ks ! (mx - 1)" "take mx ?ks \<noteq> []" using False assms(2) by (auto simp: last_conv_nth [OF ne] min_def)
    then have n: "keys_after (Some (last (take mx ?ks))) t = drop mx ?ks" using keys_after_next [of "mx - 1" cursor t] False assms(2) by simp
    then have "load_table entry_of cap mx f t (Some (last (take mx ?ks))) st' = each_row f (map (\<lambda>k. (k, g k)) (drop mx ?ks)) st'" for st'
      using less.hyps [of "Some (last (take mx ?ks))" st'] False assms(2) by simp
    then show ?thesis using each_row_append [of f "map (\<lambda>k. (k, g k)) (take mx ?ks)" "map (\<lambda>k. (k, g k)) (drop mx ?ks)" st] False nxt(2) assms(2)
      by (simp add: load_table.simps page Let_def flip: map_append)
  qed
qed

section \<open>The loaded state\<close>

abbreviation corrupted :: "(bc_error + chain_state) option \<Rightarrow> chain_state st_result option" where
  "corrupted \<equiv> map_option (map_sum (\<lambda>_. StCorrupted) id)"

lemma each_domain_row:
  "each_row (restore_domain_row cr) (map (\<lambda>(i, d). (i, domain_state_bytes d)) xs) s
     = corrupted (restore_entries cr (map (\<lambda>(i, d). (i, DomainEntry d)) xs) s)"
proof (induction xs arbitrary: s)
  case (Cons x xs)
  then show ?case by (cases x)
    (auto simp: restore_domain_row_def decode_domain_row [unfolded domain_row_def] obind_def split: option.splits sum.splits bind_splits)
qed simp

lemma each_tld_row:
  "each_row (restore_tld_row cr) (map (\<lambda>(i, d). (i, tld_state_bytes d)) xs) s
     = corrupted (restore_entries cr (map (\<lambda>(i, d). (i, TldEntry d)) xs) s)"
proof (induction xs arbitrary: s)
  case (Cons x xs)
  then show ?case by (cases x)
    (auto simp: restore_tld_row_def decode_tld_row [unfolded tld_row_def] obind_def split: option.splits sum.splits bind_splits)
qed simp

lemma restore_entries_append:
  "restore_entries cr (xs @ ys) s = Option.bind (restore_entries cr xs s) (\<lambda>r. case r of Inl e \<Rightarrow> Some (Inl e) | Inr s' \<Rightarrow> restore_entries cr ys s')"
  by (induction xs arbitrary: s) (auto split: bind_splits sum.splits)

lemma restore_entries_fields:
  "restore_entries cr xs s = Some (Inr s') \<Longrightarrow> cs_network s' = cs_network s \<and> owner_keys s' = owner_keys s \<and> grace s' = grace s \<and> banned s' = banned s"
proof (induction xs arbitrary: s)
  case (Cons x xs)
  obtain i e where x: "x = (i, e)" by (cases x)
  obtain s1 where s1: "restore_entry cr x s = Some (Inr s1)" "restore_entries cr xs s1 = Some (Inr s')"
    using Cons.prems by (auto split: bind_splits sum.splits)
  have "cs_network s1 = cs_network s \<and> owner_keys s1 = owner_keys s \<and> grace s1 = grace s \<and> banned s1 = banned s"
    using s1(1) x by (cases e) (auto simp: restore_domain_def restore_tld_def smt_put_domain_def smt_insert_tld_def with_smt_def state_ops
        split: if_splits bind_splits)
  then show ?case using Cons.IH [OF s1(2)] by simp
qed simp

definition listing :: "entries \<Rightarrow> (hash32 \<times> entry) list" where
  "listing E = map (\<lambda>i. (i, the (fmlookup E i))) (keys_after None (domain_rows E) @ keys_after None (tld_rows E))"

lemma keys_none: "set (keys_after None t) = fset (fmdom t)" "distinct (keys_after None t)"
  using rows_after_props(2) [of None t] by (auto simp: keys_after_def after_cursor_def rows_after_def o_def)

lemma dom_rows: "fset (fmdom (domain_rows E)) = domain_ids E" "fset (fmdom (tld_rows E)) = tld_ids E"
  by (auto simp: domain_rows_def tld_rows_def domain_ids_def tld_ids_def fmlookup_dom_iff)

lemma ids_disjoint: "domain_ids E \<inter> tld_ids E = {}" "i \<in> domain_ids E \<union> tld_ids E \<longleftrightarrow> fmlookup E i \<noteq> None"
  by (auto simp: domain_ids_def tld_ids_def) (metis entry.exhaust)

lemma listing_props: "distinct (map fst (listing E))" "map_of (listing E) = fmlookup E"
proof -
  have k: "map fst (listing E) = keys_after None (domain_rows E) @ keys_after None (tld_rows E)" by (simp add: listing_def o_def)
  show d: "distinct (map fst (listing E))" unfolding k using keys_none ids_disjoint(1) [of E] by (auto simp: dom_rows)
  have "set (keys_after None (domain_rows E) @ keys_after None (tld_rows E)) = dom (fmlookup E)"
    unfolding set_append keys_none dom_rows using ids_disjoint(2) [of _ E] unfolding dom_def by blast
  then show "map_of (listing E) = fmlookup E" unfolding listing_def by (rule map_of_map_keys)
qed

lemma load_state_restores:
  "load_state cr (domain_rows E) (tld_rows E) = corrupted (restore_entries cr (listing E) chain_state_new)"
proof -
  let ?d = "\<lambda>i. the_domain (the (fmlookup E i))" and ?t = "\<lambda>i. the_tld (the (fmlookup E i))"
  have d: "\<forall>k v. fmlookup (domain_rows E) k = Some v \<longrightarrow> stored_domain v = Inr (domain_state_bytes (?d k))"
    by (auto simp: domain_rows_def stored_domain_row split: if_splits)
  have t: "\<forall>k v. fmlookup (tld_rows E) k = Some v \<longrightarrow> stored_tld v = Inr (tld_state_bytes (?t k))"
    by (auto simp: tld_rows_def stored_tld_row split: if_splits)
  have e: "map (\<lambda>(i, d). (i, DomainEntry d)) (map (\<lambda>k. (k, ?d k)) (keys_after None (domain_rows E))) = map (\<lambda>i. (i, the (fmlookup E i))) (keys_after None (domain_rows E))"
    "map (\<lambda>(i, d). (i, TldEntry d)) (map (\<lambda>k. (k, ?t k)) (keys_after None (tld_rows E))) = map (\<lambda>i. (i, the (fmlookup E i))) (keys_after None (tld_rows E))"
    by (auto simp: keys_none dom_rows domain_ids_def tld_ids_def)
  have "load_table stored_domain MAX_DOMAIN_PAGE DOMAIN_PAGE (restore_domain_row cr) (domain_rows E) None s
      = corrupted (restore_entries cr (map (\<lambda>i. (i, the (fmlookup E i))) (keys_after None (domain_rows E))) s)" for s
    using load_table_rows [OF d, of DOMAIN_PAGE MAX_DOMAIN_PAGE "restore_domain_row cr" None s]
      each_domain_row [of cr "map (\<lambda>k. (k, ?d k)) (keys_after None (domain_rows E))" s] unfolding e
    by (simp add: DOMAIN_PAGE_def MAX_DOMAIN_PAGE_def o_def)
  moreover have "load_table stored_tld MAX_TLD_PAGE TLD_PAGE (restore_tld_row cr) (tld_rows E) None s
      = corrupted (restore_entries cr (map (\<lambda>i. (i, the (fmlookup E i))) (keys_after None (tld_rows E))) s)" for s
    using load_table_rows [OF t, of TLD_PAGE MAX_TLD_PAGE "restore_tld_row cr" None s]
      each_tld_row [of cr "map (\<lambda>k. (k, ?t k)) (keys_after None (tld_rows E))" s] unfolding e
    by (simp add: TLD_PAGE_def MAX_TLD_PAGE_def o_def)
  ultimately show ?thesis
    by (simp add: load_state_def listing_def restore_entries_append obind_def split: option.splits sum.splits bind_splits)
qed

text \<open>The registry that a restart starts from: the entries, without keys, grace periods and bans.\<close>

definition bare :: "registry \<Rightarrow> registry" where
  "bare a = (registry_new (rg_network a))\<lparr>rg_entries := rg_entries a\<rparr>"

lemma load_state_ok:
  assumes "sound cr a" "registry_inv cr a" "rg_network a = TESTNET"
  shows "\<exists>s. load_state cr (domain_rows (rg_entries a)) (tld_rows (rg_entries a)) = Some (Inr s) \<and> rep cr s (bare a)
    \<and> sound cr (bare a) \<and> registry_inv cr (bare a)"
proof -
  let ?E = "rg_entries a"
  have new: "store_ok cr fmempty fmempty chain_state_new" using rep_new [of cr TESTNET] by (simp add: rep_def registry_new_def chain_state_new_def)
  have "\<forall>(i, e)\<in>set (listing ?E). fmlookup (fmempty :: entries) i = None \<and> normal e"
  proof clarify
    fix i e assume "(i, e) \<in> set (listing ?E)"
    then have "fmlookup ?E i = Some e" using listing_props [of ?E] by (metis map_of_is_SomeI)
    then show "fmlookup (fmempty :: entries) i = None \<and> normal e" using assms(1) all_normal_lookup by (auto simp: sound_def)
  qed
  then obtain s E' where s: "restore_entries cr (listing ?E) chain_state_new = Some (Inr s)" "store_ok cr E' E' s"
    "\<forall>i. fmlookup E' i = (case map_of (listing ?E) i of Some e \<Rightarrow> Some e | None \<Rightarrow> fmlookup fmempty i)"
    using restore_entries_ok [OF new listing_props(1)] by blast
  have "E' = ?E" using s(3) by (intro fmap_ext) (auto simp: listing_props split: option.splits)
  then have "rep cr s (bare a)" using s(2) restore_entries_fields [OF s(1)] assms(3)
    by (simp add: rep_def bare_def registry_new_def chain_state_new_def for_network_def)
  moreover have "sound cr (bare a)" "registry_inv cr (bare a)"
    using assms(1,2) by (simp_all add: sound_def bare_def registry_inv_def registry_new_def grace_ok_def keys_ok_def)
  ultimately show ?thesis using s(1) by (simp add: load_state_restores)
qed

section \<open>Replaying on a bare registry\<close>

text \<open>The same entries, and no grace period that the other has not.\<close>

definition thinner :: "registry \<Rightarrow> registry \<Rightarrow> bool" where
  "thinner a w \<longleftrightarrow> rg_network w = rg_network a \<and> rg_entries w = rg_entries a
     \<and> (\<forall>i g. fmlookup (rg_grace w) i = Some g \<longrightarrow> fmlookup (rg_grace a) i = Some g)"

lemma thinner_parts: "thinner a w \<Longrightarrow> rg_domain w = rg_domain a \<and> rg_tld w = rg_tld a \<and> rg_network w = rg_network a"
  by (auto simp: thinner_def rg_domain_def rg_tld_def fun_eq_iff)

lemma thinner_free: "thinner a w \<Longrightarrow> spec_free a i now own \<Longrightarrow> spec_free w i now own"
proof -
  assume t: "thinner a w" and f: "spec_free a i now own"
  have "fmlookup (rg_grace w) i = None \<or> fmlookup (rg_grace w) i = fmlookup (rg_grace a) i"
    using t by (cases "fmlookup (rg_grace w) i") (auto simp: thinner_def)
  then show ?thesis using f thinner_parts [OF t] unfolding spec_free_def by (elim disjE) simp_all
qed

lemma thinner_learn: "thinner a w \<Longrightarrow> thinner (fst (spec_learn own pk a)) (fst (spec_learn own' pk' w))"
  by (simp add: thinner_def spec_learn_def)

lemma thinner_set: "thinner a w \<Longrightarrow> thinner (set_entry i e a) (set_entry i e w)"
  by (simp add: thinner_def set_entry_def)

lemma thinner_del: "thinner a w \<Longrightarrow> thinner (del_entry i a) (del_entry i w)"
  by (simp add: thinner_def del_entry_def)

lemma thinner_register: "thinner a w \<Longrightarrow> thinner (spec_register i own now until a) (spec_register i own now until w)"
  by (simp add: thinner_def spec_register_def set_entry_def)

lemma thinner_ban: "thinner a w \<Longrightarrow> thinner (a\<lparr>rg_banned := x\<rparr>) (w\<lparr>rg_banned := y\<rparr>)" "thinner a w \<Longrightarrow> thinner (a\<lparr>rg_banned := x\<rparr>) w"
  by (simp_all add: thinner_def)

definition follows_thin :: "registry \<Rightarrow> spec_result option \<Rightarrow> registry \<Rightarrow> bool" where
  "follows_thin a1 res w \<longleftrightarrow> (\<exists>w1 es r. res = Some (w1, es, r) \<and> (case r of Inr _ \<Rightarrow> thinner a1 w1 | Inl _ \<Rightarrow> rg_entries w1 = rg_entries w))"

lemma follows_thin_simps [simp]:
  "follows_thin a1 (Some (w1, es, Inr u)) w \<longleftrightarrow> thinner a1 w1" "follows_thin a1 (Some (w1, es, Inl e)) w \<longleftrightarrow> rg_entries w1 = rg_entries w"
  by (simp_all add: follows_thin_def)

lemma thinner_kind:
  assumes t: "thinner a w" and s: "spec_kind cr tx now a = Some (a1, es, Inr ())"
  shows "follows_thin a1 (spec_kind cr tx now w) w"
proof -
  note p = thinner_parts [OF t]
  define al el wl fl where "al = (\<lambda>own pk. fst (spec_learn own pk a))" and "el = (\<lambda>own pk. snd (spec_learn own pk a))"
    and "wl = (\<lambda>own pk. fst (spec_learn own pk w))" and "fl = (\<lambda>own pk. snd (spec_learn own pk w))"
  have l: "spec_learn own pk a = (al own pk, el own pk)" "spec_learn own pk w = (wl own pk, fl own pk)"
    "thinner (al own pk) (wl own pk)" for own pk
    using thinner_learn [OF t] by (simp_all add: al_def el_def wl_def fl_def)
  show ?thesis
  proof (cases tx)
    case (RegisterDomain x)
    then show ?thesis using s p thinner_register [OF l(3)] thinner_free [OF t, of "rd_domain_id x" now "rd_owner x"]
      by (auto simp: l(1,2) split: option.splits if_splits sum.splits bind_splits)
  next
    case (UpdateDomain x)
    then show ?thesis using s p l thinner_set [OF l(3)]
      by (auto split: option.splits if_splits)
  next
    case (RegisterTld x)
    then show ?thesis using s p l thinner_set [OF l(3)]
      by (auto split: if_splits sum.splits)
  next
    case (AssignDomain x)
    then show ?thesis using s p thinner_register [OF t] thinner_free [OF t]
      by (auto split: option.splits if_splits bind_splits)
  next
    case (Slash x)
    then show ?thesis using s t thinner_ban(1) [OF t] by (auto split: if_splits)
  qed (use s p thinner_set [OF t] thinner_del [OF t] in \<open>auto split: option.splits if_splits\<close>)
qed

lemma thinner_apply:
  assumes "thinner a w" "spec_apply cr tx now a = Some (a1, es, Inr ())" shows "follows_thin a1 (spec_apply cr tx now w) w"
  using assms thinner_kind [OF assms(1), of cr tx now a1 es] thinner_parts [OF assms(1)]
  by (auto simp: spec_apply_def split: sum.splits if_splits)

lemma thinner_clash: "thinner a w \<Longrightarrow> no_clash tx a \<Longrightarrow> no_clash tx w"
  using thinner_parts [of a w] by (cases tx) auto

lemma thinner_txs:
  "thinner a w \<Longrightarrow> sound cr w \<Longrightarrow> spec_txs cr cons now txs a = Some (a', es, Inr ()) \<Longrightarrow> txs_free cr cons now txs a \<Longrightarrow>
     registry_inv cr a \<Longrightarrow> txs_free cr cons now txs w \<and> (\<exists>w' es' r. spec_txs cr cons now txs w = Some (w', es', r) \<and> (r = Inr () \<longrightarrow> thinner a' w'))"
proof (induction txs arbitrary: a w es)
  case (Cons tx txs)
  obtain u v where val: "validate_transaction cr tx = Inr u" "validate_tx cons tx = Inr v"
    using Cons.prems(3) by (auto split: sum.splits)
  then obtain a1 es1 es2 where a1: "spec_apply cr tx now a = Some (a1, es1, Inr ())" "spec_txs cr cons now txs a1 = Some (a', es2, Inr ())"
    using Cons.prems(3) by (auto split: sum.splits option.splits prod.splits)
  have f: "no_clash tx a" "leaves_distinct cr (rg_entries a1)" "txs_free cr cons now txs a1" using Cons.prems(4) a1 by (auto simp: no_collision_def)
  have inv: "registry_inv cr a1" using spec_inv [OF Cons.prems(5) a1(1)] .
  obtain w1 fs r where w1: "spec_apply cr tx now w = Some (w1, fs, r)" "case r of Inr _ \<Rightarrow> thinner a1 w1 | Inl _ \<Rightarrow> rg_entries w1 = rg_entries w"
    using thinner_apply [OF Cons.prems(1) a1(1)] by (auto simp: follows_thin_def)
  show ?case
  proof (cases r)
    case (Inl e)
    then show ?thesis using w1 val Cons.prems(2) thinner_clash [OF Cons.prems(1) f(1)] by (simp add: no_collision_def sound_def)
  next
    case (Inr x)
    then have t1: "thinner a1 w1" using w1(2) by simp
    then have "sound cr w1" "leaves_distinct cr (rg_entries w1)" using f(2) inv by (simp_all add: thinner_def sound_def registry_inv_def)
    then show ?thesis using Cons.IH [OF t1 _ a1(2) f(3) inv] w1(1) Inr val thinner_clash [OF Cons.prems(1) f(1)]
      by (auto simp: no_collision_def)
  qed
qed simp

lemma thinner_expire: "thinner a w \<Longrightarrow> thinner (fold spec_expire ids a) (fold spec_expire ids w)"
proof (induction ids arbitrary: a w)
  case (Cons i ids)
  have "thinner (spec_expire i a) (spec_expire i w)"
    using Cons.prems thinner_parts [OF Cons.prems] by (auto simp: spec_expire_def thinner_def del_entry_def split: option.splits)
  then show ?case using Cons.IH by simp
qed simp

lemma thinner_block:
  assumes t: "thinner a w" and "sound cr a" "registry_inv cr a" and s: "spec_block cr cons now txs a = Some (a', es, Inr (), ids)" "block_free cr cons now txs a"
  shows "block_free cr cons now txs w \<and> (\<exists>w' es' r. spec_block cr cons now txs w = Some (w', es', r, ids) \<and> (r = Inr () \<longrightarrow> thinner a' w'))"
proof -
  have "due_at w = due_at a" using t by (simp add: fun_eq_iff due_at_def thinner_def)
  then have l: "lapsed w now = lapsed a now" using t by (simp add: lapsed_def due_slots_def thinner_def)
  have i: "ids = lapsed a now" using s(1) by (auto simp: spec_block_def spec_gc_def)
  let ?a = "fold spec_expire ids a" and ?w = "fold spec_expire ids w"
  have t': "thinner ?a ?w" by (rule thinner_expire [OF t])
  have "sound cr ?a" "registry_inv cr ?a" using sound_fold [OF assms(2)] inv_fold [OF assms(3)] by auto
  moreover have "sound cr ?w" using \<open>sound cr ?a\<close> t' by (simp add: thinner_def sound_def)
  moreover obtain fs where "spec_txs cr cons now txs ?a = Some (a', fs, Inr ())" "txs_free cr cons now txs ?a"
    using s by (auto simp: spec_block_def block_free_def spec_gc_def i)
  ultimately show ?thesis using thinner_txs [OF t', of cr cons now txs a' fs]
    by (auto simp: spec_block_def block_free_def spec_gc_def l i)
qed

end
