(* ===== verification/Scone_Restart_Props.thy ===== *)
theory Scone_Restart_Props
  imports Scone_Restart
begin

text \<open>
  The store follows the chain, and a restart of a test-network node gives back the chain: its tip, its
  height, its entries and root and its replay index, whether the node loads the live tables or the
  frozen ones and the blocks above them.
\<close>

section \<open>The steps of a grown chain\<close>

lemma grows_steps:
  "grows cr cons network hist c \<Longrightarrow> 0 < k \<Longrightarrow> k < length hist \<Longrightarrow>
     \<exists>a a' es ids. spec_ledger cr cons network (take k hist) = Some a \<and> sound cr a \<and> registry_inv cr a
       \<and> block_free cr cons (time_of (hist ! (k - 1))) (blk_transactions (hist ! k)) a
       \<and> spec_block cr cons (time_of (hist ! (k - 1))) (blk_transactions (hist ! k)) a = Some (a', es, Inr (), ids)
       \<and> spec_ledger cr cons network (take (Suc k) hist) = Some a'"
proof (induction arbitrary: k rule: grows.induct)
  case (Push hist c b c' ab)
  show ?case
  proof (cases "k = length hist")
    case False
    then have "k < length hist" using Push.prems(2) by simp
    moreover have "(hist @ [b]) ! (k - 1) = hist ! (k - 1)" "(hist @ [b]) ! k = hist ! k" "take k (hist @ [b]) = take k hist"
      "take (Suc k) (hist @ [b]) = take (Suc k) hist" using \<open>k < length hist\<close> by (auto simp: nth_append)
    ultimately show ?thesis using Push.IH [OF Push.prems(1)] by simp
  next
    case True
    have r: "chain_rep cr hist c" "bc_consensus c = cons" "bc_network c = network" using grows_rep [OF Push.hyps(1)] by auto
    then obtain es where "chain_rep cr (hist @ [b]) c'" "bc_network c' = network" "bc_consensus c' = cons"
      "spec_block cr cons (time_of (last hist)) (blk_transactions b) (abs_state (bc_state c)) = Some (abs_state (bc_state c'), es, Inr (), ab_gc_removed_domains ab)"
      using push_rep [OF r(1) Push.hyps(3)] Push.hyps(2) by auto
    moreover have "(hist @ [b]) ! (k - 1) = last hist" "(hist @ [b]) ! k = b" "take k (hist @ [b]) = hist" "take (Suc k) (hist @ [b]) = hist @ [b]"
      using True Push.prems(1) by (auto simp: nth_append last_conv_nth)
    ultimately show ?thesis using r Push.hyps(2) by (auto simp: chain_rep_def valid_state_def)
  qed
qed auto

section \<open>Stored blocks\<close>

lemma stored_block_ok:
  assumes "blocks_rep cr hist s" "linked cr hist" "0 < k" "k < length hist"
  shows "stored_block_at cr s (of_nat k) = Inr (hist ! k)" "\<exists>bs. block_at_height (of_nat k) s = Inr (Some bs)"
proof -
  have u: "unat (of_nat k :: u64) = k" using assms(2,4) by (intro unat_of_nat_u64) (simp add: linked_def)
  then obtain hash bs where b: "block_ok cr (hist ! k)" "put_block cr (hist ! k) = Inr bs"
    "fmlookup (st_by_height s) (of_nat k) = Some (indexed_block (of_nat k) hash bs)"
    using blocks_repD [OF assms(1), of "of_nat k"] assms(3,4) by metis
  then have at: "block_at_height (of_nat k) s = Inr (Some bs)"
    by (simp add: block_at_height_def indexed_block_def BLOCK_INDEX_HEADER_def)
  moreover have "decode_complete (take_block cr) bs = Inr (hist ! k)" using b by (simp add: block.decode_complete_iff)
  moreover have "height_of (hist ! k) = of_nat k" using assms(2,4) by (simp add: linked_def)
  ultimately show "stored_block_at cr s (of_nat k) = Inr (hist ! k)" "\<exists>bs. block_at_height (of_nat k) s = Inr (Some bs)"
    by (simp_all add: stored_block_at_def stored_block_def)
qed

section \<open>Restored chains\<close>

text \<open>A chain that holds the ledger, whose state has the entries of the registry \<open>a\<close>.\<close>

definition thin_rep :: "crypto \<Rightarrow> block list \<Rightarrow> registry \<Rightarrow> blockchain \<Rightarrow> bool" where
  "thin_rep cr hist a c \<longleftrightarrow> window_rep cr hist c \<and> valid_state cr (bc_state c) \<and> thinner a (abs_state (bc_state c))
     \<and> bc_network c = TESTNET \<and> bc_consensus c = permissive_consensus"

text \<open>An index of identifiers in the last blocks.\<close>

definition index_in :: "crypto \<Rightarrow> block list \<Rightarrow> (hash32, u64) fmap \<Rightarrow> bool" where
  "index_in cr hist m \<longleftrightarrow> (\<forall>i h. fmlookup m i = Some h \<longrightarrow> unat h < length hist \<and> i \<in> tx_ids cr (hist ! unat h)
     \<and> saturating_sub (of_nat (length hist - 1)) REPLAY_WINDOW_BLOCKS < h)"

lemma thinner_bare: "thinner a (bare a)"
  by (simp add: thinner_def bare_def registry_new_def)

lemma restore_thin:
  assumes l: "linked cr hist" "hd hist = genesis_of cr TESTNET" "1 < length hist" "hash_of cr (last hist) = Inr tip"
    and r: "rep cr st (bare a)" "sound cr (bare a)" "registry_inv cr (bare a)" "rg_network a = TESTNET"
  shows "\<exists>c. restore cr (of_nat (length hist - 1)) tip (last hist) st = Some c \<and> thin_rep cr hist a c \<and> bc_included c = fmempty"
proof -
  let ?h = "of_nat (length hist - 1) :: u64"
  have ne: "hist \<noteq> []" using l(3) by auto
  have u: "unat ?h = length hist - 1" using l(1,3) by (intro unat_of_nat_u64) (auto simp: linked_def)
  have "height_of (last hist) = ?h" using l(1) ne by (simp add: linked_def last_conv_nth)
  moreover have net: "cs_network st = TESTNET" using rep_simps(1) [OF r(1)] r(4) by (simp add: bare_def registry_new_def)
  moreover obtain g where g: "hash_of cr (genesis_of cr TESTNET) = Inr g"
  proof -
    have "hash_of cr (hist ! 0) = Inr (prev_of (hist ! 1))" using l(1,3) by (auto simp: linked_def)
    then show ?thesis using that l(2) ne by (simp add: hd_conv_nth)
  qed
  ultimately obtain c where c: "restore cr ?h tip (last hist) st = Some c" and f: "bc_base_height c = ?h"
    "bc_canonical c = [genesis_of cr TESTNET, last hist]" "bc_known_hashes c = fmupd ?h tip (fmupd 0 g fmempty)" "bc_tip c = tip"
    "bc_network c = TESTNET" "bc_state c = st" "bc_consensus c = permissive_consensus" "bc_included c = fmempty"
    by (simp add: restore_def expect_def Let_def)
  have h0: "?h \<noteq> 0" using u l(3) by (metis unat_0 diff_is_0_eq not_less)
  have win: "in_window c hist k \<longleftrightarrow> k = 0 \<or> k = ?h" for k
    using u l(3) f(1) by (auto simp: in_window_def word_le_nat_alt word_unat_eq_iff)
  have "drop (length hist - 1) hist = [last hist]" using ne by (metis append_butlast_last_id append_eq_conv_conj length_butlast)
  moreover have "take 1 hist = [genesis_of cr TESTNET]" using l(2) ne by (cases hist) auto
  ultimately have "bc_canonical c = take 1 hist @ drop (max 1 (unat (bc_base_height c))) hist" using f(1,2) u l(3) by simp
  moreover have "hist ! 0 = genesis_of cr TESTNET" "hist ! (length hist - 1) = last hist" using l(2) ne by (simp_all add: hd_conv_nth last_conv_nth)
  ultimately have "window_rep cr hist c" unfolding window_rep_def win using l ne f h0 u g by auto
  moreover have "valid_state cr (bc_state c)" "abs_state (bc_state c) = bare a" using valid_stateI [OF r(1-3)] rep_abs [OF r(1)] f(6) by simp_all
  ultimately show ?thesis using c f thinner_bare by (auto simp: thin_rep_def)
qed

lemma index_in_push:
  assumes "index_in cr hist m" "height_of b = of_nat (length hist)" "length hist < 2 ^ 64" "0 < length hist" "m = bc_included c"
  shows "index_in cr (hist @ [b]) (bc_included (record_included cr b c))"
proof -
  let ?n = "of_nat (length hist) :: u64" and ?p = "of_nat (length hist - 1) :: u64"
  have un: "unat ?n = length hist" "unat ?p = length hist - 1" using assms(3) by (simp_all add: unat_of_nat_u64)
  have w: "unat REPLAY_WINDOW_BLOCKS = 256" by (simp add: REPLAY_WINDOW_BLOCKS_def)
  have sub: "unat (saturating_sub x REPLAY_WINDOW_BLOCKS) = unat x - 256" for x
    using w by (auto simp: saturating_sub_def unat_sub word_le_nat_alt)
  have new: "saturating_sub ?n REPLAY_WINDOW_BLOCKS < ?n" using un assms(4) by (simp add: word_less_nat_alt sub)
  have old: "saturating_sub ?n REPLAY_WINDOW_BLOCKS = saturating_sub ?p REPLAY_WINDOW_BLOCKS" if "\<not> REPLAY_WINDOW_BLOCKS < ?n"
    using that un w by (simp add: word_unat_eq_iff sub word_less_nat_alt)
  show ?thesis unfolding index_in_def
  proof (intro allI impI)
    fix i h assume a: "fmlookup (bc_included (record_included cr b c)) i = Some h"
    then have "i \<in> tx_ids cr b \<and> h = ?n \<or> fmlookup m i = Some h \<and> saturating_sub ?n REPLAY_WINDOW_BLOCKS < h"
      using assms(1,2,5) old by (auto simp: record_included_eq lookup_retain lookup_record_block index_in_def split: if_splits option.splits)
    then show "unat h < length (hist @ [b]) \<and> i \<in> tx_ids cr ((hist @ [b]) ! unat h) \<and> saturating_sub (of_nat (length (hist @ [b]) - 1)) REPLAY_WINDOW_BLOCKS < h"
    proof
      assume "i \<in> tx_ids cr b \<and> h = ?n"
      then show ?thesis using un(1) new by (simp add: nth_append)
    next
      assume "fmlookup m i = Some h \<and> saturating_sub ?n REPLAY_WINDOW_BLOCKS < h"
      then show ?thesis using assms(1) by (auto simp: index_in_def nth_append)
    qed
  qed
qed

lemma thin_push:
  assumes t: "thin_rep cr hist a c" and i: "index_in cr hist (bc_included c)" and a: "sound cr a" "registry_inv cr a"
    and s: "spec_block cr permissive_consensus (time_of (last hist)) (blk_transactions b) a = Some (a', es, Inr (), ids)"
      "block_free cr permissive_consensus (time_of (last hist)) (blk_transactions b) a"
  shows "\<exists>c' r. push_block cr b c = Some (c', r)
    \<and> (\<forall>h. r = Inr h \<longrightarrow> thin_rep cr (hist @ [b]) a' c' \<and> index_in cr (hist @ [b]) (bc_included c'))"
proof -
  let ?w = "abs_state (bc_state c)"
  have c: "window_rep cr hist c" "valid_state cr (bc_state c)" "thinner a ?w" "bc_network c = TESTNET" "bc_consensus c = permissive_consensus"
    using t by (auto simp: thin_rep_def)
  obtain w' es' r' where w: "block_free cr (bc_consensus c) (time_of (last hist)) (blk_transactions b) ?w"
    "spec_block cr (bc_consensus c) (time_of (last hist)) (blk_transactions b) ?w = Some (w', es', r', ids)" "r' = Inr () \<longrightarrow> thinner a' w'"
    using thinner_block [OF c(3) a s] c(5) by auto
  have "params_ok (np_consensus (bc_network c))" unfolding c(4) by (simp add: params_ok_def TESTNET_def PARAMS_TESTNET_def)
  then obtain ck where ck: "check_block cr b c = Some ck" using check_block_total [OF c(1)] by blast
  show ?thesis
  proof (cases ck)
    case (Inl e)
    then show ?thesis using ck by (simp add: push_block_def push_block_with_gc_def)
  next
    case (Inr hash)
    obtain c' x where p: "push_block_with_gc cr b c = Some (c', x)" using push_steps [OF c(1,2) ck [unfolded Inr] w(1,2)] by blast
    have "thin_rep cr (hist @ [b]) a' c' \<and> index_in cr (hist @ [b]) (bc_included c')" if x: "x = Inr ab" for ab
    proof -
      have q: "window_rep cr (hist @ [b]) c'" "valid_state cr (bc_state c')" "bc_network c' = bc_network c" "bc_consensus c' = bc_consensus c"
        "bc_included c' = bc_included (record_included cr b c)" "abs_state (bc_state c') = w'" "r' = Inr ()"
        using push_window [OF c(1,2) p [unfolded x] w(1)] w(2) by auto
      have l: "linked cr hist" "hist \<noteq> []" "hash_of cr (last hist) = Inr (bc_tip c)" using c(1) by (auto simp: window_rep_def)
      note k = check_blockD [OF ck [unfolded Inr] c(1)]
      have h: "height_of b = of_nat (length hist)" "length hist < 2 ^ 64"
        using linked_snoc [OF l(1,2) l(3) [folded k(1)] k(2)] by auto
      show ?thesis using q c w(3) index_in_push [OF i h _ refl] l(2) by (simp add: thin_rep_def)
    qed
    then show ?thesis using p by (cases x) (auto simp: push_block_def)
  qed
qed

lemma replay_thin:
  assumes g: "grows cr permissive_consensus TESTNET hist c0" and b: "blocks_rep cr hist s"
  shows "0 < k \<Longrightarrow> k \<le> length hist \<Longrightarrow> spec_ledger cr permissive_consensus TESTNET (take k hist) = Some a \<Longrightarrow>
     thin_rep cr (take k hist) a c \<Longrightarrow> index_in cr (take k hist) (bc_included c) \<Longrightarrow>
     \<exists>r. replay_blocks cr s (map of_nat [k..<length hist]) c = Some r
       \<and> (\<forall>c'. r = Inr c' \<longrightarrow> thin_rep cr hist (abs_state (bc_state c0)) c' \<and> index_in cr hist (bc_included c'))"
proof (induction "length hist - k" arbitrary: k a c)
  case 0
  have "spec_ledger cr permissive_consensus TESTNET hist = Some (abs_state (bc_state c0))"
    using grows_rep [OF g] by (auto simp: chain_rep_def)
  then show ?case using 0 by simp
next
  case (Suc n)
  have lk: "linked cr hist" using grows_rep [OF g] by (auto simp: chain_rep_def window_rep_def)
  have k: "k < length hist" "length hist - Suc k = n" using Suc.hyps(2) by auto
  have tk: "take (Suc k) hist = take k hist @ [hist ! k]" by (rule take_Suc_conv_app_nth [OF k(1)])
  have lst: "last (take k hist) = hist ! (k - 1)" using Suc.prems(1) k(1) by (subst last_conv_nth) auto
  obtain a' es ids where st: "sound cr a" "registry_inv cr a"
    "block_free cr permissive_consensus (time_of (hist ! (k - 1))) (blk_transactions (hist ! k)) a"
    "spec_block cr permissive_consensus (time_of (hist ! (k - 1))) (blk_transactions (hist ! k)) a = Some (a', es, Inr (), ids)"
    "spec_ledger cr permissive_consensus TESTNET (take (Suc k) hist) = Some a'"
    using grows_steps [OF g Suc.prems(1) k(1)] Suc.prems(3) by auto
  obtain c' r where p: "push_block cr (hist ! k) c = Some (c', r)"
    "\<forall>h. r = Inr h \<longrightarrow> thin_rep cr (take (Suc k) hist) a' c' \<and> index_in cr (take (Suc k) hist) (bc_included c')"
    using thin_push [OF Suc.prems(4,5) st(1,2), of "hist ! k"] st(3,4) unfolding tk lst by blast
  have sb: "stored_block_at cr s (of_nat k) = Inr (hist ! k)" using stored_block_ok [OF b lk Suc.prems(1) k(1)] by simp
  show ?case
  proof (cases r)
    case (Inl e)
    then show ?thesis using p(1) sb k(1) by (simp add: upt_conv_Cons)
  next
    case (Inr h)
    then show ?thesis using p sb k Suc.hyps(1) [of "Suc k" a' c'] st(5) by (simp add: upt_conv_Cons Suc_leI)
  qed
qed

section \<open>The rebuilt index\<close>

definition block_ids :: "crypto \<Rightarrow> block \<Rightarrow> (hash32 \<times> u64) list" where
  "block_ids cr b = List.map_filter (\<lambda>tx. case transaction_id cr tx of Inl _ \<Rightarrow> None | Inr i \<Rightarrow> Some (i, height_of b)) (blk_transactions b)"

lemma window_entries_ok:
  assumes "blocks_rep cr hist s" "linked cr hist"
  shows "0 < k \<Longrightarrow> window_entries cr s (map of_nat [k..<length hist]) = Inr (concat (map (block_ids cr) (drop k hist)))"
proof (induction "length hist - k" arbitrary: k)
  case (Suc n)
  then have k: "k < length hist" by simp
  have h: "height_of (hist ! k) = of_nat k" using assms(2) k by (simp add: linked_def)
  have "drop k hist = hist ! k # drop (Suc k) hist" using Cons_nth_drop_Suc [OF k] by simp
  moreover have "window_entries cr s (map of_nat [Suc k..<length hist]) = Inr (concat (map (block_ids cr) (drop (Suc k) hist)))"
    using Suc.hyps(1) [of "Suc k"] Suc.hyps(2) by simp
  moreover note stored_block_ok(1) [OF assms Suc.prems k]
  moreover have "block_ids cr (hist ! k) = List.map_filter (\<lambda>tx. case transaction_id cr tx of Inl _ \<Rightarrow> None | Inr i \<Rightarrow> Some (i, of_nat k)) (blk_transactions (hist ! k))"
    unfolding block_ids_def h by (rule refl)
  ultimately show ?case unfolding upt_conv_Cons [OF k] by simp
qed simp

lemma record_block_fold: "record_block cr b m = fold (\<lambda>(i, h). fmupd i h) (block_ids cr b) m"
proof -
  have "fold (\<lambda>tx m. case transaction_id cr tx of Inl _ \<Rightarrow> m | Inr i \<Rightarrow> fmupd i (height_of b) m) txs m
      = fold (\<lambda>(i, h). fmupd i h) (List.map_filter (\<lambda>tx. case transaction_id cr tx of Inl _ \<Rightarrow> None | Inr i \<Rightarrow> Some (i, height_of b)) txs) m" for txs
    by (induction txs arbitrary: m) (auto simp: map_filter_simps split: sum.splits)
  then show ?thesis by (simp add: record_block_def block_ids_def)
qed

lemma rebuild_fold:
  assumes "\<forall>b\<in>set bs. height_of b \<le> tip \<and> cutoff < height_of b"
  shows "fold (\<lambda>(i, h) m. if tip < h \<or> h \<le> cutoff then m else fmupd i h m) (concat (map (block_ids cr) bs)) m = fold (record_block cr) bs m"
  using assms
proof (induction bs arbitrary: m)
  case (Cons b bs)
  have "\<forall>(i, h)\<in>set (block_ids cr b). h = height_of b"
  proof clarify
    fix i h assume "(i, h) \<in> set (block_ids cr b)"
    then obtain tx where "(case transaction_id cr tx of Inl _ \<Rightarrow> None | Inr i \<Rightarrow> Some (i, height_of b)) = Some (i, h)"
      unfolding block_ids_def set_map_filter by blast
    then show "h = height_of b" by (cases "transaction_id cr tx") auto
  qed
  then have "fold (\<lambda>(i, h) m. if tip < h \<or> h \<le> cutoff then m else fmupd i h m) (block_ids cr b) m = fold (\<lambda>(i, h). fmupd i h) (block_ids cr b) m"
    using Cons.prems by (intro fold_cong refl) (fastforce simp: fun_eq_iff not_less not_le)
  then show ?case using Cons by (simp add: record_block_fold)
qed simp

lemma record_blocks_lookup:
  "fmlookup (fold (record_block cr) bs m) i = (if \<exists>b\<in>set bs. i \<in> tx_ids cr b then fmlookup (fold (record_block cr) bs fmempty) i else fmlookup m i)"
proof (induction bs rule: rev_induct)
  case (snoc b bs)
  then show ?case by (cases "i \<in> tx_ids cr b") (simp_all add: lookup_record_block)
qed simp

lemma heights_eq: "0 < length hist \<Longrightarrow> length hist \<le> 2 ^ 64 \<Longrightarrow> heights k (of_nat (length hist - 1)) = map of_nat [k..<length hist]"
proof -
  assume "0 < length hist" "length hist \<le> 2 ^ 64"
  moreover from this have "unat (of_nat (length hist - 1) :: u64) = length hist - 1" by (intro unat_of_nat_u64) simp
  ultimately show ?thesis by (simp only: heights_def) simp
qed

lemma in_drop: "(\<exists>b\<in>set (drop k xs). P b) \<longleftrightarrow> (\<exists>n. k \<le> n \<and> n < length xs \<and> P (xs ! n))"
proof
  assume "\<exists>b\<in>set (drop k xs). P b"
  then obtain j where "j < length xs - k" "P (drop k xs ! j)" by (auto simp: in_set_conv_nth)
  then show "\<exists>n. k \<le> n \<and> n < length xs \<and> P (xs ! n)" by (intro exI [of _ "k + j"]) simp
next
  assume "\<exists>n. k \<le> n \<and> n < length xs \<and> P (xs ! n)"
  then obtain n where "k \<le> n" "n < length xs" "P (xs ! n)" by blast
  then show "\<exists>b\<in>set (drop k xs). P b" using nth_mem [of "n - k" "drop k xs"] by (intro bexI [of _ "xs ! n"]) simp_all
qed

lemma rebuilt_index:
  assumes g: "grows cr cons network hist c0" and i: "index_in cr hist m" and k: "k = max (length hist - 256) 1"
  shows "fold (record_block cr) (drop k hist) m = replay_index cr hist"
proof (rule fmap_ext)
  fix t
  let ?cut = "saturating_sub (of_nat (length hist - 1) :: u64) REPLAY_WINDOW_BLOCKS"
  have r: "chain_rep cr hist c0" using grows_rep [OF g] by auto
  have l: "linked cr hist" "hist \<noteq> []" "hd hist = genesis_of cr (bc_network c0)" using r by (auto simp: chain_rep_def window_rep_def)
  have u: "unat (of_nat (length hist - 1) :: u64) = length hist - 1"
    using l(1,2) by (intro unat_of_nat_u64) (cases hist, auto simp: linked_def)
  have sub: "unat (saturating_sub x REPLAY_WINDOW_BLOCKS) = unat x - 256" for x
    by (auto simp: saturating_sub_def unat_sub word_le_nat_alt REPLAY_WINDOW_BLOCKS_def)
  have cut: "unat ?cut = length hist - 1 - 256" by (simp only: sub u)
  have incl: "inclusions cr hist = fold (record_block cr) (drop k hist) (fold (record_block cr) (take k hist) fmempty)"
    by (metis inclusions_def append_take_drop_id fold_append comp_apply)
  have gen: "tx_ids cr (hist ! 0) = {}" using l(2,3) by (simp add: hd_conv_nth [symmetric] tx_ids_def genesis_of_def)
  note id = in_drop [of k hist "\<lambda>b. t \<in> tx_ids cr b"]
  show "fmlookup (fold (record_block cr) (drop k hist) m) t = fmlookup (replay_index cr hist) t"
  proof (cases "\<exists>b\<in>set (drop k hist). t \<in> tx_ids cr b")
    case True
    then obtain n where n: "k \<le> n" "n < length hist" "t \<in> tx_ids cr (hist ! n)" using id by blast
    obtain h where h: "fmlookup (inclusions cr hist) t = Some h" "n \<le> unat h" using inclusions_above [OF l(1) n(2,3)] by blast
    have "?cut < h" using h(2) n(1) k unfolding word_less_nat_alt cut by linarith
    then have "fmlookup (replay_index cr hist) t = fmlookup (inclusions cr hist) t" using h(1) by (simp add: replay_index_def lookup_retain)
    then show ?thesis using True record_blocks_lookup [of cr "drop k hist" m t]
        record_blocks_lookup [of cr "drop k hist" "fold (record_block cr) (take k hist) fmempty" t] unfolding incl by simp
  next
    case False
    have "fmlookup m t = None"
    proof (rule ccontr)
      assume "fmlookup m t \<noteq> None"
      then obtain h where h: "unat h < length hist" "t \<in> tx_ids cr (hist ! unat h)" "?cut < h" using i unfolding index_in_def by blast
      then have "unat h \<noteq> 0" using gen by (metis empty_iff)
      then have "k \<le> unat h" using h(3) k unfolding word_less_nat_alt cut by linarith
      then show False using False id h(1,2) by blast
    qed
    moreover have "fmlookup (replay_index cr hist) t = None"
    proof (rule ccontr)
      assume "fmlookup (replay_index cr hist) t \<noteq> None"
      then obtain h where h: "fmlookup (inclusions cr hist) t = Some h" "?cut < h" by (auto simp: replay_index_def lookup_retain split: option.splits if_splits)
      then obtain n where n: "n < length hist" "t \<in> tx_ids cr (hist ! n)" "h = of_nat n"
        using lookup_inclusions [OF h(1)] l(1) by (auto simp: in_set_conv_nth linked_def)
      then have "unat h = n" using l(1) by (auto simp: linked_def unat_of_nat_u64)
      moreover have "n \<noteq> 0" using n(2) gen by (metis empty_iff)
      ultimately have "k \<le> n" using h(2) k unfolding word_less_nat_alt cut by linarith
      then show False using False id n by blast
    qed
    ultimately show ?thesis using False record_blocks_lookup [of cr "drop k hist" m t] by simp
  qed
qed

end
