(* ===== verification/Scone_Reload.thy ===== *)
theory Scone_Reload
  imports Scone_Restart_Props
begin

text \<open>
  The whole of a restart, and the run of a node with its store: the store holds the chain after
  every accepted block, and what is loaded from it is that chain.
\<close>

section \<open>The network of a registry\<close>

lemma kind_network: "spec_kind cr tx now a = Some (a', es, r) \<Longrightarrow> rg_network a' = rg_network a"
  by (cases tx) (auto simp: spec_register_def set_entry_def del_entry_def spec_learn_same(5)
      split: option.splits if_splits sum.splits bind_splits prod.splits)

lemma apply_network: "spec_apply cr tx now a = Some (a', es, r) \<Longrightarrow> rg_network a' = rg_network a"
  using kind_network [of cr tx now a a' es r] by (auto simp: spec_apply_def split: sum.splits if_splits)

lemma txs_network: "spec_txs cr cons now txs a = Some (a', es, r) \<Longrightarrow> rg_network a' = rg_network a"
proof (induction txs arbitrary: a es)
  case (Cons tx txs)
  consider "a' = a" | a1 fs x where "spec_apply cr tx now a = Some (a1, fs, Inl x)" "a' = a1"
    | a1 fs gs where "spec_apply cr tx now a = Some (a1, fs, Inr ())" "spec_txs cr cons now txs a1 = Some (a', gs, r)"
    using Cons.prems by (auto split: sum.splits option.splits prod.splits)
  then show ?case using apply_network Cons.IH by cases metis+
qed simp

lemma ledger_network: "spec_ledger cr cons network hist = Some a \<Longrightarrow> rg_network a = network"
proof -
  have e: "rg_network (fold spec_expire ids a) = rg_network a" for ids a
    by (induction ids arbitrary: a) (auto simp: spec_expire_def del_entry_def split: option.splits)
  have b: "rg_network a' = rg_network a" if "spec_block cr cons now txs a = Some (a', es, r, ids)" for now txs a a' es r ids
    using that txs_network [of cr cons now txs] e by (auto simp: spec_block_def spec_gc_def)
  have "spec_blocks cr cons now bs a = Some a' \<Longrightarrow> rg_network a' = rg_network a" for now bs a a'
    by (induction bs arbitrary: now a) (auto dest: b split: option.splits sum.splits prod.splits)
  then show "spec_ledger cr cons network hist = Some a \<Longrightarrow> rg_network a = network"
    by (fastforce simp: spec_ledger_def registry_new_def)
qed

lemma ledger_good:
  assumes "grows cr cons network hist c" "0 < k" "k < length hist"
  obtains a where "spec_ledger cr cons network (take k hist) = Some a" "sound cr a" "registry_inv cr a" "rg_network a = network"
  using grows_steps [OF assms] ledger_network by metis

section \<open>The two ways to load\<close>

lemma linked_unat: "linked cr hist \<Longrightarrow> k < length hist \<Longrightarrow> unat (of_nat k :: u64) = k"
  by (rule unat_of_nat_u64) (auto simp: linked_def)

lemma index_in_empty [simp]: "index_in cr hist fmempty"
  by (simp add: index_in_def)

lemma store_repD:
  assumes "store_rep cr hist c s" "1 < length hist"
  shows "blocks_rep cr hist s" "st_domains s = domain_rows (rg_entries (abs_state (bc_state c)))" "st_tlds s = tld_rows (rg_entries (abs_state (bc_state c)))"
    "tip_inner s = Inr (of_nat (length hist - 1), bc_tip c)" "snap_rep cr (bc_consensus c) (bc_network c) hist s"
    "verified_snapshot_marker s = Inr None"
  using assms by (auto simp: store_rep_def Let_def meta_rep_def verified_snapshot_marker_def meta_get_def)

lemma linked_take: "linked cr hist \<Longrightarrow> linked cr (take k hist)"
  by (auto simp: linked_def)

lemma full_state_ok:
  assumes g: "grows cr permissive_consensus TESTNET hist c" and s: "store_rep cr hist c s" and len: "1 < length hist"
  shows "\<exists>c'. load_from_full_state cr s TESTNET (of_nat (length hist - 1)) (last hist) (bc_tip c) = Some (Inr c')
    \<and> thin_rep cr hist (abs_state (bc_state c)) c' \<and> index_in cr hist (bc_included c')"
proof -
  let ?a = "abs_state (bc_state c)"
  have r: "window_rep cr hist c" "sound cr ?a" "registry_inv cr ?a" "spec_ledger cr permissive_consensus TESTNET hist = Some ?a" "bc_network c = TESTNET"
    using grows_rep [OF g] by (auto simp: chain_rep_def valid_state_def)
  note net = ledger_network [OF r(4)]
  obtain st where st: "load_state cr (st_domains s) (st_tlds s) = Some (Inr st)" "rep cr st (bare ?a)" "sound cr (bare ?a)" "registry_inv cr (bare ?a)"
    using load_state_ok [OF r(2,3) net] store_repD(2,3) [OF s len] by auto
  have w: "linked cr hist" "hd hist = genesis_of cr TESTNET" "hash_of cr (last hist) = Inr (bc_tip c)" using r by (auto simp: window_rep_def)
  obtain c' where "restore cr (of_nat (length hist - 1)) (bc_tip c) (last hist) st = Some c'" "thin_rep cr hist ?a c'" "bc_included c' = fmempty"
    using restore_thin [OF w(1,2) len w(3) st(2-4) net] by blast
  then show ?thesis using st(1) by (auto simp: load_from_full_state_def obind_def thin_rep_def)
qed

lemma snapshot_ok:
  assumes g: "grows cr permissive_consensus TESTNET hist c" and s: "store_rep cr hist c s" and len: "1 < length hist"
  shows "\<exists>r. try_load_from_snapshot cr s TESTNET (of_nat (length hist - 1)) (bc_tip c) = Some r
    \<and> (\<forall>c'. r = Some c' \<longrightarrow> thin_rep cr hist (abs_state (bc_state c)) c' \<and> index_in cr hist (bc_included c'))"
proof -
  have r: "window_rep cr hist c" "bc_consensus c = permissive_consensus" "bc_network c = TESTNET"
    using grows_rep [OF g] by (auto simp: chain_rep_def)
  then have w: "linked cr hist" "hd hist = genesis_of cr TESTNET" by (auto simp: window_rep_def)
  have "snap_rep cr permissive_consensus TESTNET hist s" using store_repD(5) [OF s len] r by simp
  then consider "st_snap_meta s = fmempty" | (snap) n hash a where "0 < n" "Suc n < length hist" "hash_of cr (hist ! n) = Inr hash"
      "spec_ledger cr permissive_consensus TESTNET (take (Suc n) hist) = Some a"
      "st_snap_meta s = fmupd 0 (u64_be (of_nat n) @ h32_bytes hash) fmempty"
      "st_snap_domains s = domain_rows (rg_entries a)" "st_snap_tlds s = tld_rows (rg_entries a)"
    by (auto simp: snap_rep_def)
  then show ?thesis
  proof cases
    case 1
    then show ?thesis by (simp add: try_load_from_snapshot_def store_snapshot_meta_def)
  next
    case snap
    let ?n = "of_nat n :: u64" and ?t = "of_nat (length hist - 1) :: u64"
    have u: "unat ?n = n" "unat ?t = length hist - 1" using linked_unat [OF w(1), of n] linked_unat [OF w(1), of "length hist - 1"] snap(2) by auto
    have n: "?n \<noteq> 0" "\<not> ?t \<le> ?n" using u snap(1,2) by (auto simp: word_le_nat_alt simp flip: unat_eq_zero)
    have sm: "store_snapshot_meta s = Inr (Some \<lparr>sm_height = ?n, sm_tip_hash = hash\<rparr>)"
      using snap(5) by (simp add: store_snapshot_meta_def SNAPSHOT_META_LEN_def from_be_be_bytes)
    have at: "stored_block_at cr s ?n = Inr (hist ! n)" using stored_block_ok(1) [OF store_repD(1) [OF s len] w(1) snap(1)] snap(2) by simp
    obtain a' where a': "spec_ledger cr permissive_consensus TESTNET (take (Suc n) hist) = Some a'" "sound cr a'" "registry_inv cr a'" "rg_network a' = TESTNET"
      by (rule ledger_good [OF g, of "Suc n"]) (use snap(2) in auto)
    then have a: "sound cr a" "registry_inv cr a" "rg_network a = TESTNET" using snap(4) by auto
    obtain st where st: "load_state cr (st_snap_domains s) (st_snap_tlds s) = Some (Inr st)" "rep cr st (bare a)" "sound cr (bare a)" "registry_inv cr (bare a)"
      using load_state_ok [OF a] snap(6,7) by auto
    have tk: "length (take (Suc n) hist) - 1 = n" "last (take (Suc n) hist) = hist ! n" "hd (take (Suc n) hist) = hd hist" "1 < length (take (Suc n) hist)"
      using snap(1,2) take_Suc_conv_app_nth [of n hist] by (auto simp: hd_append hd_take)
    have "hash_of cr (last (take (Suc n) hist)) = Inr hash" unfolding tk(2) by (rule snap(3))
    then obtain c1 where c1: "restore cr ?n hash (hist ! n) st = Some c1" "thin_rep cr (take (Suc n) hist) a c1" "bc_included c1 = fmempty"
      using restore_thin [OF linked_take [OF w(1)] _ tk(4) _ st(2-4) a(3)] w(2) unfolding tk by blast
    have "heights (unat ?n + 1) ?t = map of_nat [unat ?n + 1..<length hist]" using w(1) snap(2) by (intro heights_eq) (auto simp: linked_def)
    then have "heights (unat ?n + 1) ?t = map of_nat [Suc n..<length hist]" unfolding u(1) by simp
    then obtain r where r: "replay_blocks cr s (heights (unat ?n + 1) ?t) c1 = Some r"
      "\<forall>c'. r = Inr c' \<longrightarrow> thin_rep cr hist (abs_state (bc_state c)) c' \<and> index_in cr hist (bc_included c')"
      using replay_thin [OF g store_repD(1) [OF s len], of "Suc n" a c1] snap(2,4) c1(2,3) by auto
    show ?thesis unfolding try_load_from_snapshot_def sm using n at snap(3) st(1) c1(1) r
      by (cases r) (simp_all add: Let_def)
  qed
qed

section \<open>The index\<close>

lemma rebuild_ok:
  assumes g: "grows cr permissive_consensus TESTNET hist c" and s: "store_rep cr hist c s" and len: "1 < length hist"
    and t: "thin_rep cr hist a c'" and i: "index_in cr hist (bc_included c')"
  shows "rebuild_replay_index_from_store cr s c' (of_nat (length hist - 1)) = Some (Inr (c'\<lparr>bc_included := replay_index cr hist\<rparr>))"
proof -
  let ?t = "of_nat (length hist - 1) :: u64" and ?k = "max (length hist - 256) 1"
  have l: "linked cr hist" "hist \<noteq> []" using t by (auto simp: thin_rep_def window_rep_def)
  have u: "unat ?t = length hist - 1" using len by (intro linked_unat [OF l(1)]) simp
  have sub: "unat (saturating_sub t (REPLAY_WINDOW_BLOCKS - 1)) = unat t - 255" for t
    by (auto simp: saturating_sub_def unat_sub word_le_nat_alt REPLAY_WINDOW_BLOCKS_def)
  have sub2: "unat (saturating_sub t REPLAY_WINDOW_BLOCKS) = unat t - 256" for t
    by (auto simp: saturating_sub_def unat_sub word_le_nat_alt REPLAY_WINDOW_BLOCKS_def)
  have mx: "unat (max t 1) = max (unat t) 1" for t :: u64 by (simp add: max_def word_le_nat_alt)
  have "unat (max (saturating_sub ?t (REPLAY_WINDOW_BLOCKS - 1)) 1) = max (length hist - 1 - 255) 1" by (simp only: mx sub u)
  then have f: "unat (max (saturating_sub ?t (REPLAY_WINDOW_BLOCKS - 1)) 1) = ?k" by simp
  have "heights ?k ?t = map of_nat [?k..<length hist]" using l by (intro heights_eq) (auto simp: linked_def)
  then have e: "window_entries cr s (heights ?k ?t) = Inr (concat (map (block_ids cr) (drop ?k hist)))"
    using window_entries_ok [OF store_repD(1) [OF s len] l(1), of ?k] by simp
  have "height_of b \<le> ?t \<and> saturating_sub ?t REPLAY_WINDOW_BLOCKS < height_of b" if b: "b \<in> set (drop ?k hist)" for b
  proof -
    obtain j where j: "?k \<le> j" "j < length hist" "b = hist ! j" using in_drop [of ?k hist "\<lambda>x. x = b"] b by auto
    then have "unat (height_of b) = j" using l(1) by (auto simp: linked_def intro!: unat_of_nat_u64)
    moreover have "unat (saturating_sub ?t REPLAY_WINDOW_BLOCKS) = length hist - 1 - 256" by (simp only: sub2 u)
    ultimately show ?thesis using j(1,2) unfolding word_le_nat_alt word_less_nat_alt u by linarith
  qed
  then have "fold (\<lambda>(i, h) m. if ?t < h \<or> h \<le> saturating_sub ?t REPLAY_WINDOW_BLOCKS then m else fmupd i h m) (concat (map (block_ids cr) (drop ?k hist))) (bc_included c')
      = replay_index cr hist"
    using rebuild_fold [of "drop ?k hist" ?t "saturating_sub ?t REPLAY_WINDOW_BLOCKS" cr "bc_included c'"] rebuilt_index [OF g i refl]
    by (auto simp del: of_nat_diff)
  moreover have "chain_height c' = Some ?t" using t by (intro window_canonical(3) [of cr]) (simp add: thin_rep_def)
  ultimately show ?thesis
    by (simp only: rebuild_replay_index_from_store_def store_repD(6) [OF s len] Let_def sum.case option.case f e rebuild_replay_index_def option.map)
qed

section \<open>Restart\<close>

lemma load_chain_steps:
  assumes "tip_inner s = Inr (t, tip)" "t \<noteq> 0" "verified_snapshot_marker s = Inr m" "block_at_height t s = Inr (Some bs)"
    "stored_block_at cr s t = Inr b" "hash_of cr b = Inr tip" "try_load_from_snapshot cr s network t tip = Some x"
    "(case x of Some c \<Rightarrow> Some (Inr c) | None \<Rightarrow> load_from_full_state cr s network t b tip) = Some (Inr c)"
  shows "load_chain cr s network = rebuild_replay_index_from_store cr s c t"
  using assms by (simp add: load_chain_def obind_def)

lemma restart:
  assumes g: "grows cr permissive_consensus TESTNET hist c" and s: "store_rep cr hist c s" and len: "1 < length hist"
  shows "\<exists>c'. load_chain cr s TESTNET = Some (Inr c') \<and> thin_rep cr hist (abs_state (bc_state c)) c' \<and> bc_included c' = replay_index cr hist"
proof -
  let ?t = "of_nat (length hist - 1) :: u64" and ?a = "abs_state (bc_state c)"
  have w: "linked cr hist" "hist \<noteq> []" "hash_of cr (last hist) = Inr (bc_tip c)" using grows_rep [OF g] by (auto simp: chain_rep_def window_rep_def)
  have "unat ?t = length hist - 1" using len by (intro linked_unat [OF w(1)]) simp
  then have t: "?t \<noteq> 0" using len by (metis unat_0 diff_is_0_eq not_less)
  have at: "stored_block_at cr s ?t = Inr (last hist)" "\<exists>bs. block_at_height ?t s = Inr (Some bs)"
    unfolding last_conv_nth [OF w(2)] using len by (intro stored_block_ok [OF store_repD(1) [OF s len] w(1)]; simp)+
  obtain x where x: "try_load_from_snapshot cr s TESTNET ?t (bc_tip c) = Some x"
    "\<forall>c'. x = Some c' \<longrightarrow> thin_rep cr hist ?a c' \<and> index_in cr hist (bc_included c')" using snapshot_ok [OF assms] by blast
  obtain c1 where c1: "(case x of Some c \<Rightarrow> Some (Inr c) | None \<Rightarrow> load_from_full_state cr s TESTNET ?t (last hist) (bc_tip c)) = Some (Inr c1)"
    "thin_rep cr hist ?a c1" "index_in cr hist (bc_included c1)"
    using full_state_ok [OF assms] x(2) by (cases x) auto
  have "load_chain cr s TESTNET = rebuild_replay_index_from_store cr s c1 ?t"
    using at(2) load_chain_steps [OF store_repD(4) [OF s len] t store_repD(6) [OF s len] _ at(1) w(3) x(1) c1(1)] by blast
  moreover have "thin_rep cr hist ?a (c1\<lparr>bc_included := replay_index cr hist\<rparr>)"
    using c1(2) by (simp add: thin_rep_def window_rep_def in_window_def)
  ultimately show ?thesis using rebuild_ok [OF assms c1(2,3)] by simp
qed

section \<open>A node and its store\<close>

definition empty_store :: store where
  "empty_store = \<lparr>st_by_height = fmempty, st_by_hash = fmempty, st_domains = fmempty, st_tlds = fmempty, st_names = fmempty,
     st_reverse = fmempty, st_dht = fmempty, st_meta = fmempty, st_snap_meta = fmempty, st_snap_domains = fmempty, st_snap_tlds = fmempty\<rparr>"

lemma open_rep:
  assumes "with_consensus_for_network cr cons network = Some c" "store_open cr empty_store = Some (s, r)"
  shows "r = Inr () \<and> store_rep cr [genesis_of cr network] c s"
proof -
  have e: "domain_rows fmempty = fmempty" "tld_rows fmempty = fmempty" "domain_ids fmempty = {}" "tld_ids fmempty = {}"
    by (auto simp: domain_rows_def tld_rows_def domain_ids_def tld_ids_def intro: fmap_ext)
  have a: "rg_entries (abs_state (bc_state c)) = fmempty"
    using assms(1) rep_abs [OF rep_new] by (auto simp: with_consensus_for_network_def expect_def registry_new_def split: sum.splits)
  show ?thesis using assms(2)
    by (auto simp: store_open_def empty_store_def store_rep_def a e Let_def blocks_rep_def snap_rep_def reverse_ok_def meta_rep_def
        check_format_version_def tip_inner_def meta_u64_def meta_u256_def write_tip_def from_be_be_bytes meta_distinct [symmetric])
qed

text \<open>A node that stores every block it accepts, without reorganizations, which the store does not follow. No
  accepted block registers again a domain that it also collects, since the store would drop its row.\<close>

inductive runs :: "crypto \<Rightarrow> consensus \<Rightarrow> network_params \<Rightarrow> block list \<Rightarrow> blockchain \<Rightarrow> store \<Rightarrow> bool" for cr cons network where
  Open: "with_consensus_for_network cr cons network = Some c \<Longrightarrow> store_open cr empty_store = Some (s, r) \<Longrightarrow>
    runs cr cons network [genesis_of cr network] c s"
| Accept: "runs cr cons network hist c s \<Longrightarrow> block_ok cr b \<Longrightarrow>
    block_free cr cons (time_of (last hist)) (blk_transactions b) (abs_state (bc_state c)) \<Longrightarrow>
    push_block_with_gc cr b c = Some (c', Inr ab) \<Longrightarrow>
    \<forall>i\<in>set (ab_gc_removed_domains ab). state_domain (bc_state c') i = None \<Longrightarrow>
    domain_count (bc_state c) + length (blk_transactions b) < 2 ^ 64 \<Longrightarrow> tld_count (bc_state c) + length (blk_transactions b) < 2 ^ 64 \<Longrightarrow>
    store_block_with_removals cr c' b (ab_hash ab) (ab_gc_removed_domains ab) s = Some (s', r) \<Longrightarrow>
    runs cr cons network (hist @ [b]) c' s'"
| Refuse: "runs cr cons network hist c s \<Longrightarrow>
    block_free cr cons (time_of (last hist)) (blk_transactions b) (abs_state (bc_state c)) \<Longrightarrow>
    push_block_with_gc cr b c = Some (c', Inl e) \<Longrightarrow> runs cr cons network hist c' s"
| Finalize: "runs cr cons network hist c s \<Longrightarrow> accept_checkpoint cr cp c = Some (c', r) \<Longrightarrow> runs cr cons network hist c' s"

lemma same_ledger:
  assumes "grows cr cons network hist c" "grows cr cons network hist c'" "store_rep cr hist c s"
  shows "store_rep cr hist c' s"
proof -
  have "chain_rep cr hist c" "chain_rep cr hist c'" "bc_consensus c' = bc_consensus c" "bc_network c' = bc_network c"
    using grows_rep [OF assms(1)] grows_rep [OF assms(2)] by auto
  then have "abs_state (bc_state c') = abs_state (bc_state c)" "bc_tip c' = bc_tip c" "bc_consensus c' = bc_consensus c" "bc_network c' = bc_network c"
    by (auto simp: chain_rep_def window_rep_def)
  then show ?thesis using assms(3) by (simp add: store_rep_def)
qed

lemma runs_rep: "runs cr cons network hist c s \<Longrightarrow> grows cr cons network hist c \<and> store_rep cr hist c s"
proof (induction rule: runs.induct)
  case (Open c s r)
  then show ?case using open_rep grows.Start by blast
next
  case (Accept hist c s b c' ab s' r)
  have r: "chain_rep cr hist c" "bc_consensus c = cons" using Accept.IH grows_rep by blast+
  then have f: "block_free cr (bc_consensus c) (time_of (last hist)) (blk_transactions b) (abs_state (bc_state c))" using Accept.hyps(3) by simp
  have "store_rep cr (hist @ [b]) c' s'"
    using store_block_ok [OF r(1) Accept.hyps(4) f conjunct2 [OF Accept.IH] Accept.hyps(2,5-7)] Accept.hyps(8) by auto
  then show ?case using grows.Push Accept.IH Accept.hyps(3,4) by blast
next
  case (Refuse hist c s b c' e)
  then show ?case using grows.Reject same_ledger by blast
next
  case (Finalize hist c s cp c' r)
  then show ?case using grows.Checkpoint same_ledger by blast
qed

lemma thin_observed:
  assumes "thin_rep cr hist (abs_state (bc_state c)) c'" "chain_rep cr hist c"
  shows "tip_hash c' = tip_hash c" "chain_height c' = chain_height c" "state_domain (bc_state c') = state_domain (bc_state c)"
    "state_tld (bc_state c') = state_tld (bc_state c)" "state_root_smt cr (bc_state c') = state_root_smt cr (bc_state c)"
proof -
  let ?a = "abs_state (bc_state c)" and ?w = "abs_state (bc_state c')"
  have w: "window_rep cr hist c'" "rep cr (bc_state c') ?w" "thinner ?a ?w" "window_rep cr hist c" "rep cr (bc_state c) ?a"
    using assms by (auto simp: thin_rep_def chain_rep_def valid_state_def)
  show "tip_hash c' = tip_hash c" using w(1,4) by (simp add: window_rep_def tip_hash_def)
  show "chain_height c' = chain_height c" using window_canonical(3) [OF w(1)] window_canonical(3) [OF w(4)] by simp
  show "state_domain (bc_state c') = state_domain (bc_state c)" "state_tld (bc_state c') = state_tld (bc_state c)"
    using thinner_parts [OF w(3)] rep_domain [OF w(2)] rep_domain [OF w(5)] rep_tld [OF w(2)] rep_tld [OF w(5)] by auto
  have "tree_ok cr (rg_entries ?a) (cs_smt (bc_state c'))" "tree_ok cr (rg_entries ?a) (cs_smt (bc_state c))"
    using w by (simp_all add: rep_def store_ok_def thinner_def)
  then have "smt_eq (cs_smt (bc_state c')) (cs_smt (bc_state c))" by (rule tree_ok_unique)
  then show "state_root_smt cr (bc_state c') = state_root_smt cr (bc_state c)" by (simp add: smt_eq_def smt_root_def state_root_smt_def)
qed

lemma restart_genesis:
  assumes g: "grows cr permissive_consensus TESTNET [genesis_of cr TESTNET] c" and s: "store_rep cr [genesis_of cr TESTNET] c s"
  shows "\<exists>c'. load_chain cr s TESTNET = Some (Inr c') \<and> thin_rep cr [genesis_of cr TESTNET] (abs_state (bc_state c)) c'
    \<and> bc_included c' = replay_index cr [genesis_of cr TESTNET]"
proof -
  obtain c' where c': "with_consensus_for_network cr permissive_consensus TESTNET = Some c'" by (rule ex_genesis)
  then have g': "grows cr permissive_consensus TESTNET [genesis_of cr TESTNET] c'" by (rule grows.Start)
  have "chain_rep cr [genesis_of cr TESTNET] c" "bc_consensus c = permissive_consensus" "bc_network c = TESTNET"
    "chain_rep cr [genesis_of cr TESTNET] c'" "bc_consensus c' = permissive_consensus" "bc_network c' = TESTNET"
    using grows_rep [OF g] grows_rep [OF g'] by auto
  then have "thin_rep cr [genesis_of cr TESTNET] (abs_state (bc_state c)) c'" by (auto simp: thin_rep_def chain_rep_def thinner_def)
  moreover have "load_chain cr s TESTNET = Some (Inr c')" using s c'
    by (auto simp: store_rep_def Let_def load_chain_def chain_for_network_def)
  ultimately show ?thesis using grows_index [OF g'] by blast
qed

end
