(* ===== verification/Scone_Verified.thy ===== *)
theory Scone_Verified
  imports Scone_Reload
begin

text \<open>
  Verified snapshots (\<^verbatim>\<open>crates/scone-storage/src/verified_snapshot.rs\<close>): the manifest and the pages that carry
  the state of a finalized block, their strict decoding, the export from the frozen tables and the
  import, which recomputes the state root before it writes anything.
\<close>

section \<open>The manifest\<close>

definition MANIFEST_TAG :: bytes where "MANIFEST_TAG = str_bytes ''SCONE-SNAP-MAN-V1''"
definition PAGE_TAG :: bytes where "PAGE_TAG = str_bytes ''SCONE-SNAP-PAGE-V1''"
definition PAGE_HASH_TAG :: bytes where "PAGE_HASH_TAG = str_bytes ''SCONE-SNAP-PAGE-HASH''"
definition MANIFEST_HASH_TAG :: bytes where "MANIFEST_HASH_TAG = str_bytes ''SCONE-SNAP-MAN-HASH''"
definition VERIFIED_SNAPSHOT_PAGE_ENTRIES :: nat where "VERIFIED_SNAPSHOT_PAGE_ENTRIES = 256"
definition MAX_VERIFIED_SNAPSHOT_PAGE_ENTRIES :: nat where "MAX_VERIFIED_SNAPSHOT_PAGE_ENTRIES = 10000"
definition MAX_VERIFIED_SNAPSHOT_PAGES :: u32 where "MAX_VERIFIED_SNAPSHOT_PAGES = 2 ^ 20"

record manifest =
  mf_height :: u64
  mf_tip_hash :: hash32
  mf_state_root :: hash32
  mf_page_count :: u32
  mf_domain_count :: u64
  mf_tld_count :: u64
  mf_page_hashes :: "hash32 list"

definition manifest_encode :: "manifest \<Rightarrow> bytes" where
  "manifest_encode m = MANIFEST_TAG @ u64_be (mf_height m) @ h32_bytes (mf_tip_hash m) @ h32_bytes (mf_state_root m)
     @ be_bytes 4 (mf_page_count m) @ u64_be (mf_domain_count m) @ u64_be (mf_tld_count m) @ concat (map h32_bytes (mf_page_hashes m))"

text \<open>\<open>n\<close> hashes, one after the other.\<close>

primrec take_hashes :: "nat \<Rightarrow> bytes \<Rightarrow> hash32 list" where
  "take_hashes 0 bs = []"
| "take_hashes (Suc n) bs = h32_of_bytes (take 32 bs) # take_hashes n (drop 32 bs)"

definition manifest_decode :: "bytes \<Rightarrow> manifest st_result" where
  "manifest_decode bs =
     (let t = length MANIFEST_TAG; header = t + 8 + 32 + 32 + 4 + 8 + 8 in
      if length bs < header \<or> take t bs \<noteq> MANIFEST_TAG then Inl StCorrupted
      else
        let height = from_be_bytes (slice t (t + 8) bs); tip = h32_of_bytes (slice (t + 8) (t + 40) bs);
            root = h32_of_bytes (slice (t + 40) (t + 72) bs); page_count = from_be_bytes (slice (t + 72) (t + 76) bs);
            domains = from_be_bytes (slice (t + 76) (t + 84) bs); tlds = from_be_bytes (slice (t + 84) (t + 92) bs) in
        if MAX_VERIFIED_SNAPSHOT_PAGES < page_count then Inl StCorrupted
        else if length bs \<noteq> header + 32 * unat page_count then Inl StCorrupted
        else Inr \<lparr>mf_height = height, mf_tip_hash = tip, mf_state_root = root, mf_page_count = page_count, mf_domain_count = domains,
          mf_tld_count = tlds, mf_page_hashes = take_hashes (unat page_count) (drop header bs)\<rparr>)"

definition manifest_hash :: "crypto \<Rightarrow> manifest \<Rightarrow> hash32" where
  "manifest_hash cr m = hash256 cr [MANIFEST_HASH_TAG, manifest_encode m]"

section \<open>Pages\<close>

text \<open>The states are the fixed arrays of the store.\<close>

datatype snapshot_entry = SnapDomain domain_id bytes | SnapTld tld_id bytes

record snapshot_page =
  sp_index :: u32
  sp_height :: u64
  sp_state_root :: hash32
  sp_entries :: "snapshot_entry list"

fun entry_encode :: "snapshot_entry \<Rightarrow> bytes" where
  "entry_encode (SnapDomain i st) = 0x01 # h32_bytes i @ be_bytes 2 (of_nat (length (domain_as_encoded st)) :: 16 word) @ domain_as_encoded st"
| "entry_encode (SnapTld i st) = 0x02 # h32_bytes i @ be_bytes 2 (of_nat (length (tld_as_encoded st)) :: 16 word) @ tld_as_encoded st"

definition page_encode :: "snapshot_page \<Rightarrow> bytes" where
  "page_encode p = PAGE_TAG @ be_bytes 4 (sp_index p) @ u64_be (sp_height p) @ h32_bytes (sp_state_root p)
     @ be_bytes 4 (of_nat (length (sp_entries p)) :: u32) @ concat (map entry_encode (sp_entries p))"

definition entry_decode :: "bytes \<Rightarrow> (snapshot_entry \<times> bytes) st_result" where
  "entry_decode bs =
     (case bs of [] \<Rightarrow> Inl StCorrupted
      | kind # r1 \<Rightarrow>
          if length r1 < 32 then Inl StCorrupted
          else let i = h32_of_bytes (take 32 r1); r2 = drop 32 r1 in
          if length r2 < 2 then Inl StCorrupted
          else let len = unat (from_be_bytes (take 2 r2) :: 16 word); r3 = drop 2 r2 in
          if length r3 < len then Inl StCorrupted
          else let state = take len r3; rest = drop len r3 in
          if kind = 0x01 then
            (if len \<noteq> DOMAIN_STATE_LEN_SOME \<and> len \<noteq> DOMAIN_STATE_LEN_NONE then Inl StCorrupted
             else Inr (SnapDomain i (state @ replicate (DOMAIN_STATE_LEN_SOME - len) 0), rest))
          else if kind = 0x02 then (if len \<noteq> TLD_STATE_LEN then Inl StCorrupted else Inr (SnapTld i state, rest))
          else Inl StCorrupted)"

primrec entries_decode :: "nat \<Rightarrow> bytes \<Rightarrow> (snapshot_entry list \<times> bytes) st_result" where
  "entries_decode 0 bs = Inr ([], bs)"
| "entries_decode (Suc n) bs = try_bind (entry_decode bs) (\<lambda>(e, rest). try_bind (entries_decode n rest) (\<lambda>(es, rest'). Inr (e # es, rest')))"

definition page_decode :: "bytes \<Rightarrow> snapshot_page st_result" where
  "page_decode bs =
     (let t = length PAGE_TAG; header = t + 4 + 8 + 32 + 4 in
      if length bs < header \<or> take t bs \<noteq> PAGE_TAG then Inl StCorrupted
      else
        let index = from_be_bytes (slice t (t + 4) bs); height = from_be_bytes (slice (t + 4) (t + 12) bs);
            root = h32_of_bytes (slice (t + 12) (t + 44) bs); count = unat (from_be_bytes (slice (t + 44) (t + 48) bs) :: u32) in
        if MAX_VERIFIED_SNAPSHOT_PAGE_ENTRIES < count then Inl StCorrupted
        else try_bind (entries_decode count (drop header bs)) (\<lambda>(es, rest).
          if rest \<noteq> [] then Inl StCorrupted
          else Inr \<lparr>sp_index = index, sp_height = height, sp_state_root = root, sp_entries = es\<rparr>))"

definition page_hash :: "crypto \<Rightarrow> snapshot_page \<Rightarrow> hash32" where
  "page_hash cr p = hash256 cr [PAGE_HASH_TAG, page_encode p]"

section \<open>Export\<close>

text \<open>Adding an entry to the last page, or to a new one when there is none or it is full.\<close>

definition page_entry_slot :: "hash32 \<Rightarrow> u64 \<Rightarrow> snapshot_entry \<Rightarrow> snapshot_page list \<Rightarrow> snapshot_page list" where
  "page_entry_slot root height e pages =
     (if pages = [] \<or> VERIFIED_SNAPSHOT_PAGE_ENTRIES \<le> length (sp_entries (last pages))
      then pages @ [\<lparr>sp_index = of_nat (length pages), sp_height = height, sp_state_root = root, sp_entries = [e]\<rparr>]
      else butlast pages @ [(last pages)\<lparr>sp_entries := sp_entries (last pages) @ [e]\<rparr>])"

definition export_row :: "hash32 \<Rightarrow> u64 \<Rightarrow> (hash32 \<Rightarrow> bytes \<Rightarrow> snapshot_entry) \<Rightarrow> hash32 \<times> bytes \<Rightarrow> snapshot_page list \<times> u64
    \<Rightarrow> (snapshot_page list \<times> u64) st_result option" where
  "export_row root height mk = (\<lambda>(i, st) (pages, count).
     map_option (\<lambda>n. Inr (page_entry_slot root height (mk i st) pages, n)) (checked_add count 1))"

definition export_verified_snapshot :: "crypto \<Rightarrow> store \<Rightarrow> checkpoint \<Rightarrow> (manifest \<times> bytes list) st_result option" where
  "export_verified_snapshot cr s cp =
     obind (Some (store_snapshot_meta s)) (\<lambda>meta.
     case meta of None \<Rightarrow> Some (Inl StSnapshotUnavailable)
     | Some sm \<Rightarrow>
         if sm_height sm = 0 then Some (Inl StSnapshotUnavailable)
         else if sm_height sm \<noteq> cd_height (ck_data cp) then Some (Inl StSnapshotUnavailable)
         else if sm_tip_hash sm \<noteq> cd_block_hash (ck_data cp) then Some (Inl StSnapshotUnavailable)
         else obind (Some (block_at_height (sm_height sm) s)) (\<lambda>found.
           if found = None then Some (Inl StSnapshotUnavailable)
           else obind (Some (stored_block_at cr s (sm_height sm))) (\<lambda>anchor.
             case block_hash cr (blk_header anchor) of Inl _ \<Rightarrow> Some (Inl StCorrupted)
             | Inr recomputed \<Rightarrow>
                 if recomputed \<noteq> sm_tip_hash sm then Some (Inl StSnapshotUnavailable)
                 else
                   let root = cd_state_root (ck_data cp); height = sm_height sm; mx = VERIFIED_SNAPSHOT_PAGE_ENTRIES in
                   obind (load_table stored_domain MAX_DOMAIN_PAGE mx (export_row root height SnapDomain) (st_snap_domains s) None ([], 0))
                   (\<lambda>(pages1, domain_count).
                   obind (load_table stored_tld MAX_TLD_PAGE mx (export_row root height SnapTld) (st_snap_tlds s) None (pages1, 0))
                   (\<lambda>(pages, tld_count).
                     Some (Inr (\<lparr>mf_height = height, mf_tip_hash = sm_tip_hash sm, mf_state_root = root, mf_page_count = of_nat (length pages),
                       mf_domain_count = domain_count, mf_tld_count = tld_count, mf_page_hashes = map (page_hash cr) pages\<rparr>,
                       map page_encode pages)))))))"

section \<open>Import\<close>

record import_state =
  im_domains :: "(domain_id \<times> bytes) list"
  im_tlds :: "(tld_id \<times> bytes) list"
  im_domains_dec :: "(domain_id \<times> domain_state) list"
  im_tlds_dec :: "(tld_id \<times> tld_state) list"
  im_last_domain :: "hash32 option"
  im_last_tld :: "hash32 option"

definition import_new :: import_state where
  "import_new = \<lparr>im_domains = [], im_tlds = [], im_domains_dec = [], im_tlds_dec = [], im_last_domain = None, im_last_tld = None\<rparr>"

fun import_entry :: "snapshot_entry \<Rightarrow> import_state \<Rightarrow> import_state st_result" where
  "import_entry (SnapDomain i st) x =
     (if (case im_last_domain x of Some prev \<Rightarrow> i \<le> prev | None \<Rightarrow> False) then Inl StSnapshotRejected
      else try_bind (domain_decode (domain_as_encoded st)) (\<lambda>d.
        Inr (x\<lparr>im_last_domain := Some i, im_domains := im_domains x @ [(i, st)], im_domains_dec := im_domains_dec x @ [(i, d)]\<rparr>)))"
| "import_entry (SnapTld i st) x =
     (if (case im_last_tld x of Some prev \<Rightarrow> i \<le> prev | None \<Rightarrow> False) then Inl StSnapshotRejected
      else try_bind (tld_decode (tld_as_encoded st)) (\<lambda>d.
        Inr (x\<lparr>im_last_tld := Some i, im_tlds := im_tlds x @ [(i, st)], im_tlds_dec := im_tlds_dec x @ [(i, d)]\<rparr>)))"

fun import_entries :: "snapshot_entry list \<Rightarrow> import_state \<Rightarrow> import_state st_result" where
  "import_entries [] x = Inr x"
| "import_entries (e # es) x = try_bind (import_entry e x) (import_entries es)"

fun import_pages :: "crypto \<Rightarrow> manifest \<Rightarrow> nat \<Rightarrow> bytes list \<Rightarrow> import_state \<Rightarrow> import_state st_result" where
  "import_pages cr m i [] x = Inr x"
| "import_pages cr m i (raw # raws) x = try_bind (page_decode raw) (\<lambda>page.
     if sp_index page \<noteq> of_nat i then Inl StSnapshotRejected
     else if sp_height page \<noteq> mf_height m then Inl StSnapshotRejected
     else if sp_state_root page \<noteq> mf_state_root m then Inl StSnapshotRejected
     else if page_hash cr page \<noteq> mf_page_hashes m ! i then Inl StSnapshotRejected
     else try_bind (import_entries (sp_entries page) x) (import_pages cr m (i + 1) raws))"

text \<open>The entry budget is a product of lengths of lists in memory and does not overflow.\<close>

definition import_verified_snapshot :: "crypto \<Rightarrow> checkpoint \<Rightarrow> manifest \<Rightarrow> bytes list \<Rightarrow> store \<Rightarrow> (store \<times> unit st_result) option" where
  "import_verified_snapshot cr cp m pages s =
     (if unat (mf_page_count m) \<noteq> length pages \<or> length (mf_page_hashes m) \<noteq> length pages then Some (s, Inl StSnapshotRejected)
      else if MAX_VERIFIED_SNAPSHOT_PAGE_ENTRIES * length pages < unat (saturating_add (mf_domain_count m) (mf_tld_count m))
        then Some (s, Inl StSnapshotRejected)
      else if mf_height m \<noteq> cd_height (ck_data cp) then Some (s, Inl StSnapshotRejected)
      else if mf_tip_hash m \<noteq> cd_block_hash (ck_data cp) then Some (s, Inl StSnapshotRejected)
      else if mf_state_root m \<noteq> cd_state_root (ck_data cp) then Some (s, Inl StSnapshotRejected)
      else if mf_height m = 0 then Some (s, Inl StSnapshotRejected)
      else case tip_inner s of Inl e \<Rightarrow> Some (s, Inl e)
      | Inr (tip_height, _) \<Rightarrow>
          if tip_height \<noteq> 0 then Some (s, Inl StSnapshotUnavailable)
          else case import_pages cr m 0 pages import_new of Inl e \<Rightarrow> Some (s, Inl e)
          | Inr x \<Rightarrow>
              if of_nat (length (im_domains x)) \<noteq> mf_domain_count m then Some (s, Inl StSnapshotRejected)
              else if of_nat (length (im_tlds x)) \<noteq> mf_tld_count m then Some (s, Inl StSnapshotRejected)
              else map_option (\<lambda>root.
                if root \<noteq> mf_state_root m then (s, Inl StSnapshotRejected)
                else write_verified_snapshot (im_domains x) (im_tlds x)
                  \<lparr>mk_height = mf_height m, mk_tip_hash = mf_tip_hash m, mk_manifest_hash = manifest_hash cr m\<rparr> s)
                (recompute_state_root cr (im_domains_dec x) (im_tlds_dec x)))"

end
