(* ===== verification/Scone_Verified_Codec.thy ===== *)
theory Scone_Verified_Codec
  imports Scone_Verified
begin

text \<open>
  The encodings of verified snapshots: the manifest decoder accepts exactly the encodings of
  well-formed manifests, and a page of stored states is read back.
\<close>

section \<open>Manifests\<close>

lemma length_concat_hashes: "length (concat (map h32_bytes hs)) = 32 * length hs"
  by (induction hs) simp_all

lemma take_hashes_concat: "take_hashes (length hs) (concat (map h32_bytes hs)) = hs"
  by (induction hs) (simp_all add: from_be_be_bytes)

lemma take_hashes_bytes: "length bs = 32 * n \<Longrightarrow> concat (map h32_bytes (take_hashes n bs)) = bs \<and> length (take_hashes n bs) = n"
proof (induction n arbitrary: bs)
  case (Suc n)
  have "h32_bytes (h32_of_bytes (take 32 bs)) = take 32 bs" using be_from_be_bytes [of "take 32 bs", where 'a = 256] Suc.prems by simp
  then show ?case using Suc.IH [of "drop 32 bs"] Suc.prems by simp
qed simp

lemma slice_bytes:
  assumes "b \<le> length bs" "a \<le> b" "8 * (b - a) \<le> LENGTH('a)"
  shows "be_bytes (b - a) (from_be_bytes (slice a b bs) :: 'a::len word) = slice a b bs"
  using be_from_be_bytes [of "slice a b bs", where 'a = 'a] assms by (simp add: slice_def)

lemma slice_cut: "a \<le> b \<Longrightarrow> b \<le> length bs \<Longrightarrow> drop a bs = slice a b bs @ drop b bs"
proof -
  assume "a \<le> b" "b \<le> length bs"
  then have "drop b bs = drop (b - a) (drop a bs)" by simp
  then show ?thesis unfolding slice_def by (metis append_take_drop_id)
qed

lemma manifest_tag_length [simp]: "length MANIFEST_TAG = 17" "length PAGE_TAG = 18"
  by (simp_all add: MANIFEST_TAG_def PAGE_TAG_def str_bytes_def)

definition manifest_ok :: "manifest \<Rightarrow> bool" where
  "manifest_ok m \<longleftrightarrow> length (mf_page_hashes m) = unat (mf_page_count m) \<and> mf_page_count m \<le> MAX_VERIFIED_SNAPSHOT_PAGES"

lemma manifest_decode_encode: "manifest_ok m \<Longrightarrow> manifest_decode (manifest_encode m) = Inr m"
  using take_hashes_concat [of "mf_page_hashes m"]
  by (simp add: manifest_ok_def manifest_decode_def manifest_encode_def slice_def Let_def length_concat_hashes from_be_be_bytes not_less)

lemma manifest_encode_decode:
  assumes "manifest_decode bs = Inr m" shows "manifest_ok m \<and> bs = manifest_encode m"
proof -
  let ?pc = "from_be_bytes (slice 89 93 bs) :: u32"
  have l: "109 \<le> length bs" "take 17 bs = MANIFEST_TAG" "?pc \<le> MAX_VERIFIED_SNAPSHOT_PAGES" "length bs = 109 + 32 * unat ?pc"
    and m: "m = \<lparr>mf_height = from_be_bytes (slice 17 25 bs), mf_tip_hash = h32_of_bytes (slice 25 57 bs), mf_state_root = h32_of_bytes (slice 57 89 bs),
      mf_page_count = ?pc, mf_domain_count = from_be_bytes (slice 93 101 bs), mf_tld_count = from_be_bytes (slice 101 109 bs),
      mf_page_hashes = take_hashes (unat ?pc) (drop 109 bs)\<rparr>"
    using assms by (auto simp: manifest_decode_def Let_def split: if_splits)
  have "bs = take 17 bs @ drop 17 bs" by simp
  also have "drop 17 bs = slice 17 25 bs @ slice 25 57 bs @ slice 57 89 bs @ slice 89 93 bs @ slice 93 101 bs @ slice 101 109 bs @ drop 109 bs"
    using l(1) slice_cut [of 17 25 bs] slice_cut [of 25 57 bs] slice_cut [of 57 89 bs] slice_cut [of 89 93 bs] slice_cut [of 93 101 bs]
      slice_cut [of 101 109 bs] by simp
  finally have "bs = manifest_encode m"
    using l slice_bytes [of 25 bs 17, where 'a = 64] slice_bytes [of 57 bs 25, where 'a = 256] slice_bytes [of 89 bs 57, where 'a = 256]
      slice_bytes [of 93 bs 89, where 'a = 32] slice_bytes [of 101 bs 93, where 'a = 64] slice_bytes [of 109 bs 101, where 'a = 64]
      take_hashes_bytes [of "drop 109 bs" "unat ?pc"]
    by (simp add: m manifest_encode_def)
  then show ?thesis using l take_hashes_bytes [of "drop 109 bs" "unat ?pc"] by (simp add: m manifest_ok_def)
qed

section \<open>Pages\<close>

fun entry_ok :: "snapshot_entry \<Rightarrow> bool" where
  "entry_ok (SnapDomain i st) \<longleftrightarrow> (\<exists>d. st = domain_state_bytes d)"
| "entry_ok (SnapTld i st) \<longleftrightarrow> (\<exists>t. st = tld_state_bytes t)"

lemma entry_decode_encode:
  assumes "entry_ok e" shows "entry_decode (entry_encode e @ rest) = Inr (e, rest)"
proof (cases e)
  case (SnapDomain i st)
  then obtain d where d: "st = domain_state_bytes d" using assms by auto
  have enc: "domain_as_encoded st = domain_row d" by (simp add: d domain_row_def)
  have len: "length (domain_row d) = DOMAIN_STATE_LEN_SOME \<or> length (domain_row d) = DOMAIN_STATE_LEN_NONE"
    by (simp add: domain_row_eq domain_lens split: option.splits)
  have pad: "domain_row d @ replicate (DOMAIN_STATE_LEN_SOME - length (domain_row d)) 0 = st"
    using stored_domain_row [of d] len by (auto simp: stored_domain_def d split: if_splits)
  have "unat (of_nat (length (domain_row d)) :: 16 word) = length (domain_row d)"
    using len by (auto simp: domain_lens unat_of_nat)
  then show ?thesis using len pad unfolding SnapDomain entry_encode.simps enc
    by (auto simp: entry_decode_def Let_def from_be_be_bytes)
next
  case (SnapTld i st)
  then obtain d where d: "st = tld_state_bytes d" using assms by auto
  have "length st = TLD_STATE_LEN" by (simp add: d tld_state_bytes_def TLD_STATE_LEN_def)
  then show ?thesis
    by (simp add: SnapTld entry_decode_def Let_def from_be_be_bytes tld_as_encoded_def TLD_STATE_LEN_def unat_of_nat)
qed

lemma entries_decode_encode:
  "\<forall>e\<in>set es. entry_ok e \<Longrightarrow> entries_decode (length es) (concat (map entry_encode es) @ rest) = Inr (es, rest)"
  by (induction es) (simp_all add: entry_decode_encode)

lemma page_decode_encode:
  assumes "\<forall>e\<in>set (sp_entries p). entry_ok e" "length (sp_entries p) \<le> MAX_VERIFIED_SNAPSHOT_PAGE_ENTRIES"
  shows "page_decode (page_encode p) = Inr p"
proof -
  have "unat (of_nat (length (sp_entries p)) :: u32) = length (sp_entries p)"
    using assms(2) by (simp add: unat_of_nat MAX_VERIFIED_SNAPSHOT_PAGE_ENTRIES_def)
  then show ?thesis using entries_decode_encode [OF assms(1), of "[]"] assms(2)
    by (simp add: page_decode_def page_encode_def slice_def Let_def from_be_be_bytes not_less)
qed

end
