(* ===== verification/Scone_Bootstrap.thy ===== *)
theory Scone_Bootstrap
  imports Scone_Verified_Codec
begin

text \<open>
  From export to import: the pages of an export hold the rows of the frozen tables in order, the
  import takes them apart again, and the tables it writes are those of the exporting node.
\<close>

section \<open>The pages of an export\<close>

definition paged :: "hash32 \<Rightarrow> u64 \<Rightarrow> snapshot_page list \<Rightarrow> snapshot_entry list \<Rightarrow> bool" where
  "paged root h P es \<longleftrightarrow> concat (map sp_entries P) = es
     \<and> (\<forall>i<length P. sp_index (P ! i) = of_nat i \<and> sp_height (P ! i) = h \<and> sp_state_root (P ! i) = root
          \<and> sp_entries (P ! i) \<noteq> [] \<and> length (sp_entries (P ! i)) \<le> VERIFIED_SNAPSHOT_PAGE_ENTRIES)"

lemma paged_slot:
  assumes p: "paged root h P es" shows "paged root h (page_entry_slot root h e P) (es @ [e])"
proof (cases "P = [] \<or> VERIFIED_SNAPSHOT_PAGE_ENTRIES \<le> length (sp_entries (last P))")
  case True
  then show ?thesis using p
    by (auto simp: paged_def page_entry_slot_def nth_append VERIFIED_SNAPSHOT_PAGE_ENTRIES_def less_Suc_eq)
next
  case False
  then have ne: "P \<noteq> []" by simp
  let ?l = "last P" and ?b = "butlast P"
  have P: "P = ?b @ [?l]" using ne by simp
  have l: "?l = P ! length ?b" using ne by (simp add: last_conv_nth)
  have "concat (map sp_entries P) = concat (map sp_entries ?b) @ sp_entries ?l" by (subst P) simp
  then have c: "concat (map sp_entries ?b) @ sp_entries ?l = es" using p by (simp add: paged_def)
  have "sp_index (Q ! i) = of_nat i \<and> sp_height (Q ! i) = h \<and> sp_state_root (Q ! i) = root \<and> sp_entries (Q ! i) \<noteq> []
      \<and> length (sp_entries (Q ! i)) \<le> VERIFIED_SNAPSHOT_PAGE_ENTRIES"
    if q: "Q = ?b @ [?l\<lparr>sp_entries := sp_entries ?l @ [e]\<rparr>]" and i: "i < length Q" for Q i
  proof (cases "i < length ?b")
    case True
    then show ?thesis using p q by (simp add: paged_def nth_append nth_butlast)
  next
    case last: False
    then have "i = length ?b" using i q by simp
    moreover have "length ?b < length P" using ne by simp
    ultimately show ?thesis using p q False l by (simp add: paged_def nth_append)
  qed
  then show ?thesis using False c by (auto simp: paged_def page_entry_slot_def)
qed

lemma paged_fold: "paged root h P es \<Longrightarrow> paged root h (fold (page_entry_slot root h) fs P) (es @ fs)"
proof (induction fs arbitrary: P es)
  case (Cons f fs)
  then show ?case using paged_slot Cons.IH [of "page_entry_slot root h f P" "es @ [f]"] by simp
qed simp

lemma paged_length: "paged root h P es \<Longrightarrow> length P \<le> length es"
proof -
  assume p: "paged root h P es"
  have "(\<forall>x\<in>set Q. sp_entries x \<noteq> []) \<Longrightarrow> length Q \<le> length (concat (map sp_entries Q))" for Q :: "snapshot_page list"
    by (induction Q) (auto simp: Suc_le_eq intro: order.strict_trans1 less_add_same_cancel2 [THEN iffD2])
  moreover have "\<forall>x\<in>set P. sp_entries x \<noteq> []" using p by (auto simp: paged_def in_set_conv_nth)
  ultimately have "length P \<le> length (concat (map sp_entries P))" by blast
  then show ?thesis using p by (simp add: paged_def)
qed

lemma export_rows:
  "n + length ks < 2 ^ 64 \<Longrightarrow> each_row (export_row root h mk) (map (\<lambda>k. (k, g k)) ks) (P, of_nat n)
     = Some (Inr (fold (page_entry_slot root h) (map (\<lambda>k. mk k (g k)) ks) P, of_nat (n + length ks)))"
proof (induction ks arbitrary: P n)
  case (Cons k ks)
  have u: "unat (of_nat n :: u64) = n" using Cons.prems by (intro unat_of_nat_u64) simp
  have "checked_add (of_nat n :: u64) 1 = Some (of_nat (Suc n))" using u Cons.prems by (simp add: checked_add_def add.commute)
  then show ?case using Cons.IH [of "Suc n"] Cons.prems by (simp add: export_row_def)
qed simp

section \<open>Taking the pages apart\<close>

lemma import_entries_append: "import_entries (es @ fs) x = try_bind (import_entries es x) (import_entries fs)"
proof (induction es arbitrary: x)
  case (Cons e es)
  then show ?case by (cases "import_entry e x") simp_all
qed simp

lemma import_pages_paged:
  assumes p: "paged root h P es" "\<forall>e\<in>set es. entry_ok e" and m: "mf_height m = h" "mf_state_root m = root" "mf_page_hashes m = map (page_hash cr) P"
  shows "P = pre @ suf \<Longrightarrow> import_pages cr m (length pre) (map page_encode suf) x = import_entries (concat (map sp_entries suf)) x"
proof (induction suf arbitrary: pre x)
  case (Cons page suf)
  have at: "P ! length pre = page" "length pre < length P" using Cons.prems by simp_all
  have "set (sp_entries page) \<subseteq> set es" using p(1) Cons.prems by (auto simp: paged_def)
  then have ok: "\<forall>e\<in>set (sp_entries page). entry_ok e" using p(2) by blast
  have q: "sp_index page = of_nat (length pre)" "sp_height page = h" "sp_state_root page = root" "length (sp_entries page) \<le> MAX_VERIFIED_SNAPSHOT_PAGE_ENTRIES"
    using p(1) at by (auto simp: paged_def VERIFIED_SNAPSHOT_PAGE_ENTRIES_def MAX_VERIFIED_SNAPSHOT_PAGE_ENTRIES_def)
  have hs: "mf_page_hashes m ! length pre = page_hash cr page" using m(3) at by simp
  have rest: "import_pages cr m (length pre + 1) (map page_encode suf) y = import_entries (concat (map sp_entries suf)) y" for y
    using Cons.IH [of "pre @ [page]" y] Cons.prems by simp
  then have "import_pages cr m (length pre + 1) (map page_encode suf) = import_entries (concat (map sp_entries suf))" by (rule ext)
  then show ?case using q m(1,2) hs page_decode_encode [OF ok q(4)] by (simp add: import_entries_append)
qed simp

lemma import_domains:
  "sorted_wrt (<) ks \<Longrightarrow> \<forall>k\<in>set ks. \<forall>p. im_last_domain x = Some p \<longrightarrow> p < k \<Longrightarrow>
     \<exists>l. import_entries (map (\<lambda>k. SnapDomain k (domain_state_bytes (d k))) ks) x
       = Inr (x\<lparr>im_last_domain := l, im_domains := im_domains x @ map (\<lambda>k. (k, domain_state_bytes (d k))) ks,
           im_domains_dec := im_domains_dec x @ map (\<lambda>k. (k, d k)) ks\<rparr>)"
proof (induction ks arbitrary: x)
  case (Cons k ks)
  have dec: "domain_decode (domain_as_encoded (domain_state_bytes (d k))) = Inr (d k)" using decode_domain_row [of "d k"] by (simp add: domain_row_def)
  have first: "(case im_last_domain x of Some prev \<Rightarrow> k \<le> prev | None \<Rightarrow> False) \<longleftrightarrow> False" using Cons.prems(2) by (auto split: option.splits)
  let ?x = "x\<lparr>im_last_domain := Some k, im_domains := im_domains x @ [(k, domain_state_bytes (d k))], im_domains_dec := im_domains_dec x @ [(k, d k)]\<rparr>"
  have "import_entry (SnapDomain k (domain_state_bytes (d k))) x = Inr ?x" unfolding import_entry.simps first dec by simp
  moreover obtain l where "import_entries (map (\<lambda>k. SnapDomain k (domain_state_bytes (d k))) ks) ?x
       = Inr (?x\<lparr>im_last_domain := l, im_domains := im_domains ?x @ map (\<lambda>k. (k, domain_state_bytes (d k))) ks,
           im_domains_dec := im_domains_dec ?x @ map (\<lambda>k. (k, d k)) ks\<rparr>)"
    using Cons.IH [of ?x] Cons.prems(1) by auto
  ultimately show ?case by (intro exI [of _ l]) simp
next
  case Nil
  show ?case by (rule exI [of _ "im_last_domain x"]) simp
qed

lemma import_tlds:
  "sorted_wrt (<) ks \<Longrightarrow> \<forall>k\<in>set ks. \<forall>p. im_last_tld x = Some p \<longrightarrow> p < k \<Longrightarrow>
     \<exists>l. import_entries (map (\<lambda>k. SnapTld k (tld_state_bytes (d k))) ks) x
       = Inr (x\<lparr>im_last_tld := l, im_tlds := im_tlds x @ map (\<lambda>k. (k, tld_state_bytes (d k))) ks,
           im_tlds_dec := im_tlds_dec x @ map (\<lambda>k. (k, d k)) ks\<rparr>)"
proof (induction ks arbitrary: x)
  case (Cons k ks)
  have dec: "tld_decode (tld_as_encoded (tld_state_bytes (d k))) = Inr (d k)" using decode_tld_row [of "d k"] by (simp add: tld_row_def)
  have first: "(case im_last_tld x of Some prev \<Rightarrow> k \<le> prev | None \<Rightarrow> False) \<longleftrightarrow> False" using Cons.prems(2) by (auto split: option.splits)
  let ?x = "x\<lparr>im_last_tld := Some k, im_tlds := im_tlds x @ [(k, tld_state_bytes (d k))], im_tlds_dec := im_tlds_dec x @ [(k, d k)]\<rparr>"
  have "import_entry (SnapTld k (tld_state_bytes (d k))) x = Inr ?x" unfolding import_entry.simps first dec by simp
  moreover obtain l where "import_entries (map (\<lambda>k. SnapTld k (tld_state_bytes (d k))) ks) ?x
       = Inr (?x\<lparr>im_last_tld := l, im_tlds := im_tlds ?x @ map (\<lambda>k. (k, tld_state_bytes (d k))) ks,
           im_tlds_dec := im_tlds_dec ?x @ map (\<lambda>k. (k, d k)) ks\<rparr>)"
    using Cons.IH [of ?x] Cons.prems(1) by auto
  ultimately show ?case by (intro exI [of _ l]) simp
next
  case Nil
  show ?case by (rule exI [of _ "im_last_tld x"]) simp
qed

section \<open>The written tables\<close>

lemma lookup_put_rows:
  "distinct (map fst xs) \<Longrightarrow> fmlookup (put_rows f xs t) i = (case map_of xs i of Some a \<Rightarrow> Some (f a) | None \<Rightarrow> fmlookup t i)"
proof (induction xs arbitrary: t)
  case (Cons x xs)
  then have "fst x \<notin> dom (map_of xs)" by (simp add: dom_map_of_conv_image_fst)
  then show ?case using Cons by (cases x) (auto simp: put_rows_def domIff split: option.splits)
qed (simp add: put_rows_def)

lemma put_keys:
  assumes "\<forall>k v. fmlookup t k = Some v \<longrightarrow> f (g k) = v"
  shows "put_rows f (map (\<lambda>k. (k, g k)) (keys_after None t)) fmempty = t"
proof (rule fmap_ext)
  fix i
  have "map_of (map (\<lambda>k. (k, g k)) (keys_after None t)) i = (if i \<in> fset (fmdom t) then Some (g i) else None)"
    by (simp add: map_of_map_restrict restrict_map_def keys_none)
  moreover have "distinct (map fst (map (\<lambda>k. (k, g k)) (keys_after None t)))" by (simp add: o_def keys_none)
  ultimately show "fmlookup (put_rows f (map (\<lambda>k. (k, g k)) (keys_after None t)) fmempty) i = fmlookup t i"
    using assms by (auto simp: lookup_put_rows fmlookup_dom_iff)
qed

end
