(* ===== verification/Scone_Reload_Props.thy ===== *)
theory Scone_Reload_Props
  imports Scone_Reload
begin

text \<open>
  The guarantees of the store: an accepted block is stored and the store then holds the extended
  chain, a restart of a test-network node gives its chain back, and two behaviours of the code that
  a node meets at the edges: a collected domain is never left in the tables, and a store of another
  network does not load.
\<close>

section \<open>Other networks\<close>

lemma each_row_keeps:
  assumes "\<And>x st st'. f x st = Some (Inr st') \<Longrightarrow> cs_network st' = cs_network st"
  shows "each_row f xs st = Some (Inr st') \<Longrightarrow> cs_network st' = cs_network st"
proof (induction xs arbitrary: st)
  case (Cons x xs)
  then obtain st1 where "f x st = Some (Inr st1)" "each_row f xs st1 = Some (Inr st')" by (auto simp: obind_def split: option.splits sum.splits)
  then show ?case using Cons.IH assms by metis
qed simp

lemma load_table_keeps:
  assumes f: "\<And>x st st'. f x st = Some (Inr st') \<Longrightarrow> cs_network st' = cs_network st"
  shows "load_table e cap mx f t cursor st = Some (Inr st') \<Longrightarrow> cs_network st' = cs_network st"
  using f
proof (induction e cap mx f t cursor st rule: load_table.induct)
  case (1 e cap mx f t cursor st)
  show ?case
  proof (cases "mx = 0")
    case False
    then obtain page nxt st1 where p: "table_page e cap cursor mx t = Inr (page, nxt)" "each_row f page st = Some (Inr st1)"
      "length page < mx \<and> st' = st1 \<or> \<not> length page < mx \<and> load_table e cap mx f t nxt st1 = Some (Inr st')"
      using "1.prems"(1) by (subst (asm) load_table.simps) (auto simp: obind_def split: sum.splits option.splits if_splits)
    have k: "cs_network st1 = cs_network st" using each_row_keeps [OF "1.prems"(2) p(2)] by simp
    from p(3) show ?thesis
    proof
      assume "\<not> length page < mx \<and> load_table e cap mx f t nxt st1 = Some (Inr st')"
      then have "cs_network st' = cs_network st1" using "1.IH" [OF False p(1) refl, of st1] "1.prems"(2) by blast
      then show ?thesis using k by simp
    qed (use k in simp)
  qed (use 1 in \<open>simp add: load_table.simps\<close>)
qed

lemma corrupted_ok: "map_option (\<lambda>r. case r of Inl _ \<Rightarrow> Inl StCorrupted | Inr x \<Rightarrow> Inr x) y = Some (Inr st) \<Longrightarrow> y = Some (Inr st)"
proof (cases y)
  case (Some x)
  then show "map_option (\<lambda>r. case r of Inl _ \<Rightarrow> Inl StCorrupted | Inr x \<Rightarrow> Inr x) y = Some (Inr st) \<Longrightarrow> y = Some (Inr st)" by (cases x) simp_all
qed simp

lemma restore_row_keeps:
  "restore_domain_row cr x st = Some (Inr st') \<Longrightarrow> cs_network st' = cs_network st"
  "restore_tld_row cr x st = Some (Inr st') \<Longrightarrow> cs_network st' = cs_network st"
proof -
  have e: "restore_entry cr y st = Some (Inr st') \<Longrightarrow> cs_network st' = cs_network st" for y
    using restore_entries_fields [of cr "[y]" st st'] by simp
  obtain i a where x: "x = (i, a)" by (cases x)
  show "restore_domain_row cr x st = Some (Inr st') \<Longrightarrow> cs_network st' = cs_network st"
    using e [of "(i, DomainEntry d)" for d] corrupted_ok [of "restore_domain cr i d st" st' for d]
    unfolding restore_domain_row_def x by (cases "domain_decode (domain_as_encoded a)") auto
  show "restore_tld_row cr x st = Some (Inr st') \<Longrightarrow> cs_network st' = cs_network st"
    using e [of "(i, TldEntry d)" for d] corrupted_ok [of "restore_tld cr i d st" st' for d]
    unfolding restore_tld_row_def x by (cases "tld_decode (tld_as_encoded a)") auto
qed

lemma load_state_network: "load_state cr domains tlds = Some (Inr st) \<Longrightarrow> cs_network st = TESTNET"
proof -
  assume "load_state cr domains tlds = Some (Inr st)"
  then obtain st1 where l: "load_table stored_domain MAX_DOMAIN_PAGE DOMAIN_PAGE (restore_domain_row cr) domains None chain_state_new = Some (Inr st1)"
    "load_table stored_tld MAX_TLD_PAGE TLD_PAGE (restore_tld_row cr) tlds None st1 = Some (Inr st)"
    by (auto simp: load_state_def obind_def split: option.splits sum.splits)
  have "cs_network st1 = cs_network chain_state_new" by (rule load_table_keeps [OF _ l(1)]) (rule restore_row_keeps(1))
  moreover have "cs_network st = cs_network st1" by (rule load_table_keeps [OF _ l(2)]) (rule restore_row_keeps(2))
  ultimately show ?thesis by (simp add: chain_state_new_def for_network_def)
qed

lemma push_network: "push_block cr b c = Some (c', r) \<Longrightarrow> bc_network c' = bc_network c"
proof -
  assume "push_block cr b c = Some (c', r)"
  then obtain x where p: "push_block_with_gc cr b c = Some (c', x)" by (auto simp: push_block_def)
  have e: "evict_below_window d = Some d' \<Longrightarrow> bc_network d' = bc_network d" for d d'
    by (auto simp: evict_below_window_def Let_def split: option.splits if_splits bind_splits)
  show ?thesis using p
    by (auto simp: push_block_with_gc_def record_included_def Let_def dest!: e split: sum.splits bind_splits)
qed

lemma replay_network: "replay_blocks cr s hs c = Some (Inr c') \<Longrightarrow> bc_network c' = bc_network c"
proof (induction hs arbitrary: c)
  case (Cons h hs)
  then obtain b c1 x where "push_block cr b c = Some (c1, x)" "replay_blocks cr s hs c1 = Some (Inr c')"
    by (auto split: sum.splits bind_splits)
  then show ?case using Cons.IH push_network by metis
qed simp

lemma restore_network: "restore cr h tip b st = Some c \<Longrightarrow> bc_network c = cs_network st"
  by (auto simp: restore_def Let_def split: if_splits)

lemma commit_ok: "commit s r = Some (s', Inr ()) \<Longrightarrow> r = Some (Inr s')"
proof (cases r)
  case (Some x)
  then show "commit s r = Some (s', Inr ()) \<Longrightarrow> r = Some (Inr s')" by (cases x) (simp_all add: commit_def)
qed (simp add: commit_def)

section \<open>Guarantees\<close>

text \<open>C9: Storing a block follows appending it. When the chain that holds a ledger accepts a well-formed block and the store
  holds that chain, storing the block with the domains it collected succeeds and the store then
  holds the extended chain: every block under its height, one row for each domain and each TLD of
  the registry and no other, the counters, the tip, and a frozen copy of the tables of an earlier
  height. It needs that the block meets no hash collision, that no collected domain is live after
  it and that the counters do not overflow.\<close>

theorem store_block_refines:
  assumes "chain_rep cr hist c" "push_block_with_gc cr b c = Some (c', Inr ab)"
    "block_free cr (bc_consensus c) (time_of (last hist)) (blk_transactions b) (abs_state (bc_state c))"
    "store_rep cr hist c s" "block_ok cr b" "\<forall>i\<in>set (ab_gc_removed_domains ab). state_domain (bc_state c') i = None"
    "domain_count (bc_state c) + length (blk_transactions b) < 2 ^ 64" "tld_count (bc_state c) + length (blk_transactions b) < 2 ^ 64"
  shows "\<exists>s'. store_block_with_removals cr c' b (ab_hash ab) (ab_gc_removed_domains ab) s = Some (s', Inr ())
    \<and> store_rep cr (hist @ [b]) c' s'"
  using store_block_ok [OF assms] by blast

text \<open>C7: A restart gives the chain back. Take a node of the test network that opens a new store, stores every
  well-formed block it accepts, refuses blocks and accepts checkpoints, that never reorganizes, meets no
  hash collision, and whose accepted blocks never register again a domain they collect. At any time of such a run, loading the chain from the
  store succeeds, from the live tables or from the frozen ones and the blocks above them, and the
  loaded chain has the tip, the height, the domains, the TLDs, the state root and the replay index
  of the running one. Both restrictions are needed: the store drops the row of such a
  domain, and it refuses a sister block that replaces the tip (\<open>sister_not_stored\<close>).\<close>

theorem restart_exact:
  assumes "runs cr permissive_consensus TESTNET hist c s"
  shows "\<exists>c'. load_chain cr s TESTNET = Some (Inr c') \<and> tip_hash c' = tip_hash c \<and> chain_height c' = chain_height c
    \<and> state_domain (bc_state c') = state_domain (bc_state c) \<and> state_tld (bc_state c') = state_tld (bc_state c)
    \<and> state_root_smt cr (bc_state c') = state_root_smt cr (bc_state c) \<and> bc_included c' = bc_included c"
proof -
  have g: "grows cr permissive_consensus TESTNET hist c" "store_rep cr hist c s" using runs_rep [OF assms] by auto
  then have r: "chain_rep cr hist c" "hist \<noteq> []" "hd hist = genesis_of cr TESTNET"
    using grows_rep [OF g(1)] by (auto simp: chain_rep_def window_rep_def)
  obtain c' where c': "load_chain cr s TESTNET = Some (Inr c')" "thin_rep cr hist (abs_state (bc_state c)) c'" "bc_included c' = replay_index cr hist"
  proof (cases "1 < length hist")
    case False
    then have "hist = [genesis_of cr TESTNET]" using r(2,3) by (cases hist) auto
    then show ?thesis using restart_genesis g that by metis
  qed (use restart [OF g] that in blast)
  then show ?thesis using thin_observed [OF c'(2) r(1)] grows_index [OF g(1)] by auto
qed

text \<open>The store does not follow a reorganization: a sister of the stored tip, which has its height and another
  hash, is refused, and the tables stay those of the abandoned ledger.\<close>

lemma sister_not_stored:
  assumes "store_rep cr hist c s" "1 < length hist" "length hist < 2 ^ 64" "put_block cr b = Inr bs"
    "height_of b = of_nat (length hist - 1)" "hash \<noteq> bc_tip c"
  shows "store_block_with_removals cr c' b hash removed s = Some (s, Inl (StNonMonotonicHeight (of_nat (length hist)) (height_of b)))"
proof -
  have tip: "tip_inner s = Inr (of_nat (length hist - 1), bc_tip c)" using assms(1,2) by (auto simp: store_rep_def Let_def)
  have u: "unat (of_nat (length hist - 1) :: u64) = length hist - 1" using assms(3) by (simp add: unat_of_nat)
  have n: "checked_add (of_nat (length hist - 1) :: u64) 1 = Some (of_nat (length hist))"
    using assms(2,3) u by (simp add: checked_add_def of_nat_diff)
  have "unat (of_nat (length hist) :: u64) = length hist" using assms(3) by (simp add: unat_of_nat)
  then have ne: "height_of b \<noteq> of_nat (length hist)" using u assms(2,5) by (metis One_nat_def Suc_lessD diff_less less_irrefl zero_less_one)
  show ?thesis unfolding store_block_with_removals_def append_block_with_state_def tip
    using assms(4,6) n ne by (simp add: assms(5) [symmetric])
qed

text \<open>C37: Collected domains leave the store. When a block is stored at a new height, none of the domains given as
  collected has a row afterwards, not even one that the block registers again and that is live in
  the state of the chain.\<close>

theorem collected_leave_store:
  assumes "store_block_with_removals cr c b hash removed s = Some (s', Inr ())" "i \<in> set removed"
    "fmlookup (st_by_height s) (height_of b) = None" "tip_inner s \<noteq> Inr (height_of b, hash)"
  shows "fmlookup (st_domains s') i = None"
proof -
  obtain bs where "append_block_with_state cr (height_of b) hash bs (block_delta (bc_state c) b removed) s = Some (s', Inr ())"
    using assms(1) by (auto simp: store_block_with_removals_def split: sum.splits)
  then have "append_core cr (height_of b) hash bs (block_delta (bc_state c) b removed) s = Some (Inr s')"
    using assms(4) by (auto simp: append_block_with_state_def split: sum.splits option.splits if_splits intro: commit_ok)
  then obtain s0 ix where s0: "append_deltas cr (height_of b) hash bs ix (block_delta (bc_state c) b removed) s0 = Some (Inr s')"
    "st_by_height s0 = st_by_height s"
    by (auto simp: append_core_def Let_def snapshot_core_def split: if_splits option.splits)
  obtain d1 n d2 k where d: "upsert_rows domain_as_encoded (sd_domains (block_delta (bc_state c) b removed)) (st_domains s0) = (d1, n)"
    "remove_rows removed d1 = (d2, k)" by (metis surj_pair)
  have "st_domains s' = d2" using s0 assms(3) d
    by (auto simp: append_deltas_def obind_def split: option.splits sum.splits prod.splits)
  then show ?thesis using remove_rows_spec(1) [OF d(2), of i] assms(2) by simp
qed

text \<open>C38: A store of another network does not load. Once its tip is above the genesis, no store gives a chain
  to a node whose network is not the test network: both ways to load restore a state of the test
  network, and the check of the network then fails.\<close>

theorem other_network_not_loaded:
  assumes "np_network_id network \<noteq> np_network_id TESTNET" "tip_inner s = Inr (h, tip)" "h \<noteq> 0"
  shows "load_chain cr s network \<noteq> Some (Inr c)"
proof
  assume l: "load_chain cr s network = Some (Inr c)"
  then obtain b x where x: "try_load_from_snapshot cr s network h tip = Some x"
    "x = None \<longrightarrow> (\<exists>c'. load_from_full_state cr s network h b tip = Some (Inr c'))"
    using assms(2,3) by (auto simp: load_chain_def obind_def split: sum.splits option.splits if_splits bind_splits)
  have "x = None"
  proof (rule ccontr)
    assume "x \<noteq> None"
    then obtain c' st c1 anchor and sm :: snapshot_meta where "load_state cr (st_snap_domains s) (st_snap_tlds s) = Some (Inr st)"
      "restore cr (sm_height sm) (sm_tip_hash sm) anchor st = Some c1"
      "replay_blocks cr s (heights (unat (sm_height sm) + 1) h) c1 = Some (Inr c')" "np_network_id (bc_network c') = np_network_id network"
      using x(1) by (auto simp: try_load_from_snapshot_def split: sum.splits option.splits if_splits bind_splits)
    then show False using assms(1) load_state_network restore_network replay_network by metis
  qed
  then obtain c' st where "load_state cr (st_domains s) (st_tlds s) = Some (Inr st)" "restore cr h tip b st = Some c'"
    "np_network_id (bc_network c') = np_network_id network"
    using x(2) by (auto simp: load_from_full_state_def obind_def split: sum.splits option.splits if_splits)
  then show False using assms(1) load_state_network restore_network by metis
qed

section \<open>An example\<close>

lemma networks_differ: "NETWORK_TESTNET \<noteq> NETWORK_MAINNET"
  by code_simp

lemma ex_open:
  obtains s where "store_open len_crypto empty_store = Some (s, Inr ())"
proof -
  obtain c where c: "with_consensus_for_network len_crypto permissive_consensus TESTNET = Some c" by (rule ex_genesis)
  then obtain h where "genesis_hash len_crypto = Some h"
    using networks_differ by (auto simp: with_consensus_for_network_def genesis_hash_def genesis_hash_of_def TESTNET_def)
  then obtain s r where s: "store_open len_crypto empty_store = Some (s, r)" by (auto simp: store_open_def Let_def)
  then show thesis using open_rep [OF c s] that by auto
qed

lemma ex_stored:
  obtains c b c' ab s s' where "chain_rep len_crypto [genesis_of len_crypto TESTNET] c" "bc_consensus c = permissive_consensus"
    "with_consensus_for_network len_crypto permissive_consensus TESTNET = Some c" "store_open len_crypto empty_store = Some (s, Inr ())"
    "abs_state (bc_state c) = registry_new TESTNET" "push_block_with_gc len_crypto b c = Some (c', Inr ab)"
    "blk_transactions b = [ex_register_tld]" "block_ok len_crypto b" "ab_gc_removed_domains ab = []"
    "store_rep len_crypto [genesis_of len_crypto TESTNET] c s" "domain_count (bc_state c) = 0" "tld_count (bc_state c) = 0"
    "block_free len_crypto permissive_consensus (time_of (genesis_of len_crypto TESTNET)) (blk_transactions b) (abs_state (bc_state c))"
    "store_block_with_removals len_crypto c' b (ab_hash ab) [] s = Some (s', Inr ())"
    "store_rep len_crypto [genesis_of len_crypto TESTNET, b] c' s'" "state_tld (bc_state c') 14 \<noteq> None"
proof -
  obtain c b c' ab where c: "chain_rep len_crypto [genesis_of len_crypto TESTNET] c" "bc_consensus c = permissive_consensus"
    "with_consensus_for_network len_crypto permissive_consensus TESTNET = Some c"
    "abs_state (bc_state c) = registry_new TESTNET" "push_block_with_gc len_crypto b c = Some (c', Inr ab)"
    "blk_transactions b = [ex_register_tld]" "abs_state (bc_state c') = ex_registry ex_entries1" "chain_rep len_crypto [genesis_of len_crypto TESTNET, b] c'"
    by (rule ex_extended)
  obtain s where s: "store_open len_crypto empty_store = Some (s, Inr ())" by (rule ex_open)
  have sr: "store_rep len_crypto [genesis_of len_crypto TESTNET] c s" using open_rep [OF c(3) s] by simp
  have n: "domain_count (bc_state c) = 0" "tld_count (bc_state c) = 0"
    using c(3) by (auto simp: with_consensus_for_network_def expect_def for_network_def split: sum.splits)
  have f: "block_free len_crypto permissive_consensus (time_of (genesis_of len_crypto TESTNET)) (blk_transactions b) (abs_state (bc_state c))"
    using ex_block c(4,6) by (simp add: ex_genesis_time)
  have ok: "block_ok len_crypto b" using c(6) ex_tx_ok by (simp add: block_ok_def)
  have gc: "ab_gc_removed_domains ab = []"
    using push_rep [OF c(1,5)] f c(2,4,6) ex_block(1) by (auto simp: ex_genesis_time)
  obtain s' where s': "store_block_with_removals len_crypto c' b (ab_hash ab) [] s = Some (s', Inr ())" "store_rep len_crypto [genesis_of len_crypto TESTNET, b] c' s'"
    using store_block_ok [OF c(1,5) _ sr ok] f gc n c(2,6) by auto
  have "rep len_crypto (bc_state c') (ex_registry ex_entries1)" using c(7,8) by (auto simp: chain_rep_def valid_state_def)
  then have "state_tld (bc_state c') 14 \<noteq> None" by (simp add: rep_tld rg_tld_def ex_registry_def)
  then show thesis using c s sr n f ok gc s' that by metis
qed

theorem store_block_refines_witness:
  "\<exists>c b c' ab s s'. push_block_with_gc len_crypto b c = Some (c', Inr ab) \<and> blk_transactions b = [ex_register_tld]
     \<and> store_block_with_removals len_crypto c' b (ab_hash ab) [] s = Some (s', Inr ()) \<and> store_rep len_crypto [genesis_of len_crypto TESTNET, b] c' s'"
proof -
  obtain c b c' ab s where x: "chain_rep len_crypto [genesis_of len_crypto TESTNET] c" "bc_consensus c = permissive_consensus"
    "push_block_with_gc len_crypto b c = Some (c', Inr ab)"
    "blk_transactions b = [ex_register_tld]" "block_ok len_crypto b" "ab_gc_removed_domains ab = []"
    "store_rep len_crypto [genesis_of len_crypto TESTNET] c s" "domain_count (bc_state c) = 0" "tld_count (bc_state c) = 0"
    "block_free len_crypto permissive_consensus (time_of (genesis_of len_crypto TESTNET)) (blk_transactions b) (abs_state (bc_state c))"
    by (rule ex_stored)
  then show ?thesis using store_block_refines [OF x(1,3) _ x(7,5)] by fastforce
qed

theorem restart_exact_witness:
  "\<exists>b c s c'. runs len_crypto permissive_consensus TESTNET [genesis_of len_crypto TESTNET, b] c s \<and> blk_transactions b = [ex_register_tld]
     \<and> load_chain len_crypto s TESTNET = Some (Inr c') \<and> state_tld (bc_state c') 14 \<noteq> None"
proof -
  obtain c b c' ab s s' where x: "with_consensus_for_network len_crypto permissive_consensus TESTNET = Some c"
    "store_open len_crypto empty_store = Some (s, Inr ())" "push_block_with_gc len_crypto b c = Some (c', Inr ab)"
    "blk_transactions b = [ex_register_tld]" "block_ok len_crypto b" "ab_gc_removed_domains ab = []"
    "domain_count (bc_state c) = 0" "tld_count (bc_state c) = 0"
    "block_free len_crypto permissive_consensus (time_of (genesis_of len_crypto TESTNET)) (blk_transactions b) (abs_state (bc_state c))"
    "store_block_with_removals len_crypto c' b (ab_hash ab) [] s = Some (s', Inr ())" "state_tld (bc_state c') 14 \<noteq> None"
    by (rule ex_stored)
  have "runs len_crypto permissive_consensus TESTNET ([genesis_of len_crypto TESTNET] @ [b]) c' s'"
    by (rule runs.Accept [OF runs.Open [OF x(1,2)] x(5) _ x(3)]) (use x in simp_all)
  then have r: "runs len_crypto permissive_consensus TESTNET [genesis_of len_crypto TESTNET, b] c' s'" by simp
  obtain d where "load_chain len_crypto s' TESTNET = Some (Inr d)" "state_tld (bc_state d) = state_tld (bc_state c')"
    using restart_exact [OF r] by blast
  then show ?thesis using r x(4,11) by metis
qed

definition ex_again :: block where
  "ex_again = \<lparr>blk_header = (blk_header (genesis_of len_crypto TESTNET))\<lparr>bh_height := 1\<rparr>, blk_transactions = [ex_register_domain]\<rparr>"

lemma ex_again_encodes: "\<exists>bs. put_block len_crypto ex_again = Inr bs"
proof -
  have "\<exists>h. put_header (blk_header ex_again) = Inr h"
    using network_testnet_ok(2) by (intro put_header_ok) (simp_all add: ex_again_def genesis_of_def TESTNET_def MAX_CONSENSUS_LEN_def)
  moreover have "length (encode_proof \<lparr>cp_nonce = 0, cp_difficulty = 4\<rparr>) \<le> MAX_PROOF_LEN" by code_simp
  then have "\<exists>p. signing_payload ex_register_domain = Inr p"
    by (simp add: signing_payload_def ex_register_domain_def register_domain_on_def wseq_Cons put_network_def put_bounded_def
        network_testnet_ok MAX_NETWORK_ID_LEN_def put_domain_name_def MAX_NAME_LEN_def MAX_TOTAL_LEN_def put_proof_def)
  then have "\<exists>t. put_transaction len_crypto ex_register_domain = Inr t"
    using put_transaction_iff ex_valid(3) by (auto simp: signing_payload_def wseq_Cons)
  ultimately show ?thesis by (auto simp: put_block_def ex_again_def MAX_TXS_PER_BLOCK_def wseq_Cons)
qed

theorem collected_leave_store_witness:
  "\<exists>c s s'. state_domain (bc_state c) 20 = Some ex_domain \<and> tx_touched_domain ex_register_domain = Some 20
     \<and> store_block_with_removals len_crypto c ex_again 0 [20] s = Some (s', Inr ()) \<and> fmlookup (st_domains s') 20 = None"
proof -
  obtain c0 where c0: "with_consensus_for_network len_crypto permissive_consensus TESTNET = Some c0" by (rule ex_genesis)
  obtain st where st: "valid_state len_crypto st" "abs_state st = ex_registry ex_entries3" by (rule ex_state)
  then have r: "rep len_crypto st (ex_registry ex_entries3)" by (simp add: valid_state_def)
  define c where "c = c0\<lparr>bc_state := st\<rparr>"
  have d: "state_domain (bc_state c) 20 = Some ex_domain" by (simp add: c_def rep_domain [OF r] rg_domain_def ex_registry_def)
  obtain s where s: "store_open len_crypto empty_store = Some (s, Inr ())" by (rule ex_open)
  obtain bs where bs: "put_block len_crypto ex_again = Inr bs" using ex_again_encodes by blast
  have t: "tx_touched_domain ex_register_domain = Some 20" "tx_touched_tld ex_register_domain = None"
    "tx_binding ex_register_domain = Some \<lparr>nb_is_tld = False, nb_name = ''me.zz'', nb_target = 20\<rparr>"
    by (simp_all add: tx_touched_domain_def tx_touched_tld_def tx_binding_def ex_register_domain_def register_domain_on_def ex_ids)
  have delta: "block_delta (bc_state c) ex_again [20] = \<lparr>sd_domains = [(20, domain_state_bytes ex_domain)], sd_tlds = [], sd_removed_domains = [20],
      sd_removed_tlds = [], sd_name_upserts = [\<lparr>nb_is_tld = False, nb_name = ''me.zz'', nb_target = 20\<rparr>], sd_name_removals = [(False, 20)]\<rparr>"
    by (simp add: block_delta_def Let_def touched_tlds_def touched_domains_def ex_again_def map_filter_simps t d)
  have "plain_name ''me.zz''" by code_simp
  then obtain n' r' where names: "apply_name_deltas len_crypto [\<lparr>nb_is_tld = False, nb_name = ''me.zz'', nb_target = 20\<rparr>] [(False, 20)] (fmempty, fmempty) = Inr (n', r')"
    using name_deltas_ok [of "[\<lparr>nb_is_tld = False, nb_name = ''me.zz'', nb_target = 20\<rparr>]" fmempty len_crypto "[(False, 20)]" fmempty]
    by (auto simp: reverse_ok_def)
  have "\<exists>s'. store_block_with_removals len_crypto c ex_again 0 [20] s = Some (s', Inr ()) \<and> fmlookup (st_by_height s) 1 = None \<and> tip_inner s \<noteq> Inr (1, 0)"
    using s bs names unfolding store_block_with_removals_def delta
    by (auto simp: store_open_def empty_store_def Let_def ex_again_def append_block_with_state_def tip_inner_def meta_u256_def meta_u64_def
        write_tip_def meta_distinct [symmetric] from_be_be_bytes checked_add_def commit_def append_core_def append_deltas_def upsert_rows_def
        remove_rows_def add_counter_def sub_counter_def checked_sub_def)
  then obtain s' where s': "store_block_with_removals len_crypto c ex_again 0 [20] s = Some (s', Inr ())" "fmlookup (st_by_height s) 1 = None" "tip_inner s \<noteq> Inr (1, 0)"
    by blast
  have "height_of ex_again = 1" by (simp add: ex_again_def)
  then show ?thesis using collected_leave_store [OF s'(1)] s' d t(1) by fastforce
qed

theorem other_network_not_loaded_witness:
  "\<exists>s. tip_inner s = Inr (1, 5) \<and> (\<nexists>c. load_chain len_crypto s MAINNET = Some (Inr c))"
proof -
  let ?s = "empty_store\<lparr>st_meta := write_tip 1 5 fmempty\<rparr>"
  have t: "tip_inner ?s = Inr (1, 5)" using write_tip_meta(2,3) [of 1 5 fmempty] by (simp add: tip_inner_def)
  have "np_network_id MAINNET \<noteq> np_network_id TESTNET" using networks_differ by (simp add: TESTNET_def MAINNET_def)
  then have "load_chain len_crypto ?s MAINNET \<noteq> Some (Inr c)" for c by (rule other_network_not_loaded [OF _ t]) simp
  then show ?thesis using t by blast
qed

end
