(* ===== verification/Scone_Bootstrap_Props.thy ===== *)
theory Scone_Bootstrap_Props
  imports Scone_Bootstrap Scone_Reload_Props
begin

text \<open>
  A node can start from another node's snapshot: what one exports for a checkpoint the other imports,
  and with the anchor block it loads a chain with the tip and the entries of the checkpoint. The
  import trusts nothing but the checkpoint.
\<close>

section \<open>Export and import\<close>

text \<open>The frozen tables of a store hold the entries of the state \<open>st\<close> at the block \<open>b\<close>.\<close>

definition frozen_snapshot :: "crypto \<Rightarrow> chain_state \<Rightarrow> u64 \<Rightarrow> hash32 \<Rightarrow> block \<Rightarrow> store \<Rightarrow> bool" where
  "frozen_snapshot cr st h hash b s \<longleftrightarrow> store_snapshot_meta s = Inr (Some \<lparr>sm_height = h, sm_tip_hash = hash\<rparr>)
     \<and> st_snap_domains s = domain_rows (rg_entries (abs_state st)) \<and> st_snap_tlds s = tld_rows (rg_entries (abs_state st))
     \<and> stored_block_at cr s h = Inr b \<and> hash_of cr b = Inr hash"

abbreviation domain_keys :: "chain_state \<Rightarrow> domain_id list" where "domain_keys st \<equiv> keys_after None (domain_rows (rg_entries (abs_state st)))"
abbreviation tld_keys :: "chain_state \<Rightarrow> tld_id list" where "tld_keys st \<equiv> keys_after None (tld_rows (rg_entries (abs_state st)))"
abbreviation domain_at :: "chain_state \<Rightarrow> domain_id \<Rightarrow> domain_state" where "domain_at st i \<equiv> the_domain (the (fmlookup (rg_entries (abs_state st)) i))"
abbreviation tld_at :: "chain_state \<Rightarrow> tld_id \<Rightarrow> tld_state" where "tld_at st i \<equiv> the_tld (the (fmlookup (rg_entries (abs_state st)) i))"

definition snapshot_entries :: "chain_state \<Rightarrow> snapshot_entry list" where
  "snapshot_entries st = map (\<lambda>k. SnapDomain k (domain_state_bytes (domain_at st k))) (domain_keys st)
     @ map (\<lambda>k. SnapTld k (tld_state_bytes (tld_at st k))) (tld_keys st)"

lemma key_counts:
  assumes "valid_state cr st" shows "length (domain_keys st) = domain_count st" "length (tld_keys st) = tld_count st"
proof -
  let ?E = "rg_entries (abs_state st)"
  have "domain_count st = card (domain_ids ?E)" "tld_count st = card (tld_ids ?E)"
    using assms by (simp_all add: valid_state_def rep_def store_ok_def)
  moreover have "length (keys_after None t) = fcard (fmdom t)" for t :: rows
    using distinct_card [OF keys_none(2)] by (simp add: keys_none(1) fcard.rep_eq)
  ultimately show "length (domain_keys st) = domain_count st" "length (tld_keys st) = tld_count st" by (simp_all add: fcard_rows)
qed

lemma stored_block_found: "stored_block_at cr s h = Inr b \<Longrightarrow> (\<exists>bs. block_at_height h s = Inr (Some bs)) \<and> height_of b = h"
proof (cases "block_at_height h s")
  case (Inr found)
  then show "stored_block_at cr s h = Inr b \<Longrightarrow> (\<exists>bs. block_at_height h s = Inr (Some bs)) \<and> height_of b = h"
    by (cases found) (auto simp: stored_block_at_def stored_block_def split: if_splits)
qed (simp add: stored_block_at_def stored_block_def)

lemma export_ok:
  assumes v: "valid_state cr st" and f: "frozen_snapshot cr st h hash b s" "h \<noteq> 0"
    and cp: "cd_height (ck_data cp) = h" "cd_block_hash (ck_data cp) = hash" and room: "domain_count st + tld_count st < 2 ^ 32"
  obtains P where "export_verified_snapshot cr s cp = Some (Inr (\<lparr>mf_height = h, mf_tip_hash = hash, mf_state_root = cd_state_root (ck_data cp),
      mf_page_count = of_nat (length P), mf_domain_count = of_nat (domain_count st), mf_tld_count = of_nat (tld_count st),
      mf_page_hashes = map (page_hash cr) P\<rparr>, map page_encode P))" "paged (cd_state_root (ck_data cp)) h P (snapshot_entries st)"
proof -
  let ?r = "cd_state_root (ck_data cp)" and ?E = "rg_entries (abs_state st)"
  let ?P1 = "fold (page_entry_slot ?r h) (map (\<lambda>k. SnapDomain k (domain_state_bytes (domain_at st k))) (domain_keys st)) []"
  let ?P = "fold (page_entry_slot ?r h) (map (\<lambda>k. SnapTld k (tld_state_bytes (tld_at st k))) (tld_keys st)) ?P1"
  have d: "\<forall>k v. fmlookup (domain_rows ?E) k = Some v \<longrightarrow> stored_domain v = Inr (domain_state_bytes (domain_at st k))"
    by (auto simp: domain_rows_def stored_domain_row split: if_splits)
  have t: "\<forall>k v. fmlookup (tld_rows ?E) k = Some v \<longrightarrow> stored_tld v = Inr (tld_state_bytes (tld_at st k))"
    by (auto simp: tld_rows_def stored_tld_row split: if_splits)
  have m: "0 < VERIFIED_SNAPSHOT_PAGE_ENTRIES" "VERIFIED_SNAPSHOT_PAGE_ENTRIES \<le> MAX_DOMAIN_PAGE" "VERIFIED_SNAPSHOT_PAGE_ENTRIES \<le> MAX_TLD_PAGE"
    by (simp_all add: VERIFIED_SNAPSHOT_PAGE_ENTRIES_def MAX_DOMAIN_PAGE_def MAX_TLD_PAGE_def)
  have l1: "load_table stored_domain MAX_DOMAIN_PAGE VERIFIED_SNAPSHOT_PAGE_ENTRIES (export_row ?r h SnapDomain) (domain_rows ?E) None ([], 0)
      = Some (Inr (?P1, of_nat (domain_count st)))"
    using export_rows [of 0 "domain_keys st" ?r h SnapDomain "\<lambda>k. domain_state_bytes (domain_at st k)" "[]"] room key_counts [OF v]
    by (simp add: load_table_rows [OF d m(1,2)])
  have l2: "load_table stored_tld MAX_TLD_PAGE VERIFIED_SNAPSHOT_PAGE_ENTRIES (export_row ?r h SnapTld) (tld_rows ?E) None (?P1, 0)
      = Some (Inr (?P, of_nat (tld_count st)))"
    using export_rows [of 0 "tld_keys st" ?r h SnapTld "\<lambda>k. tld_state_bytes (tld_at st k)" ?P1] room key_counts [OF v]
    by (simp add: load_table_rows [OF t m(1,3)])
  have s: "store_snapshot_meta s = Inr (Some \<lparr>sm_height = h, sm_tip_hash = hash\<rparr>)" "st_snap_domains s = domain_rows ?E" "st_snap_tlds s = tld_rows ?E"
    "stored_block_at cr s h = Inr b" "hash_of cr b = Inr hash" using f(1) by (auto simp: frozen_snapshot_def)
  obtain bs where bs: "block_at_height h s = Inr (Some bs)" using stored_block_found [OF s(4)] by blast
  have "paged ?r h ?P (snapshot_entries st)"
    unfolding snapshot_entries_def by (intro paged_fold paged_fold [of _ _ "[]" "[]", simplified]) (simp add: paged_def)
  then show thesis using that [of ?P] f(2) cp s bs l1 l2 by (simp add: export_verified_snapshot_def Let_def)
qed

lemma listing_sets:
  assumes "valid_state cr st"
  shows "set (map (\<lambda>k. (k, domain_at st k)) (domain_keys st)) = {(i, d). state_domain st i = Some d}"
    "set (map (\<lambda>k. (k, tld_at st k)) (tld_keys st)) = {(i, t). state_tld st i = Some t}"
proof -
  let ?E = "rg_entries (abs_state st)"
  have r: "rep cr st (abs_state st)" using assms by (simp add: valid_state_def)
  show "set (map (\<lambda>k. (k, domain_at st k)) (domain_keys st)) = {(i, d). state_domain st i = Some d}"
    by (auto simp: keys_none dom_rows domain_ids_def rep_domain [OF r] rg_domain_def image_iff split: option.splits entry.splits)
  show "set (map (\<lambda>k. (k, tld_at st k)) (tld_keys st)) = {(i, t). state_tld st i = Some t}"
    by (auto simp: keys_none dom_rows tld_ids_def rep_tld [OF r] rg_tld_def image_iff split: option.splits entry.splits)
qed

lemma keys_sorted: "sorted_wrt (<) (keys_after None t)"
  using rows_after_props(1) [of None t] by (simp add: rows_after_def keys_after_def o_def)

lemma import_listing:
  obtains x where "import_entries (snapshot_entries st) import_new = Inr x"
    "im_domains x = map (\<lambda>k. (k, domain_state_bytes (domain_at st k))) (domain_keys st)"
    "im_tlds x = map (\<lambda>k. (k, tld_state_bytes (tld_at st k))) (tld_keys st)"
    "im_domains_dec x = map (\<lambda>k. (k, domain_at st k)) (domain_keys st)" "im_tlds_dec x = map (\<lambda>k. (k, tld_at st k)) (tld_keys st)"
proof -
  obtain l where "import_entries (map (\<lambda>k. SnapDomain k (domain_state_bytes (domain_at st k))) (domain_keys st)) import_new
      = Inr (import_new\<lparr>im_last_domain := l, im_domains := map (\<lambda>k. (k, domain_state_bytes (domain_at st k))) (domain_keys st),
          im_domains_dec := map (\<lambda>k. (k, domain_at st k)) (domain_keys st)\<rparr>)" (is "_ = Inr ?x")
    using import_domains [OF keys_sorted, of "domain_rows (rg_entries (abs_state st))" import_new "domain_at st"] by (auto simp: import_new_def)
  moreover obtain l' where "import_entries (map (\<lambda>k. SnapTld k (tld_state_bytes (tld_at st k))) (tld_keys st)) ?x
      = Inr (?x\<lparr>im_last_tld := l', im_tlds := map (\<lambda>k. (k, tld_state_bytes (tld_at st k))) (tld_keys st),
          im_tlds_dec := map (\<lambda>k. (k, tld_at st k)) (tld_keys st)\<rparr>)"
    using import_tlds [OF keys_sorted, of "tld_rows (rg_entries (abs_state st))" ?x "tld_at st"] by (auto simp: import_new_def)
  ultimately show thesis using that by (simp add: snapshot_entries_def import_entries_append)
qed

lemma import_ok:
  assumes v: "valid_state cr st" and p: "paged root h P (snapshot_entries st)" and root: "root = state_root_smt cr st" "cd_state_root (ck_data cp) = root"
    and cp: "cd_height (ck_data cp) = h" "cd_block_hash (ck_data cp) = hash" "h \<noteq> 0" and room: "domain_count st + tld_count st < 2 ^ 32"
    and s0: "tip_inner s0 = Inr (0, g)" "st_domains s0 = fmempty" "st_tlds s0 = fmempty" "st_by_height s0 = fmempty"
    and m: "m = \<lparr>mf_height = h, mf_tip_hash = hash, mf_state_root = root, mf_page_count = of_nat (length P),
      mf_domain_count = of_nat (domain_count st), mf_tld_count = of_nat (tld_count st), mf_page_hashes = map (page_hash cr) P\<rparr>"
  shows "\<exists>s1. import_verified_snapshot cr cp m (map page_encode P) s0 = Some (s1, Inr ())
    \<and> st_domains s1 = domain_rows (rg_entries (abs_state st)) \<and> st_tlds s1 = tld_rows (rg_entries (abs_state st)) \<and> st_by_height s1 = fmempty
    \<and> tip_inner s1 = Inr (h, hash) \<and> store_snapshot_meta s1 = Inr (Some \<lparr>sm_height = h, sm_tip_hash = hash\<rparr>)
    \<and> verified_snapshot_marker s1 = Inr (Some \<lparr>mk_height = h, mk_tip_hash = hash, mk_manifest_hash = manifest_hash cr m\<rparr>)"
proof -
  let ?E = "rg_entries (abs_state st)" and ?n = "domain_count st + tld_count st"
  obtain x where x: "import_entries (snapshot_entries st) import_new = Inr x"
    "im_domains x = map (\<lambda>k. (k, domain_state_bytes (domain_at st k))) (domain_keys st)"
    "im_tlds x = map (\<lambda>k. (k, tld_state_bytes (tld_at st k))) (tld_keys st)"
    "im_domains_dec x = map (\<lambda>k. (k, domain_at st k)) (domain_keys st)" "im_tlds_dec x = map (\<lambda>k. (k, tld_at st k)) (tld_keys st)"
    by (rule import_listing)
  have ok: "\<forall>e\<in>set (snapshot_entries st). entry_ok e" by (auto simp: snapshot_entries_def)
  have len: "length (snapshot_entries st) = ?n" using key_counts [OF v] by (simp add: snapshot_entries_def)
  have pages: "import_pages cr m 0 (map page_encode P) import_new = Inr x"
    using import_pages_paged [OF p ok, of m cr "[]" P import_new] x(1) p by (simp add: m paged_def)
  have small: "length P < 2 ^ 32" "unat (of_nat (length P) :: u32) = length P" using paged_length [OF p] len room by (simp_all add: unat_of_nat)
  have budget: "\<not> MAX_VERIFIED_SNAPSHOT_PAGE_ENTRIES * length P < unat (saturating_add (mf_domain_count m) (mf_tld_count m))"
  proof -
    have "length (concat (map sp_entries Q)) \<le> VERIFIED_SNAPSHOT_PAGE_ENTRIES * length Q"
      if "\<forall>y\<in>set Q. length (sp_entries y) \<le> VERIFIED_SNAPSHOT_PAGE_ENTRIES" for Q :: "snapshot_page list"
      using that by (induction Q) auto
    moreover have "\<forall>y\<in>set P. length (sp_entries y) \<le> VERIFIED_SNAPSHOT_PAGE_ENTRIES" using p by (auto simp: paged_def in_set_conv_nth)
    ultimately have "?n \<le> VERIFIED_SNAPSHOT_PAGE_ENTRIES * length P" using p len by (metis paged_def)
    then have le: "?n \<le> MAX_VERIFIED_SNAPSHOT_PAGE_ENTRIES * length P"
      by (simp add: VERIFIED_SNAPSHOT_PAGE_ENTRIES_def MAX_VERIFIED_SNAPSHOT_PAGE_ENTRIES_def)
    have "unat (of_nat (domain_count st) :: u64) = domain_count st" "unat (of_nat (tld_count st) :: u64) = tld_count st"
      using room by (auto intro!: unat_of_nat_u64)
    then have "unat (saturating_add (of_nat (domain_count st)) (of_nat (tld_count st)) :: u64) = ?n"
      using room by (simp add: saturating_add_def unat_word_ariths unat_of_nat)
    then show ?thesis using le by (simp add: m)
  qed
  have r: "recompute_state_root cr (im_domains_dec x) (im_tlds_dec x) = Some root"
    using recompute_root [OF v _ listing_sets(1) [OF v] _ listing_sets(2) [OF v]] unfolding x root
    by (simp add: distinct_map keys_none inj_on_def)
  have rows: "put_rows domain_as_encoded (im_domains x) fmempty = domain_rows ?E" "put_rows tld_as_encoded (im_tlds x) fmempty = tld_rows ?E"
    unfolding x by (intro put_keys; auto simp: domain_rows_def tld_rows_def domain_row_def tld_row_def)+
  have counts: "length (im_domains x) = domain_count st" "length (im_tlds x) = tld_count st" using key_counts [OF v] by (simp_all add: x)
  let ?k = "\<lparr>mk_height = h, mk_tip_hash = hash, mk_manifest_hash = manifest_hash cr m\<rparr>"
  obtain s1 where s1: "write_verified_snapshot (im_domains x) (im_tlds x) ?k s0 = (s1, Inr ())" "st_domains s1 = domain_rows ?E" "st_tlds s1 = tld_rows ?E"
    "st_by_height s1 = fmempty" "st_snap_meta s1 = fmupd 0 (u64_be h @ h32_bytes hash) fmempty"
    "st_meta s1 = fmupd META_VERIFIED_SNAPSHOT (marker_encode ?k) (write_tip h hash
      (fmupd META_TLD_COUNT (u64_be (of_nat (length (im_tlds x)))) (fmupd META_DOMAIN_COUNT (u64_be (of_nat (length (im_domains x)))) (st_meta s0))))"
    using s0 rows by (simp add: write_verified_snapshot_def)
  have "import_verified_snapshot cr cp m (map page_encode P) s0 = Some (s1, Inr ())"
    using budget pages small(2) cp root(2) s0(1) r counts s1(1) unfolding import_verified_snapshot_def by (simp add: m)
  moreover have "tip_inner s1 = Inr (h, hash)" "store_snapshot_meta s1 = Inr (Some \<lparr>sm_height = h, sm_tip_hash = hash\<rparr>)"
    "verified_snapshot_marker s1 = Inr (Some ?k)"
    using s1(5,6) by (simp_all add: tip_inner_def meta_u256_def meta_u64_def write_tip_def store_snapshot_meta_def SNAPSHOT_META_LEN_def
        verified_snapshot_marker_def meta_get_def marker_decode_def marker_encode_def MARKER_LEN_def slice_def from_be_be_bytes meta_distinct [symmetric])
  ultimately show ?thesis using s1(2-4) by blast
qed

section \<open>Starting from the import\<close>

lemma genesis_hash_ok: "\<exists>g. hash_of cr (genesis_of cr TESTNET) = Inr g"
proof -
  obtain c where "with_consensus_for_network cr permissive_consensus TESTNET = Some c" by (rule ex_genesis)
  then show ?thesis by (auto simp: with_consensus_for_network_def expect_def split: sum.splits)
qed

text \<open>Loading a store that holds the anchor of an import as its tip.\<close>

lemma load_anchored:
  assumes v: "valid_state cr st" "cs_network st = TESTNET" and h: "h \<noteq> 0"
    and s: "st_domains s = domain_rows (rg_entries (abs_state st))" "st_tlds s = tld_rows (rg_entries (abs_state st))" "tip_inner s = Inr (h, hash)"
      "store_snapshot_meta s = Inr (Some \<lparr>sm_height = h, sm_tip_hash = hash\<rparr>)" "verified_snapshot_marker s = Inr (Some mk)" "mk_height mk = h"
      "stored_block_at cr s h = Inr b" "hash_of cr b = Inr hash"
  shows "\<exists>c. load_chain cr s TESTNET = Some (Inr c) \<and> tip_hash c = hash \<and> chain_height c = Some h \<and> rep cr (bc_state c) (bare (abs_state st))"
proof -
  have a: "sound cr (abs_state st)" "registry_inv cr (abs_state st)" "rg_network (abs_state st) = TESTNET"
    using v by (auto simp: valid_state_def rep_def)
  obtain st' where st': "load_state cr (st_domains s) (st_tlds s) = Some (Inr st')" "rep cr st' (bare (abs_state st))"
    using load_state_ok [OF a] s(1,2) by auto
  have net: "cs_network st' = TESTNET" using st'(2) a(3) by (simp add: rep_def bare_def registry_new_def)
  obtain bs where bs: "block_at_height h s = Inr (Some bs)" "height_of b = h" using stored_block_found [OF s(7)] by blast
  obtain g where "hash_of cr (genesis_of cr TESTNET) = Inr g" using genesis_hash_ok by blast
  then obtain c where c: "restore cr h hash b st' = Some c" "bc_network c = TESTNET" "bc_state c = st'" "bc_tip c = hash" "bc_canonical c = [genesis_of cr TESTNET, b]"
    using bs(2) net by (simp add: restore_def Let_def expect_def)
  have full: "load_from_full_state cr s TESTNET h b hash = Some (Inr c)" using st'(1) c(1,2) by (simp add: load_from_full_state_def)
  have ch: "chain_height c = Some h" using c(5) bs(2) by (simp add: chain_height_def chain_tip_def)
  have "try_load_from_snapshot cr s TESTNET h hash = Some None" using s(4) by (simp add: try_load_from_snapshot_def)
  from load_chain_steps [OF s(3) h s(5) bs(1) s(7,8) this] full
  have l: "load_chain cr s TESTNET = rebuild_replay_index_from_store cr s c h" by simp
  have "saturating_sub h (REPLAY_WINDOW_BLOCKS - 1) \<le> h" by (simp add: saturating_sub_def word_sub_le)
  moreover have "1 \<le> h" using h by (simp add: word_le_nat_alt Suc_le_eq unat_gt_0)
  ultimately have "max (saturating_sub h (REPLAY_WINDOW_BLOCKS - 1)) 1 \<le> h" by simp
  then have first: "(if max (saturating_sub h (REPLAY_WINDOW_BLOCKS - 1)) 1 < h then h else max (saturating_sub h (REPLAY_WINDOW_BLOCKS - 1)) 1) = h" by auto
  have "heights (unat h) h = [h]" by (simp add: heights_def)
  then obtain es where "window_entries cr s (heights (unat h) h) = Inr es" using s(7) by simp
  then have "rebuild_replay_index_from_store cr s c h = map_option Inr (rebuild_replay_index es c)"
    unfolding rebuild_replay_index_from_store_def s(5) Let_def sum.case option.case s(6) first by simp
  then obtain c' where "load_chain cr s TESTNET = Some (Inr c')" "bc_tip c' = hash" "bc_canonical c' = bc_canonical c" "bc_state c' = st'"
    using l ch c by (auto simp: rebuild_replay_index_def Let_def)
  then show ?thesis using st'(2) c(5) bs(2) by (simp add: tip_hash_def chain_height_def chain_tip_def)
qed

lemma bare_observed:
  assumes "valid_state cr st" "rep cr st' (bare (abs_state st))"
  shows "state_domain st' = state_domain st" "state_tld st' = state_tld st" "state_root_smt cr st' = state_root_smt cr st"
proof -
  have r: "rep cr st (abs_state st)" using assms(1) by (simp add: valid_state_def)
  have e: "rg_entries (bare (abs_state st)) = rg_entries (abs_state st)" by (simp add: bare_def)
  then show "state_domain st' = state_domain st" "state_tld st' = state_tld st"
    using rep_domain [OF r] rep_domain [OF assms(2)] rep_tld [OF r] rep_tld [OF assms(2)] by (auto simp: rg_domain_def rg_tld_def fun_eq_iff)
  have "smt_eq (cs_smt st') (cs_smt st)" using r assms(2) e by (intro tree_ok_unique [of cr "rg_entries (abs_state st)"]) (simp_all add: rep_def store_ok_def)
  then show "state_root_smt cr st' = state_root_smt cr st" by (simp add: smt_eq_def smt_root_def state_root_smt_def)
qed

lemma anchor_stored:
  assumes s1: "tip_inner s1 = Inr (h, hash)" "st_by_height s1 = fmempty" "verified_snapshot_marker s1 = Inr (Some mk)" "mk_height mk = h" "mk_tip_hash mk = hash"
    and b: "height_of b = h" "block_ok cr b" "put_block cr b = Inr bs"
  shows "\<exists>s2. append_bootstrap_anchor h hash bs s1 = Some (s2, Inr ()) \<and> stored_block_at cr s2 h = Inr b
    \<and> st_domains s2 = st_domains s1 \<and> st_tlds s2 = st_tlds s1 \<and> st_meta s2 = st_meta s1 \<and> st_snap_meta s2 = st_snap_meta s1"
proof -
  have "decode_complete (take_block cr) bs = Inr b" using b by (simp add: block.decode_complete_iff)
  then show ?thesis using s1 b(1)
    by (simp add: append_bootstrap_anchor_def Let_def stored_block_at_def stored_block_def block_at_height_def indexed_block_def BLOCK_INDEX_HEADER_def)
qed

section \<open>What an import accepts\<close>

definition im_ok :: "import_state \<Rightarrow> bool" where
  "im_ok x \<longleftrightarrow> list_all2 (\<lambda>(i, a) (j, d). i = j \<and> domain_decode (domain_as_encoded a) = Inr d) (im_domains x) (im_domains_dec x)
     \<and> list_all2 (\<lambda>(i, a) (j, t). i = j \<and> tld_decode (tld_as_encoded a) = Inr t) (im_tlds x) (im_tlds_dec x)
     \<and> sorted_wrt (<) (map fst (im_domains x)) \<and> sorted_wrt (<) (map fst (im_tlds x))
     \<and> im_last_domain x = (if im_domains x = [] then None else Some (fst (last (im_domains x))))
     \<and> im_last_tld x = (if im_tlds x = [] then None else Some (fst (last (im_tlds x))))"

lemma sorted_snoc:
  assumes "sorted_wrt (<) (map fst xs)" "xs \<noteq> [] \<longrightarrow> fst (last xs) < (i :: hash32)" shows "sorted_wrt (<) (map fst xs @ [i])"
proof -
  have "\<forall>k\<in>set (map fst xs). k < i"
  proof (cases xs rule: rev_cases)
    case (snoc ys y)
    then show ?thesis using assms by (auto simp: sorted_wrt_append)
  qed simp
  then show ?thesis using assms(1) by (simp add: sorted_wrt_append)
qed

lemma import_entry_ok: "im_ok x \<Longrightarrow> import_entry e x = Inr y \<Longrightarrow> im_ok y"
proof (cases e)
  case (SnapDomain i a)
  assume x: "im_ok x" "import_entry e x = Inr y"
  then obtain d where "domain_decode (domain_as_encoded a) = Inr d" "im_domains x \<noteq> [] \<longrightarrow> fst (last (im_domains x)) < i"
    "y = x\<lparr>im_last_domain := Some i, im_domains := im_domains x @ [(i, a)], im_domains_dec := im_domains_dec x @ [(i, d)]\<rparr>"
    by (auto simp: SnapDomain im_ok_def split: if_splits)
  then show ?thesis using x(1) sorted_snoc [of "im_domains x" i] by (auto simp: im_ok_def intro!: list_all2_appendI)
next
  case (SnapTld i a)
  assume x: "im_ok x" "import_entry e x = Inr y"
  then obtain d where "tld_decode (tld_as_encoded a) = Inr d" "im_tlds x \<noteq> [] \<longrightarrow> fst (last (im_tlds x)) < i"
    "y = x\<lparr>im_last_tld := Some i, im_tlds := im_tlds x @ [(i, a)], im_tlds_dec := im_tlds_dec x @ [(i, d)]\<rparr>"
    by (auto simp: SnapTld im_ok_def split: if_splits)
  then show ?thesis using x(1) sorted_snoc [of "im_tlds x" i] by (auto simp: im_ok_def intro!: list_all2_appendI)
qed

lemma import_entries_ok: "im_ok x \<Longrightarrow> import_entries es x = Inr y \<Longrightarrow> im_ok y"
proof (induction es arbitrary: x)
  case (Cons e es)
  then show ?case using import_entry_ok by (cases "import_entry e x") auto
qed simp

lemma import_pages_ok: "im_ok x \<Longrightarrow> import_pages cr m i raws x = Inr y \<Longrightarrow> im_ok y"
proof (induction raws arbitrary: x i)
  case (Cons raw raws)
  then obtain x1 and page :: snapshot_page where "import_entries (sp_entries page) x = Inr x1" "import_pages cr m (i + 1) raws x1 = Inr y"
    by (auto split: if_splits)
  then show ?case using Cons.IH Cons.prems(1) import_entries_ok by blast
qed simp

lemma import_cases:
  assumes "import_verified_snapshot cr cp m pages s = Some (s', r)"
  shows "s' = s \<and> (\<exists>e. r = Inl e)
    \<or> (\<exists>x. import_pages cr m 0 pages import_new = Inr x \<and> recompute_state_root cr (im_domains_dec x) (im_tlds_dec x) = Some (mf_state_root m)
        \<and> write_verified_snapshot (im_domains x) (im_tlds x) \<lparr>mk_height = mf_height m, mk_tip_hash = mf_tip_hash m, mk_manifest_hash = manifest_hash cr m\<rparr> s = (s', r)
        \<and> mf_height m = cd_height (ck_data cp) \<and> mf_tip_hash m = cd_block_hash (ck_data cp) \<and> mf_state_root m = cd_state_root (ck_data cp))"
proof (cases "import_pages cr m 0 pages import_new")
  case (Inl e)
  then show ?thesis using assms by (auto simp: import_verified_snapshot_def split: if_splits sum.splits prod.splits)
next
  case (Inr x)
  then show ?thesis using assms
    by (cases "tip_inner s"; cases "recompute_state_root cr (im_domains_dec x) (im_tlds_dec x)")
      (auto simp: import_verified_snapshot_def split: if_splits)
qed

lemma write_verified_ok:
  assumes "write_verified_snapshot ds ts k s = (s', Inr u)"
  shows "tip_inner s' = Inr (mk_height k, mk_tip_hash k)" "st_snap_domains s' = put_rows domain_as_encoded ds fmempty"
    "st_snap_tlds s' = put_rows tld_as_encoded ts fmempty"
proof -
  obtain m0 where m: "st_meta s' = fmupd META_VERIFIED_SNAPSHOT (marker_encode k) (write_tip (mk_height k) (mk_tip_hash k) m0)"
    and t: "st_snap_domains s' = put_rows domain_as_encoded ds fmempty" "st_snap_tlds s' = put_rows tld_as_encoded ts fmempty"
    using assms by (cases "tip_inner s") (auto simp: write_verified_snapshot_def split: if_splits)
  show "tip_inner s' = Inr (mk_height k, mk_tip_hash k)"
    by (simp add: tip_inner_def m meta_u256_def meta_u64_def write_tip_def from_be_be_bytes meta_distinct [symmetric])
  show "st_snap_domains s' = put_rows domain_as_encoded ds fmempty" "st_snap_tlds s' = put_rows tld_as_encoded ts fmempty" by (fact t)+
qed

lemma list_all2_keys: "list_all2 (\<lambda>(i, a) (j, d). i = j \<and> f a = Inr d) xs ys \<Longrightarrow> map fst ys = map fst xs"
  by (induction rule: list_all2_induct) auto

lemma list_all2_map_of:
  "list_all2 (\<lambda>(i, a) (j, d). i = j \<and> f a = Inr d) xs ys \<Longrightarrow> map_option f (map_of xs i) = map_option Inr (map_of ys i)"
  by (induction rule: list_all2_induct) auto

section \<open>Guarantees\<close>

text \<open>C8: A node starts from another node's snapshot. When a store has frozen the entries of a state of the test network
  at a block, and a checkpoint names that block and the root of that state, then the export for the
  checkpoint succeeds, a new store accepts the exported manifest and pages, takes the anchor block,
  and loads a chain with that block as its tip and with the domains, the TLDs and the state root of
  the state.\<close>

theorem bootstrap_exact:
  assumes "valid_state cr st" "cs_network st = TESTNET" "frozen_snapshot cr st h hash b s" "h \<noteq> 0"
    "cd_height (ck_data cp) = h" "cd_block_hash (ck_data cp) = hash" "cd_state_root (ck_data cp) = state_root_smt cr st"
    "domain_count st + tld_count st < 2 ^ 32" "block_ok cr b" "put_block cr b = Inr bs" "store_open cr empty_store = Some (s0, r0)"
  shows "\<exists>m pages s1 s2 c. export_verified_snapshot cr s cp = Some (Inr (m, pages))
    \<and> import_verified_snapshot cr cp m pages s0 = Some (s1, Inr ()) \<and> append_bootstrap_anchor h hash bs s1 = Some (s2, Inr ())
    \<and> load_chain cr s2 TESTNET = Some (Inr c) \<and> tip_hash c = hash \<and> chain_height c = Some h
    \<and> state_domain (bc_state c) = state_domain st \<and> state_tld (bc_state c) = state_tld st \<and> state_root_smt cr (bc_state c) = state_root_smt cr st"
proof -
  obtain P where P: "export_verified_snapshot cr s cp = Some (Inr (\<lparr>mf_height = h, mf_tip_hash = hash, mf_state_root = cd_state_root (ck_data cp),
      mf_page_count = of_nat (length P), mf_domain_count = of_nat (domain_count st), mf_tld_count = of_nat (tld_count st),
      mf_page_hashes = map (page_hash cr) P\<rparr>, map page_encode P))" (is "_ = Some (Inr (?m, _))") "paged (cd_state_root (ck_data cp)) h P (snapshot_entries st)"
    by (rule export_ok [OF assms(1,3-6,8)])
  obtain g where s0: "tip_inner s0 = Inr (0, g)" "st_domains s0 = fmempty" "st_tlds s0 = fmempty" "st_by_height s0 = fmempty"
    using assms(11) by (auto simp: store_open_def empty_store_def Let_def tip_inner_def meta_u64_def meta_u256_def write_tip_def from_be_be_bytes meta_distinct [symmetric])
  obtain s1 where s1: "import_verified_snapshot cr cp ?m (map page_encode P) s0 = Some (s1, Inr ())" "st_domains s1 = domain_rows (rg_entries (abs_state st))"
    "st_tlds s1 = tld_rows (rg_entries (abs_state st))" "st_by_height s1 = fmempty" "tip_inner s1 = Inr (h, hash)"
    "store_snapshot_meta s1 = Inr (Some \<lparr>sm_height = h, sm_tip_hash = hash\<rparr>)"
    "verified_snapshot_marker s1 = Inr (Some \<lparr>mk_height = h, mk_tip_hash = hash, mk_manifest_hash = manifest_hash cr ?m\<rparr>)"
    using import_ok [OF assms(1) P(2) assms(7) refl assms(5,6,4,8) s0 refl] by blast
  have b: "height_of b = h" "hash_of cr b = Inr hash" using assms(3) stored_block_found by (auto simp: frozen_snapshot_def)
  obtain s2 where s2: "append_bootstrap_anchor h hash bs s1 = Some (s2, Inr ())" "stored_block_at cr s2 h = Inr b" "st_domains s2 = st_domains s1"
    "st_tlds s2 = st_tlds s1" "st_meta s2 = st_meta s1" "st_snap_meta s2 = st_snap_meta s1"
    using anchor_stored [OF s1(5,4,7) _ _ b(1) assms(9,10)] by auto
  have "tip_inner s2 = tip_inner s1" "store_snapshot_meta s2 = store_snapshot_meta s1" "verified_snapshot_marker s2 = verified_snapshot_marker s1"
    using s2(5,6) by (simp_all add: tip_inner_def store_snapshot_meta_def verified_snapshot_marker_def meta_get_def)
  then obtain c where c: "load_chain cr s2 TESTNET = Some (Inr c)" "tip_hash c = hash" "chain_height c = Some h" "rep cr (bc_state c) (bare (abs_state st))"
    using load_anchored [OF assms(1,2,4), of s2 hash "\<lparr>mk_height = h, mk_tip_hash = hash, mk_manifest_hash = manifest_hash cr ?m\<rparr>" b] s1 s2 b by auto
  show ?thesis using P(1) s1(1) s2(1) c(1-3) bare_observed [OF assms(1) c(4)] by blast
qed

text \<open>C10: An import trusts nothing but the checkpoint. Whatever manifest and pages are given, an import that fails
  leaves the store as it was, and one that succeeds has written frozen tables whose rows decode to
  lists of domains and of TLDs in strictly ascending order, whose recomputed root is the state root
  of the checkpoint, with the block of the checkpoint as the tip.\<close>

theorem import_verified:
  assumes "import_verified_snapshot cr cp m pages s = Some (s', r)"
  shows "case r of Inl e \<Rightarrow> s' = s
    | Inr _ \<Rightarrow> tip_inner s' = Inr (cd_height (ck_data cp), cd_block_hash (ck_data cp))
        \<and> (\<exists>ds ts. recompute_state_root cr ds ts = Some (cd_state_root (ck_data cp)) \<and> sorted_wrt (<) (map fst ds) \<and> sorted_wrt (<) (map fst ts)
            \<and> (\<forall>i. map_option domain_decode (fmlookup (st_snap_domains s') i) = map_option Inr (map_of ds i))
            \<and> (\<forall>i. map_option tld_decode (fmlookup (st_snap_tlds s') i) = map_option Inr (map_of ts i)))"
proof (cases "\<exists>e. s' = s \<and> r = Inl e")
  case False
  then obtain x where x: "import_pages cr m 0 pages import_new = Inr x" "recompute_state_root cr (im_domains_dec x) (im_tlds_dec x) = Some (mf_state_root m)"
    "write_verified_snapshot (im_domains x) (im_tlds x) \<lparr>mk_height = mf_height m, mk_tip_hash = mf_tip_hash m, mk_manifest_hash = manifest_hash cr m\<rparr> s = (s', r)"
    and m: "mf_height m = cd_height (ck_data cp)" "mf_tip_hash m = cd_block_hash (ck_data cp)" "mf_state_root m = cd_state_root (ck_data cp)"
    using import_cases [OF assms] by blast
  show ?thesis
  proof (cases r)
    case (Inl e)
    then show ?thesis using x(3) by (auto simp: write_verified_snapshot_def split: sum.splits if_splits)
  next
    case (Inr u)
    have ok: "im_ok x" using import_pages_ok [OF _ x(1)] by (simp add: im_ok_def import_new_def)
    have keys: "map fst (im_domains_dec x) = map fst (im_domains x)" "map fst (im_tlds_dec x) = map fst (im_tlds x)"
      using ok list_all2_keys [of "\<lambda>a. domain_decode (domain_as_encoded a)"] list_all2_keys [of "\<lambda>a. tld_decode (tld_as_encoded a)"]
      unfolding im_ok_def by blast+
    have w: "tip_inner s' = Inr (mf_height m, mf_tip_hash m)" "st_snap_domains s' = put_rows domain_as_encoded (im_domains x) fmempty"
      "st_snap_tlds s' = put_rows tld_as_encoded (im_tlds x) fmempty"
      using write_verified_ok [OF x(3) [unfolded Inr]] by simp_all
    have d: "distinct (map fst (im_domains x))" "distinct (map fst (im_tlds x))" using ok by (auto simp: im_ok_def strict_sorted_iff)
    have "map_option domain_decode (fmlookup (st_snap_domains s') i) = map_option Inr (map_of (im_domains_dec x) i)" for i
      using list_all2_map_of [of "\<lambda>a. domain_decode (domain_as_encoded a)" "im_domains x" "im_domains_dec x" i] ok
      by (auto simp: w(2) lookup_put_rows d im_ok_def split: option.splits)
    moreover have "map_option tld_decode (fmlookup (st_snap_tlds s') i) = map_option Inr (map_of (im_tlds_dec x) i)" for i
      using list_all2_map_of [of "\<lambda>a. tld_decode (tld_as_encoded a)" "im_tlds x" "im_tlds_dec x" i] ok
      by (auto simp: w(3) lookup_put_rows d im_ok_def split: option.splits)
    moreover have "sorted_wrt (<) (map fst (im_domains_dec x))" "sorted_wrt (<) (map fst (im_tlds_dec x))" using ok keys by (simp_all add: im_ok_def)
    ultimately show ?thesis using x(2) w(1) by (auto simp: Inr m)
  qed
qed auto

text \<open>The manifest decoder is exact: it accepts a byte string exactly when it is the encoding of the manifest it
  returns, which has as many page hashes as it counts and at most the allowed number of pages.\<close>

theorem manifest_decode_exact: "manifest_decode bs = Inr m \<longleftrightarrow> manifest_ok m \<and> bs = manifest_encode m"
  using manifest_decode_encode manifest_encode_decode by blast

section \<open>Examples\<close>

definition ex_checkpoint :: "hash32 \<Rightarrow> hash32 \<Rightarrow> checkpoint" where
  "ex_checkpoint hash root = \<lparr>ck_data = \<lparr>cd_epoch = 0, cd_height = 1, cd_block_hash = hash, cd_prev_checkpoint_hash = 0,
     cd_state_root = root, cd_recovery = 0\<rparr>, ck_signatures = []\<rparr>"

lemma ex_checkpoint_fields [simp]:
  "cd_height (ck_data (ex_checkpoint hash root)) = 1" "cd_block_hash (ck_data (ex_checkpoint hash root)) = hash"
  "cd_state_root (ck_data (ex_checkpoint hash root)) = root"
  by (simp_all add: ex_checkpoint_def)

lemma ex_again_ok: "block_ok len_crypto ex_again"
proof -
  have "domain_ok ''me.zz''" by code_simp
  then show ?thesis by (simp add: block_ok_def ex_again_def tx_ok_def ex_register_domain_def register_domain_on_def network_testnet_ok len_crypto_def)
qed

lemma ex_frozen:
  obtains st hash bs s where "valid_state len_crypto st" "cs_network st = TESTNET" "frozen_snapshot len_crypto st 1 hash ex_again s"
    "domain_count st + tld_count st < 2 ^ 32" "put_block len_crypto ex_again = Inr bs" "state_domain st 20 = Some ex_domain"
proof -
  obtain st where st: "valid_state len_crypto st" "abs_state st = ex_registry ex_entries3" by (rule ex_state)
  then have r: "rep len_crypto st (ex_registry ex_entries3)" by (simp add: valid_state_def)
  have "domain_ids ex_entries3 \<subseteq> {20}" "tld_ids ex_entries3 \<subseteq> {14}" by (auto simp: domain_ids_def tld_ids_def split: if_splits)
  then have "card (domain_ids ex_entries3) \<le> 1" "card (tld_ids ex_entries3) \<le> 1" using card_mono [of "{20 :: hash32}" "domain_ids ex_entries3"] card_mono [of "{14 :: hash32}" "tld_ids ex_entries3"] by simp_all
  moreover have "domain_count st = card (domain_ids ex_entries3)" "tld_count st = card (tld_ids ex_entries3)"
    using r by (simp_all add: rep_def store_ok_def ex_registry_def)
  ultimately have n: "domain_count st + tld_count st < 2 ^ 32" by simp
  obtain bs where bs: "put_block len_crypto ex_again = Inr bs" using ex_again_encodes by blast
  obtain hash where hash: "hash_of len_crypto ex_again = Inr hash"
    using bs by (auto simp: put_block_def wseq_Cons block_hash_def protocol_result_def split: if_splits sum.splits)
  have "decode_complete (take_block len_crypto) bs = Inr ex_again" using bs ex_again_ok by (simp add: block.decode_complete_iff)
  then have "frozen_snapshot len_crypto st 1 hash ex_again (empty_store\<lparr>st_by_height := fmupd 1 (indexed_block 1 hash bs) fmempty,
      st_snap_meta := fmupd 0 (u64_be 1 @ h32_bytes hash) fmempty, st_snap_domains := domain_rows (rg_entries (abs_state st)),
      st_snap_tlds := tld_rows (rg_entries (abs_state st))\<rparr>)"
    using hash by (simp add: frozen_snapshot_def store_snapshot_meta_def SNAPSHOT_META_LEN_def from_be_be_bytes stored_block_at_def stored_block_def
        block_at_height_def indexed_block_def BLOCK_INDEX_HEADER_def ex_again_def)
  then show thesis using that st n bs r by (auto simp: rep_domain [OF r] rep_def rg_domain_def ex_registry_def)
qed

theorem bootstrap_exact_witness:
  "\<exists>s s0 cp m pages s1 s2 bs c. export_verified_snapshot len_crypto s cp = Some (Inr (m, pages))
     \<and> import_verified_snapshot len_crypto cp m pages s0 = Some (s1, Inr ())
     \<and> append_bootstrap_anchor 1 (cd_block_hash (ck_data cp)) bs s1 = Some (s2, Inr ()) \<and> load_chain len_crypto s2 TESTNET = Some (Inr c)
     \<and> state_domain (bc_state c) 20 = Some ex_domain"
proof -
  obtain st hash bs s where x: "valid_state len_crypto st" "cs_network st = TESTNET" "frozen_snapshot len_crypto st 1 hash ex_again s"
    "domain_count st + tld_count st < 2 ^ 32" "put_block len_crypto ex_again = Inr bs" "state_domain st 20 = Some ex_domain" by (rule ex_frozen)
  obtain s0 where s0: "store_open len_crypto empty_store = Some (s0, Inr ())" by (rule ex_open)
  let ?cp = "ex_checkpoint hash (state_root_smt len_crypto st)"
  obtain m pages s1 s2 c where "export_verified_snapshot len_crypto s ?cp = Some (Inr (m, pages))"
    "import_verified_snapshot len_crypto ?cp m pages s0 = Some (s1, Inr ())" "append_bootstrap_anchor 1 hash bs s1 = Some (s2, Inr ())"
    "load_chain len_crypto s2 TESTNET = Some (Inr c)" "state_domain (bc_state c) = state_domain st"
    using bootstrap_exact [OF x(1-3) _ _ _ _ x(4) ex_again_ok x(5) s0, of ?cp] by auto
  then show ?thesis using x(6) ex_checkpoint_fields(2) by metis
qed

theorem import_verified_witness:
  "\<exists>cp m s s'. import_verified_snapshot len_crypto cp m [] s = Some (s', Inr ()) \<and> tip_inner s' = Inr (1, 5)"
proof -
  obtain root where root: "recompute_state_root len_crypto [] [] = Some root" by (simp add: recompute_state_root_def)
  obtain s where s: "store_open len_crypto empty_store = Some (s, Inr ())" by (rule ex_open)
  then obtain g where g: "tip_inner s = Inr (0, g)"
    by (auto simp: store_open_def empty_store_def Let_def tip_inner_def meta_u64_def meta_u256_def write_tip_def from_be_be_bytes meta_distinct [symmetric])
  let ?m = "\<lparr>mf_height = 1, mf_tip_hash = 5, mf_state_root = root, mf_page_count = 0, mf_domain_count = 0, mf_tld_count = 0, mf_page_hashes = []\<rparr>"
  obtain s' where s': "import_verified_snapshot len_crypto (ex_checkpoint 5 root) ?m [] s = Some (s', Inr ())"
    using g root by (simp add: import_verified_snapshot_def import_new_def write_verified_snapshot_def saturating_add_def)
  then show ?thesis using import_verified [OF s'] by auto
qed

end
