(* ===== verification/Scone_Dns.thy ===== *)
theory Scone_Dns
  imports Scone_Fields Scone_Icann
begin

text \<open>
  The DNS front end (\<^verbatim>\<open>crates/scone-network/src/dns.rs\<close>): the reading of a query, the writing of a bounded
  response, the search for the longest registered suffix, the bounded cache, the fallback to other
  servers and the handler that composes them. The sockets are outside: the resolver is a function
  from a name to an answer, the network a function from a server and a packet to a reply, where
  \<open>None\<close> is a failed or timed-out exchange, and times are nanoseconds.
\<close>

section \<open>Constants\<close>

definition CLASS_IN :: u16 where "CLASS_IN = 1"
definition TYPE_A :: u16 where "TYPE_A = 1"
definition TYPE_NS :: u16 where "TYPE_NS = 2"
definition TYPE_CNAME :: u16 where "TYPE_CNAME = 5"
definition TYPE_MX :: u16 where "TYPE_MX = 15"
definition TYPE_TXT :: u16 where "TYPE_TXT = 16"
definition TYPE_AAAA :: u16 where "TYPE_AAAA = 28"
definition TYPE_ANY :: u16 where "TYPE_ANY = 255"
definition RCODE_NOERROR :: u8 where "RCODE_NOERROR = 0"
definition RCODE_SERVFAIL :: u8 where "RCODE_SERVFAIL = 2"
definition RCODE_NXDOMAIN :: u8 where "RCODE_NXDOMAIN = 3"
definition RCODE_REFUSED :: u8 where "RCODE_REFUSED = 5"
definition MAX_PACKET_LEN :: nat where "MAX_PACKET_LEN = 4096"
definition MAX_TCP_RESPONSE :: nat where "MAX_TCP_RESPONSE = 65535"
definition UDP_PAYLOAD_LIMIT :: nat where "UDP_PAYLOAD_LIMIT = 512"
definition ANSWER_TTL :: u32 where "ANSWER_TTL = 60"
definition MAX_FALLBACK_TTL :: u32 where "MAX_FALLBACK_TTL = 600"
definition CACHE_CAPACITY :: nat where "CACHE_CAPACITY = 100000"

type_synonym wire_answer = "u16 \<times> u32 \<times> bytes"

record resolved =
  rs_rdata :: "(u16 \<times> bytes) list"
  rs_registered :: bool

text \<open>The resolver: an error, an unregistered name, or the records of a name.\<close>

type_synonym resolver = "string \<Rightarrow> unit + resolved option"

record query =
  qu_id :: u16
  qu_rd :: bool
  qu_name :: string
  qu_type :: u16

section \<open>Reading\<close>

abbreviation u16_be :: "u16 \<Rightarrow> bytes" where "u16_be \<equiv> be_bytes 2"
abbreviation u16_at :: "nat \<Rightarrow> bytes \<Rightarrow> u16" where "u16_at i b \<equiv> from_be_bytes (slice i (i + 2) b)"

definition label_byte :: "u8 \<Rightarrow> bool" where
  "label_byte c \<longleftrightarrow> 0x30 \<le> c \<and> c \<le> 0x39 \<or> 0x41 \<le> c \<and> c \<le> 0x5A \<or> 0x61 \<le> c \<and> c \<le> 0x7A \<or> c = 0x2D \<or> c = 0x5F"

definition to_lowercase :: "bytes \<Rightarrow> string" where
  "to_lowercase bs = bytes_str (map (\<lambda>c. if 0x41 \<le> c \<and> c \<le> 0x5A then c + 0x20 else c) bs)"

text \<open>The labels of a name and the bytes after it. A label may not have a compression flag.\<close>

function take_labels :: "bytes \<Rightarrow> (string list \<times> bytes) option" where
  "take_labels b =
     (case b of [] \<Rightarrow> None
      | len # rest \<Rightarrow>
          if len = 0 then Some ([], rest)
          else if len AND 0xC0 \<noteq> 0 then None
          else if length rest < unat len then None
          else let lab = take (unat len) rest in
            if \<not> (1 \<le> length lab \<and> length lab \<le> 63) \<or> \<not> list_all label_byte lab then None
            else map_option (\<lambda>(ls, r). (to_lowercase lab # ls, r)) (take_labels (drop (unat len) rest)))"
  by pat_completeness auto
termination by (relation "measure length") auto

declare take_labels.simps [simp del]

definition parse_query :: "bytes \<Rightarrow> query option" where
  "parse_query b =
     (if length b < 12 then None
      else let flags = u16_at 2 b in
        if flags AND 0x8000 \<noteq> 0 then None
        else if u16_at 4 b \<noteq> 1 then None
        else case take_labels (drop 12 b) of None \<Rightarrow> None
        | Some (ls, r) \<Rightarrow>
            if length ls < 2 \<or> 16 < length ls then None
            else if length r < 4 then None
            else if u16_at 2 r \<noteq> CLASS_IN then None
            else Some \<lparr>qu_id = u16_at 0 b, qu_rd = (flags AND 0x0100 \<noteq> 0), qu_name = join_dots ls, qu_type = u16_at 0 r\<rparr>)"

text \<open>The length of a name in a packet, with the final zero.\<close>

function name_len :: "bytes \<Rightarrow> nat option" where
  "name_len b =
     (case b of [] \<Rightarrow> None
      | len # rest \<Rightarrow>
          if len = 0 then Some 1
          else if len AND 0xC0 \<noteq> 0 then None
          else map_option (\<lambda>n. 1 + unat len + n) (name_len (drop (unat len) rest)))"
  by pat_completeness auto
termination by (relation "measure length") auto

declare name_len.simps [simp del]

definition question_bytes :: "bytes \<Rightarrow> bytes option" where
  "question_bytes b = (case name_len (drop 12 b) of None \<Rightarrow> None
     | Some n \<Rightarrow> if 12 + n + 4 \<le> length b then Some (slice 12 (12 + n + 4) b) else None)"

section \<open>Writing\<close>

definition wire_answer_bytes :: "bytes \<Rightarrow> wire_answer \<Rightarrow> bytes" where
  "wire_answer_bytes qname = (\<lambda>(tc, ttl, rdata). qname @ u16_be tc @ u16_be CLASS_IN @ be_bytes 4 ttl
     @ u16_be (if length rdata < 2 ^ 16 then of_nat (length rdata) else 0xFFFF) @ rdata)"

fun answer_loop :: "bytes \<Rightarrow> nat \<Rightarrow> wire_answer list \<Rightarrow> bytes \<times> nat \<Rightarrow> bytes \<times> nat" where
  "answer_loop qname budget [] p = p"
| "answer_loop qname budget ((tc, ttl, rdata) # rest) (out, kept) =
     (if budget < length out + (length qname + 10 + length rdata) then (out, kept)
      else answer_loop qname budget rest (out @ wire_answer_bytes qname (tc, ttl, rdata), kept + 1))"

text \<open>\<^verbatim>\<open>out[i..].copy_from_slice\<close>\<close>

definition patch :: "nat \<Rightarrow> bytes \<Rightarrow> bytes \<Rightarrow> bytes" where
  "patch i bs out = take i out @ bs @ drop (i + length bs) out"

definition build_response_bounded :: "query \<Rightarrow> bytes \<Rightarrow> wire_answer list \<Rightarrow> u8 \<Rightarrow> bool \<Rightarrow> nat \<Rightarrow> bytes" where
  "build_response_bounded q original answers rcode authoritative budget =
     (let header = u16_be (qu_id q) @ [0, 0] @ u16_be 1 @ u16_be 0 @ u16_be 0 @ u16_be 0;
          flags = 0x8000 OR (if qu_rd q then 0x0100 else 0) OR 0x0080 OR (ucast rcode :: u16) in
      case question_bytes original of None \<Rightarrow> patch 2 (u16_be flags) header
      | Some question \<Rightarrow>
          let qname = take (length question - 4) question;
              (out, kept) = answer_loop qname budget answers (header @ question, 0);
              flags1 = (if authoritative then flags OR 0x0400 else flags);
              flags2 = (if kept < length answers then flags1 OR 0x0200 else flags1) in
          patch 6 (u16_be (of_nat kept)) (patch 2 (u16_be flags2) out))"

section \<open>Record data\<close>

definition trim_end_dots :: "string \<Rightarrow> string" where "trim_end_dots s = rev (dropWhile (\<lambda>c. c = CHR ''.'') (rev s))"

definition encode_name :: "string \<Rightarrow> bytes" where
  "encode_name name = concat (map (\<lambda>label. (if length label < 256 then of_nat (length label) else 0) # str_bytes label)
     (split_on (CHR ''.'') (trim_end_dots name))) @ [0]"

function chunks :: "bytes \<Rightarrow> bytes list" where
  "chunks b = (if b = [] then [] else take 255 b # chunks (drop 255 b))"
  by pat_completeness auto
termination by (relation "measure length") auto

declare chunks.simps [simp del]

definition char_strings :: "string \<Rightarrow> bytes" where
  "char_strings s = (let b = str_bytes s in if b = [] then [0] else concat (map (\<lambda>c. of_nat (length c) # c) (chunks b)))"

definition encode_rdata :: "record_data \<Rightarrow> (u16 \<times> bytes) option" where
  "encode_rdata r = (case r of
       RA ip \<Rightarrow> Some (TYPE_A, be_bytes 4 ip) | RAaaa ip \<Rightarrow> Some (TYPE_AAAA, be_bytes 16 ip)
     | RCname n \<Rightarrow> Some (TYPE_CNAME, encode_name n) | RNs n \<Rightarrow> Some (TYPE_NS, encode_name n)
     | RMx preference exchange \<Rightarrow> Some (TYPE_MX, u16_be preference @ encode_name exchange)
     | RTxt s \<Rightarrow> Some (TYPE_TXT, char_strings s) | RUnknown type_code data \<Rightarrow> Some (type_code, data))"

section \<open>The authoritative answer\<close>

definition scone_label :: "string \<Rightarrow> bool" where
  "scone_label l \<longleftrightarrow> 1 \<le> length l \<and> length l \<le> 63 \<and> hd l \<noteq> CHR ''-'' \<and> last l \<noteq> CHR ''-''
     \<and> list_all (\<lambda>b. is_ascii_lowercase b \<or> is_ascii_digit b \<or> b = CHR ''-'' \<or> b = CHR ''_'') l"

definition scone_candidate :: "string \<Rightarrow> bool" where
  "scone_candidate name \<longleftrightarrow> (let ls = split_on (CHR ''.'') name; tld = last ls in
     list_all scone_label ls \<and> length name \<le> MAX_TOTAL_LEN \<and> 2 \<le> length ls
     \<and> 1 \<le> length tld \<and> length tld \<le> TLD_MAX_LEN \<and> list_all (\<lambda>b. is_ascii_lowercase b \<or> is_ascii_digit b \<or> b = CHR ''-'') tld
     \<and> \<not> is_icann_tld tld)"

definition select_answers :: "u16 \<Rightarrow> resolved \<Rightarrow> wire_answer list" where
  "select_answers qtype r = map (\<lambda>(tc, rd). (tc, ANSWER_TTL, rd))
     (filter (\<lambda>(tc, _). qtype = TYPE_ANY \<or> tc = qtype \<or> (qtype = TYPE_A \<or> qtype = TYPE_AAAA) \<and> tc = TYPE_CNAME) (rs_rdata r))"

fun apex_loop :: "resolver \<Rightarrow> u16 \<Rightarrow> string list \<Rightarrow> nat list \<Rightarrow> wire_answer list \<times> u8" where
  "apex_loop resolver qtype ls [] = ([], RCODE_NXDOMAIN)"
| "apex_loop resolver qtype ls (keep # keeps) =
     (case resolver (join_dots (drop (length ls - keep) ls)) of
        Inr (Some r) \<Rightarrow> (select_answers qtype r, RCODE_NOERROR)
      | Inr None \<Rightarrow> apex_loop resolver qtype ls keeps
      | Inl _ \<Rightarrow> ([], RCODE_SERVFAIL))"

definition authoritative :: "resolver \<Rightarrow> query \<Rightarrow> wire_answer list \<times> u8" where
  "authoritative resolver q =
     (let ls = split_on (CHR ''.'') (qu_name q) in
      if length ls < 2 then ([], RCODE_NXDOMAIN) else apex_loop resolver (qu_type q) ls (rev [2..<length ls + 1]))"

section \<open>Fallback\<close>

definition reply_matches :: "bytes \<Rightarrow> bytes \<Rightarrow> bytes \<Rightarrow> bool" where
  "reply_matches resp txid question \<longleftrightarrow> 12 \<le> length resp \<and> resp ! 0 = txid ! 0 \<and> resp ! 1 = txid ! 1 \<and> resp ! 2 AND 0x80 \<noteq> 0
     \<and> 12 + length question \<le> length resp \<and> slice 12 (12 + length question) resp = question"

fun forward_loop :: "('a \<Rightarrow> bytes \<Rightarrow> bytes option) \<Rightarrow> bytes \<Rightarrow> bytes \<Rightarrow> bytes \<Rightarrow> 'a list \<Rightarrow> bytes option" where
  "forward_loop net qry txid question [] = None"
| "forward_loop net qry txid question (up # ups) =
     (case net up qry of None \<Rightarrow> forward_loop net qry txid question ups
      | Some reply \<Rightarrow> let buf = take MAX_PACKET_LEN reply in if reply_matches buf txid question then Some buf else None)"

definition forward :: "('a \<Rightarrow> bytes \<Rightarrow> bytes option) \<Rightarrow> bytes \<Rightarrow> 'a list \<Rightarrow> bytes option" where
  "forward net qry ups = (case question_bytes qry of None \<Rightarrow> None | Some question \<Rightarrow> forward_loop net qry (take 2 qry) question ups)"

text \<open>The loop over the labels of a reply; the position moves up to the end of the packet.\<close>

function skip_labels :: "bytes \<Rightarrow> nat \<Rightarrow> nat" where
  "skip_labels resp i = (if i < length resp \<and> resp ! i \<noteq> 0 then skip_labels resp (i + 1 + unat (resp ! i)) else i)"
  by pat_completeness auto
termination by (relation "measure (\<lambda>(resp, i). length resp - i)") auto

declare skip_labels.simps [simp del]

primrec extract_loop :: "nat \<Rightarrow> bytes \<Rightarrow> nat \<Rightarrow> wire_answer list \<Rightarrow> u32 \<Rightarrow> (wire_answer list \<times> u32) option" where
  "extract_loop 0 resp i out max_ttl = Some (out, max_ttl)"
| "extract_loop (Suc n) resp i out max_ttl =
     (let j = skip_labels resp i + 1 in
      if length resp < j + 10 then None
      else let tc = u16_at j resp; ttl = from_be_bytes (slice (j + 4) (j + 8) resp); rdlen = unat (u16_at (j + 8) resp) in
        if length resp < j + 10 + rdlen then None
        else extract_loop n resp (j + 10 + rdlen)
          (out @ [(tc, min ttl MAX_FALLBACK_TTL, slice (j + 10) (j + 10 + rdlen) resp)]) (max max_ttl (min ttl MAX_FALLBACK_TTL)))"

definition extract_answers :: "bytes \<Rightarrow> (wire_answer list \<times> u32) option" where
  "extract_answers resp =
     (if length resp < 12 then None else extract_loop (unat (u16_at 6 resp)) resp (skip_labels resp 12 + 5) [] 0)"

section \<open>The cache\<close>

record cache_entry =
  ce_answers :: "wire_answer list"
  ce_rcode :: u8
  ce_ttl :: u32
  ce_authoritative :: bool

type_synonym cache_key = "string \<times> u16"

record cache =
  ca_entries :: "(cache_key, cache_entry \<times> nat) fmap"
  ca_order :: "cache_key list"
  ca_capacity :: nat
  ca_ttl_cap :: u32

definition cache_with_bounds :: "nat \<Rightarrow> u32 \<Rightarrow> cache" where
  "cache_with_bounds capacity ttl_cap = \<lparr>ca_entries = fmempty, ca_order = [], ca_capacity = max capacity 1, ca_ttl_cap = ttl_cap\<rparr>"

definition cache_new :: cache where "cache_new = cache_with_bounds CACHE_CAPACITY MAX_FALLBACK_TTL"

definition cache_get :: "nat \<Rightarrow> string \<Rightarrow> u16 \<Rightarrow> cache \<Rightarrow> cache_entry option" where
  "cache_get now name qtype c = (case fmlookup (ca_entries c) (name, qtype) of None \<Rightarrow> None
     | Some (e, at) \<Rightarrow> if unat (max (min (ce_ttl e) (ca_ttl_cap c)) 1) \<le> (now - at) div 10 ^ 9 then None else Some e)"

fun evict :: "nat \<Rightarrow> cache_key list \<Rightarrow> (cache_key, cache_entry \<times> nat) fmap \<Rightarrow> cache_key list \<times> (cache_key, cache_entry \<times> nat) fmap" where
  "evict capacity [] m = ([], m)"
| "evict capacity (old # order) m = (if capacity < fcard (fmdom m) then evict capacity order (fmdrop old m) else (old # order, m))"

definition cache_put :: "nat \<Rightarrow> string \<Rightarrow> u16 \<Rightarrow> cache_entry \<Rightarrow> cache \<Rightarrow> cache" where
  "cache_put now name qtype e c =
     (let key = (name, qtype);
          order = (if key |\<in>| fmdom (ca_entries c) then ca_order c else ca_order c @ [key]);
          (order', m) = evict (ca_capacity c) order (fmupd key (e, now) (ca_entries c)) in
      c\<lparr>ca_order := order', ca_entries := m\<rparr>)"

definition cache_len :: "cache \<Rightarrow> nat" where "cache_len c = fcard (fmdom (ca_entries c))"
definition cache_is_empty :: "cache \<Rightarrow> bool" where "cache_is_empty c \<longleftrightarrow> cache_len c = 0"

section \<open>One packet\<close>

text \<open>The cache is read at the time \<open>now\<close> and written at the time \<open>later\<close>, after the answer has come.\<close>

definition handle_packet_transport :: "resolver \<Rightarrow> ('a \<Rightarrow> bytes \<Rightarrow> bytes option) \<Rightarrow> nat \<Rightarrow> nat \<Rightarrow> bytes \<Rightarrow> 'a list \<Rightarrow> nat \<Rightarrow> cache
    \<Rightarrow> cache \<times> bytes option" where
  "handle_packet_transport resolver net now later data upstreams budget c =
     (case parse_query data of None \<Rightarrow> (c, None)
      | Some q \<Rightarrow>
          let finish = (\<lambda>(answers, rcode).
                let cacheable = (rcode = RCODE_NOERROR \<or> rcode = RCODE_NXDOMAIN);
                    c' = (if cacheable then cache_put later (qu_name q) (qu_type q)
                      \<lparr>ce_answers = answers, ce_rcode = rcode, ce_ttl = ANSWER_TTL, ce_authoritative = True\<rparr> c else c) in
                (c', Some (build_response_bounded q data answers rcode cacheable budget))) in
          case cache_get now (qu_name q) (qu_type q) c of
            Some e \<Rightarrow> (c, Some (build_response_bounded q data (ce_answers e) (ce_rcode e) (ce_authoritative e) budget))
          | None \<Rightarrow>
              if scone_candidate (qu_name q) then finish (authoritative resolver q)
              else if upstreams = [] then finish ([], RCODE_REFUSED)
              else case forward net data upstreams of None \<Rightarrow> finish ([], RCODE_SERVFAIL)
              | Some resp \<Rightarrow>
                  let up_rcode = (if 3 < length resp then (resp ! 3) AND 0x0F else RCODE_NOERROR);
                      extracted = (if up_rcode = RCODE_NOERROR \<or> up_rcode = RCODE_NXDOMAIN then extract_answers resp else None);
                      c' = (case extracted of None \<Rightarrow> c
                        | Some (ans, ttl) \<Rightarrow> cache_put later (qu_name q) (qu_type q)
                            \<lparr>ce_answers = ans, ce_rcode = up_rcode, ce_ttl = min ttl MAX_FALLBACK_TTL, ce_authoritative = False\<rparr> c) in
                  if length resp \<le> budget then (c', Some resp)
                  else let (ans, rcode) = (case extracted of None \<Rightarrow> ([], RCODE_SERVFAIL) | Some (a, _) \<Rightarrow> (a, up_rcode)) in
                    (c', Some (build_response_bounded q data ans rcode False budget)))"

definition handle_packet :: "resolver \<Rightarrow> ('a \<Rightarrow> bytes \<Rightarrow> bytes option) \<Rightarrow> nat \<Rightarrow> nat \<Rightarrow> bytes \<Rightarrow> 'a list \<Rightarrow> cache \<Rightarrow> cache \<times> bytes option" where
  "handle_packet resolver net now later data upstreams c = handle_packet_transport resolver net now later data upstreams MAX_PACKET_LEN c"

end
