(* ===== verification/Scone_Dns_Wire.thy ===== *)
theory Scone_Dns_Wire
  imports Scone_Dns
begin

text \<open>
  The packets of the DNS front end: what it writes for a query it accepted has the question of the
  query, the answers that fit, in order, and is read back by its own reader.
\<close>

section \<open>Names\<close>

lemma name_len_Cons:
  "name_len (len # rest) = (if len = 0 then Some 1 else if len AND 0xC0 \<noteq> 0 then None
     else map_option (\<lambda>n. 1 + unat len + n) (name_len (drop (unat len) rest)))"
  by (subst name_len.simps) simp

lemma take_labels_Cons:
  "take_labels (len # rest) = (if len = 0 then Some ([], rest) else if len AND 0xC0 \<noteq> 0 then None else if length rest < unat len then None
     else let lab = take (unat len) rest in
       if \<not> (1 \<le> length lab \<and> length lab \<le> 63) \<or> \<not> list_all label_byte lab then None
       else map_option (\<lambda>(ls, r). (to_lowercase lab # ls, r)) (take_labels (drop (unat len) rest)))"
  by (subst take_labels.simps) simp

lemma take_labels_len: "take_labels b = Some (ls, r) \<Longrightarrow> \<exists>n. name_len b = Some n \<and> 1 \<le> n \<and> n \<le> length b \<and> r = drop n b"
proof (induction b arbitrary: ls rule: take_labels.induct)
  case (1 b)
  obtain len rest where b: "b = len # rest" using "1.prems" by (cases b) (simp_all add: take_labels.simps [of "[]"])
  show ?case
  proof (cases "len = 0")
    case True
    then show ?thesis using "1.prems" b by (simp add: take_labels_Cons name_len_Cons)
  next
    case False
    let ?lab = "take (unat len) rest"
    have c: "len AND 0xC0 = 0" "unat len \<le> length rest" "1 \<le> length ?lab \<and> length ?lab \<le> 63" "list_all label_byte ?lab"
      "\<exists>ls'. take_labels (drop (unat len) rest) = Some (ls', r)"
      using "1.prems" False b by (auto simp: take_labels_Cons Let_def split: if_splits)
    then obtain n where n: "name_len (drop (unat len) rest) = Some n" "1 \<le> n" "n \<le> length (drop (unat len) rest)" "r = drop n (drop (unat len) rest)"
      using "1.IH" [OF b False] by (auto simp: not_less)
    then show ?thesis using b False c by (auto simp: name_len_Cons add.commute)
  qed
qed

lemma skip_name:
  "name_len b = Some n \<Longrightarrow> n \<le> length b \<Longrightarrow> skip_labels (pre @ take n b @ post) (length pre) = length pre + n - 1 \<and> 1 \<le> n"
proof (induction b arbitrary: n pre rule: name_len.induct)
  case (1 b)
  obtain len rest where b: "b = len # rest" using "1.prems" by (cases b) (simp_all add: name_len.simps [of "[]"])
  show ?case
  proof (cases "len = 0")
    case True
    then have "n = 1" using "1.prems" b by (simp add: name_len_Cons)
    then show ?thesis using b True by (simp add: skip_labels.simps nth_append)
  next
    case False
    then obtain m where m: "len AND 0xC0 = 0" "name_len (drop (unat len) rest) = Some m" "n = 1 + unat len + m"
      using "1.prems" b by (auto simp: name_len_Cons split: if_splits)
    have le: "m \<le> length (drop (unat len) rest)" "unat len \<le> length rest" using "1.prems"(2) m(3) b by simp_all
    let ?pre = "pre @ len # take (unat len) rest"
    have s: "pre @ take n b @ post = ?pre @ take m (drop (unat len) rest) @ post"
      using m(3) b by (simp add: take_add)
    have "skip_labels (pre @ take n b @ post) (length pre) = skip_labels (pre @ take n b @ post) (length pre + 1 + unat len)"
      using False b m(3) by (subst skip_labels.simps) (simp add: nth_append)
    also have "\<dots> = length ?pre + m - 1"
      using "1.IH" [OF b False _ m(2) le(1), of ?pre] m(1) le(2) unfolding s by simp
    finally show ?thesis using m(3) le(2) "1.IH" [OF b False _ m(2) le(1), of ?pre] m(1) by simp
  qed
qed

lemma parsed_question:
  assumes "parse_query data = Some q"
  obtains n where "name_len (drop 12 data) = Some n" "1 \<le> n" "12 + n + 4 \<le> length data" "question_bytes data = Some (slice 12 (12 + n + 4) data)"
proof -
  obtain ls r where t: "take_labels (drop 12 data) = Some (ls, r)" "4 \<le> length r" "12 \<le> length data"
    using assms by (auto simp: parse_query_def Let_def split: if_splits option.splits)
  then obtain n where n: "name_len (drop 12 data) = Some n" "1 \<le> n" "n \<le> length (drop 12 data)" "r = drop n (drop 12 data)" using take_labels_len by blast
  then have "12 + n + 4 \<le> length data" using t by simp
  then show thesis using that [OF n(1,2)] n(1) by (simp add: question_bytes_def)
qed

section \<open>Responses\<close>

lemma wire_answer_length: "length (wire_answer_bytes qname (tc, ttl, rd)) = length qname + 10 + length rd"
  by (simp add: wire_answer_bytes_def)

lemma answer_loop_fits:
  "\<exists>k\<le>length as. answer_loop qname budget as (out, m) = (out @ concat (map (wire_answer_bytes qname) (take k as)), m + k)
     \<and> length (out @ concat (map (wire_answer_bytes qname) (take k as))) \<le> max budget (length out)
     \<and> (k < length as \<longrightarrow> budget < length (out @ concat (map (wire_answer_bytes qname) (take (Suc k) as))))"
proof (induction as arbitrary: out m)
  case (Cons a as)
  obtain tc ttl rd where a: "a = (tc, ttl, rd)" by (cases a)
  show ?case
  proof (cases "budget < length out + (length qname + 10 + length rd)")
    case True
    then show ?thesis using a by (intro exI [of _ 0]) (simp add: wire_answer_length)
  next
    case False
    let ?out = "out @ wire_answer_bytes qname a"
    obtain k where k: "k \<le> length as" "answer_loop qname budget as (?out, m + 1) = (?out @ concat (map (wire_answer_bytes qname) (take k as)), m + 1 + k)"
      "length (?out @ concat (map (wire_answer_bytes qname) (take k as))) \<le> max budget (length ?out)"
      "k < length as \<longrightarrow> budget < length (?out @ concat (map (wire_answer_bytes qname) (take (Suc k) as)))"
      using Cons.IH [of ?out "m + 1"] by blast
    then show ?thesis using False a by (intro exI [of _ "Suc k"]) (auto simp: wire_answer_length)
  qed
qed simp

definition response_header :: "u16 \<Rightarrow> u16 \<Rightarrow> u16 \<Rightarrow> bytes" where
  "response_header i flags count = u16_be i @ u16_be flags @ u16_be 1 @ u16_be count @ u16_be 0 @ u16_be 0"

lemma response_header_length [simp]: "length (response_header i flags count) = 12"
  by (simp add: response_header_def)

lemma patch_header:
  "patch 6 (u16_be count) (patch 2 (u16_be flags) ((u16_be i @ [0, 0] @ u16_be 1 @ u16_be 0 @ u16_be 0 @ u16_be 0) @ rest)) = response_header i flags count @ rest"
  by (simp add: patch_def response_header_def)

definition response_flags :: "bool \<Rightarrow> u8 \<Rightarrow> bool \<Rightarrow> bool \<Rightarrow> u16" where
  "response_flags rd rcode aa tc = (let f = 0x8000 OR (if rd then 0x0100 else 0) OR 0x0080 OR ucast rcode; g = (if aa then f OR 0x0400 else f) in
     if tc then g OR 0x0200 else g)"

lemma response_form:
  assumes "name_len (drop 12 data) = Some n" "12 + n + 4 \<le> length data"
  obtains k where "k \<le> length answers"
    "build_response_bounded q data answers rcode aa budget = response_header (qu_id q) (response_flags (qu_rd q) rcode aa (k < length answers)) (of_nat k)
       @ slice 12 (12 + n + 4) data @ concat (map (wire_answer_bytes (take n (drop 12 data))) (take k answers))"
    "length (build_response_bounded q data answers rcode aa budget) \<le> max budget (12 + (n + 4))"
    "k < length answers \<longrightarrow> budget < 12 + (n + 4) + length (concat (map (wire_answer_bytes (take n (drop 12 data))) (take (Suc k) answers)))"
proof -
  define question where "question = slice 12 (12 + n + 4) data"
  define qname where "qname = take n (drop 12 data)"
  let ?h = "u16_be (qu_id q) @ [0, 0] @ u16_be 1 @ u16_be 0 @ u16_be 0 @ u16_be 0 :: bytes" and ?w = "wire_answer_bytes qname"
  have l: "length question = n + 4" using assms(2) by (simp add: slice_def question_def)
  have qn: "take (length question - 4) question = qname" unfolding l by (simp add: slice_def question_def qname_def)
  have qb: "question_bytes data = Some question" using assms by (simp add: question_bytes_def question_def)
  obtain k where k: "k \<le> length answers" "answer_loop qname budget answers (?h @ question, 0) = ((?h @ question) @ concat (map ?w (take k answers)), 0 + k)"
    "length ((?h @ question) @ concat (map ?w (take k answers))) \<le> max budget (length (?h @ question))"
    "k < length answers \<longrightarrow> budget < length ((?h @ question) @ concat (map ?w (take (Suc k) answers)))"
    using answer_loop_fits [of answers qname budget "?h @ question" 0] by blast
  have "build_response_bounded q data answers rcode aa budget
      = patch 6 (u16_be (of_nat k)) (patch 2 (u16_be (response_flags (qu_rd q) rcode aa (k < length answers))) (?h @ question @ concat (map ?w (take k answers))))"
    using k(2) by (simp add: build_response_bounded_def qb qn response_flags_def Let_def)
  then have f: "build_response_bounded q data answers rcode aa budget = response_header (qu_id q) (response_flags (qu_rd q) rcode aa (k < length answers)) (of_nat k)
      @ question @ concat (map ?w (take k answers))" by (simp only: patch_header)
  show thesis using that [OF k(1)] f k(3,4) l unfolding question_def [symmetric] qname_def [symmetric] by (simp add: add.assoc)
qed

section \<open>Reading back\<close>

abbreviation clamp :: "wire_answer \<Rightarrow> wire_answer" where "clamp \<equiv> \<lambda>(tc, ttl, rd). (tc, min ttl MAX_FALLBACK_TTL, rd)"

lemma answer_fields:
  fixes ttl :: u32
  assumes "length xs = i"
  shows "u16_at i (xs @ u16_be tc @ cl @ be_bytes 4 ttl @ u16_be len @ rd @ rest) = tc"
    "length cl = 2 \<Longrightarrow> from_be_bytes (slice (i + 4) (i + 8) (xs @ u16_be tc @ cl @ be_bytes 4 ttl @ u16_be len @ rd @ rest)) = ttl"
    "length cl = 2 \<Longrightarrow> u16_at (i + 8) (xs @ u16_be tc @ cl @ be_bytes 4 ttl @ u16_be len @ rd @ rest) = len"
    "length cl = 2 \<Longrightarrow> slice (i + 10) (i + 10 + length rd) (xs @ u16_be tc @ cl @ be_bytes 4 ttl @ u16_be len @ rd @ rest) = rd"
  using assms by (auto simp: slice_def from_be_be_bytes)

lemma extract_step:
  assumes "skip_labels resp i + 1 = j" "u16_at j resp = tc" "from_be_bytes (slice (j + 4) (j + 8) resp) = ttl"
    "unat (u16_at (j + 8) resp) = len" "slice (j + 10) (j + 10 + len) resp = rd" "j + 10 + len \<le> length resp"
  shows "extract_loop (Suc n) resp i out mx
    = extract_loop n resp (j + 10 + len) (out @ [(tc, min ttl MAX_FALLBACK_TTL, rd)]) (max mx (min ttl MAX_FALLBACK_TTL))"
proof -
  have "\<not> length resp < j + 10" "\<not> length resp < j + 10 + len" using assms(6) by linarith+
  then show ?thesis unfolding extract_loop.simps Let_def assms(1) assms(2) assms(3) assms(4) assms(5) by (simp only: if_False)
qed

lemma extract_loop_answers:
  assumes n: "name_len b = Some n" "n \<le> length b"
  shows "\<forall>(tc, ttl, rd)\<in>set as. length rd < 2 ^ 16 \<Longrightarrow>
     \<exists>ttl. extract_loop (length as) (pre @ concat (map (wire_answer_bytes (take n b)) as)) (length pre) out mx = Some (out @ map clamp as, ttl)"
proof (induction as arbitrary: pre out mx)
  case (Cons a as)
  obtain tc ttl rd where a: "a = (tc, ttl, rd)" by (cases a)
  have rd: "length rd < 2 ^ 16" using Cons.prems a by simp
  let ?w = "wire_answer_bytes (take n b)" and ?rest = "concat (map (wire_answer_bytes (take n b)) as)"
  let ?resp = "pre @ ?w a @ ?rest" and ?i = "length pre"
  have q: "length (take n b) = n" using n(2) by simp
  have w: "?w a = take n b @ u16_be tc @ u16_be CLASS_IN @ be_bytes 4 ttl @ u16_be (of_nat (length rd)) @ rd"
    using rd by (simp add: wire_answer_bytes_def a)
  have split: "?resp = (pre @ take n b) @ (u16_be tc @ u16_be CLASS_IN @ be_bytes 4 ttl @ u16_be (of_nat (length rd)) @ rd @ ?rest)" by (simp add: w)
  have "skip_labels ?resp ?i = ?i + n - 1 \<and> 1 \<le> n"
    using skip_name [OF n, of pre "u16_be tc @ u16_be CLASS_IN @ be_bytes 4 ttl @ u16_be (of_nat (length rd)) @ rd @ ?rest"] by (simp add: w)
  then have j: "skip_labels ?resp ?i + 1 = ?i + n" by simp
  have lp: "length (pre @ take n b) = ?i + n" using q by simp
  have f: "u16_at (?i + n) ?resp = tc" "from_be_bytes (slice (?i + n + 4) (?i + n + 8) ?resp) = ttl" "u16_at (?i + n + 8) ?resp = of_nat (length rd)"
    "slice (?i + n + 10) (?i + n + 10 + length rd) ?resp = rd"
    unfolding split by (rule answer_fields [OF lp]; simp)+
  have u: "unat (of_nat (length rd) :: u16) = length rd" using rd by (simp add: unat_of_nat)
  have len: "length ?resp = ?i + n + 10 + length rd + length ?rest" using q by (simp add: w)
  obtain t where "extract_loop (length as) ((pre @ ?w a) @ ?rest) (length (pre @ ?w a)) (out @ [clamp a]) (max mx (min ttl MAX_FALLBACK_TTL))
      = Some ((out @ [clamp a]) @ map clamp as, t)" using Cons.IH [of "pre @ ?w a" "out @ [clamp a]"] Cons.prems by auto
  moreover have "length (pre @ ?w a) = ?i + n + 10 + length rd" using q by (simp add: w)
  ultimately have "extract_loop (length as) ?resp (?i + n + 10 + length rd) (out @ [clamp a]) (max mx (min ttl MAX_FALLBACK_TTL)) = Some (out @ map clamp (a # as), t)" by (simp add: add.assoc)
  moreover have "extract_loop (Suc (length as)) ?resp ?i out mx
      = extract_loop (length as) ?resp (?i + n + 10 + length rd) (out @ [(tc, min ttl MAX_FALLBACK_TTL, rd)]) (max mx (min ttl MAX_FALLBACK_TTL))"
    by (rule extract_step [OF j f(1,2) _ f(4)]) (simp_all only: f(3) u len le_add1)
  ultimately show ?case using a by simp
qed simp

end
