(* ===== verification/Scone_Dns_Props.thy ===== *)
theory Scone_Dns_Props
  imports Scone_Dns_Wire
begin

text \<open>
  Guarantees of the DNS front end: its responses are exact and bounded, its cache is bounded, and it
  claims authority only for what the resolver of the chain gave.
\<close>

section \<open>Bits of the header\<close>

lemma u16_bytes: "u16_be w = [ucast (drop_bit 8 w), ucast w]"
  by (simp add: be_bytes_def numeral_2_eq_2)

lemma flag_bits:
  "(ucast (drop_bit 8 (response_flags rd rcode aa tc)) :: u8) AND 0x80 \<noteq> 0"
  "((ucast (drop_bit 8 (response_flags rd rcode aa tc)) :: u8) AND 0x04 \<noteq> 0) = aa"
  "((ucast (drop_bit 8 (response_flags rd rcode aa tc)) :: u8) AND 0x02 \<noteq> 0) = tc"
proof -
  have r: "drop_bit 8 (ucast rcode :: u16) = 0"
    by (rule bit_word_eqI) (auto simp: bit_simps dest: bit_imp_le_length)
  have h: "drop_bit 8 (response_flags rd rcode aa tc) = 0x80 OR (if rd then 0x01 else 0) OR (if aa then 0x04 else 0) OR (if tc then 0x02 else 0)"
    using r by (simp add: response_flags_def Let_def)
  show "(ucast (drop_bit 8 (response_flags rd rcode aa tc)) :: u8) AND 0x80 \<noteq> 0"
    "((ucast (drop_bit 8 (response_flags rd rcode aa tc)) :: u8) AND 0x04 \<noteq> 0) = aa"
    "((ucast (drop_bit 8 (response_flags rd rcode aa tc)) :: u8) AND 0x02 \<noteq> 0) = tc"
    unfolding h by (cases rd; cases aa; cases tc; simp)+
qed

lemma header_bytes:
  "(response_header i flags count @ rest) ! 2 = ucast (drop_bit 8 flags)" "take 2 (response_header i flags count @ rest) = u16_be i"
  "u16_at 6 (response_header i flags count @ rest) = count"
  by (simp_all add: response_header_def u16_bytes [of i] u16_bytes [of flags] slice_def from_be_be_bytes)

lemma parsed_id: "parse_query data = Some q \<Longrightarrow> u16_be (qu_id q) = take 2 data"
proof -
  assume "parse_query data = Some q"
  then have q: "12 \<le> length data" "qu_id q = u16_at 0 data"
    by (auto simp: parse_query_def Let_def split: if_splits option.splits)
  then have "length (take 2 data) = 2" by simp
  then have "u16_be (from_be_bytes (take 2 data) :: u16) = take 2 data" using be_from_be_bytes [of "take 2 data", where 'a = 16] by simp
  moreover have "qu_id q = from_be_bytes (take 2 data)" using q(2) by (simp only: slice_def add_0 diff_zero drop_0)
  ultimately show ?thesis by simp
qed

lemma question_split: "slice 12 (12 + n + 4) data = take n (drop 12 data) @ take 4 (drop (12 + n) data)"
  by (simp add: slice_def take_add add.commute)

lemma response_read_back:
  assumes n: "name_len (drop 12 data) = Some n" "12 + n + 4 \<le> length data"
    and small: "\<forall>(tc, ttl, rd)\<in>set answers. length rd < 2 ^ 16" "length answers < 2 ^ 16" and k: "k \<le> length answers"
  shows "\<exists>ttl. extract_answers (response_header i flags (of_nat k) @ slice 12 (12 + n + 4) data
    @ concat (map (wire_answer_bytes (take n (drop 12 data))) (take k answers))) = Some (map clamp (take k answers), ttl)"
proof -
  let ?h = "response_header i flags (of_nat k)" and ?as = "concat (map (wire_answer_bytes (take n (drop 12 data))) (take k answers))"
  let ?pre = "?h @ slice 12 (12 + n + 4) data"
  have le: "n \<le> length (drop 12 data)" using n(2) by simp
  have l: "length ?pre = 12 + n + 4" using n(2) by (simp add: slice_def)
  have "skip_labels (?h @ take n (drop 12 data) @ take 4 (drop (12 + n) data) @ ?as) (length ?h) = length ?h + n - 1 \<and> 1 \<le> n"
    by (rule skip_name [OF n(1) le])
  then have "skip_labels (?pre @ ?as) 12 + 5 = 12 + n + 4" unfolding question_split by simp
  then have s: "skip_labels (?pre @ ?as) 12 + 5 = length ?pre" unfolding l .
  have c: "unat (u16_at 6 (?pre @ ?as)) = length (take k answers)"
  proof -
    have "unat (of_nat k :: u16) = k" using k small(2) by (simp add: unat_of_nat)
    then show ?thesis using k by (simp only: append_assoc header_bytes(3) length_take min_absorb2)
  qed
  have "\<forall>(tc, ttl, rd)\<in>set (take k answers). length rd < 2 ^ 16" using small(1) by (meson in_set_takeD)
  from extract_loop_answers [OF n(1) le this, of ?pre "[]" 0]
  have "\<exists>ttl. extract_answers (?pre @ ?as) = Some (map clamp (take k answers), ttl)" unfolding extract_answers_def s c using l by simp
  then show ?thesis by simp
qed

lemma matches_header:
  assumes "r = response_header i flags count @ question @ rest" "take 2 r = txid" "r ! 2 AND 0x80 \<noteq> 0"
  shows "reply_matches r txid question"
proof -
  have "r ! 0 = txid ! 0" "r ! 1 = txid ! 1" using assms(2) by (auto simp: nth_take)
  then show ?thesis using assms(1,3) by (simp add: reply_matches_def slice_def)
qed

lemma response_aa: "parse_query data = Some q \<Longrightarrow> build_response_bounded q data answers rcode aa budget ! 2 AND 0x04 \<noteq> 0 \<longleftrightarrow> aa"
  by (erule parsed_question, erule response_form [of data _ answers q rcode aa budget]) (simp_all only: header_bytes(1) flag_bits)

section \<open>The cache\<close>

definition cache_ok :: "cache \<Rightarrow> bool" where
  "cache_ok c \<longleftrightarrow> distinct (ca_order c) \<and> set (ca_order c) = fset (fmdom (ca_entries c)) \<and> cache_len c \<le> ca_capacity c \<and> 1 \<le> ca_capacity c"

lemma evict_ok:
  "evict cap os m = (os', m') \<Longrightarrow> distinct os \<Longrightarrow> set os = fset (fmdom m) \<Longrightarrow>
     distinct os' \<and> set os' = fset (fmdom m') \<and> fcard (fmdom m') \<le> cap
     \<and> (\<forall>k v. fmlookup m' k = Some v \<longrightarrow> fmlookup m k = Some v)"
proof (induction os arbitrary: m)
  case (Cons o1 os)
  show ?case
  proof (cases "cap < fcard (fmdom m)")
    case True
    have "set os = fset (fmdom (fmdrop o1 m))" using Cons.prems(2,3) by auto
    then have x: "distinct os' \<and> set os' = fset (fmdom m') \<and> fcard (fmdom m') \<le> cap \<and> (\<forall>k v. fmlookup m' k = Some v \<longrightarrow> fmlookup (fmdrop o1 m) k = Some v)"
      using Cons.IH [of "fmdrop o1 m"] Cons.prems True by simp
    have "fmlookup m k = Some v" if "fmlookup m' k = Some v" for k v
    proof -
      have "fmlookup (fmdrop o1 m) k = Some v" using x that by blast
      then show ?thesis by (cases "k = o1") auto
    qed
    then show ?thesis using x by blast
  qed (use Cons.prems in auto)
qed (simp add: fcard.rep_eq)

lemma cache_put_ok:
  assumes "cache_ok c"
  shows "cache_ok (cache_put now name qtype e c)" "ca_ttl_cap (cache_put now name qtype e c) = ca_ttl_cap c"
    "ca_capacity (cache_put now name qtype e c) = ca_capacity c"
    "fmlookup (ca_entries (cache_put now name qtype e c)) k = Some v \<Longrightarrow> k = (name, qtype) \<and> v = (e, now) \<or> fmlookup (ca_entries c) k = Some v"
proof -
  let ?key = "(name, qtype)"
  let ?os = "if ?key |\<in>| fmdom (ca_entries c) then ca_order c else ca_order c @ [?key]" and ?m = "fmupd ?key (e, now) (ca_entries c)"
  obtain os m where ev: "evict (ca_capacity c) ?os ?m = (os, m)" by (cases "evict (ca_capacity c) ?os ?m") auto
  have o: "distinct ?os" "set ?os = fset (fmdom ?m)" using assms by (auto simp: cache_ok_def)
  have p: "cache_put now name qtype e c = c\<lparr>ca_order := os, ca_entries := m\<rparr>" using ev by (simp add: cache_put_def Let_def)
  note x = evict_ok [OF ev o]
  show "cache_ok (cache_put now name qtype e c)" using x assms by (auto simp: p cache_ok_def cache_len_def)
  show "ca_ttl_cap (cache_put now name qtype e c) = ca_ttl_cap c" "ca_capacity (cache_put now name qtype e c) = ca_capacity c" by (simp_all add: p)
  show "fmlookup (ca_entries (cache_put now name qtype e c)) k = Some v \<Longrightarrow> k = (name, qtype) \<and> v = (e, now) \<or> fmlookup (ca_entries c) k = Some v"
  proof -
    assume "fmlookup (ca_entries (cache_put now name qtype e c)) k = Some v"
    then have "fmlookup m k = Some v" by (simp add: p)
    then have "fmlookup ?m k = Some v" using x by blast
    then show ?thesis by (cases "k = ?key") auto
  qed
qed

section \<open>A run of the server\<close>

text \<open>What the resolver gave for a packet that was handled, and when it was put into the cache.\<close>

definition gave :: "(resolver \<times> bytes \<times> nat) set \<Rightarrow> string \<Rightarrow> u16 \<Rightarrow> wire_answer list \<Rightarrow> u8 \<Rightarrow> nat \<Rightarrow> bool" where
  "gave past name qtype answers rcode t \<longleftrightarrow> (\<exists>resolver data q. (resolver, data, t) \<in> past \<and> parse_query data = Some q \<and> qu_name q = name
     \<and> qu_type q = qtype \<and> scone_candidate name \<and> authoritative resolver q = (answers, rcode) \<and> (rcode = RCODE_NOERROR \<or> rcode = RCODE_NXDOMAIN))"

text \<open>The cache after handling packets, each with its resolver and its times.\<close>

inductive served :: "('a \<Rightarrow> bytes \<Rightarrow> bytes option) \<Rightarrow> nat \<Rightarrow> (resolver \<times> bytes \<times> nat) set \<Rightarrow> cache \<Rightarrow> bool" for net capacity where
  Start: "served net capacity {} (cache_with_bounds capacity ttl_cap)"
| Packet: "served net capacity past c \<Longrightarrow> handle_packet_transport resolver net now later data upstreams budget c = (c', r) \<Longrightarrow>
    served net capacity (insert (resolver, data, later) past) c'"

definition cache_honest :: "(resolver \<times> bytes \<times> nat) set \<Rightarrow> cache \<Rightarrow> bool" where
  "cache_honest past c \<longleftrightarrow> (\<forall>name qtype e t. fmlookup (ca_entries c) (name, qtype) = Some (e, t) \<longrightarrow>
     (ce_rcode e = RCODE_NOERROR \<or> ce_rcode e = RCODE_NXDOMAIN)
     \<and> (ce_authoritative e \<longrightarrow> ce_ttl e = ANSWER_TTL \<and> gave past name qtype (ce_answers e) (ce_rcode e) t))"

lemma gave_mono: "gave past name qtype answers rcode t \<Longrightarrow> gave (insert x past) name qtype answers rcode t"
  by (auto simp: gave_def)

lemma honest_put:
  assumes "cache_honest past c" "cache_ok c" "ce_rcode e = RCODE_NOERROR \<or> ce_rcode e = RCODE_NXDOMAIN"
    "ce_authoritative e \<longrightarrow> ce_ttl e = ANSWER_TTL \<and> gave (insert x past) name qtype (ce_answers e) (ce_rcode e) t"
  shows "cache_honest (insert x past) (cache_put t name qtype e c)"
  unfolding cache_honest_def
proof (intro allI impI)
  fix n q e' t' assume "fmlookup (ca_entries (cache_put t name qtype e c)) (n, q) = Some (e', t')"
  then consider "(n, q) = (name, qtype)" "e' = e" "t' = t" | "fmlookup (ca_entries c) (n, q) = Some (e', t')" using cache_put_ok(4) [OF assms(2)] by blast
  then show "(ce_rcode e' = RCODE_NOERROR \<or> ce_rcode e' = RCODE_NXDOMAIN)
     \<and> (ce_authoritative e' \<longrightarrow> ce_ttl e' = ANSWER_TTL \<and> gave (insert x past) n q (ce_answers e') (ce_rcode e') t')"
  proof cases
    case 2
    then show ?thesis using assms(1) gave_mono unfolding cache_honest_def by blast
  qed (use assms(3,4) in auto)
qed

lemma honest_mono: "cache_honest past c \<Longrightarrow> cache_honest (insert x past) c"
  using gave_mono by (auto simp: cache_honest_def)

text \<open>The four ways to answer a packet.\<close>

lemma handle_cases:
  assumes "handle_packet_transport resolver net now later data upstreams budget c = (c', r)"
  obtains (ignored) "c' = c" "r = None"
  | (cached) q e where "parse_query data = Some q" "cache_get now (qu_name q) (qu_type q) c = Some e" "c' = c"
      "r = Some (build_response_bounded q data (ce_answers e) (ce_rcode e) (ce_authoritative e) budget)"
  | (fresh) q answers rcode where "parse_query data = Some q" "scone_candidate (qu_name q)" "authoritative resolver q = (answers, rcode)"
      "rcode = RCODE_NOERROR \<or> rcode = RCODE_NXDOMAIN"
      "c' = cache_put later (qu_name q) (qu_type q) \<lparr>ce_answers = answers, ce_rcode = rcode, ce_ttl = ANSWER_TTL, ce_authoritative = True\<rparr> c"
      "r = Some (build_response_bounded q data answers rcode True budget)"
  | (other) q answers rcode where "parse_query data = Some q" "c' = c \<or> (\<exists>e. c' = cache_put later (qu_name q) (qu_type q) e c
        \<and> \<not> ce_authoritative e \<and> (ce_rcode e = RCODE_NOERROR \<or> ce_rcode e = RCODE_NXDOMAIN))"
      "r = forward net data upstreams \<and> \<not> scone_candidate (qu_name q) \<or> r = Some (build_response_bounded q data answers rcode False budget)"
proof -
  have e: "RCODE_REFUSED \<noteq> RCODE_NOERROR" "RCODE_REFUSED \<noteq> RCODE_NXDOMAIN" "RCODE_SERVFAIL \<noteq> RCODE_NOERROR" "RCODE_SERVFAIL \<noteq> RCODE_NXDOMAIN"
    by (simp_all add: RCODE_REFUSED_def RCODE_NOERROR_def RCODE_NXDOMAIN_def RCODE_SERVFAIL_def)
  show thesis
  proof (cases "parse_query data")
    case None
    then show ?thesis using assms ignored by (simp add: handle_packet_transport_def)
  next
    case (Some q)
    note q = Some
    show ?thesis
    proof (cases "cache_get now (qu_name q) (qu_type q) c")
      case (Some en)
      then show ?thesis using assms cached [OF q Some] q by (simp add: handle_packet_transport_def)
    next
      case None
      note miss = None
      obtain answers rcode where au: "authoritative resolver q = (answers, rcode)" by (cases "authoritative resolver q")
      consider (scone) "scone_candidate (qu_name q)" | (alone) "\<not> scone_candidate (qu_name q)" "upstreams = []"
        | (failed) "\<not> scone_candidate (qu_name q)" "upstreams \<noteq> []" "forward net data upstreams = None"
        | (reply) resp where "\<not> scone_candidate (qu_name q)" "upstreams \<noteq> []" "forward net data upstreams = Some resp"
        by (cases "forward net data upstreams") auto
      then show ?thesis
      proof cases
        case scone
        then show ?thesis using assms q miss au fresh [OF q scone au] other [OF q, of answers rcode]
          by (cases "rcode = RCODE_NOERROR \<or> rcode = RCODE_NXDOMAIN") (auto simp: handle_packet_transport_def Let_def)
      next
        case alone
        then show ?thesis using assms q miss e other [OF q, of "[]" RCODE_REFUSED] by (simp add: handle_packet_transport_def Let_def)
      next
        case failed
        then show ?thesis using assms q miss e other [OF q, of "[]" RCODE_SERVFAIL] by (simp add: handle_packet_transport_def Let_def)
      next
        case (reply resp)
        let ?up = "if 3 < length resp then resp ! 3 AND 0x0F else RCODE_NOERROR"
        let ?ex = "if ?up = RCODE_NOERROR \<or> ?up = RCODE_NXDOMAIN then extract_answers resp else None"
        let ?c = "case ?ex of None \<Rightarrow> c | Some (ans, ttl) \<Rightarrow> cache_put later (qu_name q) (qu_type q)
          \<lparr>ce_answers = ans, ce_rcode = ?up, ce_ttl = min ttl MAX_FALLBACK_TTL, ce_authoritative = False\<rparr> c"
        have h: "c' = ?c" "r = Some resp \<or> (\<exists>ans rc. r = Some (build_response_bounded q data ans rc False budget))"
          using assms q miss reply by (auto simp: handle_packet_transport_def Let_def split: if_splits option.splits)
        have "c' = c \<or> (\<exists>e. c' = cache_put later (qu_name q) (qu_type q) e c \<and> \<not> ce_authoritative e \<and> (ce_rcode e = RCODE_NOERROR \<or> ce_rcode e = RCODE_NXDOMAIN))"
        proof (cases ?ex)
          case (Some x)
          obtain ans ttl where x: "x = (ans, ttl)" by (cases x)
          have "?up = RCODE_NOERROR \<or> ?up = RCODE_NXDOMAIN" using Some by (rule_tac ccontr) simp
          then show ?thesis using h(1) Some x
            by (intro disjI2 exI [of _ "\<lparr>ce_answers = ans, ce_rcode = ?up, ce_ttl = min ttl MAX_FALLBACK_TTL, ce_authoritative = False\<rparr>"]) simp
        qed (use h(1) in simp)
        then show ?thesis using h(2) other [OF q] reply(1,3) by metis
      qed
    qed
  qed
qed

lemma served_ok: "served net capacity past c \<Longrightarrow> cache_ok c \<and> ca_capacity c = max capacity 1 \<and> cache_honest past c"
proof (induction rule: served.induct)
  case (Start ttl_cap)
  show ?case by (simp add: cache_with_bounds_def cache_ok_def cache_len_def cache_honest_def fcard.rep_eq)
next
  case (Packet past c resolver now later data upstreams budget c' r)
  let ?x = "(resolver, data, later)"
  from Packet.hyps(2) show ?case
  proof (cases rule: handle_cases)
    case (fresh q answers rcode)
    have "gave (insert ?x past) (qu_name q) (qu_type q) answers rcode later" using fresh unfolding gave_def by blast
    then show ?thesis using Packet.IH fresh cache_put_ok honest_put [of past c] by simp
  next
    case (other q answers rcode)
    then show ?thesis using Packet.IH cache_put_ok honest_put [of past c] honest_mono by auto
  qed (use Packet.IH honest_mono in auto)
qed

lemma cache_get_gave:
  assumes "cache_honest past c" "cache_get now name qtype c = Some e" "ce_authoritative e"
  shows "\<exists>t. gave past name qtype (ce_answers e) (ce_rcode e) t \<and> (now - t) div 10 ^ 9 < 60"
proof -
  obtain t where t: "fmlookup (ca_entries c) (name, qtype) = Some (e, t)" "(now - t) div 10 ^ 9 < unat (max (min (ce_ttl e) (ca_ttl_cap c)) 1)"
    using assms(2) by (auto simp: cache_get_def not_le split: option.splits if_splits)
  then have g: "ce_ttl e = ANSWER_TTL" "gave past name qtype (ce_answers e) (ce_rcode e) t" using assms(1,3) unfolding cache_honest_def by blast+
  have "max (min (ce_ttl e) (ca_ttl_cap c)) 1 \<le> 60" unfolding g(1) ANSWER_TTL_def by (simp add: min.coboundedI1)
  then have "unat (max (min (ce_ttl e) (ca_ttl_cap c)) 1) \<le> 60" by (simp add: word_le_nat_alt)
  then show ?thesis using t(2) g(2) by (meson order_less_le_trans)
qed

section \<open>Properties\<close>

text \<open>C39: The response to a query that was accepted answers that query: same identifier, marked as a
  response, question echoed. It has a prefix of the answers, and its own reader gets exactly that
  prefix back, with the times to live cut at the bound. The prefix is all of the answers unless the
  truncation bit is set, it is set only when the next answer would not fit, the authority bit is as
  asked, and the response is within the budget of the transport, unless the question alone is longer.\<close>

theorem dns_reply_exact:
  assumes q: "parse_query data = Some q" and small: "\<forall>(tc, ttl, rd)\<in>set answers. length rd < 2 ^ 16" "length answers < 2 ^ 16"
    and r_def: "r = build_response_bounded q data answers rcode aa budget"
  shows "\<exists>k ttl question. question_bytes data = Some question \<and> reply_matches r (take 2 data) question \<and> k \<le> length answers
    \<and> extract_answers r = Some (map clamp (take k answers), ttl)
    \<and> (r ! 2 AND 0x02 \<noteq> 0 \<longleftrightarrow> k < length answers) \<and> (r ! 2 AND 0x04 \<noteq> 0 \<longleftrightarrow> aa)
    \<and> length r \<le> max budget (12 + length question)
    \<and> (k < length answers \<longrightarrow> budget < length r + length (wire_answer_bytes (take (length question - 4) question) (answers ! k)))"
proof -
  obtain n where n: "name_len (drop 12 data) = Some n" "1 \<le> n" "12 + n + 4 \<le> length data" "question_bytes data = Some (slice 12 (12 + n + 4) data)"
    using parsed_question [OF q] .
  define question where "question = slice 12 (12 + n + 4) data"
  define qname where "qname = take n (drop 12 data)"
  let ?w = "wire_answer_bytes qname"
  obtain k where k: "k \<le> length answers" "r = response_header (qu_id q) (response_flags (qu_rd q) rcode aa (k < length answers)) (of_nat k)
       @ question @ concat (map ?w (take k answers))" "length r \<le> max budget (12 + (n + 4))"
    "k < length answers \<longrightarrow> budget < 12 + (n + 4) + length (concat (map ?w (take (Suc k) answers)))"
    using response_form [OF n(1,3), of answers q rcode aa budget] unfolding r_def question_def qname_def .
  have l: "length question = n + 4" using n(3) by (simp add: slice_def question_def)
  have qn: "take (length question - 4) question = qname" unfolding l by (simp add: slice_def question_def qname_def)
  have hd: "take 2 r = take 2 data" "r ! 2 = ucast (drop_bit 8 (response_flags (qu_rd q) rcode aa (k < length answers)))" "u16_at 6 r = of_nat k"
    unfolding k(2) using header_bytes parsed_id [OF q] by metis+
  have "\<exists>ttl. extract_answers r = Some (map clamp (take k answers), ttl)"
    unfolding k(2) question_def qname_def by (rule response_read_back [OF n(1,3) small k(1)])
  moreover have "reply_matches r (take 2 data) question"
    by (rule matches_header [OF k(2) hd(1)]) (simp only: hd(2) flag_bits not_False_eq_True)
  moreover have "k < length answers \<longrightarrow> budget < length r + length (?w (answers ! k))"
    using k(4) l unfolding k(2) by (auto simp: take_Suc_conv_app_nth)
  ultimately show ?thesis using n(4) hd(2) flag_bits k(1,3) l unfolding question_def [symmetric] qn [symmetric] by auto
qed

definition sample_query :: bytes where
  "sample_query = [0, 7, 1, 0, 0, 1, 0, 0, 0, 0, 0, 0, 1, 0x61, 1, 0x62, 0, 0, 1, 0, 1]"

lemma sample_parsed: "parse_query sample_query = Some \<lparr>qu_id = 7, qu_rd = True, qu_name = ''a.b'', qu_type = 1\<rparr>"
  by code_simp

lemma sample_candidate: "scone_candidate ''a.b''"
  by code_simp

text \<open>Two answers, of which one fits.\<close>

theorem dns_reply_exact_witness:
  "\<exists>k ttl question. question_bytes sample_query = Some question
    \<and> reply_matches (build_response_bounded \<lparr>qu_id = 7, qu_rd = True, qu_name = ''a.b'', qu_type = 1\<rparr> sample_query [(1, 60, [1, 2, 3, 4]), (1, 60, [5, 6, 7, 8])] 0 True 45)
        (take 2 sample_query) question
    \<and> extract_answers (build_response_bounded \<lparr>qu_id = 7, qu_rd = True, qu_name = ''a.b'', qu_type = 1\<rparr> sample_query [(1, 60, [1, 2, 3, 4]), (1, 60, [5, 6, 7, 8])] 0 True 45)
        = Some (map clamp (take k [(1, 60, [1, 2, 3, 4]), (1, 60, [5, 6, 7, 8])]), ttl)"
  using dns_reply_exact [OF sample_parsed _ _ refl, of "[(1, 60, [1, 2, 3, 4]), (1, 60, [5, 6, 7, 8])]" 0 True 45] by fastforce

text \<open>C40: After any run of packets the cache is within its capacity, and a response marked as authoritative
  is one that the resolver of the chain gave for this name and type, now or less than a minute
  ago. The exception is the reply of another server, passed on unchanged for a name that is not the
  chain's: it may carry the bit, although the documentation excludes this.\<close>

theorem dns_honest:
  assumes "served net capacity past c" "handle_packet_transport resolver net now later data upstreams budget c = (c', Some resp)"
  shows "cache_len c' \<le> max capacity 1 \<and> (resp ! 2 AND 0x04 \<noteq> 0 \<longrightarrow> (\<exists>q. parse_query data = Some q
    \<and> ((\<exists>answers rcode t. resp = build_response_bounded q data answers rcode True budget
          \<and> gave (insert (resolver, data, later) past) (qu_name q) (qu_type q) answers rcode t \<and> (t = later \<or> (now - t) div 10 ^ 9 < 60))
       \<or> forward net data upstreams = Some resp \<and> \<not> scone_candidate (qu_name q))))"
proof -
  have "served net capacity (insert (resolver, data, later) past) c'" using assms by (rule served.Packet)
  then have "cache_len c' \<le> max capacity 1" using served_ok unfolding cache_ok_def by metis
  moreover have "\<exists>q. parse_query data = Some q
    \<and> ((\<exists>answers rcode t. resp = build_response_bounded q data answers rcode True budget
          \<and> gave (insert (resolver, data, later) past) (qu_name q) (qu_type q) answers rcode t \<and> (t = later \<or> (now - t) div 10 ^ 9 < 60))
       \<or> forward net data upstreams = Some resp \<and> \<not> scone_candidate (qu_name q))" if aa: "resp ! 2 AND 0x04 \<noteq> 0"
    using assms(2)
  proof (cases rule: handle_cases)
    case (cached q e)
    then have au: "ce_authoritative e" using aa response_aa by blast
    have "\<exists>t. gave past (qu_name q) (qu_type q) (ce_answers e) (ce_rcode e) t \<and> (now - t) div 10 ^ 9 < 60"
      by (rule cache_get_gave [OF served_ok [OF assms(1), THEN conjunct2, THEN conjunct2] cached(2) au])
    then show ?thesis using cached au gave_mono by fastforce
  next
    case (fresh q answers rcode)
    then have "gave (insert (resolver, data, later) past) (qu_name q) (qu_type q) answers rcode later" unfolding gave_def by blast
    then show ?thesis using fresh by blast
  next
    case (other q answers rcode)
    then show ?thesis using aa response_aa by (metis option.inject)
  qed simp
  ultimately show ?thesis by blast
qed

abbreviation sample_resolver :: resolver where
  "sample_resolver \<equiv> \<lambda>name. if name = ''a.b'' then Inr (Some \<lparr>rs_rdata = [(1, [1, 2, 3, 4])], rs_registered = True\<rparr>) else Inr None"

lemma sample_authoritative:
  "authoritative sample_resolver \<lparr>qu_id = 7, qu_rd = True, qu_name = ''a.b'', qu_type = 1\<rparr> = ([(1, 60, [1, 2, 3, 4])], 0)"
  by code_simp

text \<open>A registered name, asked of an empty cache.\<close>

theorem dns_honest_witness:
  "\<exists>c' resp answers rcode t. handle_packet_transport sample_resolver (\<lambda>_ _. None) 0 5 sample_query ([] :: unit list) 512 (cache_with_bounds 10 600) = (c', Some resp)
    \<and> cache_len c' \<le> 10 \<and> resp ! 2 AND 0x04 \<noteq> 0 \<and> gave {(sample_resolver, sample_query, 5)} ''a.b'' 1 answers rcode t"
proof -
  let ?q = "\<lparr>qu_id = 7, qu_rd = True, qu_name = ''a.b'', qu_type = 1\<rparr>"
  have s: "served (\<lambda>(_ :: unit) _. None) 10 {} (cache_with_bounds 10 600)" by (rule served.Start)
  have miss: "cache_get 0 ''a.b'' 1 (cache_with_bounds 10 600) = None" by (simp add: cache_get_def cache_with_bounds_def)
  obtain c' where h: "handle_packet_transport sample_resolver (\<lambda>_ _. None) 0 5 sample_query ([] :: unit list) 512 (cache_with_bounds 10 600)
      = (c', Some (build_response_bounded ?q sample_query [(1, 60, [1, 2, 3, 4])] 0 True 512))"
    using miss sample_candidate sample_authoritative by (simp add: handle_packet_transport_def sample_parsed Let_def RCODE_NOERROR_def)
  have aa: "build_response_bounded ?q sample_query [(1, 60, [1, 2, 3, 4])] 0 True 512 ! 2 AND 0x04 \<noteq> 0" using response_aa [OF sample_parsed] by blast
  show ?thesis using dns_honest [OF s h] aa h sample_candidate by (auto simp: sample_parsed)
qed

end
