(* ===== verification/Spec2Isabelle.thy ===== *)
theory Spec2Isabelle
  imports Scone_Smt_Spec Scone_Tx Scone_Fork_Props Scone_Signer Scone_Snapshot Scone_Mempool Scone_Groups Scone_Bootstrap_Props Scone_Dns_Props
begin

text \<open>
  Verification of Scone, a proof-of-stake chain that is a registry of domain names. The program is
  a workspace of Rust crates; this library models its consensus core, its wire protocol and its store.

  \<^bold>\<open>The program.\<close> Owners are hashes of Ed25519 keys. Ten kinds of signed transactions
  (\<^verbatim>\<open>crates/scone-core/src/transaction.rs\<close>) register, update, renew, transfer and revoke domains and
  top-level domains, and ban a validator that signed two checkpoints of one epoch. Registrations
  carry a proof of work. A block (\<^verbatim>\<open>crates/scone-protocol/src/block.rs\<close>) lists transactions under a
  Merkle root and is signed by an allowed producer. The chain
  (\<^verbatim>\<open>crates/scone-blockchain/src/chain.rs\<close>) appends blocks to a RAM window, applies their
  transactions to the registry state (\<^verbatim>\<open>state.rs\<close>) with an undo journal, collects expired domains
  and refuses replayed transactions. The state is committed by a sparse Merkle tree (\<^verbatim>\<open>smt.rs\<close>). A
  committee drawn from the owners signs checkpoints (\<^verbatim>\<open>finality.rs\<close>, \<^verbatim>\<open>signer.rs\<close>), and the fork
  choice (\<^verbatim>\<open>fork_choice.rs\<close>) never leaves a finalized block. Everything that is hashed, signed or
  sent has one binary format (\<^verbatim>\<open>crates/scone-protocol\<close>). Accepted blocks and the entries they change are
  written to a transactional store (\<^verbatim>\<open>crates/scone-storage\<close>), from which a node restarts.

  \<^bold>\<open>What is outside.\<close> BLAKE3 and Ed25519 are third-party code: they are the fields of the record
  \<open>crypto\<close>, an argument of every definition that uses them, of which nothing is assumed. A theorem
  that needs the hash to be injective says on which strings (\<open>no_collision\<close>, \<open>block_free\<close>,
  \<open>hash_free\<close>, \<open>inj_on\<close>). A signing key is its public key and its signing function; \<open>key_pair\<close>
  says that its signatures verify. The file of the signer guard and the clock are arguments. The
  embedded database of the store is third-party code; its tables are finite maps and a write
  transaction is a function that takes effect as a whole or not at all.

  \<^bold>\<open>Conventions.\<close> Structs are records and enums datatypes with the fields and variants of the code,
  machine integers are words, hash maps and tree maps are finite maps, errors are values of a sum
  type (\<open>bc_error\<close>, \<open>scone_error\<close>, \<open>proto_error\<close>, \<open>storage_error\<close>; texts are dropped), and \<open>None\<close> of a result of type
  \<open>option\<close> is a panic: an overflow, an \<^verbatim>\<open>expect\<close> or an index out of range. Loops are recursive
  functions with termination proofs; the only search without a bound, the proof-of-work miner, is a
  \<open>partial_function\<close>, and its theorem says exactly when it returns. No fuel is used.

  \<^bold>\<open>Theories and what they show.\<close>
  \<^item> \<open>Scone_Prelude\<close>, \<open>Scone_Crypto\<close>: bytes, little- and big-endian words, the result type, hashing
    and keys (\<^verbatim>\<open>scone-crypto\<close>).
  \<^item> \<open>Scone_Names\<close>, \<open>Scone_Icann\<close>, \<open>Scone_Pow\<close>, \<open>Scone_Checkpoint\<close>, \<open>Scone_Tx\<close>: \<^verbatim>\<open>scone-core\<close>. Names are
    accepted exactly when they are dotted labels; the reserved list is searched correctly; a proof
    of work is accepted exactly when its digest is low enough, and mining finds the least one; the
    quorum check counts distinct members, two quorums share more than a third of the committee, and
    two conflicting ones convict that third with valid slash transactions.
  \<^item> \<open>Scone_Smt\<close>, \<open>Scone_Smt_Path\<close>, \<open>Scone_Smt_Canon\<close>, \<open>Scone_Smt_Remove\<close>, \<open>Scone_Smt_Spec\<close>: the compact
    sparse Merkle tree with its arena of branches. Every sequence of insertions and removals runs
    without panic and gives the root of the full tree over the remaining leaves; the tree is
    canonical, and its root binds the leaves up to a named collision. The locale \<open>leaf_store\<close> is
    the interface the state relies on.
  \<^item> \<open>Scone_Backend\<close>, \<open>Scone_Errors\<close>, \<open>Scone_State\<close>: the key-value backend (a locale, interpreted on
    the in-memory one), the errors, and the chain state with all operations, the journal and the
    garbage collection.
  \<^item> \<open>Scone_Registry\<close>: the abstract rule book, a registry of entries, keys, grace periods and bans
    without counters, indexes, queues or trees. \<open>Scone_State_Inv\<close>, \<open>Scone_State_Refine\<close>,
    \<open>Scone_State_Apply\<close>, \<open>Scone_State_Gc\<close>, \<open>Scone_State_Run\<close>: the representation relation and the
    simulation of every operation. \<open>Scone_State_Props\<close>: the code refines the rules on every
    history, is undone exactly by its journal, changes a live entry only for its owner, collects
    exactly the expired domains, and has the root and the validator pool of its entries.
    \<open>Scone_Snapshot\<close>: the root recomputed from a snapshot is the root of the state.
  \<^item> \<open>Scone_Codec\<close>, \<open>Scone_Fields\<close>, \<open>Scone_Record\<close>, \<open>Scone_Wire\<close>, \<open>Scone_Message\<close>: the wire format. The
    locale \<open>wire\<close> states what an encoder and a decoder promise each other (what is written is read
    back, and only what would be written is accepted); it is interpreted for every type from
    varints to messages. So decoding is exact, signing payloads bind, and record sets are
    canonical.
  \<^item> \<open>Scone_Block\<close>, \<open>Scone_Chain\<close>: block hashes, Merkle roots, genesis, producers, the builder,
    and the chain with checkpoints and fork choice. \<open>Scone_Ledger\<close>, \<open>Scone_Replay\<close>: the
    abstract ledger, the relation \<open>chain_rep\<close> between a chain and the ledger it holds, and the
    replay index as a function of the ledger. \<open>Scone_Chain_Props\<close>: appending refines the rules and
    is atomic, does not panic, excludes replays within the window, and an honest producer can
    always extend the chain.
  \<^item> \<open>Scone_Fork\<close>, \<open>Scone_Fork_Props\<close>: a reorganization gives the prefix and the branch, adoption
    follows the rules, checkpoints form a chain, and a finalized block stays on every later ledger.
    \<open>Scone_Signer\<close>: the guard never releases two conflicting signatures, across write failures and
    restarts.

  \<^item> \<open>Scone_Mempool\<close>: the pool of pending transactions (\<^verbatim>\<open>scone-network/src/mempool.rs\<close>) is a bounded
    queue without repetitions. \<open>Scone_Groups\<close>: record groups (\<^verbatim>\<open>scone-core/src/groups.rs\<close>), whose root
    binds what is committed.
  \<^item> \<open>Scone_Store\<close>: the tables of the store, its state encodings, the name index, blocks with their state
    deltas, the frozen snapshot, pages and imported snapshots (\<^verbatim>\<open>scone-storage/src/redb.rs\<close>,
    \<^verbatim>\<open>state_bytes.rs\<close>). \<open>Scone_Persist\<close>: the chain over its store (\<^verbatim>\<open>integration.rs\<close>).
    \<open>Scone_Persist_Inv\<close>, \<open>Scone_Persist_Props\<close>: the relation \<open>store_rep\<close> between a store and the chain it
    holds, kept by every stored block. \<open>Scone_Restart\<close>, \<open>Scone_Restart_Props\<close>, \<open>Scone_Reload\<close>: loading a
    table restores its entries, replaying blocks on a registry without keys and grace periods
    follows the ledger, and the rebuilt replay index is that of the ledger. \<open>Scone_Reload_Props\<close>: an
    accepted block that registers again no domain it collects is stored, and a restart gives the
    chain back, as long as there was no reorganization, which the store does not follow; a collected
    domain is never left in the tables, and a store of another network than the test network does not load.
  \<^item> \<open>Scone_Verified\<close>, \<open>Scone_Verified_Codec\<close>, \<open>Scone_Bootstrap\<close>, \<open>Scone_Bootstrap_Props\<close>: verified snapshots
    (\<^verbatim>\<open>verified_snapshot.rs\<close>). The manifest decoder is exact and pages are read back; an import accepts
    only entries with the root of the checkpoint and leaves the store alone otherwise; and what one
    node exports another imports, so that it loads a chain with the entries of the checkpoint.

  \<^item> \<open>Scone_Dns\<close>, \<open>Scone_Dns_Wire\<close>, \<open>Scone_Dns_Props\<close>: the DNS front end (\<^verbatim>\<open>scone-network/src/dns.rs\<close>). The
    resolver and the exchange with another server are parameters. A response answers its query, is
    bounded and is read back; over any run of packets the cache is bounded, and only what the
    resolver gave is marked as authoritative.

  \<^bold>\<open>Not modelled.\<close> The peer-to-peer node and the socket loops of the DNS server (\<^verbatim>\<open>scone-network\<close>), which are
  event loops over third-party libraries, the key store (\<^verbatim>\<open>scone-keystore\<close>), the command line and the network simulator
  of the tests.
\<close>

end
